(* ===== verification/Prelude.thy ===== *)
theory Prelude
  imports Main "HOL-Library.Word"
begin

text \<open>
  Shared vocabulary of the development: machine types, the outcome type of kernel code, the
  state-and-outcome monad in which stateful C functions are written, one loop combinator for
  C loops that may not end, and the weakest-precondition calculus used by the component proofs.
\<close>

unbundle bit_operations_syntax

section \<open>Machine types\<close>

text \<open>
  Pointers are byte addresses; \<open>0\<close> is the null pointer. The managed heap ends at
  \<open>0x20000000\<close> (src/TP2-SO-2025/Kernel/kernel.c), far below \<open>2 ^ 64\<close>, so pointer
  arithmetic inside the heap does not wrap and addresses are natural numbers.
\<close>

type_synonym addr = nat
type_synonym u8 = "8 word"
type_synonym u16 = "16 word"
type_synonym u32 = "32 word"
type_synonym u64 = "64 word"

abbreviation null :: addr where
  "null \<equiv> 0"

section \<open>Outcomes\<close>

text \<open>
  A kernel routine returns a value, stops the machine through the \<open>panic\<close> macro
  (\<open>cli; hlt\<close>), touches memory that holds no live object, or never returns.
\<close>

datatype stop = Panic string | Fault | Diverge

datatype 'a outcome = Ret 'a | Stop stop

type_synonym ('s, 'a) kernel = "'s \<Rightarrow> ('a \<times> 's) outcome"

definition ret :: "'a \<Rightarrow> ('s, 'a) kernel" where
  "ret x = (\<lambda>s. Ret (x, s))"

definition halt :: "stop \<Rightarrow> ('s, 'a) kernel" where
  "halt e = (\<lambda>s. Stop e)"

definition bnd :: "('s, 'a) kernel \<Rightarrow> ('a \<Rightarrow> ('s, 'b) kernel) \<Rightarrow> ('s, 'b) kernel" where
  "bnd m f = (\<lambda>s. case m s of Ret (x, t) \<Rightarrow> f x t | Stop e \<Rightarrow> Stop e)"

definition sq :: "('s, 'a) kernel \<Rightarrow> ('s, 'b) kernel \<Rightarrow> ('s, 'b) kernel" where
  "sq m k = bnd m (\<lambda>_. k)"

definition gets :: "('s \<Rightarrow> 'a) \<Rightarrow> ('s, 'a) kernel" where
  "gets f = (\<lambda>s. Ret (f s, s))"

definition upd :: "('s \<Rightarrow> 's) \<Rightarrow> ('s, unit) kernel" where
  "upd f = (\<lambda>s. Ret ((), f s))"

text \<open>Running the memory manager on its part of a larger state.\<close>

definition zoom :: "('s \<Rightarrow> 'm) \<Rightarrow> ('m \<Rightarrow> 's \<Rightarrow> 's) \<Rightarrow> ('m, 'a) kernel \<Rightarrow> ('s, 'a) kernel" where
  "zoom get put m = (\<lambda>s. case m (get s) of Ret (x, t) \<Rightarrow> Ret (x, put t s) | Stop e \<Rightarrow> Stop e)"

text \<open>A dereference: the object behind an address, or a fault.\<close>

definition deref :: "('s \<Rightarrow> addr \<Rightarrow> 'a option) \<Rightarrow> addr \<Rightarrow> ('s, 'a) kernel" where
  "deref f a = (\<lambda>s. case f s a of None \<Rightarrow> Stop Fault | Some x \<Rightarrow> Ret (x, s))"

section \<open>Loops\<close>

text \<open>
  The body of a C loop either asks for another round with a new loop state (\<open>Inl\<close>) or
  leaves the loop with a result (\<open>Inr\<close>). A loop that never leaves is \<open>Stop Diverge\<close>.
\<close>

partial_function (option) loop_opt ::
  "('a \<Rightarrow> 's \<Rightarrow> (('a + 'r) \<times> 's) outcome) \<Rightarrow> 'a \<Rightarrow> 's \<Rightarrow> ('r \<times> 's) outcome option" where
  "loop_opt body a s =
     (case body a s of
        Stop e \<Rightarrow> Some (Stop e)
      | Ret p \<Rightarrow> (case fst p of
            Inl a' \<Rightarrow> loop_opt body a' (snd p)
          | Inr r \<Rightarrow> Some (Ret (r, snd p))))"

definition loop :: "('a \<Rightarrow> ('s, 'a + 'r) kernel) \<Rightarrow> 'a \<Rightarrow> ('s, 'r) kernel" where
  "loop body a = (\<lambda>s. case loop_opt body a s of None \<Rightarrow> Stop Diverge | Some out \<Rightarrow> out)"

lemma loop_unfold:
  "loop body a s =
     (case body a s of
        Stop e \<Rightarrow> Stop e
      | Ret p \<Rightarrow> (case fst p of
            Inl a' \<Rightarrow> loop body a' (snd p)
          | Inr r \<Rightarrow> Ret (r, snd p)))"
  by (subst loop_def, subst loop_opt.simps)
     (auto simp: loop_def split: outcome.splits sum.splits)

text \<open>A loop whose body keeps asking for another round from every state of a set never ends.\<close>

lemma loop_opt_diverges:
  assumes "loop_opt body a s = Some out"
    and "I a s"
    and "\<And>a s. I a s \<Longrightarrow> \<exists>a' s'. body a s = Ret (Inl a', s') \<and> I a' s'"
  shows False
proof -
  have "body = body \<longrightarrow> I a s \<longrightarrow> False"
  proof (rule loop_opt.raw_induct [where P = "\<lambda>b a s out. b = body \<longrightarrow> I a s \<longrightarrow> False",
          OF _ assms(1)], intro impI)
    fix lp b a s out
    assume IH: "\<And>b a s out. lp b a s = Some out \<Longrightarrow> b = body \<longrightarrow> I a s \<longrightarrow> False"
      and eq: "(case b a s of Stop e \<Rightarrow> Some (Stop e)
            | Ret p \<Rightarrow> (case fst p of Inl a' \<Rightarrow> lp b a' (snd p) | Inr r \<Rightarrow> Some (Ret (r, snd p)))) = Some out"
      and b: "b = body" and I: "I a s"
    from assms(3)[OF I] obtain a' s' where "body a s = Ret (Inl a', s')" and "I a' s'" by blast
    with eq b IH [of b a' s' out] show False by simp
  qed
  with assms(2) show False by simp
qed

lemma loop_diverges:
  assumes "I a s"
    and "\<And>a s. I a s \<Longrightarrow> \<exists>a' s'. body a s = Ret (Inl a', s') \<and> I a' s'"
  shows "loop body a s = Stop Diverge"
proof (cases "loop_opt body a s")
  case None
  then show ?thesis by (simp add: loop_def)
next
  case (Some out)
  with assms show ?thesis using loop_opt_diverges by metis
qed

section \<open>Weakest preconditions\<close>

text \<open>
  \<open>wp E m Q s\<close>: started in \<open>s\<close>, the routine \<open>m\<close> either returns with \<open>Q\<close> or
  stops for a reason that \<open>E\<close> allows. \<open>wp (\<lambda>_. False)\<close> is total correctness,
  \<open>wp (\<lambda>_. True)\<close> is partial correctness.
\<close>

definition wp :: "(stop \<Rightarrow> bool) \<Rightarrow> ('s, 'a) kernel \<Rightarrow> ('a \<Rightarrow> 's \<Rightarrow> bool) \<Rightarrow> 's \<Rightarrow> bool" where
  "wp E m Q s = (case m s of Ret (x, t) \<Rightarrow> Q x t | Stop e \<Rightarrow> E e)"

abbreviation no_stop :: "stop \<Rightarrow> bool" where
  "no_stop \<equiv> (\<lambda>_. False)"

abbreviation any_stop :: "stop \<Rightarrow> bool" where
  "any_stop \<equiv> (\<lambda>_. True)"

named_theorems wp_rule \<open>specifications of called routines, for use as introduction rules\<close>

lemma wp_ret [simp]: "wp E (ret x) Q = Q x"
  by (simp add: fun_eq_iff wp_def ret_def)

lemma wp_halt [simp]: "wp E (halt e) Q = (\<lambda>_. E e)"
  by (simp add: fun_eq_iff wp_def halt_def)

lemma wp_bnd [simp]: "wp E (bnd m f) Q = wp E m (\<lambda>x. wp E (f x) Q)"
  by (simp add: fun_eq_iff wp_def bnd_def split: outcome.split)

lemma wp_sq [simp]: "wp E (sq m k) Q = wp E m (\<lambda>_. wp E k Q)"
  by (simp add: sq_def)

lemma wp_gets [simp]: "wp E (gets f) Q = (\<lambda>s. Q (f s) s)"
  by (simp add: fun_eq_iff wp_def gets_def)

lemma wp_upd [simp]: "wp E (upd f) Q = (\<lambda>s. Q () (f s))"
  by (simp add: fun_eq_iff wp_def upd_def)

lemma wp_deref [simp]:
  "wp E (deref f a) Q = (\<lambda>s. case f s a of None \<Rightarrow> E Fault | Some x \<Rightarrow> Q x s)"
  by (simp add: fun_eq_iff wp_def deref_def split: option.split)

lemma wp_zoom [simp]:
  "wp E (zoom get put m) Q = (\<lambda>s. wp E m (\<lambda>x t. Q x (put t s)) (get s))"
  by (simp add: fun_eq_iff wp_def zoom_def split: outcome.split)

lemma wp_if [simp]:
  "wp E (if b then m else k) Q = (if b then wp E m Q else wp E k Q)"
  by simp

lemma wp_option [simp]:
  "wp E (case x of None \<Rightarrow> m | Some y \<Rightarrow> f y) Q =
     (case x of None \<Rightarrow> wp E m Q | Some y \<Rightarrow> wp E (f y) Q)"
  by (simp split: option.split)

lemma wp_prod [simp]:
  "wp E (case x of (a, b) \<Rightarrow> f a b) Q = (case x of (a, b) \<Rightarrow> wp E (f a b) Q)"
  by (simp split: prod.split)

lemma wp_mono:
  assumes "wp E m Q s" and "\<And>x t. Q x t \<Longrightarrow> R x t"
  shows "wp E m R s"
  using assms by (auto simp: wp_def split: outcome.splits prod.splits)

lemma wp_Ret:
  assumes "wp E m Q s" and "m s = Ret (x, t)"
  shows "Q x t"
  using assms by (simp add: wp_def)

lemma wp_no_stopE:
  assumes "wp no_stop m Q s"
  obtains x t where "m s = Ret (x, t)" and "Q x t"
  using assms by (auto simp: wp_def split: outcome.splits)

lemma wp_of_Ret: "m s = Ret (x, t) \<Longrightarrow> wp E m Q s = Q x t"
  by (simp add: wp_def)

text \<open>One round of a loop.\<close>

lemma wp_loop_step:
  "wp E (loop body a) Q s =
     wp E (body a) (\<lambda>x t. case x of Inl a' \<Rightarrow> wp E (loop body a') Q t | Inr r \<Rightarrow> Q r t) s"
  by (simp add: wp_def loop_unfold [of body a s] split: outcome.split sum.split prod.split)

text \<open>Total correctness of a loop: an invariant and a measure that every further round lowers.\<close>

lemma wp_loop:
  assumes "I a s"
    and step: "\<And>a s. I a s \<Longrightarrow>
      wp E (body a) (\<lambda>x t. case x of Inl a' \<Rightarrow> I a' t \<and> \<mu> a' t < (\<mu> a s :: nat) | Inr r \<Rightarrow> Q r t) s"
  shows "wp E (loop body a) Q s"
  using assms(1)
proof (induction "\<mu> a s" arbitrary: a s rule: less_induct)
  case less
  note w = step[OF less.prems]
  show ?case
  proof (cases "body a s")
    case (Stop e)
    with w show ?thesis by (simp add: wp_def loop_unfold [of body a s])
  next
    case (Ret p)
    obtain x t where p: "p = (x, t)" by (cases p)
    show ?thesis
    proof (cases x)
      case (Inl a')
      with w Ret p have "I a' t" and "\<mu> a' t < \<mu> a s" by (auto simp: wp_def)
      with less.hyps have "wp E (loop body a') Q t" by blast
      with Ret p Inl show ?thesis by (simp add: wp_def loop_unfold [of body a s])
    next
      case (Inr r)
      with w Ret p show ?thesis by (simp add: wp_def loop_unfold [of body a s])
    qed
  qed
qed

section \<open>Running a routine\<close>

text \<open>Evaluation rules, used where a theorem is about the concrete result of a routine.\<close>

text \<open>A loop that may run for ever: an invariant is enough.\<close>

lemma wp_loop_safe:
  assumes "I a s" and div: "E Diverge"
    and step: "\<And>a s. I a s \<Longrightarrow> wp E (body a) (\<lambda>x t. case x of Inl a' \<Rightarrow> I a' t | Inr r \<Rightarrow> Q r t) s"
  shows "wp E (loop body a) Q s"
proof (cases "loop_opt body a s")
  case (Some out)
  have "body = body \<longrightarrow> I a s \<longrightarrow> (case out of Ret p \<Rightarrow> Q (fst p) (snd p) | Stop e \<Rightarrow> E e)"
  proof (rule loop_opt.raw_induct [where P = "\<lambda>b a s out. b = body \<longrightarrow> I a s \<longrightarrow>
        (case out of Ret p \<Rightarrow> Q (fst p) (snd p) | Stop e \<Rightarrow> E e)", OF _ Some], intro impI)
    fix lp b a s out
    assume IH: "\<And>b a s out. lp b a s = Some out \<Longrightarrow> b = body \<longrightarrow> I a s \<longrightarrow> (case out of Ret p \<Rightarrow> Q (fst p) (snd p) | Stop e \<Rightarrow> E e)"
      and eq: "(case b a s of Stop e \<Rightarrow> Some (Stop e)
            | Ret p \<Rightarrow> (case fst p of Inl a' \<Rightarrow> lp b a' (snd p) | Inr r \<Rightarrow> Some (Ret (r, snd p)))) = Some out"
      and b: "b = body" and I: "I a s"
    show "case out of Ret p \<Rightarrow> Q (fst p) (snd p) | Stop e \<Rightarrow> E e"
    proof (cases "body a s")
      case (Ret p)
      with eq b IH step [OF I] show ?thesis by (cases p; cases "fst p") (auto simp: wp_def)
    next
      case (Stop e)
      with eq b step [OF I] show ?thesis by (auto simp: wp_def)
    qed
  qed
  with assms(1) Some show ?thesis by (auto simp: wp_def loop_def split: outcome.splits)
qed (simp add: wp_def loop_def div)

lemma wp_loop_partial:
  assumes "I a s"
    and "\<And>a s. I a s \<Longrightarrow> wp any_stop (body a) (\<lambda>x t. case x of Inl a' \<Rightarrow> I a' t | Inr r \<Rightarrow> Q r t) s"
  shows "wp any_stop (loop body a) Q s"
  using wp_loop_safe [of I a s any_stop body Q] assms by blast

named_theorems run_simps \<open>evaluation of the monad operations\<close>

lemma run_ret [run_simps]: "ret x s = Ret (x, s)"
  by (simp add: ret_def)

lemma run_halt [run_simps]: "halt e s = Stop e"
  by (simp add: halt_def)

lemma run_bnd [run_simps]:
  "bnd m f s = (case m s of Ret p \<Rightarrow> f (fst p) (snd p) | Stop e \<Rightarrow> Stop e)"
  by (simp add: bnd_def split: outcome.split prod.split)

lemma run_sq [run_simps]:
  "sq m k s = (case m s of Ret p \<Rightarrow> k (snd p) | Stop e \<Rightarrow> Stop e)"
  by (simp add: sq_def run_bnd split: outcome.split)

lemma run_gets [run_simps]: "gets f s = Ret (f s, s)"
  by (simp add: gets_def)

lemma run_upd [run_simps]: "upd f s = Ret ((), f s)"
  by (simp add: upd_def)

lemma run_deref [run_simps]:
  "deref f a s = (case f s a of None \<Rightarrow> Stop Fault | Some x \<Rightarrow> Ret (x, s))"
  by (simp add: deref_def)

lemma run_zoom [run_simps]:
  "zoom get put m s =
     (case m (get s) of Ret p \<Rightarrow> Ret (fst p, put (snd p) s) | Stop e \<Rightarrow> Stop e)"
  by (simp add: zoom_def split: outcome.split prod.split)

section \<open>Lists\<close>

lemma nth_list_update_cases:
  "i < length xs \<Longrightarrow> xs[i := v] ! j = (if i = j then v else xs ! j)"
  by simp

lemma takeWhile_dropWhile_split:
  "\<exists>x \<in> set xs. \<not> P x \<Longrightarrow>
     xs = takeWhile P xs @ hd (dropWhile P xs) # tl (dropWhile P xs) \<and> \<not> P (hd (dropWhile P xs))"
  by (induction xs) auto

end
