(* ===== verification/Memory_Manager.thy ===== *)
theory Memory_Manager
  imports Prelude
begin

text \<open>
  The interface src/TP2-SO-2025/Kernel/include/memory_manager.h that the first-fit and the
  buddy manager both implement and that every other kernel component calls. The kernel is
  linked with one of the two, so the other components take the pair of operations as a
  parameter of type \<open>mm\<close>; the locale \<open>memory_manager\<close> states what they rely on.
\<close>

section \<open>\<open>size_t\<close> arithmetic\<close>

definition add64 :: "nat \<Rightarrow> nat \<Rightarrow> nat" where
  "add64 a b = (a + b) mod 2 ^ 64"

definition sub64 :: "nat \<Rightarrow> nat \<Rightarrow> nat" where
  "sub64 a b = (a + 2 ^ 64 - b) mod 2 ^ 64"

lemma add64_small: "a + b < 2 ^ 64 \<Longrightarrow> add64 a b = a + b"
  by (simp add: add64_def)

lemma sub64_small:
  assumes "b \<le> a" and "a < 2 ^ 64"
  shows "sub64 a b = a - b"
proof -
  have "a + 2 ^ 64 - b = (a - b) + 2 ^ 64" using assms(1) by simp
  then have "sub64 a b = (a - b) mod 2 ^ 64" unfolding sub64_def by (simp only: mod_add_self2)
  with assms(2) show ?thesis by simp
qed

section \<open>The interface\<close>

record mem_stats =
  total_memory :: nat
  free_memory :: nat
  occupied_memory :: nat

record 'm mm =
  mm_alloc_op :: "nat \<Rightarrow> ('m, addr) kernel"
  mm_free_op :: "addr \<Rightarrow> ('m, unit) kernel"

text \<open>
  A manager state represents a map of live blocks: the address handed out and the number of
  bytes requested. Allocation returns null or a block that overlaps no live block; freeing a
  live block removes exactly it. Requests up to \<open>max_request\<close> bytes are served this way.
\<close>

definition apart :: "addr \<Rightarrow> nat \<Rightarrow> addr \<Rightarrow> nat \<Rightarrow> bool" where
  "apart a n b k \<longleftrightarrow> a + n \<le> b \<or> b + k \<le> a"

locale mm_free_law =
  fixes M :: "'m mm"
    and rep :: "'m \<Rightarrow> (addr \<rightharpoonup> nat) \<Rightarrow> bool"
  assumes free_spec:
      "rep m L \<Longrightarrow> a \<in> dom L \<Longrightarrow>
         wp no_stop (mm_free_op M a) (\<lambda>_ t. rep t (L(a := None))) m"

locale memory_manager = mm_free_law M rep
  for M :: "'m mm"
    and rep :: "'m \<Rightarrow> (addr \<rightharpoonup> nat) \<Rightarrow> bool" +
  fixes max_request :: nat
  assumes alloc_spec:
      "rep m L \<Longrightarrow> n \<le> max_request \<Longrightarrow>
         wp no_stop (mm_alloc_op M n)
            (\<lambda>a t. (a = null \<and> rep t L) \<or>
                   (a \<noteq> null \<and> a \<notin> dom L \<and> (\<forall>b k. L b = Some k \<longrightarrow> apart a n b k) \<and>
                    rep t (L(a \<mapsto> n)))) m"
    and alloc_zero: "mm_alloc_op M 0 m = Ret (null, m)"
    and free_null: "mm_free_op M null m = Ret ((), m)"
begin

text \<open>A block that was handed out can be given back, and the live blocks are as before.\<close>

lemma alloc_free_roundtrip:
  assumes "rep m L" and "n \<le> max_request"
  shows "wp no_stop (bnd (mm_alloc_op M n) (mm_free_op M)) (\<lambda>_ t. rep t L) m"
proof -
  have "wp no_stop (mm_free_op M a) (\<lambda>_ t. rep t L) t"
    if "(a = null \<and> rep t L) \<or> (a \<noteq> null \<and> a \<notin> dom L \<and> rep t (L(a \<mapsto> n)))" for a t
  proof (cases "a = null")
    case True
    with that show ?thesis by (simp add: free_null wp_of_Ret)
  next
    case False
    with that have new: "a \<notin> dom L" and "rep t (L(a \<mapsto> n))" by auto
    then have "wp no_stop (mm_free_op M a) (\<lambda>_ t. rep t ((L(a \<mapsto> n))(a := None))) t"
      by (intro free_spec) auto
    moreover have "(L(a \<mapsto> n))(a := None) = L" using new by (auto simp: fun_eq_iff domIff)
    ultimately show ?thesis by simp
  qed
  then show ?thesis
    using alloc_spec [OF assms] by (auto elim!: wp_mono)
qed

text \<open>Two live blocks handed out one after the other never overlap.\<close>

lemma alloc_alloc_apart:
  assumes "rep m L" and "n \<le> max_request" and "k \<le> max_request"
  shows "wp no_stop (bnd (mm_alloc_op M n) (\<lambda>a. bnd (mm_alloc_op M k) (\<lambda>b. ret (a, b))))
           (\<lambda>(a, b) t. a \<noteq> null \<longrightarrow> b \<noteq> null \<longrightarrow> a \<noteq> b \<and> apart a n b k) m"
proof -
  have "wp no_stop (mm_alloc_op M k)
          (\<lambda>b _. a \<noteq> null \<longrightarrow> b \<noteq> null \<longrightarrow> a \<noteq> b \<and> apart a n b k) t"
    if "(a = null \<and> rep t L) \<or> (a \<noteq> null \<and> rep t (L(a \<mapsto> n)))" for a t
    using that
  proof
    assume "a = null \<and> rep t L"
    with alloc_spec [OF _ assms(3), of t L] show ?thesis by (auto elim!: wp_mono)
  next
    assume "a \<noteq> null \<and> rep t (L(a \<mapsto> n))"
    then have "rep t (L(a \<mapsto> n))" by simp
    from alloc_spec [OF this assms(3)] show ?thesis
      by (rule wp_mono) (metis apart_def domI fun_upd_same)
  qed
  then show ?thesis
    using alloc_spec [OF assms(1,2)] by (auto elim!: wp_mono)
qed

end

text \<open>
  The same with a reserve: \<open>rk k m L\<close> says that \<open>k\<close> more requests of at most \<open>small\<close> bytes will
  be served, whatever is freed meanwhile. Components that do not handle an exhausted heap are
  correct under such a reserve.
\<close>

locale memory_room =
  fixes M :: "'m mm"
    and rk :: "nat \<Rightarrow> 'm \<Rightarrow> (addr \<rightharpoonup> nat) \<Rightarrow> bool"
    and small :: nat
  assumes alloc_room:
      "rk (Suc k) m L \<Longrightarrow> 0 < n \<Longrightarrow> n \<le> small \<Longrightarrow>
         wp no_stop (mm_alloc_op M n) (\<lambda>a t. a \<noteq> null \<and> a \<notin> dom L \<and> rk k t (L(a \<mapsto> n))) m"
    and free_room:
      "rk k m L \<Longrightarrow> a \<in> dom L \<Longrightarrow>
         wp no_stop (mm_free_op M a) (\<lambda>_ t. rk k t (L(a := None))) m"
    and room_mono: "rk (Suc k) m L \<Longrightarrow> rk k m L"
begin

lemma room_le: "rk k m L \<Longrightarrow> j \<le> k \<Longrightarrow> rk j m L"
  by (induction k) (auto simp: le_Suc_eq dest: room_mono)

end

sublocale memory_room \<subseteq> room: mm_free_law M "rk k" for k
  by unfold_locales (rule free_room)

end
