(* ===== verification/First_Fit.thy ===== *)
theory First_Fit
  imports Memory_Manager
begin

text \<open>
  The first-fit memory manager, src/TP2-SO-2025/Kernel/memory/first_fit_mm.c: a circular list
  of free blocks threaded through the block headers, in address order, with a sentinel
  \<open>base\<close> of size 0 and a roving pointer \<open>freep\<close>. The model keeps the headers in a
  store indexed by address; the loops are the loops of the source. The representation
  invariant \<open>ff_rep\<close> says which ring the headers form, that blocks never overlap, and that
  the two byte counters agree with the headers.
\<close>

section \<open>State and operations\<close>

record header =
  h_ptr :: addr
  h_size :: nat

record ff_state =
  hdr :: "addr \<Rightarrow> header"
  ff_base :: addr
  freep :: addr
  total_mem_size :: nat
  free_mem_size :: nat

definition UNIT_SIZE :: nat where
  "UNIT_SIZE = 16"

text \<open>Updates of one field of a header, \<open>x->s.ptr = v\<close> and \<open>x->s.size = v\<close>.\<close>

definition set_ptr :: "addr \<Rightarrow> addr \<Rightarrow> ff_state \<Rightarrow> ff_state" where
  "set_ptr x v s = s\<lparr>hdr := (hdr s)(x := (hdr s x)\<lparr>h_ptr := v\<rparr>)\<rparr>"

definition set_size :: "addr \<Rightarrow> nat \<Rightarrow> ff_state \<Rightarrow> ff_state" where
  "set_size x v s = s\<lparr>hdr := (hdr s)(x := (hdr s x)\<lparr>h_size := v\<rparr>)\<rparr>"

definition ff_mm_init :: "addr \<Rightarrow> nat \<Rightarrow> (ff_state, unit) kernel" where
  "ff_mm_init base_address total_size =
     upd (\<lambda>s.
       let units = total_size div UNIT_SIZE;
           s1 = set_size base_address units s;
           usable_bytes = units * UNIT_SIZE;
           s2 = s1\<lparr>total_mem_size := usable_bytes, free_mem_size := usable_bytes\<rparr>;
           s3 = set_ptr (ff_base s2) base_address s2;
           s4 = set_size (ff_base s3) 0 s3;
           s5 = set_ptr base_address (ff_base s4) s4
       in s5\<lparr>freep := ff_base s5\<rparr>)"

text \<open>\<open>(nbytes + UNIT_SIZE - 1) / UNIT_SIZE + 1\<close> in \<open>size_t\<close> arithmetic, then the
  \<open>MIN_ALLOC_UNITS\<close> floor.\<close>

definition MIN_ALLOC_UNITS :: nat where
  "MIN_ALLOC_UNITS = 1"

definition nunits_of :: "nat \<Rightarrow> nat" where
  "nunits_of nbytes =
     (let nunits = ((nbytes + UNIT_SIZE - 1) mod 2 ^ 64) div UNIT_SIZE + 1
      in if nunits < MIN_ALLOC_UNITS then MIN_ALLOC_UNITS else nunits)"

text \<open>The body of the allocation loop at the pair \<open>(prevp, p)\<close>.\<close>

definition ff_alloc_body ::
  "nat \<Rightarrow> addr \<times> addr \<Rightarrow> (ff_state, (addr \<times> addr) + addr) kernel" where
  "ff_alloc_body nunits = (\<lambda>(prevp, p).
     bnd (gets (\<lambda>s. h_size (hdr s p))) (\<lambda>size.
     if nunits \<le> size then
       bnd (if size = nunits then
              bnd (gets (\<lambda>s. h_ptr (hdr s p))) (\<lambda>nxt.
              sq (upd (set_ptr prevp nxt)) (ret p))
            else
              sq (upd (set_size p (size - nunits)))
              (bnd (gets (\<lambda>s. p + UNIT_SIZE * h_size (hdr s p))) (\<lambda>b.
               sq (upd (set_size b nunits)) (ret b))))
       (\<lambda>allocated_block.
       sq (upd (\<lambda>s. s\<lparr>freep := prevp\<rparr>))
       (sq (upd (\<lambda>s. s\<lparr>free_mem_size := sub64 (free_mem_size s) (nunits * UNIT_SIZE)\<rparr>))
       (ret (Inr (allocated_block + UNIT_SIZE)))))
     else
       bnd (gets freep) (\<lambda>f.
       if p = f then ret (Inr null)
       else bnd (gets (\<lambda>s. h_ptr (hdr s p))) (\<lambda>nxt. ret (Inl (p, nxt))))))"

definition ff_mm_alloc :: "nat \<Rightarrow> (ff_state, addr) kernel" where
  "ff_mm_alloc nbytes =
     (if nbytes = 0 then ret null
      else bnd (gets freep) (\<lambda>prevp.
           bnd (gets (\<lambda>s. h_ptr (hdr s prevp))) (\<lambda>p.
           loop (ff_alloc_body (nunits_of nbytes)) (prevp, p))))"

text \<open>The search of \<open>mm_free\<close> for the free block after which \<open>bp\<close> belongs.\<close>

definition ff_free_body :: "addr \<Rightarrow> addr \<Rightarrow> (ff_state, addr + addr) kernel" where
  "ff_free_body bp p =
     bnd (gets (\<lambda>s. h_ptr (hdr s p))) (\<lambda>nxt.
     if p < bp \<and> bp < nxt then ret (Inr p)
     else if nxt \<le> p \<and> (p < bp \<or> bp < nxt) then ret (Inr p)
     else ret (Inl nxt))"

definition ff_link :: "addr \<Rightarrow> addr \<Rightarrow> (ff_state, unit) kernel" where
  "ff_link bp p =
     bnd (gets (\<lambda>s. h_ptr (hdr s p))) (\<lambda>nxt.
     sq (bnd (gets (\<lambda>s. bp + UNIT_SIZE * h_size (hdr s bp))) (\<lambda>bp_end.
         if bp_end = nxt then
           sq (upd (\<lambda>s. set_size bp (h_size (hdr s bp) + h_size (hdr s nxt)) s))
              (upd (\<lambda>s. set_ptr bp (h_ptr (hdr s nxt)) s))
         else upd (set_ptr bp nxt)))
     (bnd (gets (\<lambda>s. p + UNIT_SIZE * h_size (hdr s p))) (\<lambda>p_end.
      if p_end = bp then
        sq (upd (\<lambda>s. set_size p (h_size (hdr s p) + h_size (hdr s bp)) s))
        (sq (upd (\<lambda>s. set_ptr p (h_ptr (hdr s bp)) s))
            (upd (\<lambda>s. s\<lparr>freep := p\<rparr>)))
      else
        sq (upd (set_ptr p bp)) (upd (\<lambda>s. s\<lparr>freep := bp\<rparr>)))))"

definition ff_mm_free :: "addr \<Rightarrow> (ff_state, unit) kernel" where
  "ff_mm_free ap =
     (if ap = null then ret ()
      else
        let bp = ap - UNIT_SIZE in
        sq (upd (\<lambda>s. s\<lparr>free_mem_size := add64 (free_mem_size s) (h_size (hdr s bp) * UNIT_SIZE)\<rparr>))
        (bnd (gets freep) (\<lambda>p0.
         bnd (loop (ff_free_body bp) p0) (\<lambda>p.
         ff_link bp p))))"

definition ff_mm_get_stats :: "(ff_state, mem_stats) kernel" where
  "ff_mm_get_stats =
     gets (\<lambda>s. \<lparr>total_memory = total_mem_size s, free_memory = free_mem_size s,
                occupied_memory = (if free_mem_size s \<le> total_mem_size s
                                   then total_mem_size s - free_mem_size s else 0)\<rparr>)"

section \<open>The representation invariant\<close>

text \<open>
  \<open>ring_next S b x y\<close>: in the ring over the addresses \<open>S\<close> whose least element is \<open>b\<close>,
  the node after \<open>x\<close> is \<open>y\<close>: the next larger address, or \<open>b\<close> after the largest.
\<close>

definition ring_next :: "addr set \<Rightarrow> addr \<Rightarrow> addr \<Rightarrow> addr \<Rightarrow> bool" where
  "ring_next S b x y \<longleftrightarrow>
     y \<in> S \<and> ((x < y \<and> (\<forall>z\<in>S. z \<le> x \<or> y \<le> z)) \<or> (y = b \<and> (\<forall>z\<in>S. z \<le> x)))"

definition ff_ring :: "addr set \<Rightarrow> ff_state \<Rightarrow> bool" where
  "ff_ring S s \<longleftrightarrow>
     finite S \<and> ff_base s \<in> S \<and> freep s \<in> S \<and> (\<forall>x\<in>S. ff_base s \<le> x) \<and>
     (\<forall>x\<in>S. ring_next S (ff_base s) x (h_ptr (hdr s x)))"

text \<open>Blocks \<open>B\<close> (free ones and live ones, by header address) never overlap.\<close>

definition ff_blocks :: "addr set \<Rightarrow> ff_state \<Rightarrow> bool" where
  "ff_blocks B s \<longleftrightarrow>
     finite B \<and> h_size (hdr s (ff_base s)) = 0 \<and>
     (\<forall>x\<in>B. x \<noteq> ff_base s \<longrightarrow> ff_base s < x \<and> 0 < h_size (hdr s x)) \<and>
     (\<forall>x\<in>B. \<forall>y\<in>B. x < y \<longrightarrow> x + UNIT_SIZE * h_size (hdr s x) \<le> y)"

text \<open>No free block ends where the next one starts: neighbours have been merged.\<close>

definition ff_merged :: "addr set \<Rightarrow> ff_state \<Rightarrow> bool" where
  "ff_merged S s \<longleftrightarrow>
     (\<forall>x\<in>S. x < h_ptr (hdr s x) \<longrightarrow> x + UNIT_SIZE * h_size (hdr s x) \<noteq> h_ptr (hdr s x))"

text \<open>The byte counters are the sums over the headers.\<close>

definition ff_counts :: "addr set \<Rightarrow> addr set \<Rightarrow> ff_state \<Rightarrow> bool" where
  "ff_counts S A s \<longleftrightarrow>
     free_mem_size s = UNIT_SIZE * (\<Sum>x\<in>S. h_size (hdr s x)) \<and>
     total_mem_size s = UNIT_SIZE * (\<Sum>x\<in>S. h_size (hdr s x)) + UNIT_SIZE * (\<Sum>x\<in>A. h_size (hdr s x)) \<and>
     total_mem_size s < 2 ^ 64"

definition ff_inv :: "addr set \<Rightarrow> addr set \<Rightarrow> ff_state \<Rightarrow> bool" where
  "ff_inv S A s \<longleftrightarrow>
     S \<inter> A = {} \<and> ff_ring S s \<and> ff_blocks (S \<union> A) s \<and> ff_merged S s \<and> ff_counts S A s"

definition ff_rep :: "ff_state \<Rightarrow> (addr \<rightharpoonup> nat) \<Rightarrow> bool" where
  "ff_rep s L \<longleftrightarrow>
     (\<exists>S. ff_inv S ((\<lambda>a. a - UNIT_SIZE) ` dom L) s) \<and>
     (\<forall>a n. L a = Some n \<longrightarrow> UNIT_SIZE \<le> a \<and> n + UNIT_SIZE \<le> UNIT_SIZE * h_size (hdr s (a - UNIT_SIZE)))"

named_theorems ff_upd \<open>what the field updates change\<close>

lemma set_ptr_upd [ff_upd]:
  "h_ptr (hdr (set_ptr x v s) y) = (if y = x then v else h_ptr (hdr s y))"
  "h_size (hdr (set_ptr x v s) y) = h_size (hdr s y)"
  "ff_base (set_ptr x v s) = ff_base s" "freep (set_ptr x v s) = freep s"
  "total_mem_size (set_ptr x v s) = total_mem_size s" "free_mem_size (set_ptr x v s) = free_mem_size s"
  by (simp_all add: set_ptr_def)

lemma set_size_upd [ff_upd]:
  "h_ptr (hdr (set_size x v s) y) = h_ptr (hdr s y)"
  "h_size (hdr (set_size x v s) y) = (if y = x then v else h_size (hdr s y))"
  "ff_base (set_size x v s) = ff_base s" "freep (set_size x v s) = freep s"
  "total_mem_size (set_size x v s) = total_mem_size s" "free_mem_size (set_size x v s) = free_mem_size s"
  by (simp_all add: set_size_def)

section \<open>The tour of the ring\<close>

text \<open>The nodes passed when walking the ring from \<open>f\<close> (excluded) to \<open>x\<close> (excluded).\<close>

definition between :: "addr \<Rightarrow> addr \<Rightarrow> addr \<Rightarrow> bool" where
  "between f x y \<longleftrightarrow> (if f < x then f < y \<and> y < x else f < y \<or> y < x)"

lemma between_first:
  assumes "ring_next S b f y" and "\<forall>z\<in>S. b \<le> z" and "f \<in> S"
  shows "{z \<in> S. between f y z} = {}"
  using assms by (auto simp: ring_next_def between_def split: if_splits)

lemma between_next:
  assumes "ring_next S b x y" and "\<forall>z\<in>S. b \<le> z" and "x \<in> S" and "f \<in> S" and "x \<noteq> f"
  shows "{z \<in> S. between f y z} = insert x {z \<in> S. between f x z}"
proof -
  have "between f y z \<longleftrightarrow> z = x \<or> between f x z" if z: "z \<in> S" for z
  proof (cases "x < y")
    case True
    with assms z have "z \<le> x \<or> y \<le> z" "f \<le> x \<or> y \<le> f"
      by (auto simp: ring_next_def)
    with True assms(5) show ?thesis by (auto simp: between_def)
  next
    case False
    with assms z have "z \<le> x" "f \<le> x" "y \<le> z" "y \<le> f"
      by (auto simp: ring_next_def)
    with False assms(5) show ?thesis by (auto simp: between_def)
  qed
  with assms(3) show ?thesis by auto
qed

lemma between_self: "\<not> between f x x"
  by (simp add: between_def)

lemma ff_tour:
  assumes ring: "ff_ring S s"
    and fits: "\<And>prevp p. prevp \<in> S \<Longrightarrow> p \<in> S \<Longrightarrow> h_ptr (hdr s prevp) = p \<Longrightarrow>
      n \<le> h_size (hdr s p) \<Longrightarrow>
      wp no_stop (ff_alloc_body n (prevp, p)) (\<lambda>x t. case x of Inl _ \<Rightarrow> False | Inr r \<Rightarrow> Q r t) s"
    and none: "\<forall>z\<in>S. h_size (hdr s z) < n \<Longrightarrow> Q null s"
  shows "wp no_stop (loop (ff_alloc_body n) (freep s, h_ptr (hdr s (freep s)))) Q s"
proof -
  let ?I = "\<lambda>a t. t = s \<and> fst a \<in> S \<and> snd a \<in> S \<and> h_ptr (hdr s (fst a)) = snd a \<and>
      (\<forall>z\<in>S. between (freep s) (snd a) z \<longrightarrow> h_size (hdr s z) < n)"
  let ?m = "\<lambda>a t. card S - card {z \<in> S. between (freep s) (snd a) z}"
  from ring have f: "freep s \<in> S" and least: "\<forall>z\<in>S. ff_base s \<le> z" and fin: "finite S"
    and nxt: "\<And>x. x \<in> S \<Longrightarrow> ring_next S (ff_base s) x (h_ptr (hdr s x))"
    by (auto simp: ff_ring_def)
  have start: "?I (freep s, h_ptr (hdr s (freep s))) s"
    using f nxt [OF f] between_first [OF nxt [OF f] least f] by (auto simp: ring_next_def)
  have step: "wp no_stop (ff_alloc_body n a)
      (\<lambda>x u. case x of Inl a' \<Rightarrow> ?I a' u \<and> ?m a' u < ?m a t | Inr r \<Rightarrow> Q r u) t"
    if I: "?I a t" for a t
  proof -
    obtain pp p where a: "a = (pp, p)" by (cases a)
    with I have t: "t = s" and pp: "pp \<in> S" and p: "p \<in> S" and link: "h_ptr (hdr s pp) = p"
      and seen: "\<forall>z\<in>S. between (freep s) p z \<longrightarrow> h_size (hdr s z) < n" by auto
    show ?thesis
    proof (cases "n \<le> h_size (hdr s p)")
    case True
    from fits [OF pp p link True] show ?thesis
      unfolding a t by (rule wp_mono) (auto split: sum.splits)
  next
    case small: False
    show ?thesis
    proof (cases "p = freep s")
      case True
      have "between (freep s) p z" if "z \<in> S" "z \<noteq> p" for z
        using that True by (auto simp: between_def)
      with seen small have "\<forall>z\<in>S. h_size (hdr s z) < n" by force
      with small True show ?thesis unfolding a t by (simp add: ff_alloc_body_def none)
    next
      case False
      let ?q = "h_ptr (hdr s p)"
      have step: "{z \<in> S. between (freep s) ?q z} = insert p {z \<in> S. between (freep s) p z}"
        by (rule between_next [OF nxt [OF p] least p f False])
      with seen small have seen': "\<forall>z\<in>S. between (freep s) ?q z \<longrightarrow> h_size (hdr s z) < n"
        by force
      have "card (insert p {z \<in> S. between (freep s) p z}) \<le> card S"
        using fin p by (intro card_mono) auto
      moreover have "card (insert p {z \<in> S. between (freep s) p z}) =
          Suc (card {z \<in> S. between (freep s) p z})"
        using fin by (simp add: between_self)
      ultimately have "card S - card {z \<in> S. between (freep s) ?q z}
          < card S - card {z \<in> S. between (freep s) p z}" by (simp add: step)
      moreover have "?q \<in> S" using nxt [OF p] by (simp add: ring_next_def)
      ultimately show ?thesis
        using small False p seen' unfolding a t by (simp add: ff_alloc_body_def)
    qed
  qed
qed
  from wp_loop [where I = ?I and \<mu> = ?m, OF start step] show ?thesis .
qed

section \<open>Allocation keeps the invariant\<close>

lemma ring_remove:
  assumes "ff_ring S s" and "q \<in> S" and "p \<in> S" and "h_ptr (hdr s q) = p"
    and "p \<noteq> ff_base s"
  shows "ff_ring (S - {p}) ((set_ptr q (h_ptr (hdr s p)) s)\<lparr>freep := q, free_mem_size := v\<rparr>)"
proof -
  let ?b = "ff_base s" and ?r = "h_ptr (hdr s p)"
  from assms have nxt: "\<And>x. x \<in> S \<Longrightarrow> ring_next S ?b x (h_ptr (hdr s x))"
    and least: "\<forall>x\<in>S. ?b \<le> x" and b: "?b \<in> S" by (auto simp: ff_ring_def)
  from nxt [OF assms(2)] assms(4,5) have qp: "q < p" and gap: "\<forall>z\<in>S. z \<le> q \<or> p \<le> z"
    by (auto simp: ring_next_def)
  have "ring_next (S - {p}) ?b x (if x = q then ?r else h_ptr (hdr s x))" if "x \<in> S - {p}" for x
  proof (cases "x = q")
    case True
    from nxt [OF assms(3)] consider "p < ?r" "\<forall>z\<in>S. z \<le> p \<or> ?r \<le> z" "?r \<in> S"
      | "?r = ?b" "\<forall>z\<in>S. z \<le> p" by (auto simp: ring_next_def)
    then show ?thesis
    proof cases
      case 1
      have "z \<le> q \<or> ?r \<le> z" if "z \<in> S" "z \<noteq> p" for z
        using gap 1(2) that by (metis antisym)
      with 1 qp True show ?thesis by (auto simp: ring_next_def)
    next
      case 2
      have "z \<le> q" if "z \<in> S" "z \<noteq> p" for z
        using gap 2(2) that by (metis antisym)
      with 2 True b assms(5) show ?thesis by (auto simp: ring_next_def)
    qed
  next
    case False
    have "h_ptr (hdr s x) \<noteq> p"
    proof
      assume "h_ptr (hdr s x) = p"
      with nxt [of x] that assms(5) have "x < p" "\<forall>z\<in>S. z \<le> x \<or> p \<le> z"
        by (auto simp: ring_next_def)
      with gap qp assms(2) that False show False by (metis DiffD1 antisym leD)
    qed
    with False that nxt [of x] show ?thesis by (auto simp: ring_next_def)
  qed
  then show ?thesis using assms qp b unfolding ff_ring_def by (simp add: ff_upd)
qed

lemma ff_exact:
  assumes inv: "ff_inv S A s" and q: "q \<in> S" and p: "p \<in> S" and link: "h_ptr (hdr s q) = p"
    and n: "h_size (hdr s p) = n" "0 < n"
  defines "t \<equiv> (set_ptr q (h_ptr (hdr s p)) s)\<lparr>freep := q,
                 free_mem_size := sub64 (free_mem_size s) (n * UNIT_SIZE)\<rparr>"
  shows "ff_inv (S - {p}) (insert p A) t"
proof -
  from inv have ring: "ff_ring S s" and blk: "ff_blocks (S \<union> A) s" and mrg: "ff_merged S s"
    and cnt: "ff_counts S A s" and disj: "S \<inter> A = {}" by (auto simp: ff_inv_def)
  from blk n have pb: "p \<noteq> ff_base s" by (auto simp: ff_blocks_def)
  have fin: "finite S" "finite A" using blk by (auto simp: ff_blocks_def)
  have sums: "(\<Sum>x\<in>S. h_size (hdr s x)) = n + (\<Sum>x\<in>S - {p}. h_size (hdr s x))"
      "(\<Sum>x\<in>insert p A. h_size (hdr s x)) = n + (\<Sum>x\<in>A. h_size (hdr s x))"
    using fin p disj n(1) by (auto simp: sum.remove disjoint_iff)
  have "ff_ring (S - {p}) t" unfolding t_def by (rule ring_remove [OF ring q p link pb])
  moreover have "S - {p} \<union> insert p A = S \<union> A" using p by auto
  then have "ff_blocks (S - {p} \<union> insert p A) t"
    using blk by (simp add: ff_blocks_def t_def ff_upd)
  moreover have "ff_merged (S - {p}) t"
  proof -
    have "q < p" using ring q link pb by (auto simp: ff_ring_def ring_next_def)
    then have "q + UNIT_SIZE * h_size (hdr s q) \<le> p" using blk q p by (auto simp: ff_blocks_def)
    moreover have "p < h_ptr (hdr s p) \<or> h_ptr (hdr s p) \<le> q"
      using ring p q pb \<open>q < p\<close> by (auto simp: ff_ring_def ring_next_def)
    ultimately show ?thesis using mrg by (auto simp: ff_merged_def t_def ff_upd)
  qed
  moreover have "ff_counts (S - {p}) (insert p A) t"
    using cnt by (simp add: ff_counts_def t_def ff_upd sums sub64_small algebra_simps)
  ultimately show ?thesis using disj by (auto simp: ff_inv_def)
qed

lemma ff_split:
  assumes inv: "ff_inv S A s" and q: "q \<in> S" and p: "p \<in> S" and n: "n < h_size (hdr s p)" "0 < n"
  defines "b \<equiv> p + UNIT_SIZE * (h_size (hdr s p) - n)"
  defines "t \<equiv> (set_size b n (set_size p (h_size (hdr s p) - n) s))\<lparr>freep := q,
                 free_mem_size := sub64 (free_mem_size s) (n * UNIT_SIZE)\<rparr>"
  shows "ff_inv S (insert b A) t" and "b \<notin> S \<union> A" and "b + UNIT_SIZE * n = p + UNIT_SIZE * h_size (hdr s p)"
proof -
  from inv have ring: "ff_ring S s" and blk: "ff_blocks (S \<union> A) s" and mrg: "ff_merged S s"
    and cnt: "ff_counts S A s" and disj: "S \<inter> A = {}" by (auto simp: ff_inv_def)
  have fin: "finite S" "finite A" using blk by (auto simp: ff_blocks_def)
  have pb: "p \<noteq> ff_base s" and bp: "p < b" using n blk by (auto simp: ff_blocks_def b_def UNIT_SIZE_def)
  show e: "b + UNIT_SIZE * n = p + UNIT_SIZE * h_size (hdr s p)"
  proof -
    have "UNIT_SIZE * (h_size (hdr s p) - n) + UNIT_SIZE * n = UNIT_SIZE * h_size (hdr s p)"
      using n by (simp flip: distrib_left)
    then show ?thesis by (simp add: b_def)
  qed
  have above: "b + UNIT_SIZE * n \<le> y" if "y \<in> S \<union> A" "p < y" for y
    using blk p that by (auto simp: e ff_blocks_def)
  have un: "0 < UNIT_SIZE * n" using n by (simp add: UNIT_SIZE_def)
  show new: "b \<notin> S \<union> A" using above [of b] bp un by auto
  have ne: "b \<noteq> p" "b \<noteq> ff_base s" using bp blk p pb by (auto simp: ff_blocks_def)
  have size: "h_size (hdr t x) = (if x = b then n else if x = p then h_size (hdr s p) - n
      else h_size (hdr s x))" for x by (simp add: t_def ff_upd)
  have base: "ff_base t = ff_base s" by (simp add: t_def ff_upd)
  have "ff_ring S t" using ring q by (simp add: ff_ring_def t_def ff_upd)
  moreover have "ff_blocks (S \<union> insert b A) t"
    unfolding ff_blocks_def base size
  proof (intro conjI ballI impI)
    show "finite (S \<union> insert b A)" using fin by simp
    show "(if ff_base s = b then n else if ff_base s = p then h_size (hdr s p) - n
        else h_size (hdr s (ff_base s))) = 0" using ne pb blk by (simp add: ff_blocks_def)
  next
    fix x assume "x \<in> S \<union> insert b A" "x \<noteq> ff_base s"
    then show "ff_base s < x" "0 < (if x = b then n else if x = p then h_size (hdr s p) - n
        else h_size (hdr s x))" using blk p pb n bp by (auto simp: ff_blocks_def)
  next
    fix x y assume xy: "x \<in> S \<union> insert b A" "y \<in> S \<union> insert b A" "x < y"
    have old: "x + UNIT_SIZE * h_size (hdr s x) \<le> y" if "x \<in> S \<union> A" "y \<in> S \<union> A"
      using blk xy(3) that by (auto simp: ff_blocks_def)
    have below: "x + UNIT_SIZE * h_size (hdr s x) \<le> p" if "x \<in> S \<union> A" "x \<noteq> p" "x < b"
    proof -
      have "\<not> p < x" using above [OF that(1)] that(3) un by linarith
      with that show ?thesis using blk p by (auto simp: ff_blocks_def)
    qed
    show "x + UNIT_SIZE * (if x = b then n else if x = p then h_size (hdr s p) - n
        else h_size (hdr s x)) \<le> y"
      using xy old below above [of y] bp n
      by (cases "x = b"; cases "y = b"; cases "x = p") (auto simp: b_def algebra_simps diff_mult_distrib2)
  qed
  moreover have "ff_merged S t"
  proof -
    have "h_ptr (hdr s p) \<in> S" using ring p by (simp add: ff_ring_def ring_next_def)
    then have "p + UNIT_SIZE * h_size (hdr s p) \<le> h_ptr (hdr s p)" if "p < h_ptr (hdr s p)"
      using blk p that by (auto simp: ff_blocks_def)
    then have "p + UNIT_SIZE * (h_size (hdr s p) - n) \<noteq> h_ptr (hdr s p)" if "p < h_ptr (hdr s p)"
      using e un that unfolding b_def by fastforce
    moreover have "h_ptr (hdr t x) = h_ptr (hdr s x)" for x by (simp add: t_def ff_upd)
    ultimately show ?thesis using mrg new by (auto simp: ff_merged_def size)
  qed
  moreover have sumS: "(\<Sum>x\<in>S. h_size (hdr s x)) = n + (\<Sum>x\<in>S. h_size (hdr t x))"
  proof -
    have "(\<Sum>x\<in>S. h_size (hdr t x)) = h_size (hdr s p) - n + (\<Sum>x\<in>S - {p}. h_size (hdr s x))"
      using fin(1) p new ne by (subst sum.remove [of S p]) (auto simp: size split: if_splits intro!: sum.cong)
    moreover have "(\<Sum>x\<in>S. h_size (hdr s x)) = h_size (hdr s p) + (\<Sum>x\<in>S - {p}. h_size (hdr s x))"
      using fin(1) p by (simp add: sum.remove)
    ultimately show ?thesis using n by simp
  qed
  moreover have sumA: "(\<Sum>x\<in>insert b A. h_size (hdr t x)) = n + (\<Sum>x\<in>A. h_size (hdr s x))"
    using fin(2) new p disj by (auto simp: size intro!: sum.cong)
  moreover have "ff_counts S (insert b A) t"
  proof -
    have "free_mem_size t = sub64 (free_mem_size s) (n * UNIT_SIZE)" "total_mem_size t = total_mem_size s"
      by (simp_all add: t_def ff_upd)
    with cnt sumS sumA show ?thesis
      by (simp add: ff_counts_def sub64_small algebra_simps)
  qed
  ultimately show "ff_inv S (insert b A) t" using disj new by (auto simp: ff_inv_def)
qed

lemma ff_rep_insert:
  assumes L: "\<forall>a k. L a = Some k \<longrightarrow> UNIT_SIZE \<le> a \<and> k + UNIT_SIZE \<le> UNIT_SIZE * h_size (hdr s (a - UNIT_SIZE))"
    and inv: "ff_inv S (insert b ((\<lambda>a. a - UNIT_SIZE) ` dom L)) t"
    and new: "b \<notin> (\<lambda>a. a - UNIT_SIZE) ` dom L"
    and same: "\<forall>x \<in> (\<lambda>a. a - UNIT_SIZE) ` dom L. h_size (hdr t x) = h_size (hdr s x)"
    and n: "n + UNIT_SIZE \<le> UNIT_SIZE * h_size (hdr t b)"
  shows "b + UNIT_SIZE \<noteq> null \<and> b + UNIT_SIZE \<notin> dom L \<and>
    (\<forall>c k. L c = Some k \<longrightarrow> apart (b + UNIT_SIZE) n c k) \<and> ff_rep t (L(b + UNIT_SIZE \<mapsto> n))"
proof (intro conjI allI impI)
  show "b + UNIT_SIZE \<noteq> null" by (simp add: UNIT_SIZE_def)
  show fresh: "b + UNIT_SIZE \<notin> dom L" using new by force
  fix c k assume c: "L c = Some k"
  let ?x = "c - UNIT_SIZE"
  from c L have c': "c = ?x + UNIT_SIZE" and k: "k + UNIT_SIZE \<le> UNIT_SIZE * h_size (hdr s ?x)" by auto
  from c have "?x \<in> (\<lambda>a. a - UNIT_SIZE) ` dom L" by auto
  then have "?x \<noteq> b" "h_size (hdr t ?x) = h_size (hdr s ?x)" using new same by blast+
  with k have "?x \<noteq> b" "k + UNIT_SIZE \<le> UNIT_SIZE * h_size (hdr t ?x)" by auto
  moreover have "\<forall>x\<in>insert b ((\<lambda>a. a - UNIT_SIZE) ` dom L). \<forall>y\<in>insert b ((\<lambda>a. a - UNIT_SIZE) ` dom L).
      x < y \<longrightarrow> x + UNIT_SIZE * h_size (hdr t x) \<le> y"
    using inv by (auto simp: ff_inv_def ff_blocks_def)
  ultimately show "apart (b + UNIT_SIZE) n c k"
    using n c c' \<open>?x \<in> _\<close> unfolding apart_def by (cases "b < ?x") (fastforce, force)
next
  have "(\<lambda>a. a - UNIT_SIZE) ` dom (L(b + UNIT_SIZE \<mapsto> n)) = insert b ((\<lambda>a. a - UNIT_SIZE) ` dom L)"
    by auto
  moreover have "UNIT_SIZE \<le> a \<and> k + UNIT_SIZE \<le> UNIT_SIZE * h_size (hdr t (a - UNIT_SIZE))"
    if "(L(b + UNIT_SIZE \<mapsto> n)) a = Some k" for a k
  proof (cases "a = b + UNIT_SIZE")
    case True
    with that n show ?thesis by simp
  next
    case False
    with that have "L a = Some k" by simp
    with L same show ?thesis by (metis domI imageI)
  qed
  ultimately show "ff_rep t (L(b + UNIT_SIZE \<mapsto> n))" using inv by (auto simp: ff_rep_def)
qed

lemma nunits_of_enough:
  assumes "n \<le> 2 ^ 64 - UNIT_SIZE"
  shows "0 < nunits_of n" and "n + UNIT_SIZE \<le> UNIT_SIZE * nunits_of n"
proof -
  have "n + UNIT_SIZE - 1 < 2 ^ 64" using assms by (simp add: UNIT_SIZE_def)
  then have "nunits_of n = (n + UNIT_SIZE - 1) div UNIT_SIZE + 1"
    by (simp add: nunits_of_def MIN_ALLOC_UNITS_def)
  moreover have "n \<le> 16 * ((n + 15) div 16)" by presburger
  ultimately show "0 < nunits_of n" and "n + UNIT_SIZE \<le> UNIT_SIZE * nunits_of n"
    by (simp_all add: UNIT_SIZE_def)
qed

text \<open>What an allocation does to the free blocks: a null result means that every free block is too
  small, and otherwise at most the units of the request are taken from any of them.\<close>

lemma dom_insert_block:
  "(\<lambda>a. a - UNIT_SIZE) ` dom (L(b + UNIT_SIZE \<mapsto> n)) = insert b ((\<lambda>a. a - UNIT_SIZE) ` dom L)"
  by auto

lemma ff_alloc_blocks:
  assumes inv: "ff_inv S ((\<lambda>a. a - UNIT_SIZE) ` dom L) s"
    and L: "\<forall>a k. L a = Some k \<longrightarrow> UNIT_SIZE \<le> a \<and> k + UNIT_SIZE \<le> UNIT_SIZE * h_size (hdr s (a - UNIT_SIZE))"
    and n: "0 < n" "n \<le> 2 ^ 64 - UNIT_SIZE"
  shows "wp no_stop (ff_mm_alloc n)
    (\<lambda>a t. (a = null \<and> t = s \<and> (\<forall>z\<in>S. h_size (hdr s z) < nunits_of n)) \<or>
       (a \<noteq> null \<and> a \<notin> dom L \<and> (\<forall>b k. L b = Some k \<longrightarrow> apart a n b k) \<and> ff_rep t (L(a \<mapsto> n)) \<and>
        (\<exists>S'. ff_inv S' ((\<lambda>a. a - UNIT_SIZE) ` dom (L(a \<mapsto> n))) t \<and>
              (\<forall>x\<in>S. \<exists>y\<in>S'. h_size (hdr s x) \<le> h_size (hdr t y) + nunits_of n)))) s"
proof -
  let ?N = "nunits_of n" and ?A = "(\<lambda>a. a - UNIT_SIZE) ` dom L"
  let ?good = "\<lambda>a t. a \<noteq> null \<and> a \<notin> dom L \<and> (\<forall>b k. L b = Some k \<longrightarrow> apart a n b k) \<and> ff_rep t (L(a \<mapsto> n)) \<and>
        (\<exists>S'. ff_inv S' ((\<lambda>a. a - UNIT_SIZE) ` dom (L(a \<mapsto> n))) t \<and>
              (\<forall>x\<in>S. \<exists>y\<in>S'. h_size (hdr s x) \<le> h_size (hdr t y) + ?N))"
  have N: "0 < ?N" "n + UNIT_SIZE \<le> UNIT_SIZE * ?N" using nunits_of_enough [OF n(2)] by auto
  have ring: "ff_ring S s" and disj: "S \<inter> ?A = {}" and blk: "ff_blocks (S \<union> ?A) s"
    using inv by (auto simp: ff_inv_def)
  have good: "?good (b + UNIT_SIZE) t"
    if i: "ff_inv S' (insert b ?A) t" and b: "b \<notin> ?A" and same: "\<forall>x\<in>?A. h_size (hdr t x) = h_size (hdr s x)"
      and sz: "h_size (hdr t b) = ?N" and grow: "\<forall>x\<in>S. \<exists>y\<in>S'. h_size (hdr s x) \<le> h_size (hdr t y) + ?N" for b t S'
    using ff_rep_insert [OF L i b same, of n] N sz i grow unfolding dom_insert_block by auto
  have fits: "wp no_stop (ff_alloc_body ?N (q, p)) (\<lambda>x t. case x of Inl _ \<Rightarrow> False | Inr a \<Rightarrow> ?good a t) s"
    if q: "q \<in> S" and p: "p \<in> S" and link: "h_ptr (hdr s q) = p" and big: "?N \<le> h_size (hdr s p)" for q p
  proof (cases "h_size (hdr s p) = ?N")
    case True
    let ?t = "(set_ptr q (h_ptr (hdr s p)) s)\<lparr>freep := q, free_mem_size := sub64 (free_mem_size s) (?N * UNIT_SIZE)\<rparr>"
    have "p \<noteq> ff_base s" "ff_base s \<in> S" using True N(1) blk ring by (auto simp: ff_blocks_def ff_ring_def)
    then have "\<forall>x\<in>S. \<exists>y\<in>S - {p}. h_size (hdr s x) \<le> h_size (hdr ?t y) + ?N"
      using True by (auto simp: ff_upd) (metis DiffI le_add1 le_add2 singletonD)
    moreover have "p \<notin> ?A" using p disj by auto
    ultimately have "?good (p + UNIT_SIZE) ?t"
      by (intro good [OF ff_exact [OF inv q p link True N(1)]]) (auto simp: ff_upd True)
    with True show ?thesis by (simp add: ff_alloc_body_def ff_upd)
  next
    case False
    with big have lt: "?N < h_size (hdr s p)" by simp
    let ?b = "p + UNIT_SIZE * (h_size (hdr s p) - ?N)"
    let ?t = "(set_size ?b ?N (set_size p (h_size (hdr s p) - ?N) s))\<lparr>freep := q,
                 free_mem_size := sub64 (free_mem_size s) (?N * UNIT_SIZE)\<rparr>"
    note sp = ff_split [OF inv q p lt N(1)]
    have new: "?b \<notin> ?A" "?b \<notin> S" using sp(2) by blast+
    have old: "x \<noteq> p \<and> x \<noteq> ?b" if "x \<in> ?A" for x using that p disj new by blast
    have "h_size (hdr s x) \<le> h_size (hdr ?t x) + ?N" if "x \<in> S" for x
      using that new lt by (auto simp: ff_upd)
    then have "\<forall>x\<in>S. \<exists>y\<in>S. h_size (hdr s x) \<le> h_size (hdr ?t y) + ?N" by blast
    then have "?good (?b + UNIT_SIZE) ?t"
      by (intro good [OF sp(1) new(1)]) (use old in \<open>auto simp: ff_upd\<close>)
    with False big lt show ?thesis by (simp add: ff_alloc_body_def ff_upd)
  qed
  have "wp no_stop (loop (ff_alloc_body ?N) (freep s, h_ptr (hdr s (freep s))))
      (\<lambda>a t. (a = null \<and> t = s \<and> (\<forall>z\<in>S. h_size (hdr s z) < ?N)) \<or> ?good a t) s"
    by (rule ff_tour [OF ring]) (rule wp_mono, erule (3) fits, auto split: sum.splits)
  with n(1) show ?thesis by (simp add: ff_mm_alloc_def)
qed

lemma ff_alloc_spec:
  assumes rep: "ff_rep s L" and n: "n \<le> 2 ^ 64 - UNIT_SIZE"
  shows "wp no_stop (ff_mm_alloc n)
    (\<lambda>a t. (a = null \<and> t = s) \<or>
       (a \<noteq> null \<and> a \<notin> dom L \<and> (\<forall>b k. L b = Some k \<longrightarrow> apart a n b k) \<and> ff_rep t (L(a \<mapsto> n)))) s"
proof (cases "n = 0")
  case True
  then show ?thesis by (simp add: ff_mm_alloc_def)
next
  case False
  from rep obtain S where "ff_inv S ((\<lambda>a. a - UNIT_SIZE) ` dom L) s"
    and "\<forall>a k. L a = Some k \<longrightarrow> UNIT_SIZE \<le> a \<and> k + UNIT_SIZE \<le> UNIT_SIZE * h_size (hdr s (a - UNIT_SIZE))"
    by (auto simp: ff_rep_def)
  from ff_alloc_blocks [OF this _ n] False show ?thesis by (auto elim!: wp_mono)
qed

section \<open>Freeing keeps the invariant\<close>

lemma ff_search:
  assumes ring: "ff_ring S s" and bp: "bp \<notin> S" "ff_base s < bp" and p0: "p0 \<in> S"
  shows "wp no_stop (loop (ff_free_body bp) p0)
           (\<lambda>p t. t = s \<and> p \<in> S \<and> p < bp \<and> (\<forall>z\<in>S. z \<le> p \<or> bp < z)) s"
proof -
  let ?I = "\<lambda>p t. t = s \<and> p \<in> S"
  let ?m = "\<lambda>p t. if p < bp then card {z \<in> S. p < z \<and> z < bp}
                  else card {z \<in> S. p < z} + Suc (card {z \<in> S. z < bp})"
  from ring have fin: "finite S" and least: "\<forall>z\<in>S. ff_base s \<le> z"
    and nxt: "\<And>x. x \<in> S \<Longrightarrow> ring_next S (ff_base s) x (h_ptr (hdr s x))"
    by (auto simp: ff_ring_def)
  have step: "wp no_stop (ff_free_body bp p)
      (\<lambda>x u. case x of Inl p' \<Rightarrow> ?I p' u \<and> ?m p' u < ?m p t
             | Inr p \<Rightarrow> u = s \<and> p \<in> S \<and> p < bp \<and> (\<forall>z\<in>S. z \<le> p \<or> bp < z)) t"
    if I: "?I p t" for p t
  proof -
    let ?q = "h_ptr (hdr s p)"
    from I have t: "t = s" and p: "p \<in> S" by auto
    from nxt [OF p] consider (up) "p < ?q" "\<forall>z\<in>S. z \<le> p \<or> ?q \<le> z" "?q \<in> S"
      | (wrap) "?q = ff_base s" "\<forall>z\<in>S. z \<le> p" "?q \<in> S" by (auto simp: ring_next_def)
    then show ?thesis
    proof cases
      case up
      show ?thesis
      proof (cases "p < bp \<and> bp < ?q")
        case True
        with up p show ?thesis unfolding t ff_free_body_def by fastforce
      next
        case False
        have "?q \<noteq> bp" "p \<noteq> bp" using up p bp by auto
        have lt1: "card {z \<in> S. ?q < z \<and> z < bp} < card {z \<in> S. p < z \<and> z < bp}" if "?q < bp"
          using fin up that by (intro psubset_card_mono) auto
        have lt2: "card {z \<in> S. ?q < z} < card {z \<in> S. p < z}"
          using fin up by (intro psubset_card_mono) auto
        show ?thesis
          using False up p \<open>?q \<noteq> bp\<close> \<open>p \<noteq> bp\<close> lt1 lt2 unfolding t ff_free_body_def by auto
      qed
    next
      case wrap
      show ?thesis
      proof (cases "p < bp")
        case True
        with wrap p show ?thesis unfolding t ff_free_body_def using least by fastforce
      next
        case False
        then have "bp < p" using p bp by (metis linorder_neqE_nat)
        moreover have "card {z \<in> S. ff_base s < z \<and> z < bp} \<le> card {z \<in> S. z < bp}"
          using fin by (intro card_mono) auto
        ultimately show ?thesis
          using wrap bp p least unfolding t ff_free_body_def by auto
      qed
    qed
  qed
  from wp_loop [where I = ?I and \<mu> = ?m, OF _ step] p0 show ?thesis by blast
qed

lemma ring_insert:
  assumes "ff_ring S s" and "p \<in> S" and "bp \<notin> S" and "p < bp" and "\<forall>z\<in>S. z \<le> p \<or> bp < z"
  shows "ff_ring (insert bp S) ((set_ptr p bp (set_ptr bp (h_ptr (hdr s p)) s))\<lparr>freep := bp\<rparr>)"
proof -
  let ?b = "ff_base s" and ?q = "h_ptr (hdr s p)"
  from assms(1) have nxt: "\<And>x. x \<in> S \<Longrightarrow> ring_next S ?b x (h_ptr (hdr s x))"
    and least: "\<forall>x\<in>S. ?b \<le> x" and b: "?b \<in> S" by (auto simp: ff_ring_def)
  have "ring_next (insert bp S) ?b x (if x = p then bp else if x = bp then ?q else h_ptr (hdr s x))"
    if x: "x \<in> insert bp S" for x
  proof -
    from x consider "x = p" | "x = bp" | "x \<in> S" "x \<noteq> p" "x \<noteq> bp" by blast
    then show ?thesis
    proof cases
      case 1
      with assms show ?thesis by (auto simp: ring_next_def)
    next
      case 2
      with nxt [OF assms(2)] assms b show ?thesis by (auto simp: ring_next_def)
    next
      case 3
      have low: "x < p" if "x < bp" using 3 assms(5) that by fastforce
      have "bp \<le> x \<or> h_ptr (hdr s x) \<le> bp" if up: "\<forall>z\<in>S. z \<le> x \<or> h_ptr (hdr s x) \<le> z"
        using low assms(2,4) up by (cases "x < bp") fastforce+
      moreover have "bp \<le> x" if "\<forall>z\<in>S. z \<le> x"
        using low assms(2) that by (cases "x < bp") fastforce+
      ultimately show ?thesis using nxt [OF 3(1)] 3 by (auto simp: ring_next_def)
    qed
  qed
  then have "\<forall>x\<in>insert bp S. ring_next (insert bp S) ?b x
      (if x = p then bp else if x = bp then ?q else h_ptr (hdr s x))" by blast
  moreover have "\<forall>x\<in>insert bp S. ?b \<le> x" using assms(2,4) least by fastforce
  ultimately show ?thesis using assms(1) b unfolding ff_ring_def
    by (simp add: ff_upd cong: if_cong split del: if_split)
qed

text \<open>The invariant without \<open>ff_merged\<close>, which holds between the two merging steps.\<close>

definition ff_inv0 :: "addr set \<Rightarrow> addr set \<Rightarrow> ff_state \<Rightarrow> bool" where
  "ff_inv0 S A s \<longleftrightarrow> S \<inter> A = {} \<and> ff_ring S s \<and> ff_blocks (S \<union> A) s \<and> ff_counts S A s"

definition merge_next :: "addr \<Rightarrow> addr \<Rightarrow> ff_state \<Rightarrow> ff_state" where
  "merge_next x y s =
     (set_ptr x (h_ptr (hdr s y)) (set_size x (h_size (hdr s x) + h_size (hdr s y)) s))\<lparr>freep := x\<rparr>"

lemma merge_next_upd [ff_upd]:
  "h_ptr (hdr (merge_next x y s) z) = (if z = x then h_ptr (hdr s y) else h_ptr (hdr s z))"
  "h_size (hdr (merge_next x y s) z) =
     (if z = x then h_size (hdr s x) + h_size (hdr s y) else h_size (hdr s z))"
  "ff_base (merge_next x y s) = ff_base s" "freep (merge_next x y s) = x"
  "total_mem_size (merge_next x y s) = total_mem_size s" "free_mem_size (merge_next x y s) = free_mem_size s"
  by (simp_all add: merge_next_def ff_upd)

lemma ff_merged_subset: "ff_merged T s \<Longrightarrow> T' \<subseteq> T \<Longrightarrow> ff_merged T' s"
  by (auto simp: ff_merged_def)

lemma ff_merged_at:
  "ff_merged (T - {p}) s \<Longrightarrow> p + UNIT_SIZE * h_size (hdr s p) \<noteq> h_ptr (hdr s p) \<Longrightarrow> ff_merged T s"
  by (auto simp: ff_merged_def)

lemma merged_merge_next:
  assumes "ff_merged (T - {x}) s" and "ff_merged {y} s"
    and "y = x + UNIT_SIZE * h_size (hdr s x)" and "0 < h_size (hdr s y)"
  shows "ff_merged T (merge_next x y s)"
proof -
  have "y < y + UNIT_SIZE * h_size (hdr s y)" using assms(4) by (simp add: UNIT_SIZE_def)
  with assms(2) have "y + UNIT_SIZE * h_size (hdr s y) \<noteq> h_ptr (hdr s y)"
    unfolding ff_merged_def by (metis insertI1)
  then have "x + UNIT_SIZE * (h_size (hdr s x) + h_size (hdr s y)) \<noteq> h_ptr (hdr s y)"
    by (simp add: assms(3) distrib_left add.assoc)
  with assms(1) show ?thesis by (auto simp: ff_merged_def ff_upd)
qed

lemma ff_put:
  assumes ring: "ff_ring S s" and blk: "ff_blocks (S \<union> insert bp A) s" and disj: "S \<inter> insert bp A = {}"
    and A: "bp \<notin> A" and cnt: "ff_counts (insert bp S) A s"
    and p: "p \<in> S" "p < bp" "\<forall>z\<in>S. z \<le> p \<or> bp < z"
  shows "ff_inv0 (insert bp S) A ((set_ptr p bp (set_ptr bp (h_ptr (hdr s p)) s))\<lparr>freep := bp\<rparr>)"
proof -
  have "bp \<notin> S" using disj by auto
  from ring_insert [OF ring p(1) this p(2,3)] have
    "ff_ring (insert bp S) ((set_ptr p bp (set_ptr bp (h_ptr (hdr s p)) s))\<lparr>freep := bp\<rparr>)" .
  moreover have "insert bp S \<union> A = S \<union> insert bp A" by auto
  ultimately show ?thesis using blk cnt disj A
    by (auto simp: ff_inv0_def ff_blocks_def ff_counts_def ff_upd)
qed

lemma ff_merge:
  assumes inv: "ff_inv0 S A s" and x: "x \<in> S" and y: "y \<in> S" "h_ptr (hdr s x) = y" "x < y"
    and adj: "x + UNIT_SIZE * h_size (hdr s x) = y"
  shows "ff_inv0 (S - {y}) A (merge_next x y s)"
proof -
  let ?t = "merge_next x y s"
  from inv have ring: "ff_ring S s" and blk: "ff_blocks (S \<union> A) s" and cnt: "ff_counts S A s"
    and disj: "S \<inter> A = {}" by (auto simp: ff_inv0_def)
  have fin: "finite S" using ring by (simp add: ff_ring_def)
  have b: "ff_base s \<le> x" "y \<noteq> ff_base s" "x \<noteq> ff_base s"
    using ring x y(3) adj blk by (auto simp: ff_ring_def ff_blocks_def)
  have size: "h_size (hdr ?t z) = (if z = x then h_size (hdr s x) + h_size (hdr s y) else h_size (hdr s z))" for z
    by (simp add: merge_next_def ff_upd)
  have fields: "ff_base ?t = ff_base s" "total_mem_size ?t = total_mem_size s" "free_mem_size ?t = free_mem_size s"
    by (simp_all add: merge_next_def ff_upd)
  have "ff_ring (S - {y}) ?t"
    using ring_remove [OF ring x y(1,2) b(2), of "free_mem_size s"]
    by (simp add: ff_ring_def merge_next_def ff_upd cong: if_cong split del: if_split)
  moreover have "ff_blocks (S - {y} \<union> A) ?t"
    unfolding ff_blocks_def size fields
  proof (intro conjI ballI impI)
    fix u v assume uv: "u \<in> S - {y} \<union> A" "v \<in> S - {y} \<union> A" "u < v"
    then have le: "u + UNIT_SIZE * h_size (hdr s u) \<le> v" using blk by (auto simp: ff_blocks_def)
    have "y + UNIT_SIZE * h_size (hdr s y) \<le> v" if "u = x"
    proof -
      have "v \<noteq> y" using uv disj y(1) by auto
      then have "y < v" using le adj that by simp
      then show ?thesis using blk uv y(1) by (auto simp: ff_blocks_def)
    qed
    with le adj show "u + UNIT_SIZE * (if u = x then h_size (hdr s x) + h_size (hdr s y) else h_size (hdr s u)) \<le> v"
      by (auto simp: algebra_simps)
  qed (use blk b in \<open>auto simp: ff_blocks_def\<close>)
  moreover have "(\<Sum>z\<in>S - {y}. h_size (hdr ?t z)) = (\<Sum>z\<in>S. h_size (hdr s z))"
  proof -
    have "(\<Sum>z\<in>S - {y}. h_size (hdr ?t z)) =
        h_size (hdr s x) + h_size (hdr s y) + (\<Sum>z\<in>S - {y} - {x}. h_size (hdr s z))"
      using fin x y(3) by (subst sum.remove [of _ x]) (auto simp: size intro!: sum.cong)
    also have "\<dots> = h_size (hdr s y) + (\<Sum>z\<in>S - {y}. h_size (hdr s z))"
      using fin x y(3) by (subst (2) sum.remove [of _ x]) auto
    also have "\<dots> = (\<Sum>z\<in>S. h_size (hdr s z))" using fin y(1) by (simp add: sum.remove)
    finally show ?thesis .
  qed
  moreover have "(\<Sum>z\<in>A. h_size (hdr ?t z)) = (\<Sum>z\<in>A. h_size (hdr s z))"
    using x disj by (auto simp: size intro!: sum.cong)
  ultimately show ?thesis using cnt disj unfolding ff_inv0_def ff_counts_def fields by auto
qed

text \<open>Linking a block between its free neighbours and merging it with those it touches.\<close>

lemma ff_link_spec:
  assumes ring: "ff_ring S s" and blk: "ff_blocks (S \<union> insert bp A) s" and disj: "S \<inter> insert bp A = {}"
    and A: "bp \<notin> A" and cnt: "ff_counts (insert bp S) A s" and mrg: "ff_merged S s"
    and p: "p \<in> S" "p < bp" "\<forall>z\<in>S. z \<le> p \<or> bp < z"
  shows "wp no_stop (ff_link bp p)
    (\<lambda>_ t. (\<exists>S'. ff_inv S' A t \<and> (\<forall>x\<in>S. \<exists>y\<in>S'. h_size (hdr s x) \<le> h_size (hdr t y))) \<and>
            (\<forall>x\<in>A. h_size (hdr t x) = h_size (hdr s x))) s"
proof -
  let ?q = "h_ptr (hdr s p)"
  let ?s1 = "(set_ptr p bp (set_ptr bp ?q s))\<lparr>freep := bp\<rparr>"
  have bpS: "bp \<notin> S" and pA: "p \<notin> A" using disj p by auto
  note put = ff_put [OF ring blk disj A cnt p]
  have q: "?q \<in> S" using ring p(1) by (auto simp: ff_ring_def ring_next_def)
  have above: "p < ?q" if "bp + UNIT_SIZE * h_size (hdr s bp) = ?q"
  proof (rule ccontr)
    assume "\<not> p < ?q"
    with that p show False by simp
  qed
  have grows: "\<forall>x\<in>S. \<exists>y\<in>T. h_size (hdr s x) \<le> h_size (hdr t y)"
    if "\<And>x. h_size (hdr s x) \<le> h_size (hdr t (f x))" "\<And>x. x \<in> S \<Longrightarrow> f x \<in> T" for t f T
    using that by blast
  have pos: "0 < h_size (hdr s z)" if "z \<in> insert bp S" "p < z" for z
    using that blk ring p by (auto simp: ff_blocks_def ff_ring_def)
  show ?thesis
  proof (cases "bp + UNIT_SIZE * h_size (hdr s bp) = ?q")
    case c1: True
    then have pq: "p < ?q" "bp < ?q" using above q p(3) by fastforce+
    let ?s2 = "merge_next bp ?q ?s1"
    have i2: "ff_inv0 (insert bp S - {?q}) A ?s2"
      using pq c1 q p by (intro ff_merge [OF put]) (auto simp: ff_upd)
    have m2: "ff_merged (insert bp S - {?q} - {p}) ?s2"
      using c1 q pq pos p mrg bpS by (intro merged_merge_next) (auto simp: ff_merged_def ff_upd)
    have sz: "0 < h_size (hdr ?s2 bp)" using pos [of bp] p by (simp add: ff_upd)
    show ?thesis
    proof (cases "p + UNIT_SIZE * h_size (hdr s p) = bp")
      case c2: True
      let ?s3 = "merge_next p bp ?s2"
      have "ff_inv0 (insert bp S - {?q} - {bp}) A ?s3"
        using p pq c2 q by (intro ff_merge [OF i2]) (auto simp: ff_upd)
      moreover have "ff_merged (insert bp S - {?q} - {bp}) ?s3"
        by (rule merged_merge_next [OF ff_merged_subset [OF m2] ff_merged_subset [OF m2] _ sz])
           (use c2 p pq in \<open>auto simp: ff_upd\<close>)
      ultimately have inv3: "ff_inv (insert bp S - {?q} - {bp}) A ?s3"
        by (simp add: ff_inv_def ff_inv0_def)
      have "h_size (hdr s x) \<le> h_size (hdr ?s3 (if x = ?q then p else x))" for x
        using p pq bpS by (auto simp: ff_upd)
      then have grow: "\<forall>x\<in>S. \<exists>y\<in>insert bp S - {?q} - {bp}. h_size (hdr s x) \<le> h_size (hdr ?s3 y)"
        by (rule grows) (use p pq bpS in auto)
      have eq: "?s3 = (set_ptr p (h_ptr (hdr s ?q)) (set_size p (h_size (hdr s p) + (h_size (hdr s bp) + h_size (hdr s ?q)))
          (set_ptr bp (h_ptr (hdr s ?q)) (set_size bp (h_size (hdr s bp) + h_size (hdr s ?q)) s))))\<lparr>freep := p\<rparr>"
        using p pq by (auto simp: merge_next_def set_ptr_def set_size_def fun_eq_iff)
      have "ff_link bp p s = Ret ((), ?s3)" using c1 c2 p pq unfolding eq by (simp add: ff_link_def run_simps ff_upd)
      moreover have "\<forall>x\<in>A. h_size (hdr ?s3 x) = h_size (hdr s x)" using pA A by (auto simp: ff_upd)
      ultimately show ?thesis using inv3 grow by (auto simp: wp_of_Ret)
    next
      case c2: False
      have "ff_merged (insert bp S - {?q}) ?s2"
        by (rule ff_merged_at [OF m2]) (use c2 p in \<open>auto simp: ff_upd\<close>)
      then have inv2: "ff_inv (insert bp S - {?q}) A ?s2" using i2 by (simp add: ff_inv_def ff_inv0_def)
      have "h_size (hdr s x) \<le> h_size (hdr ?s2 (if x = ?q then bp else x))" for x
        using p pq bpS by (auto simp: ff_upd)
      then have grow: "\<forall>x\<in>S. \<exists>y\<in>insert bp S - {?q}. h_size (hdr s x) \<le> h_size (hdr ?s2 y)"
        by (rule grows) (use p pq bpS in auto)
      have eq: "?s2 = (set_ptr p bp (set_ptr bp (h_ptr (hdr s ?q))
          (set_size bp (h_size (hdr s bp) + h_size (hdr s ?q)) s)))\<lparr>freep := bp\<rparr>"
        using p pq by (auto simp: merge_next_def set_ptr_def set_size_def fun_eq_iff)
      have "ff_link bp p s = Ret ((), ?s2)" using c1 c2 p pq unfolding eq by (simp add: ff_link_def run_simps ff_upd)
      moreover have "\<forall>x\<in>A. h_size (hdr ?s2 x) = h_size (hdr s x)" using pA A by (auto simp: ff_upd)
      ultimately show ?thesis using inv2 grow by (auto simp: wp_of_Ret)
    qed
  next
    case c1: False
    have m2: "ff_merged (insert bp S - {p}) ?s1"
      using mrg bpS c1 p by (auto simp: ff_merged_def ff_upd)
    have sz: "0 < h_size (hdr ?s1 bp)" using pos [of bp] p by (simp add: ff_upd)
    show ?thesis
    proof (cases "p + UNIT_SIZE * h_size (hdr s p) = bp")
      case c2: True
      let ?s3 = "merge_next p bp ?s1"
      have "ff_inv0 (insert bp S - {bp}) A ?s3"
        using p c2 by (intro ff_merge [OF put]) (auto simp: ff_upd)
      moreover have "ff_merged (insert bp S - {bp}) ?s3"
        by (rule merged_merge_next [OF ff_merged_subset [OF m2] ff_merged_subset [OF m2] _ sz])
           (use c2 p in \<open>auto simp: ff_upd\<close>)
      ultimately have inv3: "ff_inv (insert bp S - {bp}) A ?s3" by (simp add: ff_inv_def ff_inv0_def)
      have "h_size (hdr s x) \<le> h_size (hdr ?s3 x)" for x
        using p bpS by (auto simp: ff_upd)
      then have grow: "\<forall>x\<in>S. \<exists>y\<in>insert bp S - {bp}. h_size (hdr s x) \<le> h_size (hdr ?s3 y)"
        using bpS by auto
      have eq: "?s3 = (set_ptr p ?q (set_size p (h_size (hdr s p) + h_size (hdr s bp)) (set_ptr bp ?q s)))\<lparr>freep := p\<rparr>"
        using p by (auto simp: merge_next_def set_ptr_def set_size_def fun_eq_iff)
      have "ff_link bp p s = Ret ((), ?s3)" using c1 c2 p unfolding eq by (simp add: ff_link_def run_simps ff_upd)
      moreover have "\<forall>x\<in>A. h_size (hdr ?s3 x) = h_size (hdr s x)" using pA A by (auto simp: ff_upd)
      ultimately show ?thesis using inv3 grow by (auto simp: wp_of_Ret)
    next
      case c2: False
      have "ff_merged (insert bp S) ?s1"
        by (rule ff_merged_at [OF m2]) (use c2 p in \<open>auto simp: ff_upd\<close>)
      then have inv1: "ff_inv (insert bp S) A ?s1" using put by (simp add: ff_inv_def ff_inv0_def)
      have "ff_link bp p s = Ret ((), ?s1)" using c1 c2 p by (simp add: ff_link_def run_simps ff_upd)
      moreover have "\<forall>x\<in>S. \<exists>y\<in>insert bp S. h_size (hdr s x) \<le> h_size (hdr ?s1 y)" by (auto simp: ff_upd)
      ultimately show ?thesis using inv1 by (auto simp: wp_of_Ret ff_upd)
    qed
  qed
qed

lemma ff_free_blocks:
  assumes inv: "ff_inv S ((\<lambda>c. c - UNIT_SIZE) ` dom L) s"
    and L: "\<forall>c k. L c = Some k \<longrightarrow> UNIT_SIZE \<le> c \<and> k + UNIT_SIZE \<le> UNIT_SIZE * h_size (hdr s (c - UNIT_SIZE))"
    and a: "a \<in> dom L"
  shows "wp no_stop (ff_mm_free a) (\<lambda>_ t. ff_rep t (L(a := None)) \<and>
    (\<exists>S'. ff_inv S' ((\<lambda>c. c - UNIT_SIZE) ` dom (L(a := None))) t \<and>
          (\<forall>x\<in>S. \<exists>y\<in>S'. h_size (hdr s x) \<le> h_size (hdr t y)))) s"
proof -
  let ?bp = "a - UNIT_SIZE" and ?A = "(\<lambda>c. c - UNIT_SIZE) ` dom L"
  let ?A' = "(\<lambda>c. c - UNIT_SIZE) ` dom (L(a := None))"
  let ?s1 = "s\<lparr>free_mem_size := add64 (free_mem_size s) (h_size (hdr s ?bp) * UNIT_SIZE)\<rparr>"
  let ?post = "\<lambda>t. ff_rep t (L(a := None)) \<and>
    (\<exists>S'. ff_inv S' ?A' t \<and> (\<forall>x\<in>S. \<exists>y\<in>S'. h_size (hdr s x) \<le> h_size (hdr t y)))"
  from inv have ring: "ff_ring S s" and blk: "ff_blocks (S \<union> ?A) s" and mrg: "ff_merged S s"
    and cnt: "ff_counts S ?A s" and disj: "S \<inter> ?A = {}" by (auto simp: ff_inv_def)
  from a L have ge: "UNIT_SIZE \<le> a" by auto
  have A: "?A = insert ?bp ?A'" using a by auto
  have bpA: "?bp \<notin> ?A'"
  proof
    assume "?bp \<in> ?A'"
    then obtain c where "c \<in> dom (L(a := None))" "c - UNIT_SIZE = ?bp" by (metis imageE)
    then have "c \<noteq> a" "c \<in> dom L" "c - UNIT_SIZE = ?bp" by (auto split: if_splits)
    with L ge show False by (metis domD eq_diff_iff)
  qed
  have fin: "finite S" "finite ?A'" using blk A by (auto simp: ff_blocks_def)
  have bpS: "?bp \<notin> S" using disj A by auto
  have base: "ff_base s < ?bp" using blk bpS ring A by (auto simp: ff_blocks_def ff_ring_def)
  have sums: "(\<Sum>x\<in>?A. h_size (hdr s x)) = h_size (hdr s ?bp) + (\<Sum>x\<in>?A'. h_size (hdr s x))"
    "(\<Sum>x\<in>insert ?bp S. h_size (hdr s x)) = h_size (hdr s ?bp) + (\<Sum>x\<in>S. h_size (hdr s x))"
    using fin bpA bpS A by auto
  have add: "add64 (free_mem_size s) (h_size (hdr s ?bp) * UNIT_SIZE) =
      free_mem_size s + h_size (hdr s ?bp) * UNIT_SIZE"
    using cnt sums by (intro add64_small) (auto simp: ff_counts_def algebra_simps)
  have cnt1: "ff_counts (insert ?bp S) ?A' ?s1"
    using cnt sums add by (simp add: ff_counts_def algebra_simps)
  have ring1: "ff_ring S ?s1" and blk1: "ff_blocks (S \<union> insert ?bp ?A') ?s1" and mrg1: "ff_merged S ?s1"
    using ring blk mrg A by (auto simp: ff_ring_def ff_blocks_def ff_merged_def)
  have disj1: "S \<inter> insert ?bp ?A' = {}" using disj A by auto
  have fp: "freep ?s1 \<in> S" using ring by (simp add: ff_ring_def)
  have base1: "ff_base ?s1 < ?bp" using base by simp
  have fin_rep: "ff_rep t (L(a := None))"
    if "\<exists>S'. ff_inv S' ?A' t" and "\<forall>x\<in>?A'. h_size (hdr t x) = h_size (hdr s x)" for t
    unfolding ff_rep_def
  proof (intro conjI that(1) allI impI)
    fix c k assume "(L(a := None)) c = Some k"
    then have "L c = Some k" "c - UNIT_SIZE \<in> ?A'" by (auto split: if_splits)
    with L that(2) show "UNIT_SIZE \<le> c" "k + UNIT_SIZE \<le> UNIT_SIZE * h_size (hdr t (c - UNIT_SIZE))"
      by (metis, metis)
  qed
  have "wp no_stop (ff_link ?bp p) (\<lambda>_. ?post) ?s1"
    if "p \<in> S" "p < ?bp" "\<forall>z\<in>S. z \<le> p \<or> ?bp < z" for p
    by (rule wp_mono [OF ff_link_spec [OF ring1 blk1 disj1 bpA cnt1 mrg1 that]], rule conjI, rule fin_rep) auto
  then have "wp no_stop (loop (ff_free_body ?bp) (freep ?s1)) (\<lambda>p. wp no_stop (ff_link ?bp p) (\<lambda>_. ?post)) ?s1"
    by (intro wp_mono [OF ff_search [OF ring1 bpS base1 fp]]) blast
  moreover have "a \<noteq> null" using ge by (simp add: UNIT_SIZE_def)
  ultimately show ?thesis by (simp add: ff_mm_free_def Let_def)
qed

lemma ff_free_spec:
  assumes rep: "ff_rep s L" and a: "a \<in> dom L"
  shows "wp no_stop (ff_mm_free a) (\<lambda>_ t. ff_rep t (L(a := None))) s"
proof -
  from rep obtain S where "ff_inv S ((\<lambda>a. a - UNIT_SIZE) ` dom L) s"
    and "\<forall>a k. L a = Some k \<longrightarrow> UNIT_SIZE \<le> a \<and> k + UNIT_SIZE \<le> UNIT_SIZE * h_size (hdr s (a - UNIT_SIZE))"
    by (auto simp: ff_rep_def)
  from ff_free_blocks [OF this a] show ?thesis by (auto elim!: wp_mono)
qed

section \<open>First fit is a memory manager\<close>

definition first_fit_mm :: "ff_state mm" where
  "first_fit_mm = \<lparr>mm_alloc_op = ff_mm_alloc, mm_free_op = ff_mm_free\<rparr>"

interpretation ff: memory_manager first_fit_mm ff_rep "2 ^ 64 - UNIT_SIZE"
proof unfold_locales
  fix m L n
  assume "ff_rep m L" and "n \<le> 2 ^ 64 - UNIT_SIZE"
  then show "wp no_stop (mm_alloc_op first_fit_mm n)
      (\<lambda>a t. (a = null \<and> ff_rep t L) \<or> (a \<noteq> null \<and> a \<notin> dom L \<and>
        (\<forall>b k. L b = Some k \<longrightarrow> apart a n b k) \<and> ff_rep t (L(a \<mapsto> n)))) m"
    unfolding first_fit_mm_def by (auto intro: wp_mono [OF ff_alloc_spec])
next
  fix m show "mm_alloc_op first_fit_mm 0 m = Ret (null, m)"
    by (simp add: first_fit_mm_def ff_mm_alloc_def ret_def)
next
  fix m L a assume "ff_rep m L" and "a \<in> dom L"
  then show "wp no_stop (mm_free_op first_fit_mm a) (\<lambda>_ t. ff_rep t (L(a := None))) m"
    by (simp add: first_fit_mm_def ff_free_spec)
next
  fix m show "mm_free_op first_fit_mm null m = Ret ((), m)"
    by (simp add: first_fit_mm_def ff_mm_free_def ret_def)
qed

text \<open>A reserve of \<open>k\<close> requests of at most \<open>u\<close> units: some free block has that many units for each of them.\<close>

definition ff_reserve :: "nat \<Rightarrow> nat \<Rightarrow> ff_state \<Rightarrow> (addr \<rightharpoonup> nat) \<Rightarrow> bool" where
  "ff_reserve u k s L \<longleftrightarrow> ff_rep s L \<and>
     (\<exists>S. ff_inv S ((\<lambda>a. a - UNIT_SIZE) ` dom L) s \<and> (\<exists>x\<in>S. u * k \<le> h_size (hdr s x)))"

definition ff_room :: "nat \<Rightarrow> ff_state \<Rightarrow> (addr \<rightharpoonup> nat) \<Rightarrow> bool" where
  "ff_room k s L \<longleftrightarrow> ff_rep s L \<and>
     (\<exists>S. ff_inv S ((\<lambda>a. a - UNIT_SIZE) ` dom L) s \<and> (\<exists>x\<in>S. 2 * k \<le> h_size (hdr s x)))"

lemma ff_room_reserve: "ff_room = ff_reserve 2"
  by (simp add: fun_eq_iff ff_room_def ff_reserve_def)

lemma ff_reserve_room:
  assumes u: "\<forall>n. 0 < n \<longrightarrow> n \<le> sm \<longrightarrow> nunits_of n \<le> u" and sm: "sm \<le> 2 ^ 64 - UNIT_SIZE"
  shows "memory_room first_fit_mm (ff_reserve u) sm"
proof unfold_locales
  fix k m L and n :: nat
  assume room: "ff_reserve u (Suc k) m L" and n: "0 < n" "n \<le> sm"
  from room obtain S x where inv: "ff_inv S ((\<lambda>a. a - UNIT_SIZE) ` dom L) m" and x: "x \<in> S" "u * Suc k \<le> h_size (hdr m x)"
    and L: "\<forall>a k. L a = Some k \<longrightarrow> UNIT_SIZE \<le> a \<and> k + UNIT_SIZE \<le> UNIT_SIZE * h_size (hdr m (a - UNIT_SIZE))"
    by (auto simp: ff_reserve_def ff_rep_def)
  have nu: "nunits_of n \<le> u" using u n by blast
  have "n \<le> 2 ^ 64 - UNIT_SIZE" using n sm by simp
  from ff_alloc_blocks [OF inv L n(1) this]
  show "wp no_stop (mm_alloc_op first_fit_mm n) (\<lambda>a t. a \<noteq> null \<and> a \<notin> dom L \<and> ff_reserve u k t (L(a \<mapsto> n))) m"
    unfolding first_fit_mm_def mm.simps
  proof (rule wp_mono, elim disjE conjE exE)
    fix a and t :: ff_state assume "\<forall>z\<in>S. h_size (hdr m z) < nunits_of n"
    with x nu show "a \<noteq> null \<and> a \<notin> dom L \<and> ff_reserve u k t (L(a \<mapsto> n))" by force
  next
    fix a S' and t :: ff_state
    assume "\<forall>x\<in>S. \<exists>y\<in>S'. h_size (hdr m x) \<le> h_size (hdr t y) + nunits_of n"
    with x obtain y where "y \<in> S'" "h_size (hdr m x) \<le> h_size (hdr t y) + nunits_of n" by blast
    then have y: "y \<in> S'" "u * k \<le> h_size (hdr t y)" using x nu by auto
    assume "ff_inv S' ((\<lambda>a. a - UNIT_SIZE) ` dom (L(a \<mapsto> n))) t" "ff_rep t (L(a \<mapsto> n))" "a \<noteq> null" "a \<notin> dom L"
    with y show "a \<noteq> null \<and> a \<notin> dom L \<and> ff_reserve u k t (L(a \<mapsto> n))" unfolding ff_reserve_def by blast
  qed
next
  fix k m L a
  assume room: "ff_reserve u k m L" and a: "a \<in> dom L"
  from room obtain S x where inv: "ff_inv S ((\<lambda>a. a - UNIT_SIZE) ` dom L) m" and x: "x \<in> S" "u * k \<le> h_size (hdr m x)"
    and L: "\<forall>a k. L a = Some k \<longrightarrow> UNIT_SIZE \<le> a \<and> k + UNIT_SIZE \<le> UNIT_SIZE * h_size (hdr m (a - UNIT_SIZE))"
    by (auto simp: ff_reserve_def ff_rep_def)
  show "wp no_stop (mm_free_op first_fit_mm a) (\<lambda>_ t. ff_reserve u k t (L(a := None))) m"
    unfolding first_fit_mm_def mm.simps ff_reserve_def
    by (rule wp_mono [OF ff_free_blocks [OF inv L a]]) (use x in \<open>meson order_trans\<close>)
next
  fix k m L assume "ff_reserve u (Suc k) m L"
  then obtain S x where "ff_rep m L" "ff_inv S ((\<lambda>a. a - UNIT_SIZE) ` dom L) m" "x \<in> S" "u * Suc k \<le> h_size (hdr m x)"
    unfolding ff_reserve_def by blast
  moreover from this(4) have "u * k \<le> h_size (hdr m x)" by simp
  ultimately show "ff_reserve u k m L" unfolding ff_reserve_def by blast
qed

text \<open>Two units for each request of at most 16 bytes, four for each request of at most 48 bytes.\<close>

interpretation ffr: memory_room first_fit_mm ff_room 16
  unfolding ff_room_reserve by (rule ff_reserve_room) (auto simp: nunits_of_def UNIT_SIZE_def MIN_ALLOC_UNITS_def)

interpretation ffw: memory_room first_fit_mm "ff_reserve 4" 48
  by (rule ff_reserve_room) (auto simp: nunits_of_def UNIT_SIZE_def MIN_ALLOC_UNITS_def)

section \<open>Properties of the first-fit manager\<close>

lemma ff_init_inv:
  assumes "ff_base s < a" and "UNIT_SIZE \<le> n" and "n < 2 ^ 64"
  shows "wp no_stop (ff_mm_init a n) (\<lambda>_ t. ff_inv {ff_base s, a} {} t) s"
proof -
  have "UNIT_SIZE * (n div UNIT_SIZE) \<le> n" by simp
  then have "n div UNIT_SIZE * UNIT_SIZE < 2 ^ 64"
    using assms(3) by (metis le_less_trans mult.commute)
  moreover have "0 < n div UNIT_SIZE" using assms(2) by (simp add: UNIT_SIZE_def div_greater_zero_iff)
  moreover have "UNIT_SIZE = 16" by (simp add: UNIT_SIZE_def)
  ultimately show ?thesis using assms(1)
    by (auto simp: ff_mm_init_def Let_def ff_inv_def ff_ring_def ring_next_def ff_blocks_def
        ff_merged_def ff_counts_def ff_upd)
qed

text \<open>
  Initialisation establishes the representation: after \<open>mm_init\<close> on a region that lies
  above the static sentinel, the manager holds no live block and its invariant holds.
\<close>

theorem ff_init_establishes:
  assumes "ff_base s < a" and "UNIT_SIZE \<le> n" and "n < 2 ^ 64"
  shows "wp no_stop (ff_mm_init a n) (\<lambda>_ t. ff_rep t Map.empty) s"
  by (rule wp_mono [OF ff_init_inv [OF assms]]) (auto simp: ff_rep_def)

definition ff_boot :: ff_state where
  "ff_boot = \<lparr>hdr = (\<lambda>_. \<lparr>h_ptr = 0, h_size = 0\<rparr>), ff_base = 16, freep = 0,
              total_mem_size = 0, free_mem_size = 0\<rparr>"

theorem ff_init_establishes_witness:
  "wp no_stop (ff_mm_init 4096 1024) (\<lambda>_ t. ff_rep t Map.empty) ff_boot"
  by (rule ff_init_establishes) (simp_all add: ff_boot_def UNIT_SIZE_def)

text \<open>The state after initialisation with 64 units at address 4096.\<close>

definition ff_ready :: ff_state where
  "ff_ready = (case ff_mm_init 4096 1024 ff_boot of Ret (_, t) \<Rightarrow> t | Stop _ \<Rightarrow> ff_boot)"

lemma ff_ready_rep: "ff_rep ff_ready Map.empty"
proof -
  have "wp no_stop (ff_mm_init 4096 1024) (\<lambda>_ t. ff_rep t Map.empty) ff_boot"
    by (rule wp_mono [OF ff_init_inv]) (auto simp: ff_boot_def UNIT_SIZE_def ff_rep_def)
  then show ?thesis by (auto simp: ff_ready_def wp_def split: outcome.splits)
qed

text \<open>
  C2. Allocation of any request that does not overflow \<open>size_t\<close> terminates. It returns
  null and leaves the state unchanged, or a non-null address that no live block overlaps, and
  the invariant holds with exactly that block added.
\<close>

theorem ff_alloc_correct:
  assumes "ff_rep s L" and "n \<le> 2 ^ 64 - UNIT_SIZE"
  shows "\<exists>a t. ff_mm_alloc n s = Ret (a, t) \<and>
    (if a = null then t = s
     else a \<notin> dom L \<and> (\<forall>b k. L b = Some k \<longrightarrow> apart a n b k) \<and> ff_rep t (L(a \<mapsto> n)))"
  using ff_alloc_spec [OF assms] by (auto elim!: wp_no_stopE)

theorem ff_alloc_correct_witness:
  "\<exists>a t. ff_mm_alloc 100 ff_ready = Ret (a, t) \<and>
    (if a = null then t = ff_ready
     else a \<notin> dom (Map.empty :: addr \<rightharpoonup> nat) \<and>
          (\<forall>b k. (Map.empty :: addr \<rightharpoonup> nat) b = Some k \<longrightarrow> apart a 100 b k) \<and> ff_rep t [a \<mapsto> 100])"
  by (rule ff_alloc_correct [OF ff_ready_rep]) (simp add: UNIT_SIZE_def)

text \<open>
  C32. First fit is complete: when the search returns null, every free block is too small for
  the request: the circular search visits the whole ring before it gives up.
\<close>

theorem ff_alloc_complete:
  assumes "ff_inv S A s" and "0 < n" and "n \<le> 2 ^ 64 - UNIT_SIZE"
    and "ff_mm_alloc n s = Ret (null, t)"
  shows "\<forall>x\<in>S. h_size (hdr s x) < nunits_of n"
proof -
  have ring: "ff_ring S s" using assms(1) by (simp add: ff_inv_def)
  have "wp no_stop (loop (ff_alloc_body (nunits_of n)) (freep s, h_ptr (hdr s (freep s))))
      (\<lambda>a t. a = null \<longrightarrow> (\<forall>x\<in>S. h_size (hdr s x) < nunits_of n)) s"
    by (rule ff_tour [OF ring]) (simp_all add: ff_alloc_body_def UNIT_SIZE_def)
  with assms(2) have "wp no_stop (ff_mm_alloc n)
      (\<lambda>a t. a = null \<longrightarrow> (\<forall>x\<in>S. h_size (hdr s x) < nunits_of n)) s"
    by (simp add: ff_mm_alloc_def)
  from wp_Ret [OF this assms(4)] show ?thesis by simp
qed

lemma ff_ready_inv: "ff_inv {16, 4096} {} ff_ready"
proof -
  have "wp no_stop (ff_mm_init 4096 1024) (\<lambda>_ t. ff_inv {16, 4096} {} t) ff_boot"
    using ff_init_inv [of ff_boot 4096 1024] by (simp add: ff_boot_def UNIT_SIZE_def)
  then show ?thesis by (auto simp: ff_ready_def wp_def split: outcome.splits)
qed

lemmas ff_eval = ff_ready_def ff_boot_def ff_mm_init_def ff_mm_alloc_def ff_alloc_body_def
  nunits_of_def UNIT_SIZE_def MIN_ALLOC_UNITS_def set_ptr_def set_size_def run_simps

theorem ff_alloc_complete_witness:
  "h_size (hdr ff_ready 16) < nunits_of 2000 \<and> h_size (hdr ff_ready 4096) < nunits_of 2000"
proof -
  have "ff_mm_alloc 2000 ff_ready = Ret (null, ff_ready)" by (simp add: ff_eval loop_unfold)
  from ff_alloc_complete [OF ff_ready_inv _ _ this] show ?thesis by (simp add: UNIT_SIZE_def)
qed

text \<open>
  C3. Freeing a live block terminates, keeps the invariant, and removes exactly that block.
\<close>

theorem ff_free_correct:
  assumes "ff_rep s L" and "a \<in> dom L"
  shows "\<exists>t. ff_mm_free a s = Ret ((), t) \<and> ff_rep t (L(a := None))"
  using ff_free_spec [OF assms] by (auto elim!: wp_no_stopE)

text \<open>One live block of 100 bytes, at address 5008.\<close>

definition ff_one :: ff_state where
  "ff_one = (case ff_mm_alloc 100 ff_ready of Ret (_, t) \<Rightarrow> t | Stop _ \<Rightarrow> ff_ready)"

lemma ff_alloc_100: "ff_mm_alloc 100 ff_ready = Ret (5008, ff_one)"
proof -
  have "\<exists>t. ff_mm_alloc 100 ff_ready = Ret (5008, t)"
    by (simp add: ff_eval loop_unfold)
  then show ?thesis by (auto simp: ff_one_def)
qed

lemma ff_one_rep: "ff_rep ff_one [5008 \<mapsto> 100]"
  using ff_alloc_spec [OF ff_ready_rep, of 100]
  by (simp add: wp_def ff_alloc_100 UNIT_SIZE_def)

theorem ff_free_correct_witness:
  "\<exists>t. ff_mm_free 5008 ff_one = Ret ((), t) \<and> ff_rep t ([5008 \<mapsto> 100](5008 := None))"
  by (rule ff_free_correct [OF ff_one_rep]) simp

text \<open>
  The statistics are exact: \<open>occupied_memory\<close> is the number of bytes of the live
  blocks, headers included, and free and occupied memory add up to the total.
\<close>

theorem ff_stats_exact:
  assumes "ff_rep s L"
  shows "wp no_stop ff_mm_get_stats (\<lambda>m t. t = s \<and>
     occupied_memory m = (\<Sum>x \<in> (\<lambda>a. a - UNIT_SIZE) ` dom L. UNIT_SIZE * h_size (hdr s x)) \<and>
     free_memory m + occupied_memory m = total_memory m) s"
  using assms by (auto simp: ff_mm_get_stats_def ff_rep_def ff_inv_def ff_counts_def sum_distrib_left)

theorem ff_stats_exact_witness:
  "wp no_stop ff_mm_get_stats (\<lambda>m t. t = ff_ready \<and>
     occupied_memory m = (\<Sum>x \<in> (\<lambda>a. a - UNIT_SIZE) ` dom (Map.empty :: addr \<rightharpoonup> nat). UNIT_SIZE * h_size (hdr ff_ready x)) \<and>
     free_memory m + occupied_memory m = total_memory m) ff_ready"
  by (rule ff_stats_exact [OF ff_ready_rep])

text \<open>
  The unit count wraps for requests near \<open>SIZE_MAX\<close>: for each of the last 15 values
  of \<open>size_t\<close> the manager computes a one-unit block, which has room for the header only.
\<close>

theorem ff_nunits_wraps:
  assumes "2 ^ 64 - 15 \<le> n" and "n < 2 ^ 64"
  shows "nunits_of n = 1"
proof -
  define r where "r = n + 15 - 2 ^ 64"
  have r: "r < 16" using assms by (simp add: r_def)
  have e: "n + UNIT_SIZE - 1 = r + 2 ^ 64" using assms by (simp add: UNIT_SIZE_def r_def)
  have "(n + UNIT_SIZE - 1) mod 2 ^ 64 = r mod 2 ^ 64" unfolding e by (rule mod_add_self2)
  also have "\<dots> < 16" using r by simp
  finally have "(n + UNIT_SIZE - 1) mod 2 ^ 64 < 16" .
  then show ?thesis by (simp add: nunits_of_def MIN_ALLOC_UNITS_def UNIT_SIZE_def)
qed

theorem ff_nunits_wraps_witness: "nunits_of (2 ^ 64 - 1) = 1"
  by (rule ff_nunits_wraps) simp_all

end
