(* ===== verification/Queue.thy ===== *)
theory Queue
  imports Memory_Manager
begin

text \<open>
  The queue of src/TP2-SO-2025/Kernel/datastructures/queue.c. A queue value holds the chain of
  its nodes from \<open>head\<close> to \<open>tail\<close>; a node carries its own address and the address of its
  data cell, because both were obtained from the memory manager and go back to it, and because
  the cyclic iterator is a node address. A \<open>QueueADT\<close> argument may be null, so operations take
  an option. Clients see a queue through \<open>vals\<close>, the values in order.
\<close>

section \<open>Data\<close>

record 'a node =
  n_addr :: addr
  n_data :: addr
  n_val :: 'a

record 'a queue =
  q_addr :: addr
  q_nodes :: "'a node list"
  cyclicIter :: addr
  dataSize :: nat
  elemCount :: nat

definition sizeof_QueueCDT :: nat where
  "sizeof_QueueCDT = 48"

definition sizeof_Node :: nat where
  "sizeof_Node = 16"

definition vals :: "'a queue \<Rightarrow> 'a list" where
  "vals q = map n_val (q_nodes q)"

text \<open>\<open>node->next\<close>: the address of the node after the first node with address \<open>a\<close>.\<close>

fun node_next :: "'a node list \<Rightarrow> addr \<Rightarrow> addr" where
  "node_next [] a = null"
| "node_next (n # ns) a =
     (if n_addr n = a then (case ns of [] \<Rightarrow> null | k # _ \<Rightarrow> n_addr k) else node_next ns a)"

fun node_at :: "'a node list \<Rightarrow> addr \<Rightarrow> 'a node option" where
  "node_at [] a = None"
| "node_at (n # ns) a = (if n_addr n = a then Some n else node_at ns a)"

definition head_addr :: "'a queue \<Rightarrow> addr" where
  "head_addr q = (case q_nodes q of [] \<Rightarrow> null | n # _ \<Rightarrow> n_addr n)"

section \<open>Operations\<close>

definition createQueue :: "'m mm \<Rightarrow> nat \<Rightarrow> ('m, 'a queue option) kernel" where
  "createQueue M elemSize =
     bnd (mm_alloc_op M sizeof_QueueCDT) (\<lambda>queue.
     if queue = null \<or> elemSize = 0
     then sq (mm_free_op M queue) (ret None)
     else ret (Some \<lparr>q_addr = queue, q_nodes = [], cyclicIter = null,
                     dataSize = elemSize, elemCount = 0\<rparr>))"

definition enqueue :: "'m mm \<Rightarrow> 'a queue option \<Rightarrow> 'a \<Rightarrow> ('m, 'a queue option) kernel" where
  "enqueue M queue data =
     (case queue of None \<Rightarrow> ret None
      | Some q \<Rightarrow>
          bnd (mm_alloc_op M sizeof_Node) (\<lambda>new.
          if new = null then ret None
          else bnd (mm_alloc_op M (dataSize q)) (\<lambda>cell.
               if cell = null then sq (mm_free_op M new) (ret None)
               else ret (Some (q\<lparr>q_nodes := q_nodes q @ [\<lparr>n_addr = new, n_data = cell, n_val = data\<rparr>],
                                 elemCount := elemCount q + 1\<rparr>)))))"

definition dequeue :: "'m mm \<Rightarrow> 'a queue option \<Rightarrow> ('m, ('a \<times> 'a queue) option) kernel" where
  "dequeue M queue =
     (case queue of None \<Rightarrow> ret None
      | Some q \<Rightarrow>
          (case q_nodes q of [] \<Rightarrow> ret None
           | temp # rest \<Rightarrow>
               let iter1 = (if cyclicIter q \<noteq> null \<and> cyclicIter q = n_addr temp
                            then node_next (q_nodes q) (n_addr temp) else cyclicIter q);
                   iter2 = (if rest = [] then null else iter1)
               in sq (mm_free_op M (n_data temp))
                  (sq (mm_free_op M (n_addr temp))
                  (ret (Some (n_val temp, q\<lparr>q_nodes := rest, cyclicIter := iter2,
                                            elemCount := elemCount q - 1\<rparr>))))))"

text \<open>
  The scan of \<open>queueRemove\<close>: the nodes before the first one equal to the data, that node,
  and the nodes after it. A comparison may dereference a dead object (\<open>None\<close>).
\<close>

fun find_node :: "('a \<Rightarrow> 'a \<Rightarrow> int option) \<Rightarrow> 'a node list \<Rightarrow> 'a \<Rightarrow>
    stop + ('a node list \<times> 'a node \<times> 'a node list) option" where
  "find_node cmp [] data = Inr None"
| "find_node cmp (current # rest) data =
     (case cmp (n_val current) data of
        None \<Rightarrow> Inl Fault
      | Some c \<Rightarrow>
          if c = 0 then Inr (Some ([], current, rest))
          else (case find_node cmp rest data of
                  Inl e \<Rightarrow> Inl e
                | Inr None \<Rightarrow> Inr None
                | Inr (Some (pre, n, post)) \<Rightarrow> Inr (Some (current # pre, n, post))))"

definition queueRemove ::
  "'m mm \<Rightarrow> ('a \<Rightarrow> 'a \<Rightarrow> int option) option \<Rightarrow> 'a queue option \<Rightarrow> 'a \<Rightarrow> ('m, 'a queue option) kernel" where
  "queueRemove M cmp queue data =
     (case queue of None \<Rightarrow> ret None
      | Some q \<Rightarrow>
          if q_nodes q = [] then ret None
          else (case cmp of
            None \<Rightarrow> halt (Panic ''queueRemove: No comparison function provided'')
          | Some f \<Rightarrow>
              (case find_node f (q_nodes q) data of
                 Inl e \<Rightarrow> halt e
               | Inr None \<Rightarrow> ret None
               | Inr (Some (pre, current, post)) \<Rightarrow>
                   let iter = (if cyclicIter q \<noteq> null \<and> cyclicIter q = n_addr current
                               then node_next (q_nodes q) (n_addr current) else cyclicIter q)
                   in sq (mm_free_op M (n_data current))
                      (sq (mm_free_op M (n_addr current))
                      (ret (Some (q\<lparr>q_nodes := pre @ post, cyclicIter := iter,
                                    elemCount := elemCount q - 1\<rparr>)))))))"

definition queuePeek :: "'a queue option \<Rightarrow> 'a option" where
  "queuePeek queue =
     (case queue of None \<Rightarrow> None
      | Some q \<Rightarrow> (case q_nodes q of [] \<Rightarrow> None | n # _ \<Rightarrow> Some (n_val n)))"

fun free_nodes :: "'m mm \<Rightarrow> 'a node list \<Rightarrow> ('m, unit) kernel" where
  "free_nodes M [] = ret ()"
| "free_nodes M (current # rest) =
     sq (mm_free_op M (n_data current))
     (sq (mm_free_op M (n_addr current)) (free_nodes M rest))"

definition queueFree :: "'m mm \<Rightarrow> 'a queue option \<Rightarrow> ('m, unit) kernel" where
  "queueFree M queue =
     (case queue of None \<Rightarrow> ret ()
      | Some q \<Rightarrow> sq (free_nodes M (q_nodes q)) (mm_free_op M (q_addr q)))"

definition queueSize :: "'a queue option \<Rightarrow> nat" where
  "queueSize queue = (case queue of None \<Rightarrow> 0 | Some q \<Rightarrow> elemCount q)"

definition queueBeginCyclicIter :: "'a queue option \<Rightarrow> 'a queue option" where
  "queueBeginCyclicIter queue =
     (case queue of None \<Rightarrow> None
      | Some q \<Rightarrow> if q_nodes q = [] then None else Some (q\<lparr>cyclicIter := head_addr q\<rparr>))"

text \<open>The result is the value copied to the buffer and the queue with the iterator advanced.\<close>

definition queueNextCyclicIter :: "'a queue option \<Rightarrow> stop + ('a \<times> 'a queue) option" where
  "queueNextCyclicIter queue =
     (case queue of None \<Rightarrow> Inr None
      | Some q \<Rightarrow>
          if cyclicIter q = null then Inr None
          else (case node_at (q_nodes q) (cyclicIter q) of
                  None \<Rightarrow> Inl Fault
                | Some n \<Rightarrow>
                    let nxt = node_next (q_nodes q) (cyclicIter q)
                    in Inr (Some (n_val n,
                         q\<lparr>cyclicIter := (if nxt = null then head_addr q else nxt)\<rparr>))))"

definition queueCyclicIterLooped :: "'a queue option \<Rightarrow> bool" where
  "queueCyclicIterLooped queue =
     (case queue of None \<Rightarrow> False
      | Some q \<Rightarrow> if cyclicIter q = null then False else cyclicIter q = head_addr q)"

definition queueIsEmpty :: "'a queue option \<Rightarrow> bool" where
  "queueIsEmpty queue = (queueSize queue = 0)"

definition queueIteratorIsInitialized :: "'a queue option \<Rightarrow> bool" where
  "queueIteratorIsInitialized queue =
     (case queue of None \<Rightarrow> False | Some q \<Rightarrow> cyclicIter q \<noteq> null)"

text \<open>
  The scan of \<open>queueElementExists\<close>: at most \<open>size\<close> rounds of the iterator. The buffer
  keeps its previous contents when the iterator yields nothing; \<open>None\<close> is the fresh buffer.
\<close>

fun exists_scan :: "('a \<Rightarrow> 'a \<Rightarrow> int option) \<Rightarrow> nat \<Rightarrow> 'a option \<Rightarrow> 'a queue \<Rightarrow> 'a \<Rightarrow> stop + (bool \<times> 'a queue)" where
  "exists_scan cmp 0 buf q data = Inr (False, q)"
| "exists_scan cmp (Suc i) buf q data =
     (case queueNextCyclicIter (Some q) of
        Inl e \<Rightarrow> Inl e
      | Inr r \<Rightarrow>
          let (buf', q') = (case r of None \<Rightarrow> (buf, q) | Some (x, q1) \<Rightarrow> (Some x, q1))
          in (case buf' of
                None \<Rightarrow> Inl Fault
              | Some x \<Rightarrow>
                  (case cmp x data of
                     None \<Rightarrow> Inl Fault
                   | Some c \<Rightarrow> if c = 0 then Inr (True, q') else exists_scan cmp i buf' q' data)))"

text \<open>A failed allocation of the buffer leaves it null: the first comparison then reads
  through a null pointer.\<close>

definition queueElementExists ::
  "'m mm \<Rightarrow> ('a \<Rightarrow> 'a \<Rightarrow> int option) \<Rightarrow> 'a queue option \<Rightarrow> 'a \<Rightarrow> ('m, bool \<times> 'a queue) kernel" where
  "queueElementExists M cmp queue data =
     (case queue of None \<Rightarrow> halt Fault
      | Some q \<Rightarrow>
          bnd (mm_alloc_op M (dataSize q)) (\<lambda>buffer.
          let size = elemCount q;
              q0 = (case queueBeginCyclicIter (Some q) of None \<Rightarrow> q | Some q' \<Rightarrow> q')
          in if buffer = null then (if size = 0 then ret (False, q0) else halt Fault)
             else (case exists_scan cmp size None q0 data of
                     Inl e \<Rightarrow> halt e
                   | Inr res \<Rightarrow> sq (mm_free_op M buffer) (ret res))))"

section \<open>Well-formed queues\<close>

definition queue_wf :: "'a queue \<Rightarrow> bool" where
  "queue_wf q \<longleftrightarrow>
     distinct (map n_addr (q_nodes q)) \<and> null \<notin> set (map n_addr (q_nodes q)) \<and>
     elemCount q = length (q_nodes q) \<and>
     (cyclicIter q = null \<or> cyclicIter q \<in> set (map n_addr (q_nodes q)))"

lemma queue_wf_empty: "queue_wf \<lparr>q_addr = a, q_nodes = [], cyclicIter = null, dataSize = n, elemCount = 0\<rparr>"
  by (simp add: queue_wf_def)

lemma queue_wf_emptyD: "queue_wf q \<Longrightarrow> (elemCount q = 0) = (vals q = [])"
  by (auto simp: queue_wf_def vals_def)

lemma vals_eq_Nil [simp]: "(vals q = []) = (q_nodes q = [])"
  by (simp add: vals_def)

lemma node_at_some: "a \<in> set (map n_addr ns) \<Longrightarrow> \<exists>n. node_at ns a = Some n \<and> n \<in> set ns"
  by (induction ns) auto

lemma distinct_map_Cons_nth:
  "distinct (map f (x # xs)) \<Longrightarrow> j < length xs \<Longrightarrow> f x \<noteq> f (xs ! j)"
  by (metis distinct.simps(2) length_map list.simps(9) nth_map nth_mem)

lemma node_at_nth:
  "distinct (map n_addr ns) \<Longrightarrow> i < length ns \<Longrightarrow> node_at ns (n_addr (ns ! i)) = Some (ns ! i)"
proof (induction ns arbitrary: i)
  case (Cons n ns)
  show ?case
  proof (cases i)
    case (Suc j)
    with Cons distinct_map_Cons_nth [of n_addr n ns j] show ?thesis by simp
  qed simp
qed simp

lemma node_next_in: "node_next ns a = null \<or> node_next ns a \<in> set (map n_addr ns)"
proof (induction ns)
  case (Cons n ns)
  then show ?case by (cases ns) auto
qed simp

lemma node_next_nth:
  "distinct (map n_addr ns) \<Longrightarrow> Suc i < length ns \<Longrightarrow> node_next ns (n_addr (ns ! i)) = n_addr (ns ! Suc i)"
proof (induction ns arbitrary: i)
  case (Cons n ns)
  then show ?case
  proof (cases i)
    case 0
    with Cons.prems show ?thesis by (cases ns) auto
  next
    case (Suc j)
    with Cons distinct_map_Cons_nth [of n_addr n ns j] show ?thesis by simp
  qed
qed simp

lemma node_next_last:
  "distinct (map n_addr ns) \<Longrightarrow> ns \<noteq> [] \<Longrightarrow> node_next ns (n_addr (last ns)) = null"
proof (induction ns)
  case (Cons n ns)
  show ?case
  proof (cases ns)
    case (Cons k ks)
    then have "last ns \<in> set ns" by simp
    then have "n_addr (last ns) \<in> n_addr ` set ns" by (rule imageI)
    with Cons.IH Cons.prems Cons show ?thesis by (metis distinct.simps(2) last_ConsR list.discI
          list.set_map list.simps(9) node_next.simps(2))
  qed simp
qed simp

lemma node_next_mid:
  "distinct (map n_addr (pre @ n # post)) \<Longrightarrow>
     node_next (pre @ n # post) (n_addr n) = (case post of [] \<Rightarrow> null | k # _ \<Rightarrow> n_addr k)"
  by (induction pre) auto

lemma find_node_split:
  "find_node f ns x = Inr (Some (pre, n, post)) \<Longrightarrow>
     ns = pre @ n # post \<and> f (n_val n) x = Some 0 \<and> (\<forall>k\<in>set pre. f (n_val k) x \<noteq> Some 0)"
  by (induction ns arbitrary: pre) (auto split: option.splits sum.splits if_splits)

lemma find_node_none:
  "find_node f ns x = Inr None \<Longrightarrow> \<forall>k\<in>set ns. f (n_val k) x \<noteq> Some 0"
  by (induction ns) (auto split: option.splits sum.splits if_splits)

lemma find_node_total:
  "\<forall>k\<in>set ns. f (n_val k) x \<noteq> None \<Longrightarrow> \<exists>r. find_node f ns x = Inr r"
  by (induction ns) (auto split: option.splits)

section \<open>What the operations do to the values\<close>

text \<open>
  These hold for any pair of memory operations: a client that only needs the order of the
  values does not need to know which manager the kernel was linked with.
\<close>

lemma enqueue_Some:
  "enqueue M (Some q) x m = Ret (Some q', m') \<Longrightarrow>
     \<exists>a d. a \<noteq> null \<and> q' = q\<lparr>q_nodes := q_nodes q @ [\<lparr>n_addr = a, n_data = d, n_val = x\<rparr>],
                              elemCount := elemCount q + 1\<rparr>"
  by (auto simp: enqueue_def run_simps split: outcome.splits if_splits)

lemma enqueue_vals: "enqueue M (Some q) x m = Ret (Some q', m') \<Longrightarrow> vals q' = vals q @ [x]"
  by (auto dest!: enqueue_Some simp: vals_def)

lemma dequeue_Some:
  "dequeue M (Some q) m = Ret (Some (x, q'), m') \<Longrightarrow>
     \<exists>n. q_nodes q = n # q_nodes q' \<and> n_val n = x \<and> elemCount q' = elemCount q - 1 \<and>
         cyclicIter q' = (if q_nodes q' = [] then null
                          else if cyclicIter q = n_addr n \<and> cyclicIter q \<noteq> null then node_next (q_nodes q) (n_addr n)
                          else cyclicIter q)"
  by (cases "q_nodes q") (auto simp: dequeue_def run_simps Let_def split: outcome.splits if_splits)

lemma dequeue_vals: "dequeue M (Some q) m = Ret (Some (x, q'), m') \<Longrightarrow> vals q = x # vals q'"
  by (auto dest!: dequeue_Some simp: vals_def)

lemma dequeue_None: "dequeue M (Some q) m = Ret (None, m') \<Longrightarrow> vals q = [] \<and> m' = m"
  by (cases "q_nodes q") (auto simp: dequeue_def run_simps Let_def split: outcome.splits)

lemma queueRemove_Some:
  "queueRemove M (Some f) (Some q) x m = Ret (Some q', m') \<Longrightarrow>
     \<exists>pre n post. q_nodes q = pre @ n # post \<and> q_nodes q' = pre @ post \<and>
       f (n_val n) x = Some 0 \<and> (\<forall>k\<in>set pre. f (n_val k) x \<noteq> Some 0) \<and>
       elemCount q' = elemCount q - 1 \<and>
       cyclicIter q' = (if cyclicIter q = n_addr n \<and> cyclicIter q \<noteq> null
                        then node_next (q_nodes q) (n_addr n) else cyclicIter q)"
proof -
  assume run: "queueRemove M (Some f) (Some q) x m = Ret (Some q', m')"
  then obtain pre n post where f: "find_node f (q_nodes q) x = Inr (Some (pre, n, post))"
    and iter: "cyclicIter q' = (if cyclicIter q = n_addr n \<and> cyclicIter q \<noteq> null
                        then node_next (q_nodes q) (n_addr n) else cyclicIter q)"
    and nodes: "q_nodes q' = pre @ post" and cnt: "elemCount q' = elemCount q - 1"
    by (auto simp: queueRemove_def run_simps Let_def
        split: outcome.splits sum.splits option.splits prod.splits if_splits)
  from find_node_split [OF f] iter nodes cnt show ?thesis by blast
qed

lemma queueRemove_None:
  "queueRemove M (Some f) (Some q) x m = Ret (None, m') \<Longrightarrow>
     m' = m \<and> (\<forall>v\<in>set (vals q). f v x \<noteq> Some 0)"
  by (auto simp: queueRemove_def run_simps Let_def vals_def dest!: find_node_none
      split: outcome.splits sum.splits option.splits prod.splits if_splits)

section \<open>The queue as a FIFO interface\<close>

fun push_all :: "('q \<Rightarrow> 'a \<Rightarrow> ('m, 'q option) kernel) \<Rightarrow> 'q \<Rightarrow> 'a list \<Rightarrow> ('m, 'q option) kernel" where
  "push_all enq q [] = ret (Some q)"
| "push_all enq q (x # xs) =
     bnd (enq q x) (\<lambda>r. case r of None \<Rightarrow> ret None | Some q' \<Rightarrow> push_all enq q' xs)"

fun pop_n :: "('q \<Rightarrow> ('m, ('a \<times> 'q) option) kernel) \<Rightarrow> 'q \<Rightarrow> nat \<Rightarrow> ('m, 'a list \<times> 'q) kernel" where
  "pop_n deq q 0 = ret ([], q)"
| "pop_n deq q (Suc k) =
     bnd (deq q) (\<lambda>r. case r of None \<Rightarrow> ret ([], q)
       | Some p \<Rightarrow> bnd (pop_n deq (snd p) k) (\<lambda>rest. ret (fst p # fst rest, snd rest)))"

locale fifo =
  fixes enq :: "'q \<Rightarrow> 'a \<Rightarrow> ('m, 'q option) kernel"
    and deq :: "'q \<Rightarrow> ('m, ('a \<times> 'q) option) kernel"
    and items :: "'q \<Rightarrow> 'a list"
  assumes enq_items: "enq q x m = Ret (Some q', m') \<Longrightarrow> items q' = items q @ [x]"
    and deq_items: "deq q m = Ret (Some (x, q'), m') \<Longrightarrow> items q = x # items q'"
    and deq_empty: "deq q m = Ret (None, m') \<Longrightarrow> items q = []"
begin

lemma push_all_items: "push_all enq q xs m = Ret (Some q', m') \<Longrightarrow> items q' = items q @ xs"
proof (induction xs arbitrary: q m)
  case (Cons x xs)
  then show ?case by (auto simp: run_simps dest!: enq_items split: outcome.splits option.splits)
qed (simp add: run_simps)

lemma pop_n_items: "pop_n deq q k m = Ret ((out, q'), m') \<Longrightarrow> out = take k (items q) \<and> items q' = drop k (items q)"
proof (induction k arbitrary: q m out)
  case (Suc k)
  then show ?case
    by (fastforce simp: run_simps dest: deq_items deq_empty split: outcome.splits option.splits)
qed (simp add: run_simps)

lemma push_pop_order:
  assumes "push_all enq q xs m = Ret (Some q1, m1)"
    and "pop_n deq q1 (length (items q) + length xs) m1 = Ret ((out, q2), m2)"
  shows "out = items q @ xs \<and> items q2 = []"
  using push_all_items [OF assms(1)] pop_n_items [OF assms(2)] by simp

end

interpretation kq: fifo "\<lambda>q. enqueue M (Some q)" "\<lambda>q. dequeue M (Some q)" vals for M
  by unfold_locales (auto dest: enqueue_vals dequeue_vals dequeue_None)

section \<open>Memory of a queue\<close>

text \<open>The cells a queue holds from the memory manager: its descriptor, and per node the node
  and its data cell.\<close>

definition node_cells :: "'a node list \<Rightarrow> addr list" where
  "node_cells ns = concat (map (\<lambda>n. [n_data n, n_addr n]) ns)"

definition queue_owns :: "(addr \<rightharpoonup> nat) \<Rightarrow> 'a queue \<Rightarrow> bool" where
  "queue_owns L q \<longleftrightarrow>
     distinct (q_addr q # node_cells (q_nodes q)) \<and> set (q_addr q # node_cells (q_nodes q)) \<subseteq> dom L \<and>
     null \<notin> dom L"

lemma node_cells_simps [simp]:
  "node_cells [] = []" "node_cells (n # ns) = n_data n # n_addr n # node_cells ns"
  "node_cells (ns @ ks) = node_cells ns @ node_cells ks"
  by (simp_all add: node_cells_def)

lemma node_cells_addr: "n_addr ` set ns \<subseteq> set (node_cells ns)"
  by (induction ns) auto

lemma distinct_node_cells: "distinct (node_cells ns) \<Longrightarrow> distinct (map n_addr ns)"
  using node_cells_addr by (induction ns) fastforce+

context memory_manager
begin

lemma enqueue_owns:
  assumes "rep m L" and own: "queue_owns L q" and "sizeof_Node \<le> max_request" and "dataSize q \<le> max_request"
  shows "wp no_stop (enqueue M (Some q) x)
    (\<lambda>r t. case r of None \<Rightarrow> rep t L
       | Some q' \<Rightarrow> vals q' = vals q @ [x] \<and> q_addr q' = q_addr q \<and> dataSize q' = dataSize q \<and>
           (\<exists>L'. rep t L' \<and> queue_owns L' q' \<and>
                 L' |` (- set (node_cells (q_nodes q'))) = L |` (- set (node_cells (q_nodes q))))) m"
    (is "wp no_stop _ ?Q m")
proof -
  let ?q = "\<lambda>a cell. q\<lparr>q_nodes := q_nodes q @ [\<lparr>n_addr = a, n_data = cell, n_val = x\<rparr>],
                       elemCount := elemCount q + 1\<rparr>"
  have both: "?Q (Some (?q a cell)) u"
    if "a \<noteq> null" "a \<notin> dom L" "cell \<noteq> null" "cell \<notin> dom (L(a \<mapsto> sizeof_Node))"
      "rep u (L(a \<mapsto> sizeof_Node, cell \<mapsto> dataSize q))" for a cell u
  proof -
    let ?L = "L(a \<mapsto> sizeof_Node, cell \<mapsto> dataSize q)"
    have "queue_owns ?L (?q a cell)"
      using own that by (auto simp: queue_owns_def)
    moreover have "?L |` (- set (node_cells (q_nodes (?q a cell)))) = L |` (- set (node_cells (q_nodes q)))"
      using that by (auto simp: restrict_map_def fun_eq_iff domIff)
    ultimately show ?thesis using that(5) by (auto simp: vals_def)
  qed
  have undo: "wp no_stop (mm_free_op M a) (\<lambda>_ t. rep t L) u"
    if "a \<notin> dom L" "rep u (L(a \<mapsto> sizeof_Node))" for a u
    using free_spec [OF that(2), of a] that(1) by (simp add: fun_upd_idem domIff)
  have second: "wp no_stop (mm_alloc_op M (dataSize q))
      (\<lambda>cell. wp no_stop (if cell = null then sq (mm_free_op M a) (ret None)
           else ret (Some (?q a cell))) ?Q) t"
    if a: "a \<noteq> null" "a \<notin> dom L" and r: "rep t (L(a \<mapsto> sizeof_Node))" for a t
    by (rule wp_mono [OF alloc_spec [OF r assms(4)]]) (use both [OF a] undo [OF a(2)] in auto)
  show ?thesis
    unfolding enqueue_def option.case wp_bnd
    by (rule wp_mono [OF alloc_spec [OF assms(1,3)]]) (use second in auto)
qed

lemma free_cells_owns:
  assumes "rep m L" and "distinct (node_cells ns)" and "set (node_cells ns) \<subseteq> dom L"
  shows "wp no_stop (free_nodes M ns) (\<lambda>_ t. rep t (L |` (- set (node_cells ns)))) m"
  using assms
proof (induction ns arbitrary: m L)
  case Nil
  then show ?case by (simp add: restrict_map_def)
next
  case (Cons n ns)
  let ?L = "L(n_data n := None, n_addr n := None)"
  have last: "wp no_stop (free_nodes M ns) (\<lambda>_ t. rep t (L |` (- set (node_cells (n # ns))))) t"
    if "rep t ?L" for t
  proof -
    have eq: "?L |` (- set (node_cells ns)) = L |` (- set (node_cells (n # ns)))"
      by (auto simp: fun_eq_iff restrict_map_def)
    have "distinct (node_cells ns)" and "set (node_cells ns) \<subseteq> dom ?L" using Cons.prems by auto
    from Cons.IH [OF that this] show ?thesis unfolding eq .
  qed
  have mid: "wp no_stop (mm_free_op M (n_addr n)) (\<lambda>_ t. rep t ?L) t" if "rep t (L(n_data n := None))" for t
    using free_spec [OF that, of "n_addr n"] Cons.prems by auto
  have first: "wp no_stop (mm_free_op M (n_data n)) (\<lambda>_ t. rep t (L(n_data n := None))) m"
    using free_spec [OF Cons.prems(1), of "n_data n"] Cons.prems by auto
  show ?case
    unfolding free_nodes.simps wp_sq
    by (rule wp_mono [OF first], rule wp_mono [OF mid], assumption, rule last)
qed

lemma dequeue_owns:
  assumes r: "rep m L" and own: "queue_owns L q"
  shows "wp no_stop (dequeue M (Some q))
    (\<lambda>r t. case r of None \<Rightarrow> vals q = [] \<and> rep t L
       | Some (x, q') \<Rightarrow> vals q = x # vals q' \<and> q_addr q' = q_addr q \<and> dataSize q' = dataSize q \<and>
           (\<exists>L'. rep t L' \<and> queue_owns L' q' \<and>
                 L' |` (- set (node_cells (q_nodes q))) = L |` (- set (node_cells (q_nodes q))))) m"
    (is "wp no_stop _ ?Q m")
proof (cases "q_nodes q")
  case Nil
  with r show ?thesis by (simp add: dequeue_def vals_def)
next
  case (Cons n ns)
  let ?L = "L(n_data n := None, n_addr n := None)"
  have mid: "wp no_stop (mm_free_op M (n_addr n)) (\<lambda>_ t. rep t ?L) t" if "rep t (L(n_data n := None))" for t
    using free_spec [OF that, of "n_addr n"] own Cons by (auto simp: queue_owns_def)
  have first: "wp no_stop (mm_free_op M (n_data n)) (\<lambda>_ t. rep t (L(n_data n := None))) m"
    using free_spec [OF r, of "n_data n"] own Cons by (auto simp: queue_owns_def)
  have rest: "?L |` (- set (node_cells (q_nodes q))) = L |` (- set (node_cells (q_nodes q)))"
    using Cons by (auto simp: restrict_map_def fun_eq_iff)
  have owns: "queue_owns ?L (q\<lparr>q_nodes := ns, cyclicIter := i, elemCount := c\<rparr>)" for i c
    using own Cons by (auto simp: queue_owns_def)
  have post: "?Q (Some (n_val n, q\<lparr>q_nodes := ns, cyclicIter := i, elemCount := c\<rparr>)) t" if "rep t ?L" for t i c
    using that rest owns [where i = i and c = c] Cons by (auto simp: vals_def intro!: exI [of _ ?L])
  have run: "dequeue M (Some q) =
      sq (mm_free_op M (n_data n)) (sq (mm_free_op M (n_addr n))
        (ret (Some (n_val n, q\<lparr>q_nodes := ns,
           cyclicIter := (if ns = [] then null
                          else if cyclicIter q \<noteq> null \<and> cyclicIter q = n_addr n
                          then node_next (n # ns) (n_addr n) else cyclicIter q),
           elemCount := elemCount q - 1\<rparr>))))"
    by (simp only: dequeue_def option.case Cons list.case Let_def)
  show ?thesis
    unfolding run wp_sq wp_ret
    by (rule wp_mono [OF first], rule wp_mono [OF mid], assumption, rule post)
qed

lemma queueRemove_owns:
  assumes r: "rep m L" and own: "queue_owns L q" and total: "\<forall>v\<in>set (vals q). f v x \<noteq> None"
  shows "wp no_stop (queueRemove M (Some f) (Some q) x)
    (\<lambda>r t. case r of None \<Rightarrow> rep t L \<and> (\<forall>v\<in>set (vals q). f v x \<noteq> Some 0)
       | Some q' \<Rightarrow> (\<exists>pre v post. vals q = pre @ v # post \<and> vals q' = pre @ post \<and> f v x = Some 0 \<and>
                       (\<forall>u\<in>set pre. f u x \<noteq> Some 0)) \<and>
           (\<exists>L'. rep t L' \<and> queue_owns L' q' \<and>
                 L' |` (- set (node_cells (q_nodes q))) = L |` (- set (node_cells (q_nodes q))))) m"
    (is "wp no_stop _ ?Q m")
proof -
  from total have "\<exists>res. find_node f (q_nodes q) x = Inr res"
    by (intro find_node_total) (auto simp: vals_def)
  then obtain res where res: "find_node f (q_nodes q) x = Inr res" ..
  show ?thesis
  proof (cases res)
    case None
    with res r find_node_none [of f "q_nodes q" x] show ?thesis
      by (cases "q_nodes q = []") (auto simp: queueRemove_def vals_def)
  next
    case (Some p)
    obtain pre n post where p: "p = (pre, n, post)" by (cases p)
    with res Some have find: "find_node f (q_nodes q) x = Inr (Some (pre, n, post))" by simp
    note sp = find_node_split [OF find]
    let ?L = "L(n_data n := None, n_addr n := None)"
    have mid: "wp no_stop (mm_free_op M (n_addr n)) (\<lambda>_ t. rep t ?L) t" if "rep t (L(n_data n := None))" for t
      using free_spec [OF that, of "n_addr n"] own sp by (auto simp: queue_owns_def)
    have first: "wp no_stop (mm_free_op M (n_data n)) (\<lambda>_ t. rep t (L(n_data n := None))) m"
      using free_spec [OF r, of "n_data n"] own sp by (auto simp: queue_owns_def)
    have post: "?Q (Some (q\<lparr>q_nodes := pre @ post, cyclicIter := i, elemCount := c\<rparr>)) t" if "rep t ?L" for t i c
    proof -
      let ?q = "q\<lparr>q_nodes := pre @ post, cyclicIter := i, elemCount := c\<rparr>"
      have "?L |` (- set (node_cells (q_nodes q))) = L |` (- set (node_cells (q_nodes q)))"
        using sp by (auto simp: restrict_map_def fun_eq_iff)
      moreover have "queue_owns ?L ?q" using own sp by (auto simp: queue_owns_def)
      moreover have "vals q = map n_val pre @ n_val n # map n_val post" "vals ?q = map n_val pre @ map n_val post"
        using sp by (simp_all add: vals_def)
      ultimately show ?thesis using that sp by fastforce
    qed
    have "q_nodes q \<noteq> []" using sp by auto
    then show ?thesis
      unfolding queueRemove_def option.case find sum.case prod.case Let_def if_not_P wp_sq
      by (simp only: if_False wp_sq wp_ret)
        (rule wp_mono [OF first], rule wp_mono [OF mid], assumption, rule post)
  qed
qed

lemma queueFree_owns:
  assumes r: "rep m L" and own: "queue_owns L q"
  shows "wp no_stop (queueFree M (Some q))
    (\<lambda>_ t. rep t (L |` (- set (q_addr q # node_cells (q_nodes q))))) m"
proof -
  let ?L = "L |` (- set (node_cells (q_nodes q)))"
  have nodes: "wp no_stop (free_nodes M (q_nodes q)) (\<lambda>_ t. rep t ?L) m"
    using free_cells_owns [OF r, of "q_nodes q"] own by (simp add: queue_owns_def)
  have "q_addr q \<in> dom ?L" using own by (auto simp: queue_owns_def)
  moreover have "?L(q_addr q := None) = L |` (- set (q_addr q # node_cells (q_nodes q)))"
    by (auto simp: fun_eq_iff restrict_map_def)
  ultimately have desc: "wp no_stop (mm_free_op M (q_addr q))
      (\<lambda>_ t. rep t (L |` (- set (q_addr q # node_cells (q_nodes q))))) t" if "rep t ?L" for t
    using free_spec [OF that, of "q_addr q"] by simp
  show ?thesis
    unfolding queueFree_def option.case wp_sq by (rule wp_mono [OF nodes]) (rule desc)
qed

end

section \<open>Several queues in one heap\<close>

text \<open>\<open>owned L qs\<close>: the queues \<open>qs\<close> hold live blocks and share none. \<open>frame\<close> says that an operation
  on one queue left every other live block alone.\<close>

definition cells :: "'a queue \<Rightarrow> addr list" where
  "cells q = q_addr q # node_cells (q_nodes q)"

definition owned :: "(addr \<rightharpoonup> nat) \<Rightarrow> 'a queue list \<Rightarrow> bool" where
  "owned L qs \<longleftrightarrow> distinct (concat (map cells qs)) \<and> set (concat (map cells qs)) \<subseteq> dom L \<and> null \<notin> dom L"

definition frame :: "(addr \<rightharpoonup> nat) \<Rightarrow> 'a queue \<Rightarrow> (addr \<rightharpoonup> nat) \<Rightarrow> 'a queue \<Rightarrow> bool" where
  "frame L q L' q' \<longleftrightarrow> queue_owns L' q' \<and> q_addr q' = q_addr q \<and> dataSize q' = dataSize q \<and>
     L' |` (- set (cells q')) = L |` (- set (cells q))"

definition rest_of :: "(addr \<rightharpoonup> nat) \<Rightarrow> 'a queue list \<Rightarrow> (addr \<rightharpoonup> nat)" where
  "rest_of L qs = L |` (- set (concat (map cells qs)))"

lemma owned_queue_owns: "owned L qs \<Longrightarrow> q \<in> set qs \<Longrightarrow> queue_owns L q"
  by (auto simp: owned_def queue_owns_def cells_def dest!: split_list)

lemma frame_other:
  assumes "frame L q L' q'" and "x \<in> dom L" and "x \<notin> set (cells q)"
  shows "L' x = L x \<and> x \<notin> set (cells q')"
proof -
  have eq: "(L' |` (- set (cells q'))) x = (L |` (- set (cells q))) x" using assms(1) by (simp add: frame_def)
  then have "x \<notin> set (cells q')" using assms(2,3) by (auto simp: restrict_map_def split: if_splits)
  with eq assms(3) show ?thesis by (simp add: restrict_map_def)
qed

lemma owned_frame:
  assumes o: "owned L (pre @ q # post)" and f: "frame L q L' q'"
  shows "owned L' (pre @ q' # post)" and "rest_of L' (pre @ q' # post) = rest_of L (pre @ q # post)"
proof -
  let ?O = "concat (map cells pre) @ concat (map cells post)"
  have d: "distinct ?O" "set ?O \<inter> set (cells q) = {}" "set ?O \<subseteq> dom L"
    using o by (auto simp: owned_def)
  have q': "distinct (cells q')" "set (cells q') \<subseteq> dom L'" "null \<notin> dom L'"
    using f by (auto simp: frame_def queue_owns_def cells_def)
  have other: "x \<in> dom L' \<and> x \<notin> set (cells q')" if "x \<in> set ?O" for x
  proof -
    have "x \<in> dom L" and "x \<notin> set (cells q)" using that d by auto
    from frame_other [OF f this] \<open>x \<in> dom L\<close> show ?thesis by (auto simp: domIff)
  qed
  have all: "set (concat (map cells (pre @ q' # post))) = set ?O \<union> set (cells q')" by auto
  moreover have "distinct (concat (map cells (pre @ q' # post)))"
    using d(1) q'(1) other by (simp only: map_append list.map concat_append concat.simps distinct_append) fastforce
  moreover have "set ?O \<union> set (cells q') \<subseteq> dom L'" using q'(2) other by blast
  ultimately show "owned L' (pre @ q' # post)" using q'(3) unfolding owned_def by simp
  have "(L' |` (- set (cells q'))) |` (- set ?O) = (L |` (- set (cells q))) |` (- set ?O)"
    using f by (simp add: frame_def)
  moreover have "set (concat (map cells (pre @ q # post))) = set ?O \<union> set (cells q)" by auto
  ultimately show "rest_of L' (pre @ q' # post) = rest_of L (pre @ q # post)"
    unfolding rest_of_def all by (simp add: Int_commute)
qed

lemma owned_distinct_addr: "queue_owns L q \<Longrightarrow> distinct (map n_addr (q_nodes q)) \<and> null \<notin> set (map n_addr (q_nodes q))"
  using distinct_node_cells [of "q_nodes q"] node_cells_addr [of "q_nodes q"]
  by (auto simp: queue_owns_def)

context mm_free_law
begin

lemma free_two:
  assumes r: "rep m L" and d: "a \<noteq> b" "a \<in> dom L" "b \<in> dom L"
  shows "\<exists>m1 m2. mm_free_op M a m = Ret ((), m1) \<and> mm_free_op M b m1 = Ret ((), m2) \<and>
    rep m2 (L(a := None, b := None))"
proof -
  from free_spec [OF r d(2)] obtain m1 where 1: "mm_free_op M a m = Ret ((), m1)" "rep m1 (L(a := None))"
    by (auto elim!: wp_no_stopE)
  from free_spec [OF 1(2), of b] d obtain m2 where "mm_free_op M b m1 = Ret ((), m2)"
      "rep m2 (L(a := None, b := None))"
    by (auto elim!: wp_no_stopE)
  with 1 show ?thesis by blast
qed

lemma frame_delete:
  assumes own: "queue_owns L q" and nodes: "q_nodes q = pre @ n # post"
    and q': "q_nodes q' = pre @ post" "q_addr q' = q_addr q" "dataSize q' = dataSize q"
  shows "frame L q (L(n_data n := None, n_addr n := None)) q'"
proof -
  have "L(n_data n := None, n_addr n := None) |` (- set (cells q')) = L |` (- set (cells q))"
    using own nodes q' by (auto simp: restrict_map_def cells_def queue_owns_def fun_eq_iff)
  with assms show ?thesis by (auto simp: frame_def queue_owns_def)
qed

lemma dequeue_run:
  assumes r: "rep m L" and own: "queue_owns L q" and nodes: "q_nodes q = n # ns"
  shows "\<exists>q' m' L'. dequeue M (Some q) m = Ret (Some (n_val n, q'), m') \<and> rep m' L' \<and> frame L q L' q' \<and>
    q_nodes q' = ns \<and> elemCount q' = elemCount q - 1"
proof -
  have "n_data n \<noteq> n_addr n" "n_data n \<in> dom L" "n_addr n \<in> dom L" using own nodes by (auto simp: queue_owns_def)
  from free_two [OF r this] obtain m1 m2 where
    "mm_free_op M (n_data n) m = Ret ((), m1)" "mm_free_op M (n_addr n) m1 = Ret ((), m2)"
    and rep: "rep m2 (L(n_data n := None, n_addr n := None))" by blast
  then have "\<exists>q'. dequeue M (Some q) m = Ret (Some (n_val n, q'), m2) \<and> q_nodes q' = ns \<and>
      elemCount q' = elemCount q - 1 \<and> q_addr q' = q_addr q \<and> dataSize q' = dataSize q"
    by (simp add: dequeue_def nodes run_simps Let_def)
  with rep frame_delete [OF own, of "[]" n ns] nodes show ?thesis by fastforce
qed

lemma queueRemove_run:
  assumes r: "rep m L" and own: "queue_owns L q" and nodes: "q_nodes q = pre @ n # post"
    and hit: "f (n_val n) x = Some 0" and miss: "\<forall>k\<in>set pre. \<exists>c. f (n_val k) x = Some c \<and> c \<noteq> 0"
  shows "\<exists>q' m' L'. queueRemove M (Some f) (Some q) x m = Ret (Some q', m') \<and> rep m' L' \<and> frame L q L' q' \<and>
    q_nodes q' = pre @ post \<and> elemCount q' = elemCount q - 1 \<and>
    cyclicIter q' = (if cyclicIter q = n_addr n then node_next (q_nodes q) (n_addr n) else cyclicIter q)"
proof -
  have find: "find_node f (q_nodes q) x = Inr (Some (pre, n, post))"
    using miss hit unfolding nodes by (induction pre) auto
  have dom: "n_data n \<noteq> n_addr n" "n_data n \<in> dom L" "n_addr n \<in> dom L"
    using own nodes by (auto simp: queue_owns_def)
  have nn: "n_addr n \<noteq> null" using own dom(3) by (auto simp: queue_owns_def)
  from free_two [OF r dom] obtain m1 m2 where
    "mm_free_op M (n_data n) m = Ret ((), m1)" "mm_free_op M (n_addr n) m1 = Ret ((), m2)"
    and rep: "rep m2 (L(n_data n := None, n_addr n := None))" by blast
  then have "\<exists>q'. queueRemove M (Some f) (Some q) x m = Ret (Some q', m2) \<and> q_nodes q' = pre @ post \<and>
      elemCount q' = elemCount q - 1 \<and> q_addr q' = q_addr q \<and> dataSize q' = dataSize q \<and>
      cyclicIter q' = (if cyclicIter q = n_addr n then node_next (q_nodes q) (n_addr n) else cyclicIter q)"
    using nodes find nn by (simp add: queueRemove_def run_simps Let_def)
  with rep frame_delete [OF own nodes] show ?thesis by fastforce
qed

end

context memory_room
begin

lemma enqueue_room:
  assumes r: "rk (Suc (Suc k)) m L" and own: "queue_owns L q"
    and size: "sizeof_Node \<le> small" "0 < dataSize q" "dataSize q \<le> small"
  shows "\<exists>q' m' L' a d. enqueue M (Some q) x m = Ret (Some q', m') \<and> rk k m' L' \<and> frame L q L' q' \<and>
      q_nodes q' = q_nodes q @ [\<lparr>n_addr = a, n_data = d, n_val = x\<rparr>] \<and> elemCount q' = elemCount q + 1 \<and>
      cyclicIter q' = cyclicIter q"
proof -
  have "0 < sizeof_Node" by (simp add: sizeof_Node_def)
  from alloc_room [OF r this size(1)] obtain a m1 where a: "mm_alloc_op M sizeof_Node m = Ret (a, m1)"
      "a \<noteq> null" "a \<notin> dom L" and r1: "rk (Suc k) m1 (L(a \<mapsto> sizeof_Node))"
    by (auto elim!: wp_no_stopE)
  from alloc_room [OF r1 size(2,3)] obtain d m2 where d: "mm_alloc_op M (dataSize q) m1 = Ret (d, m2)"
      "d \<noteq> null" "d \<notin> dom (L(a \<mapsto> sizeof_Node))"
      and r2: "rk k m2 (L(a \<mapsto> sizeof_Node, d \<mapsto> dataSize q))"
    by (auto elim!: wp_no_stopE)
  let ?q = "q\<lparr>q_nodes := q_nodes q @ [\<lparr>n_addr = a, n_data = d, n_val = x\<rparr>], elemCount := elemCount q + 1\<rparr>"
  have "enqueue M (Some q) x m = Ret (Some ?q, m2)" using a d by (simp add: enqueue_def run_simps)
  moreover have "frame L q (L(a \<mapsto> sizeof_Node, d \<mapsto> dataSize q)) ?q"
  proof -
    have "L(a \<mapsto> sizeof_Node, d \<mapsto> dataSize q) |` (- set (cells ?q)) = L |` (- set (cells q))"
      using a d by (auto simp: restrict_map_def cells_def fun_eq_iff domIff)
    with own a d show ?thesis by (auto simp: frame_def queue_owns_def)
  qed
  ultimately show ?thesis using r2 by fastforce
qed

end

end
