(* ===== verification/Array.thy ===== *)
theory Array
  imports Memory_Manager
begin

text \<open>
  The growable array of src/TP2-SO-2025/Kernel/datastructures/array.c. The three counters keep
  their C width of sixteen bits. The cells of the current block are a partial map, where a cell
  that was never written holds no value: reading one is a fault of the model. An
  \<open>ArrayADT\<close> may be null, so operations take an option.
\<close>

section \<open>Data\<close>

record 'a arr =
  a_addr :: addr
  a_base :: addr
  a_cells :: "nat \<rightharpoonup> 'a"
  a_sizeOfElem :: nat
  a_elemCount :: u16
  a_dim :: u16
  a_iter :: u16

definition BLOCK_SIZE :: nat where
  "BLOCK_SIZE = 1024"

definition sizeof_ArrayCDT :: nat where
  "sizeof_ArrayCDT = 24"

section \<open>Operations\<close>

text \<open>\<open>createArray\<close> leaves \<open>iter\<close> unset; \<open>junk\<close> is what the allocation found there.\<close>

definition createArray :: "'m mm \<Rightarrow> u16 \<Rightarrow> nat \<Rightarrow> ('m, 'a arr option) kernel" where
  "createArray M junk sizeOfElem =
     bnd (mm_alloc_op M sizeof_ArrayCDT) (\<lambda>newArray.
     if newArray = null then ret None
     else bnd (mm_alloc_op M ((BLOCK_SIZE * sizeOfElem) mod 2 ^ 64)) (\<lambda>base.
       if base = null then sq (mm_free_op M newArray) (ret None)
       else ret (Some \<lparr>a_addr = newArray, a_base = base, a_cells = Map.empty, a_sizeOfElem = sizeOfElem,
                       a_elemCount = 0, a_dim = of_nat BLOCK_SIZE, a_iter = junk\<rparr>)))"

text \<open>The copy into the larger block takes the first \<open>dim\<close> cells and no others.\<close>

definition arrayGrow :: "'m mm \<Rightarrow> 'a arr \<Rightarrow> ('m, 'a arr option) kernel" where
  "arrayGrow M a =
     bnd (mm_alloc_op M (((unat (a_dim a) + BLOCK_SIZE) * a_sizeOfElem a) mod 2 ^ 64)) (\<lambda>newBase.
     if newBase = null then ret None
     else sq (mm_free_op M (a_base a))
       (ret (Some (a\<lparr>a_base := newBase, a_cells := a_cells a |` {..<unat (a_dim a)},
                     a_dim := a_dim a + of_nat BLOCK_SIZE\<rparr>))))"

definition arrayAdd :: "'m mm \<Rightarrow> 'a arr option \<Rightarrow> 'a \<Rightarrow> ('m, 'a arr option) kernel" where
  "arrayAdd M array data =
     (case array of None \<Rightarrow> ret None
      | Some a \<Rightarrow>
          if a_base a = null then ret None
          else bnd (if a_elemCount a = a_dim a then arrayGrow M a else ret (Some a)) (\<lambda>r.
            case r of None \<Rightarrow> ret None
            | Some b \<Rightarrow> ret (Some (b\<lparr>a_cells := (a_cells b)(unat (a_elemCount b) \<mapsto> data),
                                     a_elemCount := a_elemCount b + 1\<rparr>))))"

definition getElemByIndex :: "'a arr option \<Rightarrow> u16 \<Rightarrow> ('s, 'a option) kernel" where
  "getElemByIndex array index =
     (case array of None \<Rightarrow> ret None
      | Some a \<Rightarrow>
          if a_base a = null \<or> index \<ge> a_elemCount a then ret None
          else (case a_cells a (unat index) of None \<Rightarrow> halt Fault | Some x \<Rightarrow> ret (Some x)))"

definition setElemByIndex :: "'a arr option \<Rightarrow> u16 \<Rightarrow> 'a \<Rightarrow> 'a arr option" where
  "setElemByIndex array index data =
     (case array of None \<Rightarrow> None
      | Some a \<Rightarrow>
          if a_base a = null \<or> index \<ge> a_elemCount a then None
          else Some (a\<lparr>a_cells := (a_cells a)(unat index \<mapsto> data)\<rparr>))"

definition arraySize :: "'a arr option \<Rightarrow> u16" where
  "arraySize array = (case array of None \<Rightarrow> - 1 | Some a \<Rightarrow> a_elemCount a)"

definition arrayFree :: "'m mm \<Rightarrow> 'a arr option \<Rightarrow> ('m, unit) kernel" where
  "arrayFree M array =
     (case array of None \<Rightarrow> ret ()
      | Some a \<Rightarrow> sq (mm_free_op M (a_base a)) (mm_free_op M (a_addr a)))"

definition arrayBeginIter :: "'a arr option \<Rightarrow> 'a arr option" where
  "arrayBeginIter array = map_option (a_iter_update (\<lambda>_. 0)) array"

definition arrayHasNext :: "'a arr option \<Rightarrow> bool" where
  "arrayHasNext array = (case array of None \<Rightarrow> False | Some a \<Rightarrow> a_iter a < a_elemCount a)"

definition arrayGetNext :: "'a arr option \<Rightarrow> ('s, ('a \<times> 'a arr) option) kernel" where
  "arrayGetNext array =
     (case array of None \<Rightarrow> ret None
      | Some a \<Rightarrow>
          if \<not> arrayHasNext array then ret None
          else bnd (getElemByIndex array (a_iter a)) (\<lambda>r.
            case r of None \<Rightarrow> ret None
            | Some x \<Rightarrow> ret (Some (x, a\<lparr>a_iter := a_iter a + 1\<rparr>))))"

definition arrayResetSize :: "'a arr option \<Rightarrow> 'a arr option" where
  "arrayResetSize array = map_option (a_elemCount_update (\<lambda>_. 0)) array"

section \<open>Well-formed arrays and their contents\<close>

definition arr_wf :: "'a arr \<Rightarrow> bool" where
  "arr_wf a \<longleftrightarrow> a_base a \<noteq> null \<and> {..<unat (a_elemCount a)} \<subseteq> dom (a_cells a) \<and>
     a_elemCount a \<le> a_dim a \<and> a_dim a \<noteq> 0"

definition contents :: "'a arr \<Rightarrow> 'a list" where
  "contents a = map (\<lambda>i. the (a_cells a i)) [0..<unat (a_elemCount a)]"

lemma length_contents [simp]: "length (contents a) = unat (a_elemCount a)"
  by (simp add: contents_def)

lemma nth_contents [simp]: "i < unat (a_elemCount a) \<Longrightarrow> contents a ! i = the (a_cells a i)"
  by (simp add: contents_def)

lemma arr_wf_cell: "arr_wf a \<Longrightarrow> i < unat (a_elemCount a) \<Longrightarrow> a_cells a i = Some (contents a ! i)"
  by (auto simp: arr_wf_def)

lemma getElemByIndex_wf:
  assumes "arr_wf a"
  shows "getElemByIndex (Some a) index =
    (if unat index < unat (a_elemCount a) then ret (Some (contents a ! unat index)) else ret None)"
proof -
  have "(index \<ge> a_elemCount a) = (\<not> unat index < unat (a_elemCount a))"
    by (simp add: word_le_nat_alt linorder_not_less)
  with assms arr_wf_cell [OF assms, of "unat index"] show ?thesis
    by (auto simp: getElemByIndex_def arr_wf_def)
qed

lemma setElemByIndex_wf:
  assumes "arr_wf a" and "unat index < unat (a_elemCount a)"
  shows "\<exists>b. setElemByIndex (Some a) index x = Some b \<and> arr_wf b \<and>
    contents b = (contents a)[unat index := x]"
proof -
  have "\<not> index \<ge> a_elemCount a" using assms(2) by (simp add: word_le_nat_alt)
  then have "setElemByIndex (Some a) index x = Some (a\<lparr>a_cells := (a_cells a)(unat index \<mapsto> x)\<rparr>)"
    using assms(1) by (simp add: setElemByIndex_def arr_wf_def)
  moreover have "contents (a\<lparr>a_cells := (a_cells a)(unat index \<mapsto> x)\<rparr>) = (contents a)[unat index := x]"
    by (rule nth_equalityI) (auto simp: nth_list_update contents_def)
  moreover have "arr_wf (a\<lparr>a_cells := (a_cells a)(unat index \<mapsto> x)\<rparr>)"
    using assms(1) by (auto simp: arr_wf_def)
  ultimately show ?thesis by blast
qed

text \<open>The element count stays below \<open>2 ^ 16 - BLOCK_SIZE\<close>, so neither counter wraps.\<close>

lemma unat_Suc16: "unat (c :: u16) < 2 ^ 16 - 1 \<Longrightarrow> unat (c + 1) = unat c + 1"
  by (simp add: unat_word_ariths(1))

lemma unat_grow16: "unat (c :: u16) < 2 ^ 16 - BLOCK_SIZE \<Longrightarrow> unat (c + of_nat BLOCK_SIZE) = unat c + BLOCK_SIZE"
  by (simp add: unat_word_ariths(1) BLOCK_SIZE_def)

lemma arrayGrow_Some:
  assumes "arrayGrow M a m = Ret (Some g, m')"
  shows "\<exists>nb. nb \<noteq> null \<and> g = a\<lparr>a_base := nb, a_cells := a_cells a |` {..<unat (a_dim a)},
                                 a_dim := a_dim a + of_nat BLOCK_SIZE\<rparr>"
  using assms
  by (cases "mm_alloc_op M (((unat (a_dim a) + BLOCK_SIZE) * a_sizeOfElem a) mod 2 ^ 64) m")
     (auto simp: arrayGrow_def run_simps split: outcome.splits if_splits)

lemma arrayGrow_wf:
  assumes wf: "arr_wf a" and full: "a_elemCount a = a_dim a" and small: "unat (a_dim a) < 2 ^ 16 - BLOCK_SIZE"
    and run: "arrayGrow M a m = Ret (Some g, m')"
  shows "arr_wf g \<and> contents g = contents a \<and> a_elemCount g < a_dim g"
proof -
  from arrayGrow_Some [OF run] obtain nb where nb: "nb \<noteq> null"
    and g: "g = a\<lparr>a_base := nb, a_cells := a_cells a |` {..<unat (a_dim a)}, a_dim := a_dim a + of_nat BLOCK_SIZE\<rparr>"
    by blast
  have "unat (a_dim g) = unat (a_dim a) + BLOCK_SIZE" using unat_grow16 [OF small] g by simp
  then have lt: "a_elemCount g < a_dim g" using full g by (simp add: word_less_nat_alt BLOCK_SIZE_def)
  then have "a_dim g \<noteq> 0" by auto
  with lt wf nb g full have "arr_wf g" by (auto simp: arr_wf_def)
  moreover have "contents g = contents a" using full g by (auto simp: contents_def)
  ultimately show ?thesis using lt by simp
qed

lemma arrayAdd_contents:
  assumes wf: "arr_wf a" and small: "unat (a_dim a) < 2 ^ 16 - BLOCK_SIZE"
    and run: "arrayAdd M (Some a) x m = Ret (Some b, m')"
  shows "arr_wf b \<and> contents b = contents a @ [x]"
proof -
  have base: "a_base a \<noteq> null" using wf by (simp add: arr_wf_def)
  obtain g where g: "arr_wf g" "contents g = contents a" "a_elemCount g < a_dim g"
    and b: "b = g\<lparr>a_cells := (a_cells g)(unat (a_elemCount g) \<mapsto> x), a_elemCount := a_elemCount g + 1\<rparr>"
  proof (cases "a_elemCount a = a_dim a")
    case True
    with run base obtain g where grow: "arrayGrow M a m = Ret (Some g, m')"
      and b: "b = g\<lparr>a_cells := (a_cells g)(unat (a_elemCount g) \<mapsto> x), a_elemCount := a_elemCount g + 1\<rparr>"
      by (cases "arrayGrow M a m") (auto simp: arrayAdd_def run_simps split: option.splits)
    from arrayGrow_wf [OF wf True small grow] b show thesis using that by blast
  next
    case False
    moreover have "a_elemCount a \<le> a_dim a" using wf by (simp add: arr_wf_def)
    ultimately have "a_elemCount a < a_dim a" by (metis order_less_le)
    moreover from base run False
    have "b = a\<lparr>a_cells := (a_cells a)(unat (a_elemCount a) \<mapsto> x), a_elemCount := a_elemCount a + 1\<rparr>"
      by (simp add: arrayAdd_def run_simps)
    ultimately show thesis using that wf by blast
  qed
  have "unat (a_elemCount g) < unat (a_dim g)" "unat (a_dim g) < 2 ^ 16"
    using g(3) unsigned_less [of "a_dim g", where 'a = nat] by (simp_all add: word_less_nat_alt)
  then have cnt: "unat (a_elemCount g + 1) = unat (a_elemCount g) + 1" by (intro unat_Suc16) simp
  have "contents b = contents g @ [x]"
    by (rule nth_equalityI) (auto simp: b cnt nth_append contents_def)
  moreover have "arr_wf b"
    using g cnt by (auto simp: arr_wf_def b word_le_nat_alt word_less_nat_alt less_Suc_eq)
  ultimately show ?thesis using g(2) by simp
qed

lemma arrayAdd_wf_Some:
  assumes "arr_wf a" and "a_elemCount a \<noteq> a_dim a"
  shows "\<exists>b. arrayAdd M (Some a) x m = Ret (Some b, m)"
  using assms by (simp add: arrayAdd_def arr_wf_def run_simps)

text \<open>Reading the array from the start with the iterator yields its contents in order.\<close>

fun iterate :: "nat \<Rightarrow> 'a arr \<Rightarrow> ('s, 'a list) kernel" where
  "iterate 0 a = ret []"
| "iterate (Suc k) a =
     bnd (arrayGetNext (Some a)) (\<lambda>r.
       case r of None \<Rightarrow> ret []
       | Some p \<Rightarrow> bnd (iterate k (snd p)) (\<lambda>xs. ret (fst p # xs)))"

lemma contents_iter_update [simp]: "contents (a_iter_update f a) = contents a"
  by (simp add: contents_def)

lemma iterate_from:
  assumes "arr_wf a" and "unat (a_elemCount a) - unat (a_iter a) \<le> k"
  shows "iterate k a s = Ret (drop (unat (a_iter a)) (contents a), s)"
  using assms
proof (induction k arbitrary: a)
  case 0
  then show ?case by (simp add: run_simps)
next
  case (Suc k)
  show ?case
  proof (cases "unat (a_iter a) < unat (a_elemCount a)")
    case False
    then show ?thesis
      by (simp add: arrayGetNext_def arrayHasNext_def word_less_nat_alt run_simps)
  next
    case True
    then have "unat (a_iter a) < 2 ^ 16 - 1" using unsigned_less [of "a_elemCount a", where 'a = nat] by simp
    then have i: "unat (a_iter a + 1) = unat (a_iter a) + 1" by (rule unat_Suc16)
    let ?b = "a\<lparr>a_iter := a_iter a + 1\<rparr>"
    have "arr_wf ?b" using Suc.prems(1) by (simp add: arr_wf_def)
    with Suc.IH [of ?b] Suc.prems(2) i
    have "iterate k ?b s = Ret (drop (unat (a_iter a) + 1) (contents a), s)" by simp
    moreover have "drop (unat (a_iter a)) (contents a) =
        contents a ! unat (a_iter a) # drop (Suc (unat (a_iter a))) (contents a)"
      by (rule Cons_nth_drop_Suc [symmetric]) (simp add: True)
    ultimately show ?thesis
      using True by (simp add: getElemByIndex_wf [OF Suc.prems(1)] arrayGetNext_def arrayHasNext_def
          word_less_nat_alt run_simps)
  qed
qed

end
