(* ===== verification/CLib.thy ===== *)
theory CLib
  imports Memory_Manager
begin

text \<open>
  The kernel's string and memory routines: src/TP2-SO-2025/Kernel/strings.c and
  src/TP2-SO-2025/Kernel/lib.c. A \<open>char\<close> buffer is the list of its bytes; a C string is the
  part of a buffer before its first NUL. Reading or writing past a buffer is \<open>None\<close>, a null
  argument is the inner \<open>None\<close> of an option.
\<close>

section \<open>Strings\<close>

abbreviation NUL :: char where
  "NUL \<equiv> CHR 0x00"

fun strlen :: "char list \<Rightarrow> nat option" where
  "strlen [] = None"
| "strlen (c # cs) = (if c = NUL then Some 0 else map_option Suc (strlen cs))"

text \<open>The copy loop of \<open>my_strcpy\<close> and of the second loop of \<open>catenate\<close>, at index \<open>i\<close>
  of the destination.\<close>

fun copy_loop :: "nat \<Rightarrow> char list \<Rightarrow> char list \<Rightarrow> char list option" where
  "copy_loop i dest [] = None"
| "copy_loop i dest (c # cs) =
     (if length dest \<le> i then None
      else if c = NUL then Some (dest[i := NUL])
      else copy_loop (i + 1) (dest[i := c]) cs)"

definition my_strcpy :: "char list \<Rightarrow> char list \<Rightarrow> char list option" where
  "my_strcpy dest src = copy_loop 0 dest src"

definition catenate :: "char list option \<Rightarrow> char list option \<Rightarrow> char list option option" where
  "catenate dest src =
     (case dest of None \<Rightarrow> Some None
      | Some d \<Rightarrow> (case src of None \<Rightarrow> Some dest
          | Some s \<Rightarrow> (case strlen d of None \<Rightarrow> None
              | Some i \<Rightarrow> map_option Some (copy_loop i d s))))"

fun strcmp_loop :: "char list \<Rightarrow> char list \<Rightarrow> int option" where
  "strcmp_loop (a # as) (b # bs) =
     (if a \<noteq> NUL \<and> a = b then strcmp_loop as bs else Some (of_char a - of_char b))"
| "strcmp_loop _ _ = None"

definition my_strcmp :: "char list option \<Rightarrow> char list option \<Rightarrow> int option" where
  "my_strcmp str1 str2 =
     (case (str1, str2) of
        (None, None) \<Rightarrow> Some 0
      | (None, Some _) \<Rightarrow> Some (- 1)
      | (Some _, None) \<Rightarrow> Some 1
      | (Some a, Some b) \<Rightarrow> strcmp_loop a b)"

section \<open>Numbers\<close>

text \<open>The two loops of \<open>num_to_str\<close>: counting the digits, then storing them from the right.\<close>

fun num_len :: "nat \<Rightarrow> nat" where
  "num_len aux = (if aux = 0 then 0 else Suc (num_len (aux div 10)))"

fun fill_digits :: "nat \<Rightarrow> nat \<Rightarrow> nat \<Rightarrow> char list \<Rightarrow> char list" where
  "fill_digits num i len ans =
     (if num = 0 then ans
      else fill_digits (num div 10) (i + 1) len (ans[len - i - 2 := char_of (48 + num mod 10)]))"

declare num_len.simps [simp del] fill_digits.simps [simp del]

text \<open>The allocation of the longer form is not checked: a null block is written to. \<open>junk\<close>
  is the byte the fresh block is filled with.\<close>

definition num_to_str :: "'m mm \<Rightarrow> char \<Rightarrow> nat \<Rightarrow> ('m, (addr \<times> char list) option) kernel" where
  "num_to_str M junk num =
     (if num = 0 then
        bnd (mm_alloc_op M 2) (\<lambda>edge.
        if edge = null then ret None else ret (Some (edge, [CHR ''0'', NUL])))
      else
        let len = num_len num + 1 in
        bnd (mm_alloc_op M len) (\<lambda>ans.
        if ans = null then halt Fault
        else ret (Some (ans, (fill_digits num 0 len (replicate len junk))[len - 1 := NUL]))))"

section \<open>Memory blocks\<close>

text \<open>Memory as a map from byte addresses to bytes. \<open>memset\<close> counts the length down.\<close>

type_synonym bytes = "addr \<Rightarrow> u8"

fun memset :: "addr \<Rightarrow> int \<Rightarrow> nat \<Rightarrow> bytes \<Rightarrow> bytes" where
  "memset destination c 0 b = b"
| "memset destination c (Suc n) b =
     memset destination c n (b(destination + n := word_of_int c))"

text \<open>The two branches of \<open>memcpy\<close>: \<open>k\<close> more words, or \<open>k\<close> more bytes, from index \<open>i\<close>.\<close>

definition load32 :: "bytes \<Rightarrow> addr \<Rightarrow> u8 list" where
  "load32 b a = map (\<lambda>k. b (a + k)) [0..<4]"

definition store32 :: "bytes \<Rightarrow> addr \<Rightarrow> u8 list \<Rightarrow> bytes" where
  "store32 b a w = (\<lambda>x. if a \<le> x \<and> x < a + 4 then w ! (x - a) else b x)"

fun copy_words :: "nat \<Rightarrow> nat \<Rightarrow> addr \<Rightarrow> addr \<Rightarrow> bytes \<Rightarrow> bytes" where
  "copy_words 0 i d s b = b"
| "copy_words (Suc k) i d s b = copy_words k (i + 1) d s (store32 b (d + 4 * i) (load32 b (s + 4 * i)))"

fun copy_bytes :: "nat \<Rightarrow> nat \<Rightarrow> addr \<Rightarrow> addr \<Rightarrow> bytes \<Rightarrow> bytes" where
  "copy_bytes 0 i d s b = b"
| "copy_bytes (Suc k) i d s b = copy_bytes k (i + 1) d s (b(d + i := b (s + i)))"

definition memcpy :: "addr \<Rightarrow> addr \<Rightarrow> nat \<Rightarrow> bytes \<Rightarrow> bytes" where
  "memcpy destination source n b =
     (if destination mod 4 = 0 \<and> source mod 4 = 0 \<and> n mod 4 = 0
      then copy_words (n div 4) 0 destination source b
      else copy_bytes n 0 destination source b)"

section \<open>Facts about strings\<close>

definition is_cstr :: "char list \<Rightarrow> string \<Rightarrow> bool" where
  "is_cstr buf s \<longleftrightarrow> NUL \<notin> set s \<and> (\<exists>rest. buf = s @ NUL # rest)"

lemma strlen_cstr: "is_cstr buf s \<Longrightarrow> strlen buf = Some (length s)"
proof (induction s arbitrary: buf)
  case (Cons c s)
  then obtain rest where "buf = c # (s @ NUL # rest)" by (auto simp: is_cstr_def)
  with Cons show ?case by (auto simp: is_cstr_def)
qed (auto simp: is_cstr_def)

lemma copy_loop_cstr:
  assumes "NUL \<notin> set s" and "length pre + length s < length (pre @ dest)"
  shows "copy_loop (length pre) (pre @ dest) (s @ NUL # rest) =
           Some (pre @ s @ NUL # drop (length s + 1) dest)"
  using assms
proof (induction s arbitrary: pre dest)
  case Nil
  then show ?case by (cases dest) simp_all
next
  case (Cons c s)
  from Cons.prems obtain d ds where dest: "dest = d # ds" by (cases dest) auto
  have "copy_loop (length (pre @ [c])) ((pre @ [c]) @ ds) (s @ NUL # rest) =
      Some ((pre @ [c]) @ s @ NUL # drop (length s + 1) ds)"
    by (rule Cons.IH) (use Cons.prems dest in auto)
  moreover have "c \<noteq> NUL" using Cons.prems(1) by auto
  ultimately show ?case using Cons.prems dest by simp
qed

lemma strcpy_cstr:
  assumes "is_cstr src s" and "length s < length dest"
  shows "\<exists>d. my_strcpy dest src = Some d \<and> is_cstr d s \<and> length d = length dest"
  using assms copy_loop_cstr [of s "[]" dest] by (auto simp: my_strcpy_def is_cstr_def)

lemma catenate_cstr:
  assumes "is_cstr d a" and "is_cstr src s" and "length a + length s < length d"
  shows "\<exists>r. catenate (Some d) (Some src) = Some (Some r) \<and> is_cstr r (a @ s) \<and> length r = length d"
proof -
  from assms(1) obtain rest where d: "d = a @ NUL # rest" by (auto simp: is_cstr_def)
  from assms(2) obtain t where src: "src = s @ NUL # t" and s: "NUL \<notin> set s" by (auto simp: is_cstr_def)
  have "copy_loop (length a) (a @ NUL # rest) (s @ NUL # t) =
      Some (a @ s @ NUL # drop (length s + 1) (NUL # rest))"
    by (rule copy_loop_cstr) (use s assms(3) d in auto)
  moreover have "strlen (a @ NUL # rest) = Some (length a)" using strlen_cstr [OF assms(1)] d by simp
  ultimately show ?thesis using assms(1,3) s d src by (simp add: catenate_def is_cstr_def)
qed

lemma strcmp_loop_cstr:
  assumes "is_cstr x a" and "is_cstr y b"
  shows "\<exists>r. strcmp_loop x y = Some r \<and> (r = 0 \<longleftrightarrow> a = b)"
  using assms
proof (induction a arbitrary: x y b)
  case Nil
  then obtain t where x: "x = NUL # t" by (auto simp: is_cstr_def)
  from Nil obtain c u where y: "y = c # u" and c: "c = NUL \<longleftrightarrow> b = []"
    by (cases b) (auto simp: is_cstr_def)
  have "(of_char c = (0 :: int)) = (c = NUL)"
    using of_char_eq_iff [of c NUL, where 'a = int] by simp
  with x y c show ?case by auto
next
  case (Cons a as)
  then obtain t where x: "x = a # t" and t: "is_cstr t as" and a: "a \<noteq> NUL" by (auto simp: is_cstr_def)
  from Cons.prems obtain c u where y: "y = c # u" by (cases y) (auto simp: is_cstr_def)
  show ?case
  proof (cases "c = a")
    case True
    with a Cons.prems(2) y obtain bs where b: "b = a # bs" and u: "is_cstr u bs"
      by (cases b) (auto simp: is_cstr_def)
    from Cons.IH [OF t u] x y b True a show ?thesis by auto
  next
    case False
    moreover have "b \<noteq> a # as" using False Cons.prems(2) y by (auto simp: is_cstr_def)
    moreover have "(of_char a - of_char c = (0 :: int)) = (a = c)" by simp
    ultimately show ?thesis using x y by auto
  qed
qed

section \<open>Facts about numbers\<close>

text \<open>The value of a decimal string, most significant digit first.\<close>

definition dec_value :: "string \<Rightarrow> nat" where
  "dec_value s = foldl (\<lambda>n c. 10 * n + (of_char c - 48)) 0 s"

definition is_digit :: "char \<Rightarrow> bool" where
  "is_digit c \<longleftrightarrow> of_char c \<in> {48..57 :: nat}"

text \<open>The digits of a number, as the loop stores them.\<close>

fun digits :: "nat \<Rightarrow> string" where
  "digits n = (if n = 0 then [] else digits (n div 10) @ [char_of (48 + n mod 10)])"

declare digits.simps [simp del]

lemma length_digits: "length (digits n) = num_len n"
  by (induction n rule: digits.induct) (subst digits.simps, subst num_len.simps, simp)

lemma of_char_digit: "d < 10 \<Longrightarrow> (of_char (char_of (48 + d) :: char) :: nat) = 48 + d"
  by simp

lemma digits_is_digit: "c \<in> set (digits n) \<Longrightarrow> is_digit c"
proof (induction n rule: digits.induct)
  case (1 n)
  then show ?case
  proof (cases "n = 0")
    case False
    with "1.prems" have "c \<in> set (digits (n div 10)) \<or> c = char_of (48 + n mod 10)"
      by (subst (asm) digits.simps) auto
    moreover have "is_digit (char_of (48 + n mod 10))"
      unfolding is_digit_def by (subst of_char_digit) auto
    ultimately show ?thesis using "1.IH" False by auto
  qed (simp add: digits.simps)
qed

lemma digits_no_NUL: "NUL \<notin> set (digits n)"
  using digits_is_digit [of NUL n] by (auto simp: is_digit_def)

lemma dec_value_digits: "dec_value (digits n) = n"
proof (induction n rule: digits.induct)
  case (1 n)
  show ?case
  proof (cases "n = 0")
    case False
    then have "digits n = digits (n div 10) @ [char_of (48 + n mod 10)]" by (subst digits.simps) simp
    then have "dec_value (digits n) = 10 * dec_value (digits (n div 10)) + n mod 10"
      by (simp add: dec_value_def of_char_digit)
    with "1.IH" False show ?thesis by simp
  qed (simp add: digits.simps dec_value_def)
qed

lemma digits_inj: "digits n = digits k \<Longrightarrow> n = k"
  by (metis dec_value_digits)

lemma fill_digits_suffix:
  assumes "num_len num \<le> length pre" and "len = length pre + length post + 1" and "i = length post"
  shows "fill_digits num i len (pre @ post @ [x]) =
           take (length pre - num_len num) pre @ digits num @ post @ [x]"
  using assms
proof (induction num i len "pre @ post @ [x]" arbitrary: pre post rule: fill_digits.induct)
  case (1 num i len)
  show ?case
  proof (cases "num = 0")
    case True
    then show ?thesis by (simp add: fill_digits.simps digits.simps num_len.simps)
  next
    case False
    then have nl: "num_len num = Suc (num_len (num div 10))" by (subst num_len.simps) simp
    with 1(2) obtain p y where pre: "pre = p @ [y]" by (cases pre rule: rev_cases) auto
    let ?d = "char_of (48 + num mod 10) :: char"
    have idx: "len - i - 2 = length p" using 1(3,4) pre by simp
    have upd: "(pre @ post @ [x])[len - i - 2 := ?d] = p @ (?d # post) @ [x]"
      unfolding idx pre by (simp add: list_update_append)
    have "fill_digits num i len (pre @ post @ [x]) =
        fill_digits (num div 10) (i + 1) len (p @ (?d # post) @ [x])"
      using False upd by (subst fill_digits.simps) simp
    also have "\<dots> = take (length p - num_len (num div 10)) p @ digits (num div 10) @ (?d # post) @ [x]"
      by (rule 1(1) [OF False upd]) (use 1(2-4) nl pre in auto)
    also have "\<dots> = take (length pre - num_len num) pre @ digits num @ post @ [x]"
      using False nl pre by (subst (2) digits.simps) simp
    finally show ?thesis .
  qed
qed

lemma num_to_str_buffer:
  assumes "num \<noteq> 0"
  shows "(fill_digits num 0 (num_len num + 1) (replicate (num_len num + 1) junk))[num_len num := NUL] =
           digits num @ [NUL]"
proof -
  have "replicate (num_len num + 1) junk = replicate (num_len num) junk @ [] @ [junk]"
    by (simp add: replicate_append_same)
  then have "fill_digits num 0 (num_len num + 1) (replicate (num_len num + 1) junk) = digits num @ [junk]"
    using fill_digits_suffix [of num "replicate (num_len num) junk" "num_len num + 1" "[]" 0 junk] by simp
  then show ?thesis using length_digits [of num] by (metis list_update_length)
qed

definition dec :: "nat \<Rightarrow> string" where
  "dec num = (if num = 0 then ''0'' else digits num)"

lemma dec_value_dec: "dec_value (dec n) = n"
  by (simp add: dec_def dec_value_digits) (simp add: dec_value_def)

lemma dec_inj: "dec n = dec k \<longleftrightarrow> n = k"
  by (metis dec_value_dec)

lemma dec_no_NUL: "NUL \<notin> set (dec n)"
  by (simp add: dec_def digits_no_NUL)

lemma num_to_str_result:
  "num_to_str M junk num m = Ret (Some (a, buf), m') \<Longrightarrow> a \<noteq> null \<and> buf = dec num @ [NUL]"
  using num_to_str_buffer [of num junk]
  by (auto simp: num_to_str_def dec_def Let_def run_simps split: outcome.splits if_splits)

lemma num_to_str_returns:
  assumes "mm_alloc_op M (if num = 0 then 2 else num_len num + 1) m = Ret (a, m')" and "a \<noteq> null"
  shows "num_to_str M junk num m = Ret (Some (a, dec num @ [NUL]), m')"
  using assms num_to_str_buffer [of num junk] by (cases "num = 0") (simp_all add: num_to_str_def dec_def run_simps)

lemma dec_is_digit: "c \<in> set (dec n) \<Longrightarrow> is_digit c"
  using digits_is_digit [of c n] by (auto simp: dec_def is_digit_def split: if_splits)

section \<open>Facts about memory blocks\<close>

lemma memset_spec:
  "memset d c n b = (\<lambda>x. if d \<le> x \<and> x < d + n then word_of_int c else b x)"
  by (induction n arbitrary: b) (auto simp: fun_eq_iff)

lemma copy_bytes_spec:
  assumes "s + i + k \<le> d \<or> d + i + k \<le> s \<or> d \<le> s"
  shows "copy_bytes k i d s b = (\<lambda>x. if d + i \<le> x \<and> x < d + i + k then b (s + (x - d)) else b x)"
  using assms
proof (induction k arbitrary: i b)
  case (Suc k)
  let ?b = "b(d + i := b (s + i))"
  have "copy_bytes k (i + 1) d s ?b =
      (\<lambda>x. if d + (i + 1) \<le> x \<and> x < d + (i + 1) + k then ?b (s + (x - d)) else ?b x)"
    by (rule Suc.IH) (use Suc.prems in auto)
  moreover have "?b (s + (x - d)) = b (s + (x - d))" if "d + (i + 1) \<le> x" "x < d + (i + 1) + k" for x
    using Suc.prems that by auto
  ultimately show ?case by (auto simp: fun_eq_iff)
qed (auto simp: fun_eq_iff)

lemma store_load32:
  "store32 b d (load32 b s) = (\<lambda>x. if d \<le> x \<and> x < d + 4 then b (s + (x - d)) else b x)"
  by (auto simp: store32_def load32_def fun_eq_iff)

lemma copy_words_spec:
  assumes "s + 4 * i + 4 * k \<le> d \<or> d + 4 * i + 4 * k \<le> s \<or> d + 4 \<le> s \<or> d = s"
  shows "copy_words k i d s b =
    (\<lambda>x. if d + 4 * i \<le> x \<and> x < d + 4 * i + 4 * k then b (s + (x - d)) else b x)"
  using assms
proof (induction k arbitrary: i b)
  case (Suc k)
  let ?b = "store32 b (d + 4 * i) (load32 b (s + 4 * i))"
  have b: "?b x = (if d + 4 * i \<le> x \<and> x < d + 4 * i + 4 then b (s + (x - d)) else b x)" for x
    by (auto simp: store_load32 intro!: arg_cong [of _ _ b])
  have rest: "copy_words k (i + 1) d s ?b x =
      (if d + 4 * (i + 1) \<le> x \<and> x < d + 4 * (i + 1) + 4 * k then ?b (s + (x - d)) else ?b x)" for x
    by (subst Suc.IH) (use Suc.prems in auto)
  have tail: "?b (s + (x - d)) = b (s + (x - d))"
    if "d + 4 * (i + 1) \<le> x" "x < d + 4 * (i + 1) + 4 * k" for x
  proof (cases "d = s")
    case False
    then have "\<not> (d + 4 * i \<le> s + (x - d) \<and> s + (x - d) < d + 4 * i + 4)"
      using Suc.prems that by auto
    then show ?thesis by (simp only: b if_False)
  qed (use that b [of "s + (x - d)"] in auto)
  show ?case
  proof (rule ext)
    fix x
    show "copy_words (Suc k) i d s b x =
        (if d + 4 * i \<le> x \<and> x < d + 4 * i + 4 * Suc k then b (s + (x - d)) else b x)"
      using rest [of x] tail [of x] b [of x] by auto
  qed
qed (auto simp: fun_eq_iff)

lemma memcpy_spec:
  assumes "s + n \<le> d \<or> d + n \<le> s"
  shows "memcpy d s n b = (\<lambda>x. if d \<le> x \<and> x < d + n then b (s + (x - d)) else b x)"
proof (cases "d mod 4 = 0 \<and> s mod 4 = 0 \<and> n mod 4 = 0")
  case True
  then have "4 * (n div 4) = n" by auto
  with True assms copy_words_spec [of s 0 "n div 4" d b] show ?thesis by (auto simp: memcpy_def)
next
  case False
  with assms copy_bytes_spec [of s 0 n d b] show ?thesis by (auto simp: memcpy_def)
qed

section \<open>Properties\<close>

text \<open>
  \<open>num_to_str\<close> returns, whatever the fresh block contained, a NUL-terminated buffer whose
  digits have exactly the value of the number; two numbers never share a name.
\<close>

theorem num_to_str_roundtrip:
  assumes "mm_alloc_op M (if num = 0 then 2 else num_len num + 1) m = Ret (a, m')" and "a \<noteq> null"
  shows "\<exists>buf s. num_to_str M junk num m = Ret (Some (a, buf), m') \<and> is_cstr buf s \<and>
    length buf = (if num = 0 then 2 else num_len num + 1) \<and> dec_value s = num \<and> (\<forall>c\<in>set s. is_digit c)"
  using num_to_str_returns [OF assms, of junk] dec_value_dec [of num] dec_no_NUL [of num] dec_is_digit [of _ num]
  by (intro exI [of _ "dec num @ [NUL]"] exI [of _ "dec num"]) (auto simp: is_cstr_def dec_def length_digits)

definition bump_mm :: "nat mm" where
  "bump_mm = \<lparr>mm_alloc_op = (\<lambda>n m. Ret (m, m + n)), mm_free_op = (\<lambda>_ m. Ret ((), m))\<rparr>"

theorem num_to_str_roundtrip_witness:
  "\<exists>buf s. num_to_str bump_mm (CHR ''x'') 108 64 = Ret (Some (64, buf), 68) \<and> is_cstr buf s \<and>
    length buf = 4 \<and> dec_value s = 108 \<and> list_all is_digit s"
  using num_to_str_roundtrip [of bump_mm 108 64 64 68 "CHR ''x''"]
  by (auto simp: bump_mm_def num_len.simps list_all_iff)

text \<open>
  Either branch of \<open>memcpy\<close>, word-wise or byte-wise, is the plain copy of \<open>n\<close> bytes when
  the blocks do not overlap: the bytes of the source arrive in order and nothing else changes.
\<close>

theorem memcpy_copies:
  assumes "s + n \<le> d \<or> d + n \<le> s"
  shows "memcpy d s n b = (\<lambda>x. if d \<le> x \<and> x < d + n then b (s + (x - d)) else b x)"
  by (rule memcpy_spec [OF assms])

theorem memcpy_copies_witness:
  "memcpy 64 32 8 (\<lambda>x. of_nat x) 70 = 38 \<and> memcpy 64 32 8 (\<lambda>x. of_nat x) 72 = 72"
  using memcpy_copies [of 32 8 64 "\<lambda>x. of_nat x"] by simp

end
