(* ===== verification/Kernel_State.thy ===== *)
theory Kernel_State
  imports Queue Array CLib
begin

text \<open>
  The state the kernel components share: process control blocks, ready queues, semaphores and
  pipes. Objects that C reaches through pointers are partial maps from addresses, so that a
  freed object is an address without a value and using it is a fault. Blocks come from the
  memory manager, whose own state is the field \<open>mem\<close>; every operation takes the pair of
  manager operations as its first argument.
\<close>

section \<open>Process control blocks\<close>

datatype proc_state = READY | RUNNING | BLOCKED | TERMINATED

record process =
  p_pid :: int
  p_ppid :: int
  p_state :: proc_state
  p_argc :: int
  p_argv :: addr
  p_rsp :: nat
  p_stackBase :: addr
  p_rip :: addr
  p_priority :: int
  p_original_priority :: int
  p_quantum_remaining :: int
  p_wait_ticks :: int
  p_ground :: int
  p_rbp :: nat
  p_targetByFd :: "u8 list"
  p_children :: "int list"
  p_child_count :: int

definition sizeof_Process :: nat where "sizeof_Process = 216"
definition PROCESS_STACK_SIZE :: nat where "PROCESS_STACK_SIZE = 8192"
definition MAX_PROCESSES :: nat where "MAX_PROCESSES = 64"
definition MAX_CHILDREN :: nat where "MAX_CHILDREN = 32"
definition MIN_PRIORITY :: int where "MIN_PRIORITY = 0"
definition MAX_PRIORITY :: int where "MAX_PRIORITY = 3"
definition DEFAULT_PRIORITY :: int where "DEFAULT_PRIORITY = 0"
definition DEFAULT_QUANTUM :: int where "DEFAULT_QUANTUM = 1"
definition INIT_PID :: int where "INIT_PID = 1"
definition AGING_THRESHOLD :: int where "AGING_THRESHOLD = 50"
definition AGING_BOOST :: int where "AGING_BOOST = 1"

section \<open>Semaphores and pipes\<close>

record sem =
  s_name :: string
  s_value :: u16
  s_lock :: bool
  s_users :: u16
  s_blocked :: "int queue option"

record semQueue =
  r_addr :: addr
  r_lock :: bool
  r_sems :: "addr queue option"

record pipe =
  pi_id :: u8
  pi_buffer :: "nat \<Rightarrow> u8"
  pi_idxToRead :: nat
  pi_idxToWrite :: nat
  pi_waitingToRead :: bool
  pi_waitingToWrite :: bool
  pi_canRead :: addr
  pi_canWrite :: addr
  pi_attached :: u8
  pi_readers :: u16
  pi_writers :: u16
  pi_exp_readers :: u8
  pi_exp_writers :: u8

section \<open>The kernel state\<close>

text \<open>
  \<open>junk\<close>, \<open>junk_argv\<close> and \<open>junk_pipe\<close> are what allocations find in the memory of a new control
  block, a new argument vector and a new pipe: the code leaves some fields unset, and theorems
  hold for every value of these. \<open>cpu_rsp\<close> is the stack pointer of the interrupted context, the argument
  and the result of \<open>schedule\<close> in the timer handler.
\<close>

record 'm kst =
  mem :: 'm
  procs :: "addr \<Rightarrow> process option"
  argvs :: "addr \<Rightarrow> addr list option"
  strs :: "addr \<Rightarrow> string option"
  junk :: "nat \<Rightarrow> process"
  junk_argv :: "nat \<Rightarrow> addr"
  junk_pipe :: pipe
  process_table :: "addr list"
  process_priority_table :: "addr queue option arr option"
  running_process :: addr
  idle_proc :: addr
  shell_proc :: addr
  scheduler_online :: bool
  cpu_rsp :: nat
  registry :: "semQueue option"
  sems :: "addr \<Rightarrow> sem option"
  pipeStorage :: "addr arr option"
  pipes :: "addr \<Rightarrow> pipe option"
  nextId :: int

definition on_mem :: "('m, 'a) kernel \<Rightarrow> ('m kst, 'a) kernel" where
  "on_mem = zoom mem (\<lambda>m s. s\<lparr>mem := m\<rparr>)"

lemma wp_on_mem [simp]: "wp E (on_mem c) Q = (\<lambda>s. wp E c (\<lambda>x m. Q x (s\<lparr>mem := m\<rparr>)) (mem s))"
  by (simp add: on_mem_def)

lemma run_on_mem [run_simps]:
  "on_mem c s = (case c (mem s) of Ret p \<Rightarrow> Ret (fst p, s\<lparr>mem := snd p\<rparr>) | Stop e \<Rightarrow> Stop e)"
  by (simp add: on_mem_def run_zoom)

definition mm_alloc :: "'m mm \<Rightarrow> nat \<Rightarrow> ('m kst, addr) kernel" where
  "mm_alloc M n = on_mem (mm_alloc_op M n)"

definition mm_free :: "'m mm \<Rightarrow> addr \<Rightarrow> ('m kst, unit) kernel" where
  "mm_free M a = on_mem (mm_free_op M a)"

text \<open>Access to a control block: \<open>p->field\<close> and \<open>p->field = v\<close>.\<close>

definition get_proc :: "addr \<Rightarrow> ('m kst, process) kernel" where
  "get_proc = deref procs"

definition upd_proc :: "addr \<Rightarrow> (process \<Rightarrow> process) \<Rightarrow> ('m kst, unit) kernel" where
  "upd_proc a f = bnd (get_proc a) (\<lambda>p. upd (\<lambda>s. s\<lparr>procs := (procs s)(a \<mapsto> f p)\<rparr>))"

lemma wp_get_proc [simp]:
  "wp E (get_proc a) Q = (\<lambda>s. case procs s a of None \<Rightarrow> E Fault | Some p \<Rightarrow> Q p s)"
  by (simp add: get_proc_def)

lemma wp_upd_proc [simp]:
  "wp E (upd_proc a f) Q =
     (\<lambda>s. case procs s a of None \<Rightarrow> E Fault | Some p \<Rightarrow> Q () (s\<lparr>procs := (procs s)(a \<mapsto> f p)\<rparr>))"
  by (simp add: upd_proc_def)

lemma run_get_proc [run_simps]:
  "get_proc a s = (case procs s a of None \<Rightarrow> Stop Fault | Some p \<Rightarrow> Ret (p, s))"
  by (simp add: get_proc_def run_deref)

lemma run_upd_proc [run_simps]:
  "upd_proc a f s =
     (case procs s a of None \<Rightarrow> Stop Fault | Some p \<Rightarrow> Ret ((), s\<lparr>procs := (procs s)(a \<mapsto> f p)\<rparr>))"
  by (simp add: upd_proc_def run_simps split: option.split)

section \<open>Counting loops\<close>

fun for_each :: "'a list \<Rightarrow> ('a \<Rightarrow> ('s, unit) kernel) \<Rightarrow> ('s, unit) kernel" where
  "for_each [] f = ret ()"
| "for_each (x # xs) f = sq (f x) (for_each xs f)"

lemma wp_for_each:
  assumes "I s" and "\<And>x s. x \<in> set xs \<Longrightarrow> I s \<Longrightarrow> wp E (f x) (\<lambda>_. I) s"
  shows "wp E (for_each xs f) (\<lambda>_. I) s"
  using assms
proof (induction xs arbitrary: s)
  case (Cons x xs)
  have "wp E (f x) (\<lambda>_. I) s" by (rule Cons.prems) (auto simp: Cons.prems)
  moreover have "wp E (for_each xs f) (\<lambda>_. I) t" if "I t" for t
    by (rule Cons.IH) (use that Cons.prems in auto)
  ultimately show ?case by (auto elim!: wp_mono)
qed simp

section \<open>Process table lookup\<close>

text \<open>\<open>get_process\<close> of process.c; a table shorter than \<open>MAX_PROCESSES\<close> does not occur.\<close>

definition get_process :: "int \<Rightarrow> ('m kst, addr) kernel" where
  "get_process pid =
     (if pid < 0 \<or> pid \<ge> int MAX_PROCESSES then ret null
      else gets (\<lambda>s. process_table s ! nat pid))"

definition get_current_process :: "('m kst, addr) kernel" where
  "get_current_process = gets running_process"

text \<open>
  A call that may lose the processor returns \<open>Done\<close> with its value, or \<open>Suspended\<close> when the
  caller was switched out before the end; the code it has still to run is then the routine's
  \<open>_resume\<close> definition.
\<close>

datatype 'a cont = Done 'a | Suspended

end
