(* ===== verification/Scheduler.thy ===== *)
theory Scheduler
  imports Kernel_State
begin

text \<open>
  The scheduler, src/TP2-SO-2025/Kernel/scheduler.c: four ready queues in an array, aging, and
  the choice of the next process.
\<close>

section \<open>Ready queues\<close>

text \<open>\<open>compareProcesses\<close> dereferences both control blocks.\<close>

definition compareProcesses :: "'m kst \<Rightarrow> addr \<Rightarrow> addr \<Rightarrow> int option" where
  "compareProcesses s a b =
     (case (procs s a, procs s b) of (Some procA, Some procB) \<Rightarrow> Some (p_pid procA - p_pid procB) | _ \<Rightarrow> None)"

text \<open>The queue behind the table entry of a priority, and the entry after the queue behind it
  was changed in place through a pointer.\<close>

definition rq :: "'m kst \<Rightarrow> int \<Rightarrow> addr queue option" where
  "rq s priority =
     (case process_priority_table s of None \<Rightarrow> None
      | Some t \<Rightarrow> (case a_cells t (nat priority) of None \<Rightarrow> None | Some q \<Rightarrow> q))"

definition put_rq :: "int \<Rightarrow> addr queue option \<Rightarrow> 'm kst \<Rightarrow> 'm kst" where
  "put_rq priority q s =
     s\<lparr>process_priority_table :=
        map_option (\<lambda>t. t\<lparr>a_cells := (a_cells t)(nat priority \<mapsto> q)\<rparr>) (process_priority_table s)\<rparr>"

definition get_priority_queue :: "int \<Rightarrow> ('m kst, addr queue option) kernel" where
  "get_priority_queue priority =
     bnd (gets process_priority_table) (\<lambda>t.
     if priority < MIN_PRIORITY \<or> priority > MAX_PRIORITY \<or> t = None then ret None
     else bnd (getElemByIndex t (word_of_int priority)) (\<lambda>r.
       case r of None \<Rightarrow> ret None | Some queue \<Rightarrow> ret queue))"

definition set_priority_queue :: "int \<Rightarrow> addr queue option \<Rightarrow> ('m kst, int) kernel" where
  "set_priority_queue priority queue =
     bnd (gets process_priority_table) (\<lambda>t.
     if priority < MIN_PRIORITY \<or> priority > MAX_PRIORITY \<or> t = None then ret (- 1)
     else (case setElemByIndex t (word_of_int priority) queue of
             None \<Rightarrow> ret (- 1)
           | Some t' \<Rightarrow> sq (upd (\<lambda>s. s\<lparr>process_priority_table := Some t'\<rparr>)) (ret 0)))"

text \<open>\<open>queueRemove(priority_queue, &p)\<close> on the queue of a table entry.\<close>

definition remove_from_queue :: "'m mm \<Rightarrow> int \<Rightarrow> addr \<Rightarrow> ('m kst, unit) kernel" where
  "remove_from_queue M priority p =
     bnd (gets (\<lambda>s. rq s priority)) (\<lambda>q.
     bnd (gets compareProcesses) (\<lambda>cmp.
     bnd (on_mem (queueRemove M (Some cmp) q p)) (\<lambda>r.
     case r of None \<Rightarrow> ret () | Some q' \<Rightarrow> upd (put_rq priority (Some q')))))"

definition remove_from_all_priority_queues :: "'m mm \<Rightarrow> addr \<Rightarrow> ('m kst, unit) kernel" where
  "remove_from_all_priority_queues M p =
     (if p = null then ret ()
      else bnd (get_proc p) (\<lambda>pc.
        bnd (get_priority_queue (p_priority pc)) (\<lambda>priority_queue.
        if priority_queue \<noteq> None then remove_from_queue M (p_priority pc) p else ret ())))"

definition add_to_scheduler :: "'m mm \<Rightarrow> addr \<Rightarrow> ('m kst, unit) kernel" where
  "add_to_scheduler M p =
     bnd (gets idle_proc) (\<lambda>idle.
     if p = null \<or> p = idle then ret ()
     else sq (upd_proc p (\<lambda>pc. pc\<lparr>p_state := READY\<rparr>))
       (bnd (get_proc p) (\<lambda>pc.
        bnd (get_priority_queue (p_priority pc)) (\<lambda>priority_queue.
        if priority_queue = None then halt (Panic ''Priority queue not found'')
        else bnd (on_mem (enqueue M priority_queue p)) (\<lambda>q'.
             sq (set_priority_queue (p_priority pc) q') (ret ()))))))"

definition remove_process_from_scheduler :: "'m mm \<Rightarrow> addr \<Rightarrow> ('m kst, unit) kernel" where
  "remove_process_from_scheduler M p =
     bnd (gets idle_proc) (\<lambda>idle.
     if p = null \<or> p = idle then ret ()
     else sq (remove_from_all_priority_queues M p)
       (upd (\<lambda>s. if running_process s = p then s\<lparr>running_process := null\<rparr> else s)))"

section \<open>Aging\<close>

definition aging_boost :: "'m mm \<Rightarrow> int \<Rightarrow> addr \<Rightarrow> ('m kst, unit) kernel" where
  "aging_boost M priority p =
     sq (upd_proc p (\<lambda>pc. pc\<lparr>p_priority := MAX_PRIORITY\<rparr>))
     (sq (remove_from_queue M priority p)
     (bnd (get_priority_queue MAX_PRIORITY) (\<lambda>new_priority_queue.
      if new_priority_queue = None then halt (Panic ''Failed to create new priority queue'')
      else bnd (on_mem (enqueue M new_priority_queue p)) (\<lambda>q'.
           sq (set_priority_queue MAX_PRIORITY q')
           (upd_proc p (\<lambda>pc. pc\<lparr>p_wait_ticks := 0\<rparr>))))))"

text \<open>One round of the \<open>while\<close> loop: \<open>continue\<close> goes back to the iterator, and only the end
  of the body asks whether the iterator is back at the head.\<close>

definition aging_step :: "'m mm \<Rightarrow> int \<Rightarrow> unit \<Rightarrow> ('m kst, unit + unit) kernel" where
  "aging_step M priority _ =
     bnd (gets (\<lambda>s. queueNextCyclicIter (rq s priority))) (\<lambda>nxt.
     case nxt of
       Inl e \<Rightarrow> halt e
     | Inr None \<Rightarrow> ret (Inr ())
     | Inr (Some (p, q')) \<Rightarrow>
         sq (upd (put_rq priority (Some q')))
         (if p = null then ret (Inr ())
          else bnd (get_proc p) (\<lambda>pc.
            bnd (gets idle_proc) (\<lambda>idle.
            if p_state pc \<noteq> READY \<or> p = idle then ret (Inl ())
            else sq (upd_proc p (\<lambda>pc. pc\<lparr>p_wait_ticks := p_wait_ticks pc + 1\<rparr>))
              (sq (if p_wait_ticks pc + 1 \<ge> AGING_THRESHOLD then aging_boost M priority p else ret ())
              (bnd (gets (\<lambda>s. queueCyclicIterLooped (rq s priority))) (\<lambda>looped.
               ret (if looped then Inr () else Inl ()))))))))"

definition age_queue :: "'m mm \<Rightarrow> int \<Rightarrow> ('m kst, unit) kernel" where
  "age_queue M priority =
     bnd (get_priority_queue priority) (\<lambda>priority_queue.
     if priority_queue = None \<or> queueIsEmpty priority_queue then ret ()
     else sq (upd (\<lambda>s. case queueBeginCyclicIter priority_queue of
                       None \<Rightarrow> s | Some q' \<Rightarrow> put_rq priority (Some q') s))
       (loop (aging_step M priority) ()))"

definition apply_aging :: "'m mm \<Rightarrow> ('m kst, unit) kernel" where
  "apply_aging M = for_each [MIN_PRIORITY..MAX_PRIORITY - AGING_BOOST] (age_queue M)"

definition reset_aging :: "addr \<Rightarrow> ('m kst, unit) kernel" where
  "reset_aging p =
     bnd (gets idle_proc) (\<lambda>idle.
     if p = null \<or> p = idle then ret () else upd_proc p (\<lambda>pc. pc\<lparr>p_wait_ticks := 0\<rparr>))"

section \<open>Choosing the next process\<close>

text \<open>One round of the inner loop of \<open>schedule\<close>; \<open>null\<close> is \<open>next == NULL\<close>.\<close>

definition pick_step :: "'m mm \<Rightarrow> int \<Rightarrow> unit \<Rightarrow> ('m kst, unit + addr) kernel" where
  "pick_step M priority _ =
     bnd (gets (\<lambda>s. rq s priority)) (\<lambda>q.
     if queueIsEmpty q then ret (Inr null)
     else bnd (on_mem (dequeue M q)) (\<lambda>r.
       case r of None \<Rightarrow> ret (Inr null)
       | Some (nxt, q') \<Rightarrow>
           sq (upd (put_rq priority (Some q')))
           (bnd (get_proc nxt) (\<lambda>pc.
            bnd (gets idle_proc) (\<lambda>idle.
            if p_state pc = TERMINATED then ret (Inl ())
            else if nxt \<noteq> null \<and> p_state pc = READY \<and> nxt \<noteq> idle then ret (Inr nxt)
            else ret (Inl ()))))))"

definition pick_from :: "'m mm \<Rightarrow> int \<Rightarrow> ('m kst, addr) kernel" where
  "pick_from M priority =
     bnd (get_priority_queue priority) (\<lambda>priority_queue.
     if priority_queue = None \<or> queueIsEmpty priority_queue then ret null
     else loop (pick_step M priority) ())"

fun pick_next :: "'m mm \<Rightarrow> int list \<Rightarrow> ('m kst, addr) kernel" where
  "pick_next M [] = ret null"
| "pick_next M (priority # rest) =
     bnd (pick_from M priority) (\<lambda>nxt. if nxt = null then pick_next M rest else ret nxt)"

definition run_idle :: "('m kst, nat) kernel" where
  "run_idle =
     bnd (gets idle_proc) (\<lambda>idle.
     sq (upd_proc idle (\<lambda>pc. pc\<lparr>p_state := RUNNING\<rparr>))
     (sq (upd (\<lambda>s. s\<lparr>running_process := idle\<rparr>))
     (bnd (get_proc idle) (\<lambda>pc. ret (p_rsp pc)))))"

definition dispatch :: "'m mm \<Rightarrow> ('m kst, nat) kernel" where
  "dispatch M =
     bnd (pick_next M (rev [MIN_PRIORITY..MAX_PRIORITY])) (\<lambda>nxt.
     if nxt = null then run_idle
     else bnd (get_proc nxt) (\<lambda>pc.
       if p_state pc \<noteq> READY then run_idle
       else sq (upd_proc nxt (\<lambda>pc. pc\<lparr>p_state := RUNNING, p_quantum_remaining := DEFAULT_QUANTUM\<rparr>))
         (sq (upd (\<lambda>s. s\<lparr>running_process := nxt\<rparr>))
         (sq (reset_aging nxt)
         (bnd (gets idle_proc) (\<lambda>idle.
          if nxt \<noteq> idle \<and> (p_rsp pc < p_stackBase pc \<or> p_rsp pc \<ge> p_stackBase pc + PROCESS_STACK_SIZE)
          then run_idle else ret (p_rsp pc)))))))"

text \<open>What \<open>schedule\<close> does with the interrupted process. The result says whether it keeps
  the processor.\<close>

definition retire :: "'m mm \<Rightarrow> nat \<Rightarrow> addr \<Rightarrow> ('m kst, bool) kernel" where
  "retire M current_rsp running =
     sq (upd_proc running (\<lambda>pc. pc\<lparr>p_rsp := current_rsp\<rparr>))
     (bnd (get_proc running) (\<lambda>pc.
      if p_state pc = TERMINATED \<or> p_state pc = BLOCKED
      then sq (upd (\<lambda>s. s\<lparr>running_process := null\<rparr>)) (ret False)
      else if p_state pc = RUNNING then
        sq (upd_proc running (\<lambda>pc. pc\<lparr>p_quantum_remaining := p_quantum_remaining pc - 1\<rparr>))
        (if p_quantum_remaining pc - 1 > 0 then ret True
         else sq (upd_proc running (\<lambda>pc. pc\<lparr>p_quantum_remaining := DEFAULT_QUANTUM, p_state := READY\<rparr>))
              (sq (add_to_scheduler M running) (ret False)))
      else ret False))"

definition schedule :: "'m mm \<Rightarrow> nat \<Rightarrow> ('m kst, nat) kernel" where
  "schedule M current_rsp =
     bnd (gets scheduler_online) (\<lambda>online.
     if \<not> online then ret current_rsp
     else sq (apply_aging M)
       (bnd (gets running_process) (\<lambda>running.
        bnd (if running = null then ret False else retire M current_rsp running) (\<lambda>stays.
        if stays then ret current_rsp else dispatch M))))"

section \<open>Blocking\<close>

text \<open>\<open>_force_scheduler_interrupt\<close> raises the timer interrupt, whose handler calls
  \<open>schedule\<close> with the stack pointer and continues on the one it returns.\<close>

definition force_scheduler_interrupt :: "'m mm \<Rightarrow> ('m kst, unit) kernel" where
  "force_scheduler_interrupt M =
     bnd (gets cpu_rsp) (\<lambda>rsp.
     bnd (schedule M rsp) (\<lambda>rsp'. upd (\<lambda>s. s\<lparr>cpu_rsp := rsp'\<rparr>)))"

definition unblock_process :: "'m mm \<Rightarrow> addr \<Rightarrow> ('m kst, int) kernel" where
  "unblock_process M p =
     bnd (gets idle_proc) (\<lambda>idle.
     if p = null \<or> p = idle then ret (- 1)
     else bnd (get_proc p) (\<lambda>pc.
       if p_pid pc = 1 \<or> p_state pc \<noteq> BLOCKED then ret (- 1)
       else sq (upd_proc p (\<lambda>pc. pc\<lparr>p_state := READY\<rparr>))
            (sq (add_to_scheduler M p) (ret 0))))"

text \<open>\<open>block_process\<close>: when the caller blocks itself the forced interrupt switches to another
  process, and the state returned is the one in which that process continues.\<close>

definition block_process :: "'m mm \<Rightarrow> addr \<Rightarrow> ('m kst, int) kernel" where
  "block_process M p =
     bnd (gets idle_proc) (\<lambda>idle.
     if p = null \<or> p = idle then ret (- 1)
     else bnd (get_proc p) (\<lambda>pc.
       if p_pid pc = 1 \<or> p_state pc = BLOCKED \<or> p_state pc = TERMINATED then ret (- 1)
       else sq (remove_from_all_priority_queues M p)
         (sq (upd_proc p (\<lambda>pc. pc\<lparr>p_state := BLOCKED\<rparr>))
         (sq (reset_aging p)
         (bnd (gets running_process) (\<lambda>running.
          if running = p then sq (force_scheduler_interrupt M) (ret 0) else ret 0))))))"

definition get_running_pid :: "('m kst, int) kernel" where
  "get_running_pid =
     bnd (gets running_process) (\<lambda>running.
     if running \<noteq> null then bnd (get_proc running) (\<lambda>pc. ret (p_pid pc)) else ret (- 1))"

text \<open>The part of \<open>init_scheduler\<close> that builds the table of ready queues.\<close>

definition add_ready_queue :: "'m mm \<Rightarrow> int \<Rightarrow> ('m kst, unit) kernel" where
  "add_ready_queue M priority =
     bnd (on_mem (createQueue M 8)) (\<lambda>priority_queue.
     if priority_queue = None then halt (Panic ''Failed to create priority queue'')
     else bnd (gets process_priority_table) (\<lambda>t.
       bnd (on_mem (arrayAdd M t priority_queue)) (\<lambda>t'.
       sq (upd (\<lambda>s. s\<lparr>process_priority_table := t'\<rparr>))
       (if t' = None then halt (Panic ''Failed to add queue to priority table'') else ret ()))))"

definition init_ready_queues :: "'m mm \<Rightarrow> u16 \<Rightarrow> ('m kst, unit) kernel" where
  "init_ready_queues M junk_iter =
     bnd (on_mem (createArray M junk_iter 8)) (\<lambda>t.
     sq (upd (\<lambda>s. s\<lparr>process_priority_table := t\<rparr>))
     (if t = None then halt (Panic ''Failed to create process priority table'')
      else for_each [MIN_PRIORITY..MAX_PRIORITY] (add_ready_queue M)))"

end
