(* ===== verification/Sem.thy ===== *)
theory Sem
  imports Scheduler
begin

text \<open>
  Named semaphores, src/TP2-SO-2025/Kernel/sem.c: a registry of semaphores, each with a value,
  a user count and a queue of blocked pids. The spin locks of sem.asm are booleans; taking a
  lock that is already held never returns, because no other code runs until it is free.
  Semaphore names are the characters before the NUL; \<open>my_strcmp\<close> is then equality
  (\<open>strcmp_loop_cstr\<close> of theory CLib).
\<close>

section \<open>Access and locks\<close>

definition MAX_SEM_LENGTH :: nat where "MAX_SEM_LENGTH = 32"
definition sizeof_sem :: nat where "sizeof_sem = 48"
definition sizeof_semQueue :: nat where "sizeof_semQueue = 16"

definition get_sem :: "addr \<Rightarrow> ('m kst, sem) kernel" where
  "get_sem = deref sems"

definition upd_sem :: "addr \<Rightarrow> (sem \<Rightarrow> sem) \<Rightarrow> ('m kst, unit) kernel" where
  "upd_sem a f = bnd (get_sem a) (\<lambda>sm. upd (\<lambda>s. s\<lparr>sems := (sems s)(a \<mapsto> f sm)\<rparr>))"

definition get_registry :: "('m kst, semQueue) kernel" where
  "get_registry = (\<lambda>s. case registry s of None \<Rightarrow> Stop Fault | Some r \<Rightarrow> Ret (r, s))"

definition upd_registry :: "(semQueue \<Rightarrow> semQueue) \<Rightarrow> ('m kst, unit) kernel" where
  "upd_registry f = upd (\<lambda>s. s\<lparr>registry := map_option f (registry s)\<rparr>)"

definition semLock :: "addr \<Rightarrow> ('m kst, unit) kernel" where
  "semLock a = bnd (get_sem a) (\<lambda>sm. if s_lock sm then halt Diverge else upd_sem a (\<lambda>sm. sm\<lparr>s_lock := True\<rparr>))"

definition semUnlock :: "addr \<Rightarrow> ('m kst, unit) kernel" where
  "semUnlock a = upd_sem a (\<lambda>sm. sm\<lparr>s_lock := False\<rparr>)"

definition lock_registry :: "('m kst, unit) kernel" where
  "lock_registry =
     bnd get_registry (\<lambda>r. if r_lock r then halt Diverge else upd_registry (\<lambda>r. r\<lparr>r_lock := True\<rparr>))"

definition unlock_registry :: "('m kst, unit) kernel" where
  "unlock_registry = bnd get_registry (\<lambda>_. upd_registry (\<lambda>r. r\<lparr>r_lock := False\<rparr>))"

definition compare_process_ids :: "int \<Rightarrow> int \<Rightarrow> int option" where
  "compare_process_ids a b = Some (a - b)"

definition compare_semaphore_pointers :: "addr \<Rightarrow> addr \<Rightarrow> int option" where
  "compare_semaphore_pointers a b = Some (if a < b then - 1 else if a > b then 1 else 0)"

section \<open>The registry\<close>

definition initSemQueue :: "'m mm \<Rightarrow> ('m kst, int) kernel" where
  "initSemQueue M =
     bnd (gets registry) (\<lambda>r.
     if r \<noteq> None then halt (Panic ''Semaphore queue already initialized'')
     else bnd (mm_alloc M sizeof_semQueue) (\<lambda>a.
       if a = null then halt (Panic ''Failed to allocate memory for semaphore queue'')
       else bnd (on_mem (createQueue M 8)) (\<lambda>q.
         sq (upd (\<lambda>s. s\<lparr>registry := Some \<lparr>r_addr = a, r_lock = False, r_sems = q\<rparr>\<rparr>))
         (ret (if q = None then - 1 else 1)))))"

text \<open>One round of the loop of \<open>freeSemQueue\<close>.\<close>

definition free_sem_step :: "'m mm \<Rightarrow> unit \<Rightarrow> ('m kst, unit + unit) kernel" where
  "free_sem_step M _ =
     bnd get_registry (\<lambda>r.
     if queueSize (r_sems r) = 0 then ret (Inr ())
     else bnd (on_mem (dequeue M (r_sems r))) (\<lambda>d.
       case d of None \<Rightarrow> ret (Inl ())
       | Some (entry, q') \<Rightarrow>
           sq (upd_registry (\<lambda>r. r\<lparr>r_sems := Some q'\<rparr>))
           (if entry = null then ret (Inl ())
            else bnd (get_sem entry) (\<lambda>sm.
              sq (on_mem (queueFree M (s_blocked sm)))
              (sq (mm_free M entry)
              (sq (upd (\<lambda>s. s\<lparr>sems := (sems s)(entry := None)\<rparr>)) (ret (Inl ()))))))))"

definition freeSemQueue :: "'m mm \<Rightarrow> ('m kst, unit) kernel" where
  "freeSemQueue M =
     bnd (gets registry) (\<lambda>r.
     if r = None then ret ()
     else sq lock_registry
       (sq (bnd get_registry (\<lambda>r.
              if r_sems r = None then ret ()
              else sq (loop (free_sem_step M) ())
                   (bnd get_registry (\<lambda>r. on_mem (queueFree M (r_sems r))))))
       (sq unlock_registry
       (bnd get_registry (\<lambda>r.
        sq (mm_free M (r_addr r)) (upd (\<lambda>s. s\<lparr>registry := None\<rparr>)))))))"

text \<open>The loop of \<open>locate_semaphore_by_name\<close>: \<open>cand\<close> is the variable the iterator fills.\<close>

fun locate_scan :: "'m kst \<Rightarrow> string \<Rightarrow> nat \<Rightarrow> addr \<Rightarrow> addr queue \<Rightarrow> stop + (addr \<times> addr queue)" where
  "locate_scan s name 0 cand q = Inr (null, q)"
| "locate_scan s name (Suc k) cand q =
     (case queueNextCyclicIter (Some q) of
        Inl e \<Rightarrow> Inl e
      | Inr r \<Rightarrow>
          let (cand', q') = (case r of None \<Rightarrow> (cand, q) | Some (x, q1) \<Rightarrow> (x, q1))
          in if cand' = null then locate_scan s name k cand' q'
             else (case sems s cand' of
                     None \<Rightarrow> Inl Fault
                   | Some sm \<Rightarrow> if s_name sm = name then Inr (cand', q')
                                else locate_scan s name k cand' q'))"

definition locate_semaphore_by_name :: "string \<Rightarrow> ('m kst, addr) kernel" where
  "locate_semaphore_by_name name =
     bnd get_registry (\<lambda>r.
     case r_sems r of None \<Rightarrow> ret null
     | Some q \<Rightarrow>
         if queueSize (Some q) = 0 then ret null
         else let q0 = (case queueBeginCyclicIter (Some q) of None \<Rightarrow> q | Some q' \<Rightarrow> q')
              in bnd (gets (\<lambda>s. locate_scan s name (queueSize (Some q)) null q0)) (\<lambda>res.
                 case res of Inl e \<Rightarrow> halt e
                 | Inr (found, q') \<Rightarrow> sq (upd_registry (\<lambda>r. r\<lparr>r_sems := Some q'\<rparr>)) (ret found)))"

definition is_semaphore_valid :: "'m mm \<Rightarrow> addr \<Rightarrow> ('m kst, bool) kernel" where
  "is_semaphore_valid M target =
     bnd (gets registry) (\<lambda>r.
     if target = null \<or> r = None then ret False
     else sq lock_registry
       (bnd get_registry (\<lambda>r.
        bnd (on_mem (queueElementExists M compare_semaphore_pointers (r_sems r) target)) (\<lambda>res.
        sq (upd_registry (\<lambda>r. r\<lparr>r_sems := Some (snd res)\<rparr>))
        (sq unlock_registry (ret (fst res)))))))"

section \<open>Opening and closing\<close>

definition semOpen_new :: "'m mm \<Rightarrow> string \<Rightarrow> u16 \<Rightarrow> ('m kst, addr) kernel" where
  "semOpen_new M name val =
     bnd (mm_alloc M sizeof_sem) (\<lambda>new.
     if new = null then sq unlock_registry (ret null)
     else bnd (on_mem (createQueue M 4)) (\<lambda>blocked.
       if blocked = None then sq (mm_free M new) (sq unlock_registry (ret null))
       else sq (upd (\<lambda>s. s\<lparr>sems := (sems s)(new \<mapsto> \<lparr>s_name = name, s_value = val, s_lock = False,
                                              s_users = 1, s_blocked = blocked\<rparr>)\<rparr>))
         (bnd get_registry (\<lambda>r.
          bnd (on_mem (enqueue M (r_sems r) new)) (\<lambda>q'.
          sq (upd_registry (\<lambda>r. if q' = None then r else r\<lparr>r_sems := q'\<rparr>))
          (sq unlock_registry (ret new)))))))"

definition semOpen :: "'m mm \<Rightarrow> string option \<Rightarrow> u16 \<Rightarrow> ('m kst, addr) kernel" where
  "semOpen M name val =
     (case name of None \<Rightarrow> ret null
      | Some nm \<Rightarrow>
          if length nm \<ge> MAX_SEM_LENGTH then ret null
          else bnd (gets registry) (\<lambda>r.
            if r = None then ret null
            else sq lock_registry
              (bnd get_registry (\<lambda>r.
               bnd (if queueIsEmpty (r_sems r) then ret null else locate_semaphore_by_name nm) (\<lambda>existing.
               if existing \<noteq> null then
                 sq (semLock existing)
                 (sq (upd_sem existing (\<lambda>sm. sm\<lparr>s_users := s_users sm + 1\<rparr>))
                 (sq (semUnlock existing)
                 (sq unlock_registry (ret existing))))
               else semOpen_new M nm val)))))"

definition semClose :: "'m mm \<Rightarrow> addr \<Rightarrow> ('m kst, int) kernel" where
  "semClose M target =
     bnd (gets registry) (\<lambda>r.
     if r = None then ret (- 1)
     else bnd (is_semaphore_valid M target) (\<lambda>valid.
       if \<not> valid then ret (- 1)
       else sq lock_registry
         (sq (semLock target)
         (sq (upd_sem target (\<lambda>sm. sm\<lparr>s_users := s_users sm - 1\<rparr>))
         (bnd (get_sem target) (\<lambda>sm.
          if s_users sm \<noteq> 0 then sq (semUnlock target) (sq unlock_registry (ret 0))
          else bnd get_registry (\<lambda>r.
            bnd (on_mem (queueRemove M (Some compare_semaphore_pointers) (r_sems r) target)) (\<lambda>q'.
            if q' = None then
              sq (upd_sem target (\<lambda>sm. sm\<lparr>s_users := s_users sm + 1\<rparr>))
              (sq (semUnlock target) (sq unlock_registry (ret (- 1))))
            else
              sq (upd_registry (\<lambda>r. r\<lparr>r_sems := q'\<rparr>))
              (sq (on_mem (queueFree M (s_blocked sm)))
              (sq (upd_sem target (\<lambda>sm. sm\<lparr>s_blocked := None\<rparr>))
              (sq (semUnlock target)
              (sq (mm_free M target)
              (sq (upd (\<lambda>s. s\<lparr>sems := (sems s)(target := None)\<rparr>))
              (sq unlock_registry (ret 0)))))))))))))))"

section \<open>Post and wait\<close>

definition semPost_locked :: "'m mm \<Rightarrow> addr \<Rightarrow> ('m kst, int) kernel" where
  "semPost_locked M target =
     sq (semLock target)
     (bnd (get_sem target) (\<lambda>sm.
      bnd (if queueSize (s_blocked sm) > 0 then
             bnd (on_mem (dequeue M (s_blocked sm))) (\<lambda>d.
             case d of None \<Rightarrow> ret (- 1)
             | Some (unblocked_pid, q') \<Rightarrow>
                 sq (upd_sem target (\<lambda>sm. sm\<lparr>s_blocked := Some q'\<rparr>))
                 (bnd (get_process unblocked_pid) (\<lambda>p.
                  if p \<noteq> null then sq (unblock_process M p) (ret 0) else ret 0)))
           else sq (upd_sem target (\<lambda>sm. sm\<lparr>s_value := s_value sm + 1\<rparr>)) (ret 0)) (\<lambda>result.
      sq (semUnlock target) (ret result))))"

definition semPost :: "'m mm \<Rightarrow> addr \<Rightarrow> ('m kst, int) kernel" where
  "semPost M target =
     bnd (gets registry) (\<lambda>r.
     if r = None then ret (- 1)
     else bnd (is_semaphore_valid M target) (\<lambda>valid.
       if \<not> valid then ret (- 1) else semPost_locked M target))"

text \<open>The caller of a blocking wait continues in \<open>semWait_resume\<close> once it runs again.\<close>

definition semWait_locked :: "'m mm \<Rightarrow> addr \<Rightarrow> ('m kst, int cont) kernel" where
  "semWait_locked M target =
     sq (semLock target)
     (bnd (get_sem target) (\<lambda>sm.
      if s_value sm = 0 then
        bnd get_current_process (\<lambda>current.
        if current = null then sq (semUnlock target) (ret (Done (- 1)))
        else bnd (get_proc current) (\<lambda>pc.
          bnd (on_mem (enqueue M (s_blocked sm) (p_pid pc))) (\<lambda>q'.
          case q' of None \<Rightarrow> sq (semUnlock target) (ret (Done (- 1)))
          | Some q \<Rightarrow>
              sq (upd_sem target (\<lambda>sm. sm\<lparr>s_blocked := Some q\<rparr>))
              (sq (semUnlock target)
              (bnd (block_process M current) (\<lambda>blocked.
               if blocked = 0 then ret Suspended
               else sq (force_scheduler_interrupt M) (ret (Done 0))))))))
      else sq (upd_sem target (\<lambda>sm. sm\<lparr>s_value := s_value sm - 1\<rparr>))
           (sq (semUnlock target) (ret (Done 0)))))"

definition semWait :: "'m mm \<Rightarrow> addr \<Rightarrow> ('m kst, int cont) kernel" where
  "semWait M target =
     bnd (gets registry) (\<lambda>r.
     if r = None then ret (Done (- 1))
     else bnd (is_semaphore_valid M target) (\<lambda>valid.
       if \<not> valid then ret (Done (- 1)) else semWait_locked M target))"

definition semWait_resume :: "'m mm \<Rightarrow> ('m kst, int) kernel" where
  "semWait_resume M = sq (force_scheduler_interrupt M) (ret 0)"

section \<open>Queries\<close>

definition sem_query :: "'m mm \<Rightarrow> (sem \<Rightarrow> int) \<Rightarrow> addr \<Rightarrow> ('m kst, int) kernel" where
  "sem_query M f target =
     bnd (gets registry) (\<lambda>r.
     if r = None then ret (- 1)
     else bnd (is_semaphore_valid M target) (\<lambda>valid.
       if \<not> valid then ret (- 1)
       else sq (semLock target)
         (bnd (get_sem target) (\<lambda>sm. sq (semUnlock target) (ret (f sm))))))"

definition semGetValue :: "'m mm \<Rightarrow> addr \<Rightarrow> ('m kst, int) kernel" where
  "semGetValue M = sem_query M (\<lambda>sm. uint (s_value sm))"

definition semGetUsersCount :: "'m mm \<Rightarrow> addr \<Rightarrow> ('m kst, int) kernel" where
  "semGetUsersCount M = sem_query M (\<lambda>sm. uint (s_users sm))"

definition semGetBlockedProcessesCount :: "'m mm \<Rightarrow> addr \<Rightarrow> ('m kst, int) kernel" where
  "semGetBlockedProcessesCount M = sem_query M (\<lambda>sm. int (queueSize (s_blocked sm)))"

definition removeFromSemaphore :: "'m mm \<Rightarrow> addr \<Rightarrow> int \<Rightarrow> ('m kst, int) kernel" where
  "removeFromSemaphore M target pid =
     (if target = null then ret (- 1)
      else sq (semLock target)
        (bnd (get_sem target) (\<lambda>sm.
         bnd (on_mem (queueRemove M (Some compare_process_ids) (s_blocked sm) pid)) (\<lambda>q'.
         sq (upd_sem target (\<lambda>sm. if q' = None then sm else sm\<lparr>s_blocked := q'\<rparr>))
         (sq (semUnlock target) (ret (if q' = None then - 1 else 1)))))))"

end
