(* ===== verification/Scheduler_Correct.thy ===== *)
theory Scheduler_Correct
  imports Scheduler "HOL-Library.Multiset"
begin

text \<open>
  Correctness of the scheduler. The ready queues are seen as four lists of control blocks
  (\<open>ready\<close>); \<open>heap\<close> is the representation invariant that ties them to the queues of the
  priority table and to the memory manager. The lemmas of the context \<open>memory_room\<close> state
  what each routine does to the lists and the control blocks, for any manager with a reserve
  for the queue nodes the routine needs.
\<close>

section \<open>The priority table\<close>

definition table_wf :: "'m kst \<Rightarrow> bool" where
  "table_wf s \<longleftrightarrow> (\<exists>t. process_priority_table s = Some t \<and> a_base t \<noteq> null \<and> a_elemCount t = 4 \<and>
     (\<forall>i<4. a_cells t i \<noteq> None))"

abbreviation is_prio :: "int \<Rightarrow> bool" where
  "is_prio pr \<equiv> 0 \<le> pr \<and> pr \<le> 3"

lemma is_prio_cases: "is_prio pr \<Longrightarrow> pr = 0 \<or> pr = 1 \<or> pr = 2 \<or> pr = 3"
  by auto

lemma prio_index:
  "is_prio pr \<Longrightarrow> unat (word_of_int pr :: u16) = nat pr \<and> nat pr < 4 \<and> \<not> (word_of_int pr :: u16) \<ge> 4"
  using is_prio_cases [of pr] by (auto simp: word_le_nat_alt)

lemma get_priority_queue_run [run_simps]:
  assumes "table_wf s" and "is_prio pr"
  shows "get_priority_queue pr s = Ret (rq s pr, s)"
proof -
  from assms(1) obtain t where t: "process_priority_table s = Some t" "a_base t \<noteq> null"
    "a_elemCount t = 4" "\<forall>i<4. a_cells t i \<noteq> None" by (auto simp: table_wf_def)
  with prio_index [OF assms(2)] obtain q where "a_cells t (nat pr) = Some q" by blast
  with t prio_index [OF assms(2)] assms(2) show ?thesis
    by (simp add: get_priority_queue_def getElemByIndex_def rq_def run_simps MIN_PRIORITY_def MAX_PRIORITY_def)
qed

lemma set_priority_queue_run [run_simps]:
  assumes "table_wf s" and "is_prio pr"
  shows "set_priority_queue pr q s = Ret (0, put_rq pr q s)"
  using assms prio_index [OF assms(2)]
  by (auto simp: set_priority_queue_def setElemByIndex_def table_wf_def put_rq_def run_simps
      MIN_PRIORITY_def MAX_PRIORITY_def)

lemma rq_put_rq:
  "table_wf s \<Longrightarrow> is_prio pr \<Longrightarrow> is_prio pr' \<Longrightarrow> rq (put_rq pr q s) pr' = (if pr' = pr then q else rq s pr')"
  by (auto simp: rq_def put_rq_def table_wf_def)

lemma table_wf_put_rq [simp]: "table_wf s \<Longrightarrow> table_wf (put_rq pr q s)"
  by (auto simp: table_wf_def put_rq_def)

lemma put_rq_fields [simp]:
  "mem (put_rq pr q s) = mem s" "procs (put_rq pr q s) = procs s" "argvs (put_rq pr q s) = argvs s"
  "strs (put_rq pr q s) = strs s" "junk (put_rq pr q s) = junk s" "junk_argv (put_rq pr q s) = junk_argv s"
  "junk_pipe (put_rq pr q s) = junk_pipe s" "process_table (put_rq pr q s) = process_table s"
  "running_process (put_rq pr q s) = running_process s" "idle_proc (put_rq pr q s) = idle_proc s"
  "shell_proc (put_rq pr q s) = shell_proc s" "scheduler_online (put_rq pr q s) = scheduler_online s"
  "cpu_rsp (put_rq pr q s) = cpu_rsp s" "registry (put_rq pr q s) = registry s"
  "sems (put_rq pr q s) = sems s" "pipeStorage (put_rq pr q s) = pipeStorage s"
  "pipes (put_rq pr q s) = pipes s" "nextId (put_rq pr q s) = nextId s"
  by (simp_all add: put_rq_def)

lemma rq_cong [simp]:
  "rq (mem_update f s) = rq s" "rq (procs_update g s) = rq s" "rq (running_process_update h s) = rq s"
  "rq (cpu_rsp_update h s) = rq s"
  by (simp_all add: rq_def fun_eq_iff)

lemma table_wf_cong [simp]:
  "table_wf (mem_update f s) = table_wf s" "table_wf (procs_update g s) = table_wf s"
  "table_wf (running_process_update h s) = table_wf s" "table_wf (cpu_rsp_update h s) = table_wf s"
  by (simp_all add: table_wf_def)

section \<open>Ready lists and their representation\<close>

definition ready :: "'m kst \<Rightarrow> int \<Rightarrow> addr list" where
  "ready s pr = (case rq s pr of None \<Rightarrow> [] | Some q \<Rightarrow> vals q)"

definition queues :: "'m kst \<Rightarrow> addr queue list" where
  "queues s = map (\<lambda>pr. the (rq s pr)) [0, 1, 2, 3]"

definition q_ok :: "addr queue \<Rightarrow> bool" where
  "q_ok q \<longleftrightarrow> elemCount q = length (q_nodes q) \<and> dataSize q = 8"

text \<open>\<open>heap rk k s R\<close>: the queues are in place, the manager has a reserve of \<open>k\<close> requests, and its
  live blocks outside the ready queues are \<open>R\<close>.\<close>

definition heap :: "(nat \<Rightarrow> 'm \<Rightarrow> (addr \<rightharpoonup> nat) \<Rightarrow> bool) \<Rightarrow> nat \<Rightarrow> 'm kst \<Rightarrow> (addr \<rightharpoonup> nat) \<Rightarrow> bool" where
  "heap rk k s R \<longleftrightarrow> table_wf s \<and> (\<forall>pr. is_prio pr \<longrightarrow> (\<exists>q. rq s pr = Some q \<and> q_ok q)) \<and>
     (\<exists>L. rk k (mem s) L \<and> owned L (queues s) \<and> rest_of L (queues s) = R)"

lemma heap_rq: "heap rk k s R \<Longrightarrow> is_prio pr \<Longrightarrow> \<exists>q. rq s pr = Some q \<and> q_ok q \<and> ready s pr = vals q"
  by (auto simp: heap_def ready_def)

lemma heap_table [simp]: "heap rk k s R \<Longrightarrow> table_wf s"
  by (simp add: heap_def)

lemma heap_cong [simp]:
  "heap rk k (procs_update g s) R = heap rk k s R"
  "heap rk k (running_process_update h s) R = heap rk k s R"
  "heap rk k (cpu_rsp_update h s) R = heap rk k s R"
  by (simp_all add: heap_def queues_def)

lemma ready_cong [simp]:
  "ready (mem_update f s) = ready s" "ready (procs_update g s) = ready s"
  "ready (running_process_update h s) = ready s" "ready (cpu_rsp_update h s) = ready s"
  by (simp_all add: ready_def fun_eq_iff)

lemma queues_put:
  assumes "table_wf s" and "is_prio pr" and "rq s pr = Some q"
  shows "\<exists>pre post. queues s = pre @ q # post \<and> queues (put_rq pr (Some q') (mem_update f s)) = pre @ q' # post"
proof -
  have "queues (put_rq pr (Some q') (mem_update f s)) = map (\<lambda>pr'. the (if pr' = pr then Some q' else rq s pr')) [0, 1, 2, 3]"
    using assms(1,2) by (simp add: queues_def rq_put_rq)
  with is_prio_cases [OF assms(2)] assms(3) show ?thesis
    unfolding queues_def
    by (elim disjE) (simp_all, metis append_Nil, metis append_Nil append_Cons,
        metis append_Nil append_Cons, metis append_Nil append_Cons)
qed

lemma heap_put:
  assumes h: "heap rk k s R" and pr: "is_prio pr" and q: "rq s pr = Some q"
    and new: "\<And>L. rk k (mem s) L \<Longrightarrow> queue_owns L q \<Longrightarrow> \<exists>L'. rk j m L' \<and> frame L q L' q'" and ok: "q_ok q'"
  shows "heap rk j (put_rq pr (Some q') (s\<lparr>mem := m\<rparr>)) R"
proof -
  from h obtain L where L: "rk k (mem s) L" "owned L (queues s)" "rest_of L (queues s) = R" by (auto simp: heap_def)
  obtain pre post where qs: "queues s = pre @ q # post"
      "queues (put_rq pr (Some q') (s\<lparr>mem := m\<rparr>)) = pre @ q' # post"
    using queues_put [OF heap_table [OF h] pr q] by blast
  have "queue_owns L q" by (rule owned_queue_owns [OF L(2)]) (simp add: qs)
  from new [OF L(1) this] obtain L' where "rk j m L'" "frame L q L' q'" by blast
  with owned_frame [of L pre q post L' q'] L qs h pr ok show ?thesis
    unfolding heap_def by (auto simp: rq_put_rq)
qed

lemma ready_put:
  assumes "table_wf s" and "is_prio pr" and "is_prio pr'"
  shows "ready (put_rq pr (Some q) s) pr' = (if pr' = pr then vals q else ready s pr')"
  using assms by (simp add: ready_def rq_put_rq)

lemma heap_nodes:
  assumes "heap rk k s R" and "is_prio pr" and "rq s pr = Some q"
  shows "distinct (map n_addr (q_nodes q)) \<and> null \<notin> set (map n_addr (q_nodes q))"
proof -
  from assms(1) obtain L where L: "owned L (queues s)" by (auto simp: heap_def)
  have "q \<in> set (queues s)" using is_prio_cases [OF assms(2)] assms(3) by (auto simp: queues_def)
  from owned_distinct_addr [OF owned_queue_owns [OF L this]] show ?thesis .
qed

text \<open>Moving the iterator changes neither the values nor the memory.\<close>

lemma heap_iter:
  assumes "heap rk k s R" and "is_prio pr" and "rq s pr = Some q"
  shows "heap rk k (put_rq pr (Some (q\<lparr>cyclicIter := i\<rparr>)) s) R"
proof -
  have "heap rk k (put_rq pr (Some (q\<lparr>cyclicIter := i\<rparr>)) (s\<lparr>mem := mem s\<rparr>)) R"
  proof (rule heap_put [OF assms])
    fix L assume "rk k (mem s) L" "queue_owns L q"
    then show "\<exists>L'. rk k (mem s) L' \<and> frame L q L' (q\<lparr>cyclicIter := i\<rparr>)"
      by (intro exI [of _ L]) (simp add: frame_def cells_def queue_owns_def)
  next
    show "q_ok (q\<lparr>cyclicIter := i\<rparr>)" using assms by (auto simp: heap_def q_ok_def)
  qed
  then show ?thesis by simp
qed

section \<open>Queue operations on the ready lists\<close>

context memory_room
begin

lemma dequeue_ready:
  assumes h: "heap rk k s R" and pr: "is_prio pr" and list: "ready s pr = p # ps"
  shows "\<exists>q' m. on_mem (dequeue M (rq s pr)) s = Ret (Some (p, q'), s\<lparr>mem := m\<rparr>) \<and>
    heap rk k (put_rq pr (Some q') (s\<lparr>mem := m\<rparr>)) R \<and> vals q' = ps"
proof -
  from heap_rq [OF h pr] obtain q where q: "rq s pr = Some q" "q_ok q" "vals q = p # ps" using list by auto
  then obtain n ns where n: "q_nodes q = n # ns" "n_val n = p" "map n_val ns = ps"
    by (auto simp: vals_def)
  have run: "\<exists>q' m' L'. dequeue M (Some q) (mem s) = Ret (Some (n_val n, q'), m') \<and> rk k m' L' \<and>
      frame L q L' q' \<and> q_nodes q' = ns \<and> elemCount q' = elemCount q - 1"
    if "rk k (mem s) L" "queue_owns L q" for L
    by (rule room.dequeue_run [OF that n(1)])
  from h obtain L where L: "rk k (mem s) L" "owned L (queues s)" by (auto simp: heap_def)
  have "q \<in> set (queues s)" using is_prio_cases [OF pr] q(1) by (auto simp: queues_def)
  from run [OF L(1) owned_queue_owns [OF L(2) this]] obtain q' m where
    d: "dequeue M (Some q) (mem s) = Ret (Some (p, q'), m)" "q_nodes q' = ns" "elemCount q' = elemCount q - 1"
       "dataSize q' = dataSize q" using n(2) by (auto simp: frame_def)
  have "heap rk k (put_rq pr (Some q') (s\<lparr>mem := m\<rparr>)) R"
  proof (rule heap_put [OF h pr q(1)])
    fix L assume "rk k (mem s) L" "queue_owns L q"
    from run [OF this] d(1) show "\<exists>L'. rk k m L' \<and> frame L q L' q'" by auto
  next
    show "q_ok q'" using q(2) d n by (simp add: q_ok_def)
  qed
  with d n q(1) show ?thesis by (auto simp: run_simps vals_def)
qed

lemma enqueue_ready:
  assumes h: "heap rk (Suc (Suc k)) s R" and pr: "is_prio pr" and small: "16 \<le> small"
  shows "\<exists>q' m. on_mem (enqueue M (rq s pr) p) s = Ret (Some q', s\<lparr>mem := m\<rparr>) \<and>
    heap rk k (put_rq pr (Some q') (s\<lparr>mem := m\<rparr>)) R \<and> vals q' = ready s pr @ [p]"
proof -
  from heap_rq [OF h pr] obtain q where q: "rq s pr = Some q" "q_ok q" "ready s pr = vals q" by auto
  have sz: "sizeof_Node \<le> small" "0 < dataSize q" "dataSize q \<le> small"
    using q(2) small by (auto simp: sizeof_Node_def q_ok_def)
  note run = enqueue_room [OF _ _ sz, of k "mem s" _ p]
  from h obtain L where L: "rk (Suc (Suc k)) (mem s) L" "owned L (queues s)" by (auto simp: heap_def)
  have "q \<in> set (queues s)" using is_prio_cases [OF pr] q(1) by (auto simp: queues_def)
  from run [OF L(1) owned_queue_owns [OF L(2) this]] obtain q' m a d where
    e: "enqueue M (Some q) p (mem s) = Ret (Some q', m)" "elemCount q' = elemCount q + 1"
       "q_nodes q' = q_nodes q @ [\<lparr>n_addr = a, n_data = d, n_val = p\<rparr>]" "dataSize q' = dataSize q"
    by (auto simp: frame_def)
  have "heap rk k (put_rq pr (Some q') (s\<lparr>mem := m\<rparr>)) R"
  proof (rule heap_put [OF h pr q(1)])
    fix L assume "rk (Suc (Suc k)) (mem s) L" "queue_owns L q"
    from run [OF this] e(1) show "\<exists>L'. rk k m L' \<and> frame L q L' q'" by auto
  next
    show "q_ok q'" using q(2) e by (simp add: q_ok_def)
  qed
  with e q show ?thesis by (auto simp: run_simps vals_def)
qed

end

section \<open>Aging as a specification\<close>

text \<open>What one aging round does to a waiting process, and which processes it promotes.\<close>

definition age_proc :: "process \<Rightarrow> process" where
  "age_proc pc = (if p_wait_ticks pc + 1 \<ge> AGING_THRESHOLD
     then pc\<lparr>p_priority := MAX_PRIORITY, p_wait_ticks := 0\<rparr>
     else pc\<lparr>p_wait_ticks := p_wait_ticks pc + 1\<rparr>)"

definition due :: "(addr \<Rightarrow> process option) \<Rightarrow> addr \<Rightarrow> bool" where
  "due ps a = (case ps a of None \<Rightarrow> False | Some pc \<Rightarrow> p_wait_ticks pc + 1 \<ge> AGING_THRESHOLD)"

definition age_all :: "addr set \<Rightarrow> (addr \<Rightarrow> process option) \<Rightarrow> addr \<Rightarrow> process option" where
  "age_all A ps = (\<lambda>a. if a \<in> A then map_option age_proc (ps a) else ps a)"

text \<open>
  One queue. When its first process is due it is promoted and the round ends there, because the
  iterator then stands at the new head; otherwise the whole queue ages and the due processes
  move to the end of the top queue in order.
\<close>

definition age_list :: "int \<Rightarrow> (int \<Rightarrow> addr list) \<times> (addr \<Rightarrow> process option) \<Rightarrow>
    (int \<Rightarrow> addr list) \<times> (addr \<Rightarrow> process option)" where
  "age_list pr st = (case st of (rd, ps) \<Rightarrow>
     (case rd pr of [] \<Rightarrow> (rd, ps)
      | a # as \<Rightarrow>
          if due ps a then (rd(pr := as, 3 := rd 3 @ [a]), age_all {a} ps)
          else (rd(pr := a # filter (\<lambda>x. \<not> due ps x) as, 3 := rd 3 @ filter (due ps) as),
                age_all (set (a # as)) ps)))"

section \<open>Aging refines the specification\<close>

text \<open>\<open>same s t\<close>: only memory, ready queues, control blocks and the running process differ.\<close>

definition same :: "'m kst \<Rightarrow> 'm kst \<Rightarrow> bool" where
  "same s t \<longleftrightarrow> t = s\<lparr>mem := mem t, process_priority_table := process_priority_table t, procs := procs t,
                     running_process := running_process t\<rparr>"

lemma same_refl: "same s s"
  by (simp add: same_def)

lemma same_trans: "same s t \<Longrightarrow> same t u \<Longrightarrow> same s u"
  by (cases s, cases t, cases u) (simp add: same_def)

lemma same_upds [simp]:
  "same s (s\<lparr>mem := m\<rparr>)" "same s (s\<lparr>procs := ps\<rparr>)" "same s (s\<lparr>running_process := r\<rparr>)" "same s (put_rq pr q s)"
  by (simp_all add: same_def put_rq_def)

lemma same_fields:
  assumes "same s t"
  shows "idle_proc t = idle_proc s" "process_table t = process_table s" "sems t = sems s" "registry t = registry s"
    "pipes t = pipes s" "pipeStorage t = pipeStorage s" "scheduler_online t = scheduler_online s" "cpu_rsp t = cpu_rsp s"
  using assms by (cases s, cases t, simp add: same_def)+

definition waiting_ok :: "'m kst \<Rightarrow> addr \<Rightarrow> bool" where
  "waiting_ok s a \<longleftrightarrow> a \<noteq> null \<and> a \<noteq> idle_proc s \<and> 
     (\<exists>pc. procs s a = Some pc \<and> p_state pc = READY \<and> is_prio (p_priority pc))"

definition pid_at :: "'m kst \<Rightarrow> addr \<Rightarrow> int" where
  "pid_at s a = p_pid (the (procs s a))"

lemma next_iter:
  assumes "distinct (map n_addr (q_nodes q))" and "null \<notin> set (map n_addr (q_nodes q))"
    and "q_nodes q = dn @ n # rs" and "cyclicIter q = n_addr n"
  shows "queueNextCyclicIter (Some q) =
    Inr (Some (n_val n, q\<lparr>cyclicIter := (case rs of [] \<Rightarrow> head_addr q | k # _ \<Rightarrow> n_addr k)\<rparr>))"
proof -
  have "node_at (q_nodes q) (n_addr n) = Some n"
    using node_at_nth [OF assms(1), of "length dn"] assms(3) by simp
  moreover have "node_next (q_nodes q) (n_addr n) = (case rs of [] \<Rightarrow> null | k # _ \<Rightarrow> n_addr k)"
    using node_next_mid [of dn n rs] assms(1,3) by simp
  moreover have "n_addr n \<noteq> null" using assms(2,3) by auto
  moreover have "n_addr k \<noteq> null" if "rs = k # ks" for k ks using assms(2,3) that by auto
  ultimately show ?thesis using assms(4)
    by (cases rs) (simp_all add: queueNextCyclicIter_def)
qed

context memory_room
begin

lemma remove_from_queue_run:
  assumes h: "heap rk k s R" and pr: "is_prio pr" and q: "rq s pr = Some q" "q_nodes q = dn @ n # rs"
    and live: "\<forall>a\<in>set (vals q). procs s a \<noteq> None"
    and pids: "\<forall>m\<in>set dn. pid_at s (n_val m) \<noteq> pid_at s (n_val n)"
  shows "\<exists>q' m. remove_from_queue M pr (n_val n) s = Ret ((), put_rq pr (Some q') (s\<lparr>mem := m\<rparr>)) \<and>
    heap rk k (put_rq pr (Some q') (s\<lparr>mem := m\<rparr>)) R \<and> q_nodes q' = dn @ rs \<and>
    cyclicIter q' = (if cyclicIter q = n_addr n then node_next (q_nodes q) (n_addr n) else cyclicIter q)"
proof -
  let ?f = "compareProcesses s" and ?x = "n_val n"
  have cmp: "?f (n_val m) ?x = Some (pid_at s (n_val m) - pid_at s ?x)" if "m \<in> set (q_nodes q)" for m
  proof -
    have "procs s (n_val m) \<noteq> None" "procs s ?x \<noteq> None" using live that q(2) by (auto simp: vals_def)
    then show ?thesis by (auto simp: compareProcesses_def pid_at_def)
  qed
  have hit: "?f (n_val n) ?x = Some 0" and miss: "\<forall>m\<in>set dn. \<exists>c. ?f (n_val m) ?x = Some c \<and> c \<noteq> 0"
    using cmp q(2) pids by auto
  note run = room.queueRemove_run [OF _ _ q(2), of k "mem s" _ ?f ?x, OF _ _ hit miss]
  from h obtain L where L: "rk k (mem s) L" "owned L (queues s)" by (auto simp: heap_def)
  have "q \<in> set (queues s)" using is_prio_cases [OF pr] q(1) by (auto simp: queues_def)
  from run [OF L(1) owned_queue_owns [OF L(2) this]] obtain q' m where
    d: "queueRemove M (Some ?f) (Some q) ?x (mem s) = Ret (Some q', m)" "q_nodes q' = dn @ rs"
       "elemCount q' = elemCount q - 1" "dataSize q' = dataSize q"
       "cyclicIter q' = (if cyclicIter q = n_addr n then node_next (q_nodes q) (n_addr n) else cyclicIter q)"
    by (auto simp: frame_def)
  have "heap rk k (put_rq pr (Some q') (s\<lparr>mem := m\<rparr>)) R"
  proof (rule heap_put [OF h pr q(1)])
    fix L assume "rk k (mem s) L" "queue_owns L q"
    from run [OF this] d(1) show "\<exists>L'. rk k m L' \<and> frame L q L' q'" by auto
  next
    show "q_ok q'" using h pr q d by (auto simp: heap_def q_ok_def)
  qed
  with d q(1) show ?thesis by (intro exI [of _ q'] exI [of _ m]) (simp add: remove_from_queue_def run_simps)
qed

lemma aging_boost_run:
  assumes h: "heap rk (Suc (Suc k)) s R" and small: "16 \<le> small" and pr: "0 \<le> pr" "pr \<le> 2"
    and q: "rq s pr = Some q" "q_nodes q = dn @ n # rs"
    and live: "\<forall>a\<in>set (vals q). procs s a \<noteq> None"
    and pids: "\<forall>m\<in>set dn. pid_at s (n_val m) \<noteq> pid_at s (n_val n)" and pc: "procs s (n_val n) = Some pc"
  shows "\<exists>q' t. aging_boost M pr (n_val n) s = Ret ((), t) \<and> heap rk k t R \<and> same s t \<and> running_process t = running_process s \<and>
    rq t pr = Some q' \<and> q_nodes q' = dn @ rs \<and>
    cyclicIter q' = (if cyclicIter q = n_addr n then node_next (q_nodes q) (n_addr n) else cyclicIter q) \<and>
    (\<forall>pr'. is_prio pr' \<longrightarrow> pr' \<noteq> pr \<longrightarrow> ready t pr' = (if pr' = 3 then ready s 3 @ [n_val n] else ready s pr')) \<and>
    procs t = (procs s)(n_val n \<mapsto> pc\<lparr>p_priority := 3, p_wait_ticks := 0\<rparr>)"
proof -
  let ?p = "n_val n"
  let ?s1 = "s\<lparr>procs := (procs s)(?p \<mapsto> pc\<lparr>p_priority := MAX_PRIORITY\<rparr>)\<rparr>"
  have prio: "is_prio pr" "is_prio 3" "pr \<noteq> 3" using pr by auto
  have h1: "heap rk (Suc (Suc k)) ?s1 R" using h by simp
  have pid1: "pid_at ?s1 a = pid_at s a" for a using pc by (simp add: pid_at_def)
  have "rq ?s1 pr = Some q" "\<forall>a\<in>set (vals q). procs ?s1 a \<noteq> None"
    "\<forall>m\<in>set dn. pid_at ?s1 (n_val m) \<noteq> pid_at ?s1 (n_val n)"
    using q live pids pid1 by (auto simp del: fun_upd_apply) (auto split: if_splits)
  from remove_from_queue_run [OF h1 prio(1) this(1) q(2) this(2,3)]
  obtain q' m where rm: "remove_from_queue M pr ?p ?s1 = Ret ((), put_rq pr (Some q') (?s1\<lparr>mem := m\<rparr>))"
    "heap rk (Suc (Suc k)) (put_rq pr (Some q') (?s1\<lparr>mem := m\<rparr>)) R" "q_nodes q' = dn @ rs"
    "cyclicIter q' = (if cyclicIter q = n_addr n then node_next (q_nodes q) (n_addr n) else cyclicIter q)"
    by auto
  let ?s2 = "put_rq pr (Some q') (?s1\<lparr>mem := m\<rparr>)"
  from enqueue_ready [OF rm(2) prio(2) small, of ?p] obtain q3 m3 where
    en: "on_mem (enqueue M (rq ?s2 3) ?p) ?s2 = Ret (Some q3, ?s2\<lparr>mem := m3\<rparr>)"
      "heap rk k (put_rq 3 (Some q3) (?s2\<lparr>mem := m3\<rparr>)) R" "vals q3 = ready ?s2 3 @ [?p]" by blast
  have wf: "table_wf ?s2" "table_wf s" using rm(2) h heap_table by blast+
  obtain q0 where q0: "rq ?s2 3 = Some q0" using heap_rq [OF rm(2) prio(2)] by auto
  let ?t = "(put_rq 3 (Some q3) (?s2\<lparr>mem := m3\<rparr>))\<lparr>procs := (procs s)(?p \<mapsto> pc\<lparr>p_priority := 3, p_wait_ticks := 0\<rparr>)\<rparr>"
  have "aging_boost M pr ?p s = Ret ((), ?t)"
    using pc rm(1) en(1) wf q0 by (simp add: aging_boost_def run_simps MAX_PRIORITY_def)
  moreover have "heap rk k ?t R" using en(2) by simp
  moreover have "same s ?t" by (simp add: same_def put_rq_def)
  moreover have "rq ?t pr = Some q'" using wf prio by (simp add: rq_put_rq)
  moreover have "ready ?t pr' = (if pr' = 3 then ready s 3 @ [?p] else ready s pr')"
    if "is_prio pr'" "pr' \<noteq> pr" for pr'
    using wf prio that en(3) by (simp add: ready_def rq_put_rq)
  ultimately show ?thesis using rm(3,4) by (intro exI [of _ q'] exI [of _ ?t]) auto
qed

end

text \<open>One round of the aging loop at the node \<open>n\<close>, with \<open>dn\<close> before it and \<open>rs\<close> after it.\<close>

definition at_node :: "'m kst \<Rightarrow> int \<Rightarrow> addr queue \<Rightarrow> addr node list \<Rightarrow> addr node \<Rightarrow> addr node list \<Rightarrow> bool" where
  "at_node s pr q dn n rs \<longleftrightarrow> 0 \<le> pr \<and> pr \<le> 2 \<and> rq s pr = Some q \<and> q_nodes q = dn @ n # rs \<and>
     cyclicIter q = n_addr n \<and> (\<forall>a\<in>set (vals q). waiting_ok s a) \<and> inj_on (pid_at s) (set (vals q)) \<and>
     distinct (vals q)"

definition age_one :: "addr \<Rightarrow> (addr \<Rightarrow> process option) \<Rightarrow> (addr \<Rightarrow> process option)" where
  "age_one p ps = ps(p := map_option age_proc (ps p))"

lemma age_proc_fields [simp]: "p_state (age_proc pc) = p_state pc" "p_pid (age_proc pc) = p_pid pc"
  by (simp_all add: age_proc_def)

lemma age_proc_prio: "is_prio (p_priority pc) \<Longrightarrow> is_prio (p_priority (age_proc pc))"
  by (simp add: age_proc_def MAX_PRIORITY_def)

lemma waiting_ok_age_one:
  "same s t \<Longrightarrow> procs t = age_one p (procs s) \<Longrightarrow> waiting_ok s a \<Longrightarrow> waiting_ok t a"
  using age_proc_prio by (cases "procs s a") (auto simp: waiting_ok_def same_fields age_one_def)

lemma pid_at_age_one:
  "procs t = age_one p (procs s) \<Longrightarrow> procs s a \<noteq> None \<Longrightarrow> pid_at t a = pid_at s a"
  by (auto simp: pid_at_def age_one_def)

lemma at_node_next:
  assumes a: "at_node s pr q dn n rs" and nodes: "distinct (map n_addr (q_nodes q))" "null \<notin> set (map n_addr (q_nodes q))"
  shows "queueNextCyclicIter (rq s pr) =
      Inr (Some (n_val n, q\<lparr>cyclicIter := (case rs of [] \<Rightarrow> head_addr q | k # _ \<Rightarrow> n_addr k)\<rparr>))"
    and "n_val n \<noteq> null" "n_val n \<noteq> idle_proc s" "\<exists>pc. procs s (n_val n) = Some pc \<and> p_state pc = READY"
proof -
  from a next_iter [OF nodes, of dn n rs]
  show "queueNextCyclicIter (rq s pr) =
      Inr (Some (n_val n, q\<lparr>cyclicIter := (case rs of [] \<Rightarrow> head_addr q | k # _ \<Rightarrow> n_addr k)\<rparr>))"
    by (simp add: at_node_def)
  have "n_val n \<in> set (vals q)" using a by (simp add: at_node_def vals_def)
  with a show "n_val n \<noteq> null" "n_val n \<noteq> idle_proc s" "\<exists>pc. procs s (n_val n) = Some pc \<and> p_state pc = READY"
    by (auto simp: at_node_def waiting_ok_def)
qed

context memory_room
begin

lemma aging_step_tick:
  assumes h: "heap rk k s R" and a: "at_node s pr q dn n rs" and nd: "\<not> due (procs s) (n_val n)"
  shows "\<exists>q' t. aging_step M pr () s = Ret (if rs = [] then Inr () else Inl (), t) \<and> heap rk k t R \<and>
    same s t \<and> running_process t = running_process s \<and> rq t pr = Some q' \<and> q_nodes q' = q_nodes q \<and>
    (rs \<noteq> [] \<longrightarrow> cyclicIter q' = n_addr (hd rs)) \<and>
    (\<forall>pr'. is_prio pr' \<longrightarrow> pr' \<noteq> pr \<longrightarrow> ready t pr' = ready s pr') \<and> procs t = age_one (n_val n) (procs s)"
proof -
  have pr: "is_prio pr" and q: "rq s pr = Some q" "q_nodes q = dn @ n # rs" using a by (auto simp: at_node_def)
  have nodes: "distinct (map n_addr (q_nodes q))" "null \<notin> set (map n_addr (q_nodes q))"
    using heap_nodes [OF h pr q(1)] by auto
  note nx = at_node_next [OF a nodes]
  from nx(4) obtain pc where pc: "procs s (n_val n) = Some pc" "p_state pc = READY" by blast
  let ?i = "case rs of [] \<Rightarrow> head_addr q | k # _ \<Rightarrow> n_addr k"
  let ?q' = "q\<lparr>cyclicIter := ?i\<rparr>"
  let ?t = "(put_rq pr (Some ?q') s)\<lparr>procs := age_one (n_val n) (procs s)\<rparr>"
  have tick: "\<not> p_wait_ticks pc + 1 \<ge> AGING_THRESHOLD" using nd pc by (simp add: due_def)
  have wf: "table_wf s" using h by simp
  have rqt: "rq ?t pr = Some ?q'" using wf pr by (simp add: rq_put_rq)
  have loop: "queueCyclicIterLooped (Some ?q') = (rs = [])"
  proof (cases rs)
    case Nil
    then have "head_addr ?q' \<noteq> null" using q(2) nodes(2) by (cases dn) (auto simp: head_addr_def)
    with Nil show ?thesis by (simp add: queueCyclicIterLooped_def head_addr_def)
  next
    case (Cons r ks)
    then have "n_addr r \<noteq> head_addr ?q'" using q(2) nodes(1) by (cases dn) (auto simp: head_addr_def)
    with Cons show ?thesis by (simp add: queueCyclicIterLooped_def)
  qed
  have "(procs s)(n_val n \<mapsto> pc\<lparr>p_wait_ticks := p_wait_ticks pc + 1\<rparr>) = age_one (n_val n) (procs s)"
    using pc tick by (simp add: age_one_def age_proc_def)
  then have "aging_step M pr () s = Ret (if rs = [] then Inr () else Inl (), ?t)"
    using nx(1-3) pc tick loop rqt by (simp add: aging_step_def run_simps)
  moreover have "heap rk k ?t R" using heap_iter [OF h pr q(1)] by simp
  moreover have "same s ?t" by (simp add: same_def put_rq_def)
  moreover have "ready ?t pr' = ready s pr'" if "is_prio pr'" "pr' \<noteq> pr" for pr'
    using wf pr that by (simp add: ready_def rq_put_rq)
  ultimately show ?thesis using rqt by (intro exI [of _ ?q'] exI [of _ ?t]) (cases rs, auto)
qed

lemma aging_step_boost:
  assumes h: "heap rk (Suc (Suc k)) s R" and small: "16 \<le> small" and a: "at_node s pr q dn n rs"
    and dd: "due (procs s) (n_val n)"
  shows "\<exists>q' t. aging_step M pr () s = Ret (if (dn = []) = (rs = []) then Inl () else Inr (), t) \<and>
    heap rk k t R \<and> same s t \<and> running_process t = running_process s \<and> rq t pr = Some q' \<and> q_nodes q' = dn @ rs \<and>
    (cyclicIter q' = (if rs \<noteq> [] then n_addr (hd rs) else if dn = [] then null else n_addr (hd dn))) \<and>
    (\<forall>pr'. is_prio pr' \<longrightarrow> pr' \<noteq> pr \<longrightarrow> ready t pr' = (if pr' = 3 then ready s 3 @ [n_val n] else ready s pr')) \<and>
    procs t = age_one (n_val n) (procs s)"
proof -
  have pr: "0 \<le> pr" "pr \<le> 2" "is_prio pr" and q: "rq s pr = Some q" "q_nodes q = dn @ n # rs"
    using a by (auto simp: at_node_def)
  have nodes: "distinct (map n_addr (q_nodes q))" "null \<notin> set (map n_addr (q_nodes q))"
    using heap_nodes [OF h pr(3) q(1)] by auto
  note nx = at_node_next [OF a nodes]
  from nx(4) obtain pc where pc: "procs s (n_val n) = Some pc" "p_state pc = READY" by blast
  let ?i = "case rs of [] \<Rightarrow> head_addr q | k # _ \<Rightarrow> n_addr k" and ?p = "n_val n"
  let ?q1 = "q\<lparr>cyclicIter := ?i\<rparr>" and ?pc1 = "pc\<lparr>p_wait_ticks := p_wait_ticks pc + 1\<rparr>"
  let ?s1 = "(put_rq pr (Some ?q1) s)\<lparr>procs := (procs s)(?p \<mapsto> ?pc1)\<rparr>"
  have wf: "table_wf s" using h by simp
  have h1: "heap rk (Suc (Suc k)) ?s1 R" using heap_iter [OF h pr(3) q(1)] by simp
  have rq1: "rq ?s1 pr = Some ?q1" using wf pr by (simp add: rq_put_rq)
  have live: "\<forall>x\<in>set (vals ?q1). procs ?s1 x \<noteq> None"
    using a by (auto simp: at_node_def waiting_ok_def vals_def)
  have pids: "\<forall>m\<in>set dn. pid_at ?s1 (n_val m) \<noteq> pid_at ?s1 ?p"
  proof
    fix m assume m: "m \<in> set dn"
    have in_q: "n_val m \<in> set (vals q)" "?p \<in> set (vals q)" using m a by (auto simp: at_node_def vals_def)
    have "distinct (map n_val (dn @ n # rs))" using a unfolding at_node_def vals_def by metis
    then have "?p \<notin> n_val ` set dn" by simp
    with m have ne: "n_val m \<noteq> ?p" by (metis imageI)
    moreover have "inj_on (pid_at s) (set (vals q))" using a by (simp add: at_node_def)
    ultimately have "pid_at s (n_val m) \<noteq> pid_at s ?p" using in_q by (metis inj_on_eq_iff)
    with ne pc show "pid_at ?s1 (n_val m) \<noteq> pid_at ?s1 ?p" by (simp add: pid_at_def)
  qed
  have nodes1: "q_nodes ?q1 = dn @ n # rs" and pc1: "procs ?s1 ?p = Some ?pc1" using q(2) by simp_all
  obtain q' t where b: "aging_boost M pr ?p ?s1 = Ret ((), t)" "heap rk k t R" "same ?s1 t"
    "running_process t = running_process ?s1" "rq t pr = Some q'" "q_nodes q' = dn @ rs"
    "cyclicIter q' = (if cyclicIter ?q1 = n_addr n then node_next (q_nodes ?q1) (n_addr n) else cyclicIter ?q1)"
    "\<forall>pr'. is_prio pr' \<longrightarrow> pr' \<noteq> pr \<longrightarrow> ready t pr' = (if pr' = 3 then ready ?s1 3 @ [?p] else ready ?s1 pr')"
    "procs t = (procs ?s1)(?p \<mapsto> ?pc1\<lparr>p_priority := 3, p_wait_ticks := 0\<rparr>)"
    using aging_boost_run [OF h1 small pr(1,2) rq1 nodes1 live pids pc1] by blast
  have iter: "cyclicIter q' = (if rs \<noteq> [] then n_addr (hd rs) else if dn = [] then null else n_addr (hd dn))"
  proof (cases rs)
    case Nil
    show ?thesis
    proof (cases dn)
      case (Cons d ds)
      then have "n_addr d \<noteq> n_addr n" using q(2) nodes(1) by auto
      with Cons Nil b(7) q(2) show ?thesis by (simp add: head_addr_def)
    qed (use Nil b(7) q(2) in \<open>simp add: head_addr_def\<close>)
  next
    case (Cons r ks)
    then have "n_addr r \<noteq> n_addr n" using q(2) nodes(1) by auto
    with Cons b(7) show ?thesis by simp
  qed
  have "null \<notin> set (map n_addr (dn @ rs))" "distinct (map n_addr (dn @ rs))"
    using heap_nodes [OF b(2) pr(3) b(5)] b(6) by auto
  then have loop: "queueCyclicIterLooped (Some q') = ((dn = []) \<noteq> (rs = []))"
    using iter b(6) by (cases dn; cases rs) (auto simp: queueCyclicIterLooped_def head_addr_def)
  have same: "same s t"
    by (rule same_trans [OF _ b(3)]) (simp add: same_def put_rq_def)
  have due: "p_wait_ticks pc + 1 \<ge> AGING_THRESHOLD" using dd pc by (simp add: due_def)
  then have "aging_step M pr () s = Ret (if (dn = []) = (rs = []) then Inl () else Inr (), t)"
    using nx(1-3) pc b(1,5) loop by (auto simp: aging_step_def run_simps)
  moreover have "procs t = age_one ?p (procs s)"
    using b(9) pc due by (simp add: age_one_def age_proc_def MAX_PRIORITY_def)
  moreover have "\<forall>pr'. is_prio pr' \<longrightarrow> pr' \<noteq> pr \<longrightarrow>
      ready t pr' = (if pr' = 3 then ready s 3 @ [?p] else ready s pr')"
    using b(8) wf pr by (auto simp: ready_def rq_put_rq)
  ultimately show ?thesis using b(2,4,5,6) iter same by (intro exI [of _ q'] exI [of _ t]) simp
qed

end

lemma at_node_step:
  assumes a: "at_node s pr q dn n rs" and "same s t" and ps: "procs t = age_one (n_val n) (procs s)"
    and q': "rq t pr = Some q'" "q_nodes q' = dn' @ r # rs'" "cyclicIter q' = n_addr r"
    and sub: "set (vals q') \<subseteq> set (vals q)" "distinct (vals q')"
  shows "at_node t pr q' dn' r rs'"
proof -
  have "pid_at t x = pid_at s x" if "x \<in> set (vals q)" for x
    using a that by (intro pid_at_age_one [OF ps]) (auto simp: at_node_def waiting_ok_def)
  moreover have "inj_on (pid_at s) (set (vals q'))" using a sub(1) inj_on_subset by (auto simp: at_node_def)
  ultimately have "inj_on (pid_at t) (set (vals q'))" using sub(1) unfolding inj_on_def by (metis subsetD)
  moreover have "\<forall>x\<in>set (vals q'). waiting_ok t x"
    using a sub(1) waiting_ok_age_one [OF assms(2) ps] by (auto simp: at_node_def)
  ultimately show ?thesis using a q' sub(2) by (simp add: at_node_def)
qed

lemma due_age_one: "x \<noteq> p \<Longrightarrow> due (age_one p ps) x = due ps x"
  by (simp add: due_def age_one_def)

lemma age_all_insert: "p \<notin> A \<Longrightarrow> age_all A (age_one p ps) = age_all (insert p A) ps"
  by (auto simp: age_all_def age_one_def fun_eq_iff)

lemma age_all_one: "age_all {p} ps = age_one p ps"
  by (auto simp: age_all_def age_one_def fun_eq_iff)

lemma filter_due_age_one:
  "p \<notin> set xs \<Longrightarrow> filter (due (age_one p ps)) xs = filter (due ps) xs \<and>
     filter (\<lambda>x. \<not> due (age_one p ps) x) xs = filter (\<lambda>x. \<not> due ps x) xs"
  by (induction xs) (auto simp: due_age_one)

text \<open>The effect of a stretch of the loop over the processes \<open>xs\<close>, after the part \<open>kept\<close>.\<close>

definition aged :: "'m kst \<Rightarrow> int \<Rightarrow> addr list \<Rightarrow> addr list \<Rightarrow> 'm kst \<Rightarrow> bool" where
  "aged s pr kept xs t \<longleftrightarrow> same s t \<and> running_process t = running_process s \<and>
     ready t pr = kept @ filter (\<lambda>x. \<not> due (procs s) x) xs \<and>
     (\<forall>pr'. is_prio pr' \<longrightarrow> pr' \<noteq> pr \<longrightarrow>
        ready t pr' = (if pr' = 3 then ready s 3 @ filter (due (procs s)) xs else ready s pr')) \<and>
     procs t = age_all (set xs) (procs s)"

lemma aged_step:
  assumes one: "same s t" "running_process t = running_process s" "procs t = age_one p (procs s)"
      "\<forall>pr'. is_prio pr' \<longrightarrow> pr' \<noteq> pr \<longrightarrow>
         ready t pr' = (if pr' = 3 then ready s 3 @ (if due (procs s) p then [p] else []) else ready s pr')"
    and rest: "aged t pr (kept @ (if due (procs s) p then [] else [p])) xs u" and p: "p \<notin> set xs"
  shows "aged s pr kept (p # xs) u"
  using rest one p same_trans [of s t u] filter_due_age_one [OF p, of "procs s"] age_all_insert [OF p, of "procs s"]
  by (auto simp: aged_def)

context memory_room
begin

lemma heap_le: "heap rk k s R \<Longrightarrow> j \<le> k \<Longrightarrow> heap rk j s R"
  unfolding heap_def using room_le by blast

lemma aging_tail:
  assumes "heap rk (k + 2 * length (n # rs)) s R" and small: "16 \<le> small"
    and "at_node s pr q dn n rs" and "dn \<noteq> []"
  shows "\<exists>t. loop (aging_step M pr) () s = Ret ((), t) \<and> heap rk k t R \<and> aged s pr (map n_val dn) (map n_val (n # rs)) t"
  using assms
proof (induction rs arbitrary: n dn q s)
  case Nil
  note a = Nil.prems(3)
  show ?case
  proof (cases "due (procs s) (n_val n)")
    case True
    from Nil.prems(1) have h: "heap rk (Suc (Suc k)) s R" by simp
    from aging_step_boost [OF h small a True] Nil.prems(4) obtain q' t where
      "aging_step M pr () s = Ret (Inr (), t)" "heap rk k t R" "same s t" "running_process t = running_process s"
      "rq t pr = Some q'" "q_nodes q' = dn" "procs t = age_one (n_val n) (procs s)"
      "\<forall>pr'. is_prio pr' \<longrightarrow> pr' \<noteq> pr \<longrightarrow> ready t pr' = (if pr' = 3 then ready s 3 @ [n_val n] else ready s pr')"
      by auto
    with True show ?thesis by (subst loop_unfold) (auto simp: aged_def ready_def vals_def age_all_one)
  next
    case False
    from Nil.prems(1) have h: "heap rk k s R" by (rule heap_le) simp
    from aging_step_tick [OF h a False] obtain q' t where
      "aging_step M pr () s = Ret (Inr (), t)" "heap rk k t R" "same s t" "running_process t = running_process s"
      "rq t pr = Some q'" "q_nodes q' = q_nodes q" "procs t = age_one (n_val n) (procs s)"
      "\<forall>pr'. is_prio pr' \<longrightarrow> pr' \<noteq> pr \<longrightarrow> ready t pr' = ready s pr'" by auto
    with False a show ?thesis
      by (subst loop_unfold) (auto simp: aged_def ready_def vals_def age_all_one at_node_def)
  qed
next
  case (Cons r rs)
  note a = Cons.prems(3)
  have vq: "vals q = map n_val (dn @ n # r # rs)" using a by (simp add: at_node_def vals_def)
  have dq: "distinct (vals q)" using a by (simp add: at_node_def)
  have fresh: "n_val n \<notin> set (map n_val (r # rs))" using dq unfolding vq by simp
  show ?case
  proof (cases "due (procs s) (n_val n)")
    case True
    from Cons.prems(1) have h: "heap rk (Suc (Suc (k + 2 * length (r # rs)))) s R" by simp
    from aging_step_boost [OF h small a True] Cons.prems(4) obtain q' t where
      t: "aging_step M pr () s = Ret (Inl (), t)" "heap rk (k + 2 * length (r # rs)) t R" "same s t"
      "running_process t = running_process s" "rq t pr = Some q'" "q_nodes q' = dn @ r # rs" "cyclicIter q' = n_addr r"
      "procs t = age_one (n_val n) (procs s)"
      "\<forall>pr'. is_prio pr' \<longrightarrow> pr' \<noteq> pr \<longrightarrow> ready t pr' = (if pr' = 3 then ready s 3 @ [n_val n] else ready s pr')"
      by auto
    have vq': "vals q' = map n_val (dn @ r # rs)" using t(6) by (simp add: vals_def)
    have "at_node t pr q' dn r rs"
      by (rule at_node_step [OF a t(3,8,5,6,7)]) (use dq in \<open>auto simp: vq vq'\<close>)
    from Cons.IH [OF t(2) small this Cons.prems(4)] obtain u where
      u: "loop (aging_step M pr) () t = Ret ((), u)" "heap rk k u R" "aged t pr (map n_val dn) (map n_val (r # rs)) u" by blast
    have "aged s pr (map n_val dn) (n_val n # map n_val (r # rs)) u"
      by (rule aged_step [OF t(3,4,8) _ _ fresh]) (use t(9) u(3) True in auto)
    with u t(1) show ?thesis by (subst loop_unfold) auto
  next
    case False
    from Cons.prems(1) have h: "heap rk (k + 2 * length (r # rs)) s R" by (rule heap_le) simp
    from aging_step_tick [OF h a False] obtain q' t where
      t: "aging_step M pr () s = Ret (Inl (), t)" "heap rk (k + 2 * length (r # rs)) t R" "same s t"
      "running_process t = running_process s" "rq t pr = Some q'" "q_nodes q' = q_nodes q" "cyclicIter q' = n_addr r"
      "procs t = age_one (n_val n) (procs s)" "\<forall>pr'. is_prio pr' \<longrightarrow> pr' \<noteq> pr \<longrightarrow> ready t pr' = ready s pr'"
      by auto
    have nodes: "q_nodes q' = (dn @ [n]) @ r # rs" using t(6) a by (simp add: at_node_def)
    have "at_node t pr q' (dn @ [n]) r rs"
      by (rule at_node_step [OF a t(3,8,5) nodes t(7)]) (use t(6) dq in \<open>auto simp: vals_def\<close>)
    from Cons.IH [OF t(2) small this] obtain u where
      u: "loop (aging_step M pr) () t = Ret ((), u)" "heap rk k u R"
         "aged t pr (map n_val (dn @ [n])) (map n_val (r # rs)) u" by auto
    have "aged s pr (map n_val dn) (n_val n # map n_val (r # rs)) u"
      by (rule aged_step [OF t(3,4,8) _ _ fresh]) (use t(9) u(3) False in auto)
    with u t(1) show ?thesis by (subst loop_unfold) auto
  qed
qed

end

section \<open>Aging a queue and the whole table\<close>

definition rlists :: "'m kst \<Rightarrow> int \<Rightarrow> addr list" where
  "rlists s = (\<lambda>pr. if is_prio pr then ready s pr else [])"

lemma lists_prio [simp]: "is_prio pr \<Longrightarrow> rlists s pr = ready s pr"
  by (simp add: rlists_def)

lemma lists_eqI: "(\<And>pr. is_prio pr \<Longrightarrow> ready t pr = f pr) \<Longrightarrow> (\<And>pr. \<not> is_prio pr \<Longrightarrow> f pr = []) \<Longrightarrow> rlists t = f"
  by (auto simp: rlists_def fun_eq_iff)

definition all_ready :: "(int \<Rightarrow> addr list) \<Rightarrow> addr list" where
  "all_ready rd = rd 0 @ rd 1 @ rd 2 @ rd 3"

definition sched_inv :: "'m kst \<Rightarrow> bool" where
  "sched_inv s \<longleftrightarrow> (\<forall>a\<in>set (all_ready (rlists s)). waiting_ok s a) \<and> distinct (all_ready (rlists s)) \<and>
     inj_on (pid_at s) (set (all_ready (rlists s)))"

lemma mset_age_list:
  assumes "0 \<le> pr" and "pr \<le> 2"
  shows "mset (all_ready (fst (age_list pr (rd, ps)))) = mset (all_ready rd)"
proof -
  have pr: "pr = 0 \<or> pr = 1 \<or> pr = 2" using assms by auto
  show ?thesis
  proof (cases "rd pr")
    case Nil
    then show ?thesis by (simp add: age_list_def)
  next
    case (Cons a as)
    have "mset (filter (\<lambda>x. \<not> due ps x) as) + mset (filter (due ps) as) = mset as"
      by (metis add.commute mset_filter multiset_partition)
    with pr Cons show ?thesis by (auto simp: age_list_def all_ready_def ac_simps)
  qed
qed

lemma procs_age_list: "\<exists>A. snd (age_list pr (rd, ps)) = age_all A ps"
proof (cases "rd pr")
  case Nil
  then have "snd (age_list pr (rd, ps)) = age_all {} ps" by (simp add: age_list_def age_all_def)
  then show ?thesis ..
next
  case (Cons a as)
  then have "snd (age_list pr (rd, ps)) = age_all (if due ps a then {a} else set (a # as)) ps"
    by (simp add: age_list_def)
  then show ?thesis ..
qed

lemma sched_inv_age:
  assumes inv: "sched_inv s" and pr: "0 \<le> pr" "pr \<le> 2" and "same s t"
    and eq: "(rlists t, procs t) = age_list pr (rlists s, procs s)"
  shows "sched_inv t"
proof -
  have l: "rlists t = fst (age_list pr (rlists s, procs s))" and p: "procs t = snd (age_list pr (rlists s, procs s))"
    using eq by (metis fst_conv, metis snd_conv)
  have "mset (all_ready (rlists t)) = mset (all_ready (rlists s))" unfolding l by (rule mset_age_list [OF pr])
  then have set: "set (all_ready (rlists t)) = set (all_ready (rlists s))"
    and dist: "distinct (all_ready (rlists t)) = distinct (all_ready (rlists s))"
    by (metis mset_eq_setD, metis mset_eq_imp_distinct_iff)
  have ok: "waiting_ok t a \<and> pid_at t a = pid_at s a" if w: "waiting_ok s a" for a
  proof -
    from w obtain pc where pc: "procs s a = Some pc" "p_state pc = READY" "is_prio (p_priority pc)"
      by (auto simp: waiting_ok_def)
    from procs_age_list [of pr "rlists s" "procs s"] obtain A where "procs t = age_all A (procs s)" unfolding p ..
    with pc have "procs t a = Some (if a \<in> A then age_proc pc else pc)" by (simp add: age_all_def)
    with pc w same_fields(1) [OF assms(4)] age_proc_prio [OF pc(3)] show ?thesis
      by (simp add: waiting_ok_def pid_at_def)
  qed
  have "inj_on (pid_at t) (set (all_ready (rlists s)))"
    using inv ok unfolding sched_inv_def inj_on_def by metis
  with inv ok set dist show ?thesis by (auto simp: sched_inv_def)
qed

lemma sched_inv_queue:
  assumes "sched_inv s" and "0 \<le> pr" and "pr \<le> 3"
  shows "\<forall>a\<in>set (ready s pr). waiting_ok s a" "distinct (ready s pr)" "inj_on (pid_at s) (set (ready s pr))"
proof -
  have sub: "set (ready s pr) \<subseteq> set (all_ready (rlists s))"
    using is_prio_cases [of pr] assms(2,3) by (auto simp: all_ready_def)
  then show "\<forall>a\<in>set (ready s pr). waiting_ok s a" using assms(1) by (auto simp: sched_inv_def)
  show "inj_on (pid_at s) (set (ready s pr))" using assms(1) sub inj_on_subset by (auto simp: sched_inv_def)
  have "distinct (all_ready (rlists s))" using assms(1) by (simp add: sched_inv_def)
  with is_prio_cases [of pr] assms(2,3) show "distinct (ready s pr)" by (auto simp: all_ready_def)
qed

context memory_room
begin

lemma age_queue_start:
  assumes h: "heap rk k s R" and inv: "sched_inv s" and pr: "0 \<le> pr" "pr \<le> 2" and ne: "ready s pr = a # as"
  shows "\<exists>s1 q1 n rs. age_queue M pr s = loop (aging_step M pr) () s1 \<and> heap rk k s1 R \<and> at_node s1 pr q1 [] n rs \<and>
    n_val n = a \<and> map n_val rs = as \<and> same s s1 \<and> procs s1 = procs s \<and> running_process s1 = running_process s \<and>
    (\<forall>pr'. is_prio pr' \<longrightarrow> ready s1 pr' = ready s pr')"
proof -
  have prio: "is_prio pr" using pr by simp
  from heap_rq [OF h prio] ne obtain q where q: "rq s pr = Some q" "q_ok q" "vals q = a # as" by auto
  then obtain n rs where n: "q_nodes q = n # rs" "n_val n = a" "map n_val rs = as" by (auto simp: vals_def)
  let ?q1 = "q\<lparr>cyclicIter := n_addr n\<rparr>" and ?s1 = "put_rq pr (Some (q\<lparr>cyclicIter := n_addr n\<rparr>)) s"
  have wf: "table_wf s" using h by simp
  have "queueBeginCyclicIter (Some q) = Some ?q1" using n by (simp add: queueBeginCyclicIter_def head_addr_def)
  moreover have "\<not> queueIsEmpty (Some q)" using q(2) n by (simp add: queueIsEmpty_def queueSize_def q_ok_def)
  ultimately have "age_queue M pr s = loop (aging_step M pr) () ?s1"
    using wf prio q(1) by (simp add: age_queue_def run_simps)
  moreover have "heap rk k ?s1 R" by (rule heap_iter [OF h prio q(1)])
  moreover have v: "vals ?q1 = ready s pr" using q(3) ne by (simp add: vals_def)
  have "at_node ?s1 pr ?q1 [] n rs"
    unfolding at_node_def v using pr wf n sched_inv_queue [OF inv, of pr]
    by (simp add: rq_put_rq waiting_ok_def pid_at_def inj_on_def)
  moreover have "ready ?s1 pr' = ready s pr'" if "is_prio pr'" for pr'
    using wf prio that v by (simp add: ready_put)
  ultimately show ?thesis using n by (intro exI [of _ ?s1] exI [of _ ?q1] exI [of _ n] exI [of _ rs]) simp
qed

lemma aging_empty_step:
  assumes "rq t pr = Some q" and "q_nodes q = []" and "cyclicIter q = null"
  shows "loop (aging_step M pr) () t = Ret ((), t)"
  using assms by (subst loop_unfold) (simp add: aging_step_def queueNextCyclicIter_def run_simps)

lemma aged_lists:
  assumes "aged s pr kept xs t" and "is_prio pr" and "pr \<noteq> 3"
  shows "rlists t = (rlists s)(pr := kept @ filter (\<lambda>x. \<not> due (procs s) x) xs, 3 := ready s 3 @ filter (due (procs s)) xs)"
  using assms by (intro lists_eqI) (auto simp: aged_def rlists_def)

lemma age_queue_run:
  assumes h: "heap rk (k + 2 * length (ready s pr)) s R" and small: "16 \<le> small"
    and inv: "sched_inv s" and pr: "0 \<le> pr" "pr \<le> 2"
  shows "\<exists>t. age_queue M pr s = Ret ((), t) \<and> heap rk k t R \<and> same s t \<and> running_process t = running_process s \<and>
    (rlists t, procs t) = age_list pr (rlists s, procs s)"
proof (cases "ready s pr")
  case Nil
  have prio: "is_prio pr" using pr by simp
  from heap_rq [OF h prio] Nil obtain q where q: "rq s pr = Some q" "q_ok q" "vals q = []" by metis
  then have "queueIsEmpty (Some q)" by (simp add: queueIsEmpty_def queueSize_def q_ok_def)
  with h q prio have "age_queue M pr s = Ret ((), s)" by (simp add: age_queue_def run_simps)
  with h Nil prio show ?thesis by (auto simp: same_refl age_list_def)
next
  case (Cons a as)
  have prio: "is_prio pr" "pr \<noteq> 3" using pr by auto
  from h Cons have h': "heap rk (k + 2 * length (a # as)) s R" by simp
  from age_queue_start [OF h' inv pr Cons] obtain s1 q1 n rs where
    s1: "age_queue M pr s = loop (aging_step M pr) () s1" "heap rk (k + 2 * length (a # as)) s1 R"
      "at_node s1 pr q1 [] n rs" "n_val n = a" "map n_val rs = as" "same s s1" "procs s1 = procs s"
      "running_process s1 = running_process s" "\<forall>pr'. is_prio pr' \<longrightarrow> ready s1 pr' = ready s pr'" by blast
  have lists1: "rlists s1 = rlists s" using s1(9) by (auto simp: rlists_def fun_eq_iff)
  show ?thesis
  proof (cases "due (procs s) a")
    case True
    have "heap rk (Suc (Suc k)) s1 R" by (rule heap_le [OF s1(2)]) simp
    from aging_step_boost [OF this small s1(3)] True s1(4,7) obtain q' t where
      t: "aging_step M pr () s1 = Ret (if rs = [] then Inl () else Inr (), t)" "heap rk k t R" "same s1 t"
      "running_process t = running_process s1" "rq t pr = Some q'" "q_nodes q' = rs"
      "rs = [] \<longrightarrow> cyclicIter q' = null" "procs t = age_one a (procs s)"
      "\<forall>pr'. is_prio pr' \<longrightarrow> pr' \<noteq> pr \<longrightarrow> ready t pr' = (if pr' = 3 then ready s1 3 @ [a] else ready s1 pr')"
      by auto
    have "loop (aging_step M pr) () s1 = Ret ((), t)"
      using t(1,5,6,7) aging_empty_step [of t pr q'] by (subst loop_unfold) (cases rs, auto)
    moreover have "rlists t = (rlists s)(pr := as, 3 := rlists s 3 @ [a])"
      by (rule lists_eqI) (use t(5,6,9) s1(5,9) prio in \<open>auto simp: ready_def vals_def rlists_def\<close>)
    ultimately show ?thesis
      using s1 t True Cons prio same_trans [OF s1(6) t(3)]
      by (intro exI [of _ t]) (simp add: age_list_def age_all_one)
  next
    case False
    then have nd: "\<not> due (procs s1) (n_val n)" using s1(4,7) by simp
    have "heap rk (k + 2 * length rs) s1 R" by (rule heap_le [OF s1(2)]) (use s1(5) in auto)
    from aging_step_tick [OF this s1(3) nd] obtain q' t where
      t: "aging_step M pr () s1 = Ret (if rs = [] then Inr () else Inl (), t)" "heap rk (k + 2 * length rs) t R"
      "same s1 t" "running_process t = running_process s1" "rq t pr = Some q'" "q_nodes q' = q_nodes q1"
      "rs \<noteq> [] \<longrightarrow> cyclicIter q' = n_addr (hd rs)" "procs t = age_one (n_val n) (procs s1)"
      "\<forall>pr'. is_prio pr' \<longrightarrow> pr' \<noteq> pr \<longrightarrow> ready t pr' = ready s1 pr'" by blast
    have nodes: "q_nodes q1 = n # rs" and dq: "distinct (a # as)"
      using s1(3,4,5) by (auto simp: at_node_def vals_def)
    have "\<exists>u. loop (aging_step M pr) () s1 = Ret ((), u) \<and> heap rk k u R \<and> aged s1 pr [] (a # as) u"
    proof (cases rs)
      case Nil
      with t nodes s1(4,5) nd show ?thesis
        by (subst loop_unfold) (auto simp: aged_def ready_def vals_def age_all_one)
    next
      case (Cons r rs')
      have nodes': "q_nodes q' = [n] @ r # rs'" using t(6) nodes Cons by simp
      have "at_node t pr q' [n] r rs'"
        by (rule at_node_step [OF s1(3) t(3,8,5) nodes']) (use t(6,7) Cons s1(3) in \<open>auto simp: vals_def at_node_def\<close>)
      from aging_tail [OF _ small this] t(2) Cons s1(4,5) obtain u where
        u: "loop (aging_step M pr) () t = Ret ((), u)" "heap rk k u R" "aged t pr [a] as u" by auto
      have "aged s1 pr [] (a # as) u"
        by (rule aged_step [OF t(3,4)]) (use t(8,9) u(3) nd s1(4) dq in auto)
      with u t(1) Cons show ?thesis by (subst loop_unfold) auto
    qed
    then obtain u where u: "loop (aging_step M pr) () s1 = Ret ((), u)" "heap rk k u R" "aged s1 pr [] (a # as) u" by blast
    have "rlists u = (rlists s)(pr := a # filter (\<lambda>x. \<not> due (procs s) x) as, 3 := rlists s 3 @ filter (due (procs s)) as)"
      using aged_lists [OF u(3) prio] False s1(7,9) lists1 by simp
    with u s1 False Cons prio same_trans [OF s1(6), of u] show ?thesis
      by (intro exI [of _ u]) (auto simp: aged_def age_list_def)
  qed
qed

end

section \<open>Scheduling as a specification\<close>

type_synonym sched_view = "(int \<Rightarrow> addr list) \<times> (addr \<Rightarrow> process option)"

definition age_spec :: "sched_view \<Rightarrow> sched_view" where
  "age_spec st = age_list 2 (age_list 1 (age_list 0 st))"

text \<open>The interrupted process: its stack pointer is saved; a blocked or terminated process is
  dropped, a running one keeps the processor while it has quantum left and otherwise goes to
  the end of the queue of its priority. The result says whether it keeps running.\<close>

definition retire_spec :: "addr \<Rightarrow> nat \<Rightarrow> addr \<Rightarrow> sched_view \<Rightarrow> bool \<times> sched_view" where
  "retire_spec idle rsp run st = (case st of (rd, ps) \<Rightarrow>
     (if run = null then (False, rd, ps)
      else let pc = (the (ps run))\<lparr>p_rsp := rsp\<rparr> in
        if p_state pc \<noteq> RUNNING then (False, rd, ps(run \<mapsto> pc))
        else if p_quantum_remaining pc > 1
        then (True, rd, ps(run \<mapsto> pc\<lparr>p_quantum_remaining := p_quantum_remaining pc - 1\<rparr>))
        else (False, (if run = idle then rd else rd(p_priority pc := rd (p_priority pc) @ [run])),
              ps(run \<mapsto> pc\<lparr>p_quantum_remaining := DEFAULT_QUANTUM, p_state := READY\<rparr>))))"

text \<open>The choice: the head of the highest non-empty queue, or idle; a process whose saved stack
  pointer lies outside its stack is not entered.\<close>

definition top_prio :: "(int \<Rightarrow> addr list) \<Rightarrow> int option" where
  "top_prio rd = find (\<lambda>pr. rd pr \<noteq> []) [3, 2, 1, 0]"

definition started :: "process \<Rightarrow> process" where
  "started pc = pc\<lparr>p_state := RUNNING, p_quantum_remaining := DEFAULT_QUANTUM, p_wait_ticks := 0\<rparr>"

definition in_stack :: "process \<Rightarrow> bool" where
  "in_stack pc \<longleftrightarrow> p_stackBase pc \<le> p_rsp pc \<and> p_rsp pc < p_stackBase pc + PROCESS_STACK_SIZE"

definition idle_spec :: "addr \<Rightarrow> sched_view \<Rightarrow> nat \<times> addr \<times> sched_view" where
  "idle_spec idle st = (case st of (rd, ps) \<Rightarrow>
     (p_rsp (the (ps idle)), idle, rd, ps(idle \<mapsto> (the (ps idle))\<lparr>p_state := RUNNING\<rparr>)))"

definition dispatch_spec :: "addr \<Rightarrow> sched_view \<Rightarrow> nat \<times> addr \<times> sched_view" where
  "dispatch_spec idle st = (case st of (rd, ps) \<Rightarrow>
     (case top_prio rd of
        None \<Rightarrow> idle_spec idle (rd, ps)
      | Some pr \<Rightarrow>
          let a = hd (rd pr); pc = the (ps a); st' = (rd(pr := tl (rd pr)), ps(a \<mapsto> started pc)) in
          if in_stack pc then (p_rsp pc, a, st') else idle_spec idle st'))"

definition schedule_spec :: "addr \<Rightarrow> nat \<Rightarrow> addr \<Rightarrow> sched_view \<Rightarrow> nat \<times> addr \<times> sched_view" where
  "schedule_spec idle rsp run st =
     (case retire_spec idle rsp run (age_spec st) of (stays, st') \<Rightarrow>
        if stays then (rsp, run, st') else dispatch_spec idle st')"

abbreviation view :: "'m kst \<Rightarrow> sched_view" where
  "view s \<equiv> (rlists s, procs s)"

section \<open>The scheduler refines the specification\<close>

lemma age_list_other: "pr' \<noteq> pr \<Longrightarrow> pr' \<noteq> 3 \<Longrightarrow> fst (age_list pr (rd, ps)) pr' = rd pr'"
  by (cases "rd pr") (auto simp: age_list_def)

definition idle_ok :: "'m kst \<Rightarrow> bool" where
  "idle_ok s \<longleftrightarrow> idle_proc s \<noteq> null \<and> procs s (idle_proc s) \<noteq> None"

context memory_room
begin

lemma apply_aging_run:
  assumes h: "heap rk (k + 2 * length (all_ready (rlists s))) s R" and small: "16 \<le> small" and inv: "sched_inv s"
  shows "\<exists>t. apply_aging M s = Ret ((), t) \<and> heap rk k t R \<and> same s t \<and> running_process t = running_process s \<and>
    view t = age_spec (view s) \<and> sched_inv t"
proof -
  let ?n = "\<lambda>pr. 2 * length (ready s pr)"
  have range: "[MIN_PRIORITY..MAX_PRIORITY - AGING_BOOST] = [0, 1, 2]"
    by (simp add: MIN_PRIORITY_def MAX_PRIORITY_def AGING_BOOST_def upto.simps)
  have h0: "heap rk ((k + ?n 2 + ?n 1) + 2 * length (ready s 0)) s R"
    by (rule heap_le [OF h]) (simp add: all_ready_def)
  from age_queue_run [OF h0 small inv] obtain t0 where
    t0: "age_queue M 0 s = Ret ((), t0)" "heap rk (k + ?n 2 + ?n 1) t0 R" "same s t0"
      "running_process t0 = running_process s" "view t0 = age_list 0 (view s)" by auto
  have i0: "sched_inv t0" by (rule sched_inv_age [OF inv _ _ t0(3,5)]) simp_all
  have l0: "ready t0 1 = ready s 1" "ready t0 2 = ready s 2"
    using age_list_other [of 1 0 "rlists s" "procs s"] age_list_other [of 2 0 "rlists s" "procs s"]
    by (simp_all flip: t0(5))
  from age_queue_run [of "k + ?n 2" t0 1, OF _ small i0] t0(2) l0 obtain t1 where
    t1: "age_queue M 1 t0 = Ret ((), t1)" "heap rk (k + ?n 2) t1 R" "same t0 t1"
      "running_process t1 = running_process t0" "view t1 = age_list 1 (view t0)" by auto
  have i1: "sched_inv t1" by (rule sched_inv_age [OF i0 _ _ t1(3,5)]) simp_all
  have l1: "ready t1 2 = ready s 2"
    using age_list_other [of 2 1 "rlists t0" "procs t0"] l0 by (simp flip: t1(5))
  from age_queue_run [of k t1 2, OF _ small i1] t1(2) l1 obtain t2 where
    t2: "age_queue M 2 t1 = Ret ((), t2)" "heap rk k t2 R" "same t1 t2"
      "running_process t2 = running_process t1" "view t2 = age_list 2 (view t1)" by auto
  have i2: "sched_inv t2" by (rule sched_inv_age [OF i1 _ _ t2(3,5)]) simp_all
  have "apply_aging M s = Ret ((), t2)"
    using t0(1) t1(1) t2(1) by (simp add: apply_aging_def range run_simps)
  with t0 t1 t2 i2 show ?thesis
    by (auto simp: age_spec_def intro: same_trans)
qed

lemma add_to_scheduler_run:
  assumes h: "heap rk (Suc (Suc k)) s R" and small: "16 \<le> small" and p: "p \<noteq> null" "p \<noteq> idle_proc s"
    and pc: "procs s p = Some pc" "is_prio (p_priority pc)"
  shows "\<exists>t. add_to_scheduler M p s = Ret ((), t) \<and> heap rk k t R \<and> same s t \<and> running_process t = running_process s \<and>
    rlists t = (rlists s)(p_priority pc := rlists s (p_priority pc) @ [p]) \<and>
    procs t = (procs s)(p \<mapsto> pc\<lparr>p_state := READY\<rparr>)"
proof -
  let ?pr = "p_priority pc" and ?s1 = "s\<lparr>procs := (procs s)(p \<mapsto> pc\<lparr>p_state := READY\<rparr>)\<rparr>"
  have h1: "heap rk (Suc (Suc k)) ?s1 R" using h by simp
  from enqueue_ready [OF h1 pc(2) small, of p] obtain q' m where
    e: "on_mem (enqueue M (rq ?s1 ?pr) p) ?s1 = Ret (Some q', ?s1\<lparr>mem := m\<rparr>)"
      "heap rk k (put_rq ?pr (Some q') (?s1\<lparr>mem := m\<rparr>)) R" "vals q' = ready ?s1 ?pr @ [p]" by blast
  let ?t = "put_rq ?pr (Some q') (?s1\<lparr>mem := m\<rparr>)"
  have wf: "table_wf s" using h by simp
  obtain q where q: "rq s ?pr = Some q" using heap_rq [OF h pc(2)] by auto
  have "add_to_scheduler M p s = Ret ((), ?t)"
    using p pc e(1) wf q by (simp add: add_to_scheduler_def run_simps)
  moreover have "rlists ?t = (rlists s)(?pr := rlists s ?pr @ [p])"
    by (rule lists_eqI) (use wf pc e(3) in \<open>auto simp: ready_put rlists_def\<close>)
  moreover have "same s ?t" by (simp add: same_def put_rq_def)
  ultimately show ?thesis using e(2) by (intro exI [of _ ?t]) simp
qed

lemma pick_from_run:
  assumes h: "heap rk k s R" and pr: "is_prio pr" and ok: "\<forall>a\<in>set (ready s pr). waiting_ok s a"
  shows "case ready s pr of [] \<Rightarrow> pick_from M pr s = Ret (null, s)
    | a # as \<Rightarrow> \<exists>t. pick_from M pr s = Ret (a, t) \<and> heap rk k t R \<and> same s t \<and> running_process t = running_process s \<and>
        procs t = procs s \<and> rlists t = (rlists s)(pr := as)"
proof -
  from heap_rq [OF h pr] obtain q where q: "rq s pr = Some q" "q_ok q" "ready s pr = vals q" by blast
  have empty: "queueIsEmpty (Some q) = (vals q = [])" using q(2) by (simp add: queueIsEmpty_def queueSize_def q_ok_def)
  have wf: "table_wf s" using h by simp
  show ?thesis
  proof (cases "ready s pr")
    case Nil
    with q empty wf pr show ?thesis by (simp add: pick_from_def run_simps)
  next
    case (Cons a as)
    from dequeue_ready [OF h pr Cons] obtain q' m where
      d: "on_mem (dequeue M (rq s pr)) s = Ret (Some (a, q'), s\<lparr>mem := m\<rparr>)"
        "heap rk k (put_rq pr (Some q') (s\<lparr>mem := m\<rparr>)) R" "vals q' = as" by blast
    let ?t = "put_rq pr (Some q') (s\<lparr>mem := m\<rparr>)"
    from ok Cons obtain pc where pc: "procs s a = Some pc" "p_state pc = READY" "a \<noteq> null" "a \<noteq> idle_proc s"
      by (auto simp: waiting_ok_def)
    have "\<not> queueIsEmpty (Some q)" using empty q(3) Cons by (metis list.discI)
    then have "pick_step M pr () s = Ret (Inr a, ?t)"
      using d(1) q(1) pc by (simp add: pick_step_def run_simps)
    then have "pick_from M pr s = Ret (a, ?t)"
      using \<open>\<not> queueIsEmpty (Some q)\<close> q(1) wf pr by (simp add: pick_from_def run_simps loop_unfold)
    moreover have "rlists ?t = (rlists s)(pr := as)"
      by (rule lists_eqI) (use wf pr d(3) in \<open>auto simp: ready_put rlists_def\<close>)
    moreover have "same s ?t" by (simp add: same_def put_rq_def)
    ultimately show ?thesis using d(2) Cons by (auto intro!: exI [of _ ?t])
  qed
qed

lemma pick_next_run:
  assumes h: "heap rk k s R" and prs: "\<forall>pr\<in>set prs. is_prio pr \<and> (\<forall>a\<in>set (ready s pr). waiting_ok s a)"
  shows "case find (\<lambda>pr. rlists s pr \<noteq> []) prs of
      None \<Rightarrow> pick_next M prs s = Ret (null, s)
    | Some pr \<Rightarrow> \<exists>t. pick_next M prs s = Ret (hd (rlists s pr), t) \<and> heap rk k t R \<and> same s t \<and>
        running_process t = running_process s \<and> procs t = procs s \<and> rlists t = (rlists s)(pr := tl (rlists s pr))"
  using prs
proof (induction prs)
  case (Cons pr prs)
  then have pr: "is_prio pr" "\<forall>a\<in>set (ready s pr). waiting_ok s a" by auto
  note pf = pick_from_run [OF h pr]
  show ?case
  proof (cases "ready s pr")
    case Nil
    with pf have step: "pick_next M (pr # prs) s = pick_next M prs s" by (simp add: run_simps)
    have find: "find (\<lambda>pr. rlists s pr \<noteq> []) (pr # prs) = find (\<lambda>pr. rlists s pr \<noteq> []) prs" using Nil pr by simp
    show ?thesis unfolding step find by (rule Cons.IH) (use Cons.prems in simp)
  next
    case (Cons a as)
    then have "a \<noteq> null" using pr(2) by (auto simp: waiting_ok_def)
    with Cons pf pr show ?thesis by (auto simp: run_simps)
  qed
qed (simp add: run_simps)

end

lemma view_simps: "rlists (s\<lparr>procs := ps\<rparr>) = rlists s" "rlists (s\<lparr>running_process := r\<rparr>) = rlists s"
  by (auto simp: rlists_def fun_eq_iff)

context memory_room
begin

lemma retire_run:
  assumes h: "heap rk (Suc (Suc k)) s R" and small: "16 \<le> small" and run: "run \<noteq> null"
    and pc: "procs s run = Some pc" "run \<noteq> idle_proc s \<Longrightarrow> is_prio (p_priority pc)"
  shows "\<exists>t b. retire M rsp run s = Ret (b, t) \<and> heap rk k t R \<and> same s t \<and>
    (b \<longrightarrow> running_process t = running_process s) \<and> (b, view t) = retire_spec (idle_proc s) rsp run (view s)"
proof -
  have hk: "heap rk k s R" by (rule heap_le [OF h]) simp
  let ?pc = "pc\<lparr>p_rsp := rsp\<rparr>"
  show ?thesis
  proof (cases "p_state pc = RUNNING")
    case False
    let ?s1 = "s\<lparr>procs := (procs s)(run \<mapsto> ?pc)\<rparr>"
    let ?t = "if p_state pc = READY then ?s1 else ?s1\<lparr>running_process := null\<rparr>"
    have "retire M rsp run s = Ret (False, ?t)"
      using pc(1) False by (cases "p_state pc") (simp_all add: retire_def run_simps)
    moreover have "same s ?t" by (simp add: same_def)
    ultimately show ?thesis using hk pc(1) False run
      by (intro exI [of _ ?t] exI [of _ False]) (simp add: retire_spec_def view_simps)
  next
    case running: True
    show ?thesis
    proof (cases "p_quantum_remaining pc > 1")
      case True
      let ?t = "s\<lparr>procs := (procs s)(run \<mapsto> ?pc\<lparr>p_quantum_remaining := p_quantum_remaining pc - 1\<rparr>)\<rparr>"
      have "retire M rsp run s = Ret (True, ?t)" using pc(1) running True by (simp add: retire_def run_simps)
      with hk pc(1) running run True show ?thesis
        by (intro exI [of _ ?t] exI [of _ True]) (simp add: retire_spec_def view_simps)
    next
      case False
      let ?pc2 = "?pc\<lparr>p_quantum_remaining := DEFAULT_QUANTUM, p_state := READY\<rparr>"
      let ?s2 = "s\<lparr>procs := (procs s)(run \<mapsto> ?pc2)\<rparr>"
      have eq: "retire M rsp run s = sq (add_to_scheduler M run) (ret False) ?s2"
        using pc(1) running False by (simp add: retire_def run_simps)
      show ?thesis
      proof (cases "run = idle_proc s")
        case True
        then have "retire M rsp run s = Ret (False, ?s2)" unfolding eq by (simp add: add_to_scheduler_def run_simps)
        with hk pc(1) running run False True show ?thesis
          by (intro exI [of _ ?s2] exI [of _ False]) (simp add: retire_spec_def view_simps)
      next
        case ni: False
        have h2: "heap rk (Suc (Suc k)) ?s2 R" using h by simp
        have "is_prio (p_priority ?pc2)" using pc(2) ni by simp
        with add_to_scheduler_run [OF h2 small run, of ?pc2] ni obtain t where
          t: "add_to_scheduler M run ?s2 = Ret ((), t)" "heap rk k t R" "same ?s2 t"
            "rlists t = (rlists ?s2)(p_priority pc := rlists ?s2 (p_priority pc) @ [run])"
            "procs t = (procs ?s2)(run \<mapsto> ?pc2\<lparr>p_state := READY\<rparr>)" by auto
        have "same s t" by (rule same_trans [OF _ t(3)]) simp
        with t pc(1) running run False ni show ?thesis
          by (intro exI [of _ t] exI [of _ False]) (simp add: eq run_simps retire_spec_def view_simps)
      qed
    qed
  qed
qed

lemma run_idle_run:
  assumes "procs s (idle_proc s) = Some ipc"
  shows "\<exists>t. run_idle s = Ret (p_rsp ipc, t) \<and> (heap rk k s R \<longrightarrow> heap rk k t R) \<and> same s t \<and>
    (p_rsp ipc, running_process t, view t) = idle_spec (idle_proc s) (view s)"
  using assms
  by (intro exI [of _ "s\<lparr>procs := (procs s)(idle_proc s \<mapsto> ipc\<lparr>p_state := RUNNING\<rparr>), running_process := idle_proc s\<rparr>"])
     (simp add: run_idle_def run_simps idle_spec_def view_simps same_def)

lemma dispatch_run:
  assumes h: "heap rk k s R" and inv: "sched_inv s" and idle: "idle_ok s"
  shows "\<exists>r t. dispatch M s = Ret (r, t) \<and> heap rk k t R \<and> same s t \<and>
    (r, running_process t, view t) = dispatch_spec (idle_proc s) (view s)"
proof -
  have prios: "rev [MIN_PRIORITY..MAX_PRIORITY] = [3, 2, 1, 0]"
    by (simp add: MIN_PRIORITY_def MAX_PRIORITY_def upto.simps)
  have ok: "\<forall>pr\<in>set [3, 2, 1, 0]. is_prio pr \<and> (\<forall>a\<in>set (ready s pr). waiting_ok s a)"
    using sched_inv_queue(1) [OF inv, of 3] sched_inv_queue(1) [OF inv, of 2]
      sched_inv_queue(1) [OF inv, of 1] sched_inv_queue(1) [OF inv, of 0] by simp
  note pick = pick_next_run [OF h ok]
  from idle obtain ipc where ipc: "procs s (idle_proc s) = Some ipc" by (auto simp: idle_ok_def)
  show ?thesis
  proof (cases "top_prio (rlists s)")
    case None
    then have "pick_next M [3, 2, 1, 0] s = Ret (null, s)" using pick by (simp add: top_prio_def del: pick_next.simps)
    then have eq: "dispatch M s = run_idle s" by (simp add: dispatch_def prios run_bnd del: pick_next.simps)
    from run_idle_run [OF ipc, of k R] h None show ?thesis unfolding eq by (auto simp: dispatch_spec_def)
  next
    case (Some pr)
    let ?a = "hd (rlists s pr)"
    have "\<exists>t. pick_next M [3, 2, 1, 0] s = Ret (?a, t) \<and> heap rk k t R \<and> same s t \<and>
        running_process t = running_process s \<and> procs t = procs s \<and> rlists t = (rlists s)(pr := tl (rlists s pr))"
      using pick Some by (simp add: top_prio_def del: pick_next.simps)
    then obtain t where t: "pick_next M [3, 2, 1, 0] s = Ret (?a, t)" "heap rk k t R" "same s t"
      "procs t = procs s" "rlists t = (rlists s)(pr := tl (rlists s pr))" by blast
    have idle_t: "idle_proc t = idle_proc s" by (rule same_fields [OF t(3)])
    have pr: "is_prio pr" "ready s pr \<noteq> []" using Some by (auto simp: top_prio_def rlists_def split: if_splits)
    then have "hd (ready s pr) \<in> set (ready s pr)" by simp
    with sched_inv_queue(1) [OF inv, of pr] pr have "waiting_ok s (hd (ready s pr))" by blast
    with pr(1) obtain pc where
      pc: "procs s ?a = Some pc" "p_state pc = READY" "?a \<noteq> null" "?a \<noteq> idle_proc s" by (auto simp: waiting_ok_def)
    let ?u = "t\<lparr>running_process := ?a, procs := (procs s)(?a \<mapsto> started pc)\<rparr>"
    have eq: "dispatch M s = (if in_stack pc then Ret (p_rsp pc, ?u) else run_idle ?u)"
      using t(1,4) pc idle_t by (simp add: dispatch_def prios run_simps reset_aging_def started_def in_stack_def
          linorder_not_less linorder_not_le del: pick_next.simps)
    have hu: "heap rk k ?u R" using t(2) by simp
    have su: "same s ?u" by (rule same_trans [OF t(3)]) (simp add: same_def)
    have vu: "view ?u = ((rlists s)(pr := tl (rlists s pr)), (procs s)(?a \<mapsto> started pc))" using t(5) by (simp add: view_simps)
    show ?thesis
    proof (cases "in_stack pc")
      case True
      with eq hu su vu pc Some show ?thesis by (auto simp: dispatch_spec_def Let_def)
    next
      case False
      have "procs ?u (idle_proc ?u) = Some ipc" using ipc pc idle_t by simp
      from run_idle_run [OF this, of k R] hu False eq obtain v where
        v: "dispatch M s = Ret (p_rsp ipc, v)" "heap rk k v R" "same ?u v"
          "(p_rsp ipc, running_process v, view v) = idle_spec (idle_proc ?u) (view ?u)" by auto
      have "idle_spec (idle_proc ?u) (view ?u) = dispatch_spec (idle_proc s) (view s)"
        using Some False pc idle_t vu by (simp add: dispatch_spec_def Let_def)
      with v same_trans [OF su v(3)] show ?thesis by metis
    qed
  qed
qed

end

section \<open>The invariant over a run of the scheduler\<close>

text \<open>The invariant on views: every queued process is ready, live, not idle and has a valid
  priority, no process is queued twice, and pids of queued processes differ. The running
  process is live and not queued.\<close>

definition wait_ok :: "addr \<Rightarrow> (addr \<Rightarrow> process option) \<Rightarrow> addr \<Rightarrow> bool" where
  "wait_ok idle ps a \<longleftrightarrow> a \<noteq> null \<and> a \<noteq> idle \<and>
     (\<exists>pc. ps a = Some pc \<and> p_state pc = READY \<and> is_prio (p_priority pc))"

definition queued_ok :: "addr \<Rightarrow> sched_view \<Rightarrow> bool" where
  "queued_ok idle st \<longleftrightarrow> idle \<noteq> null \<and> snd st idle \<noteq> None \<and>
     (\<forall>a\<in>set (all_ready (fst st)). wait_ok idle (snd st) a) \<and> distinct (all_ready (fst st)) \<and>
     inj_on (\<lambda>a. p_pid (the (snd st a))) (set (all_ready (fst st)))"

definition running_ok :: "addr \<Rightarrow> addr \<Rightarrow> sched_view \<Rightarrow> bool" where
  "running_ok idle run st \<longleftrightarrow> run \<noteq> null \<longrightarrow> run \<notin> set (all_ready (fst st)) \<and>
     (\<exists>pc. snd st run = Some pc \<and> (run \<noteq> idle \<longrightarrow> is_prio (p_priority pc) \<and>
        (\<forall>a\<in>set (all_ready (fst st)). p_pid (the (snd st a)) \<noteq> p_pid pc)))"

definition sched_ok :: "'m kst \<Rightarrow> bool" where
  "sched_ok s \<longleftrightarrow> queued_ok (idle_proc s) (view s) \<and> running_ok (idle_proc s) (running_process s) (view s)"

lemma sched_ok_inv: "queued_ok (idle_proc s) (view s) \<Longrightarrow> sched_inv s \<and> idle_ok s"
  by (simp add: queued_ok_def sched_inv_def idle_ok_def waiting_ok_def wait_ok_def pid_at_def inj_on_def)

lemma queued_ok_cong:
  assumes "queued_ok idle (rd, ps)" and "mset (all_ready rd') = mset (all_ready rd)"
    and "\<And>a. wait_ok idle ps a \<Longrightarrow> wait_ok idle ps' a \<and> p_pid (the (ps' a)) = p_pid (the (ps a))" and "ps' idle \<noteq> None"
  shows "queued_ok idle (rd', ps')"
proof -
  have set: "set (all_ready rd') = set (all_ready rd)" and dist: "distinct (all_ready rd') = distinct (all_ready rd)"
    using assms(2) by (metis mset_eq_setD, metis mset_eq_imp_distinct_iff)
  have w: "\<forall>a\<in>set (all_ready rd). wait_ok idle ps a" and i: "inj_on (\<lambda>a. p_pid (the (ps a))) (set (all_ready rd))"
    using assms(1) by (auto simp: queued_ok_def)
  have "inj_on (\<lambda>a. p_pid (the (ps' a))) (set (all_ready rd))"
    using i w assms(3) unfolding inj_on_def by metis
  with assms w set dist show ?thesis by (auto simp: queued_ok_def)
qed

lemma wait_ok_age_all:
  "wait_ok idle ps a \<Longrightarrow> wait_ok idle (age_all A ps) a \<and> p_pid (the (age_all A ps a)) = p_pid (the (ps a))"
  using age_proc_prio by (auto simp: wait_ok_def age_all_def)

lemma queued_ok_age_list:
  assumes "queued_ok idle (rd, ps)" and pr: "0 \<le> pr" "pr \<le> 2"
  shows "queued_ok idle (age_list pr (rd, ps))"
proof -
  obtain A where A: "snd (age_list pr (rd, ps)) = age_all A ps" using procs_age_list by blast
  have "queued_ok idle (fst (age_list pr (rd, ps)), age_all A ps)"
    by (rule queued_ok_cong [OF assms(1) mset_age_list [OF pr]])
       (use assms(1) wait_ok_age_all in \<open>auto simp: queued_ok_def age_all_def\<close>)
  then show ?thesis by (metis A prod.collapse)
qed

lemma age_list_running:
  assumes q: "queued_ok idle (rd, ps)" and run: "running_ok idle run (rd, ps)" and pr: "0 \<le> pr" "pr \<le> 2"
  shows "running_ok idle run (age_list pr (rd, ps)) \<and> (run \<noteq> null \<longrightarrow> snd (age_list pr (rd, ps)) run = ps run)"
proof -
  have "\<exists>A. A \<subseteq> set (rd pr) \<and> snd (age_list pr (rd, ps)) = age_all A ps"
  proof (cases "rd pr")
    case Nil
    then show ?thesis by (auto simp: age_list_def age_all_def)
  next
    case (Cons a as)
    then show ?thesis by (intro exI [of _ "if due ps a then {a} else set (a # as)"]) (auto simp: age_list_def)
  qed
  then obtain A where A: "A \<subseteq> set (rd pr)" "snd (age_list pr (rd, ps)) = age_all A ps" by blast
  have sub: "set (rd pr) \<subseteq> set (all_ready rd)" using is_prio_cases [of pr] pr by (auto simp: all_ready_def)
  have set: "set (all_ready (fst (age_list pr (rd, ps)))) = set (all_ready rd)"
    using mset_age_list [OF pr, of rd ps] by (metis mset_eq_setD)
  have pid: "p_pid (the (age_all A ps a)) = p_pid (the (ps a))" if "a \<in> set (all_ready rd)" for a
    using q that wait_ok_age_all [of idle ps a A] by (auto simp: queued_ok_def)
  have same: "age_all A ps run = ps run" if "run \<noteq> null"
    using run that A(1) sub by (auto simp: running_ok_def age_all_def)
  show ?thesis using run same pid set unfolding running_ok_def A(2) by fastforce
qed

lemma age_spec_ok:
  assumes "queued_ok idle st" and "running_ok idle run st"
  shows "queued_ok idle (age_spec st)" "running_ok idle run (age_spec st)"
    "run \<noteq> null \<Longrightarrow> snd (age_spec st) run = snd st run"
proof -
  have step: "queued_ok idle (age_list pr st) \<and> running_ok idle run (age_list pr st) \<and>
      (run \<noteq> null \<longrightarrow> snd (age_list pr st) run = snd st run)"
    if "queued_ok idle st" "running_ok idle run st" "0 \<le> pr" "pr \<le> 2" for pr st
    using queued_ok_age_list [of idle "fst st" "snd st"] age_list_running [of idle "fst st" "snd st"] that by simp
  note s0 = step [OF assms, of 0] note s1 = step [of "age_list 0 st" 1] note s2 = step [of "age_list 1 (age_list 0 st)" 2]
  from s0 s1 s2 show "queued_ok idle (age_spec st)" "running_ok idle run (age_spec st)"
    "run \<noteq> null \<Longrightarrow> snd (age_spec st) run = snd st run" by (auto simp: age_spec_def)
qed

lemma mset_add_last:
  "is_prio pr \<Longrightarrow> mset (all_ready (rd(pr := rd pr @ [a]))) = add_mset a (mset (all_ready rd))"
  using is_prio_cases [of pr] by (auto simp: all_ready_def)

lemma mset_remove_first:
  "is_prio pr \<Longrightarrow> rd pr = a # as \<Longrightarrow> mset (all_ready rd) = add_mset a (mset (all_ready (rd(pr := as))))"
  using is_prio_cases [of pr] by (auto simp: all_ready_def)

lemma queued_ok_update_other:
  "queued_ok idle (rd, ps) \<Longrightarrow> run \<notin> set (all_ready rd) \<Longrightarrow> queued_ok idle (rd, ps(run \<mapsto> pc))"
  unfolding queued_ok_def wait_ok_def inj_on_def by (auto simp: fun_upd_apply)

lemma queued_ok_insert:
  assumes q: "queued_ok idle (rd, ps)" and m: "mset (all_ready rd') = add_mset a (mset (all_ready rd))"
    and new: "a \<notin> set (all_ready rd)" "wait_ok idle ps a"
    and pid: "\<forall>b\<in>set (all_ready rd). p_pid (the (ps b)) \<noteq> p_pid (the (ps a))"
  shows "queued_ok idle (rd', ps)"
proof -
  have "mset (all_ready rd') = mset (a # all_ready rd)" using m by simp
  then have "set (all_ready rd') = set (a # all_ready rd)" and "distinct (all_ready rd') = distinct (a # all_ready rd)"
    by (metis mset_eq_setD, metis mset_eq_imp_distinct_iff)
  with q new pid show ?thesis by (auto simp: queued_ok_def inj_on_def)
qed

lemma queued_ok_delete:
  assumes q: "queued_ok idle (rd, ps)" and m: "mset (all_ready rd) = add_mset a (mset (all_ready rd'))"
  shows "queued_ok idle (rd', ps)" "a \<notin> set (all_ready rd')" "wait_ok idle ps a"
    "\<forall>b\<in>set (all_ready rd'). p_pid (the (ps b)) \<noteq> p_pid (the (ps a))"
proof -
  have "mset (all_ready rd) = mset (a # all_ready rd')" using m by simp
  then have set: "set (all_ready rd) = set (a # all_ready rd')" and dist: "distinct (all_ready rd) = distinct (a # all_ready rd')"
    by (metis mset_eq_setD, metis mset_eq_imp_distinct_iff)
  from q set dist show "queued_ok idle (rd', ps)" "a \<notin> set (all_ready rd')" "wait_ok idle ps a"
    by (auto simp: queued_ok_def inj_on_def)
  with q set dist show "\<forall>b\<in>set (all_ready rd'). p_pid (the (ps b)) \<noteq> p_pid (the (ps a))"
    by (auto simp: queued_ok_def inj_on_def)
qed

lemma retire_spec_ok:
  assumes q: "queued_ok idle (rd, ps)" and r: "running_ok idle run (rd, ps)"
    and spec: "retire_spec idle rsp run (rd, ps) = (b, st)"
  shows "queued_ok idle st" and "b \<Longrightarrow> running_ok idle run st"
proof -
  have "queued_ok idle st \<and> (b \<longrightarrow> running_ok idle run st)"
  proof (cases "run = null")
    case True
    with q spec show ?thesis by (auto simp: retire_spec_def)
  next
    case False
    with r obtain pc where pc: "ps run = Some pc" "run \<notin> set (all_ready rd)"
      "run \<noteq> idle \<longrightarrow> is_prio (p_priority pc) \<and> (\<forall>a\<in>set (all_ready rd). p_pid (the (ps a)) \<noteq> p_pid pc)"
      by (auto simp: running_ok_def)
    note qo = queued_ok_update_other [OF q pc(2)]
    have others: "(ps(run \<mapsto> x)) a = ps a" if "a \<in> set (all_ready rd)" for x a using that pc(2) by auto
    show ?thesis
    proof (cases "p_state pc = RUNNING \<and> \<not> p_quantum_remaining pc > 1 \<and> run \<noteq> idle")
      case True
      let ?pc = "pc\<lparr>p_rsp := rsp, p_quantum_remaining := DEFAULT_QUANTUM, p_state := READY\<rparr>"
      have st: "st = (rd(p_priority pc := rd (p_priority pc) @ [run]), ps(run \<mapsto> ?pc))" "\<not> b"
        using spec False True pc(1) by (auto simp: retire_spec_def)
      have "queued_ok idle st" unfolding st(1)
        by (rule queued_ok_insert [OF qo [of ?pc] mset_add_last pc(2)])
           (use True False pc others in \<open>auto simp: wait_ok_def\<close>)
      with st(2) show ?thesis by simp
    next
      case keep: False
      have "\<exists>x. st = (rd, ps(run \<mapsto> x)) \<and> p_priority x = p_priority pc \<and> p_pid x = p_pid pc"
      proof (cases "p_state pc = RUNNING")
        case run: True
        show ?thesis
        proof (cases "p_quantum_remaining pc > 1")
          case True
          with spec False pc(1) run show ?thesis by (auto simp: retire_spec_def)
        next
          case less: False
          with keep run have "run = idle" by simp
          with spec False pc(1) run less show ?thesis by (auto simp: retire_spec_def)
        qed
      next
        case nr: False
        with spec False pc(1) show ?thesis by (auto simp: retire_spec_def)
      qed
      then obtain x where st: "st = (rd, ps(run \<mapsto> x))" "p_priority x = p_priority pc" "p_pid x = p_pid pc" by blast
      have "running_ok idle run st" using pc others st by (auto simp: running_ok_def)
      with qo st(1) show ?thesis by simp
    qed
  qed
  then show "queued_ok idle st" and "b \<Longrightarrow> running_ok idle run st" by auto
qed

lemma idle_spec_ok:
  assumes "queued_ok idle st" and "idle_spec idle st = (r, run, st')"
  shows "queued_ok idle st'" "running_ok idle run st'"
proof -
  obtain rd ps where st: "st = (rd, ps)" by (cases st)
  have ni: "idle \<notin> set (all_ready rd)" using assms(1) st by (auto simp: queued_ok_def wait_ok_def)
  have "st' = (rd, ps(idle \<mapsto> (the (ps idle))\<lparr>p_state := RUNNING\<rparr>))" "run = idle"
    using assms(2) st by (auto simp: idle_spec_def)
  with queued_ok_update_other [of idle rd ps idle] assms(1) st ni
  show "queued_ok idle st'" "running_ok idle run st'" by (auto simp: running_ok_def)
qed

lemma top_prio_Some: "top_prio rd = Some pr \<Longrightarrow> is_prio pr \<and> rd pr \<noteq> [] \<and> (\<forall>pr'. is_prio pr' \<longrightarrow> pr < pr' \<longrightarrow> rd pr' = [])"
proof (intro conjI allI impI)
  assume top: "top_prio rd = Some pr"
  then show "0 \<le> pr" "pr \<le> 3" "rd pr \<noteq> []" by (auto simp: top_prio_def split: if_splits)
  fix pr' assume pr': "is_prio pr'" "pr < pr'"
  from is_prio_cases [OF pr'(1)] show "rd pr' = []"
    using top pr'(2) by (elim disjE) (simp_all add: top_prio_def split: if_splits)
qed

lemma dispatch_spec_ok:
  assumes q: "queued_ok idle (rd, ps)" and spec: "dispatch_spec idle (rd, ps) = (r, run, st')"
  shows "queued_ok idle st'" "running_ok idle run st'"
proof -
  have "queued_ok idle st' \<and> running_ok idle run st'"
  proof (cases "top_prio rd")
    case None
    with spec idle_spec_ok [OF q] show ?thesis by (auto simp: dispatch_spec_def)
  next
    case (Some pr)
    from top_prio_Some [OF Some] obtain a as where pr: "is_prio pr" "rd pr = a # as" by (cases "rd pr") auto
    note d = queued_ok_delete [OF q mset_remove_first [of pr rd a as, OF pr]]
    from d(3) obtain pc where pc: "ps a = Some pc" "a \<noteq> null" "a \<noteq> idle" "is_prio (p_priority pc)" by (auto simp: wait_ok_def)
    let ?st = "(rd(pr := as), ps(a \<mapsto> started pc))"
    have q1: "queued_ok idle ?st" by (rule queued_ok_update_other [OF d(1,2)])
    have "\<forall>b\<in>set (all_ready (rd(pr := as))). p_pid (the ((ps(a \<mapsto> started pc)) b)) \<noteq> p_pid pc"
      using d(2,4) pc(1) by auto
    then have r1: "running_ok idle a ?st" using d(2) pc by (simp add: running_ok_def started_def)
    have "dispatch_spec idle (rd, ps) = (if in_stack pc then (p_rsp pc, a, ?st) else idle_spec idle ?st)"
      using Some pr pc by (simp add: dispatch_spec_def Let_def)
    with spec q1 r1 idle_spec_ok [OF q1] show ?thesis by (auto split: if_splits)
  qed
  then show "queued_ok idle st'" "running_ok idle run st'" by auto
qed

context memory_room
begin

lemma schedule_run:
  assumes h: "heap rk (k + 2 + 2 * length (all_ready (rlists s))) s R" and small: "16 \<le> small"
    and ok: "sched_ok s" and online: "scheduler_online s"
  shows "\<exists>r t. schedule M rsp s = Ret (r, t) \<and> heap rk k t R \<and> same s t \<and> sched_ok t \<and>
    (r, running_process t, view t) = schedule_spec (idle_proc s) rsp (running_process s) (view s)"
proof -
  let ?idle = "idle_proc s" and ?run = "running_process s"
  from ok have q: "queued_ok ?idle (view s)" and r: "running_ok ?idle ?run (view s)" by (auto simp: sched_ok_def)
  from apply_aging_run [of "Suc (Suc k)" s R, OF _ small] h sched_ok_inv [OF q] obtain t where
    t: "apply_aging M s = Ret ((), t)" "heap rk (Suc (Suc k)) t R" "same s t" "running_process t = ?run"
      "view t = age_spec (view s)" by auto
  have it: "idle_proc t = ?idle" by (rule same_fields [OF t(3)])
  have qt: "queued_ok ?idle (view t)" and rt: "running_ok ?idle ?run (view t)"
    unfolding t(5) by (rule age_spec_ok [OF q r])+
  have "\<exists>u b. (if ?run = null then ret False else retire M rsp ?run) t = Ret (b, u) \<and> heap rk k u R \<and> same t u \<and>
      (b \<longrightarrow> running_process u = ?run) \<and> (b, view u) = retire_spec ?idle rsp ?run (view t)"
  proof (cases "?run = null")
    case True
    have "heap rk k t R" by (rule heap_le [OF t(2)]) simp
    with True show ?thesis by (auto simp: run_simps same_refl retire_spec_def)
  next
    case False
    with rt obtain pc where "procs t ?run = Some pc" "?run \<noteq> ?idle \<longrightarrow> is_prio (p_priority pc)"
      by (auto simp: running_ok_def)
    with retire_run [OF t(2) small False, of pc rsp] False it t(4) show ?thesis by auto
  qed
  then obtain u b where u: "(if ?run = null then ret False else retire M rsp ?run) t = Ret (b, u)" "heap rk k u R" "same t u"
    "b \<longrightarrow> running_process u = ?run" "(b, view u) = retire_spec ?idle rsp ?run (view t)" by blast
  have su: "same s u" by (rule same_trans [OF t(3) u(3)])
  have iu: "idle_proc u = ?idle" by (rule same_fields [OF su])
  have qu: "queued_ok ?idle (view u)" and ru: "b \<Longrightarrow> running_ok ?idle ?run (view u)"
    using retire_spec_ok [OF qt rt u(5) [symmetric]] by auto
  have eq: "schedule M rsp s = (if b then Ret (rsp, u) else dispatch M u)"
    using online t(1,4) u(1) by (cases "?run = null") (auto simp: schedule_def run_simps)
  have spec: "schedule_spec ?idle rsp ?run (view s) = (if b then (rsp, ?run, view u) else dispatch_spec ?idle (view u))"
    by (simp add: schedule_spec_def flip: t(5) u(5))
  show ?thesis
  proof (cases b)
    case True
    with eq spec u(2,4) su qu ru iu show ?thesis by (auto simp: sched_ok_def)
  next
    case False
    from dispatch_run [OF u(2)] sched_ok_inv [of u] qu iu obtain r v where
      v: "dispatch M u = Ret (r, v)" "heap rk k v R" "same u v"
        "(r, running_process v, view v) = dispatch_spec ?idle (view u)" by auto
    have sv: "same s v" by (rule same_trans [OF su v(3)])
    have "sched_ok v"
      unfolding sched_ok_def same_fields(1) [OF sv] using dispatch_spec_ok [OF qu v(4) [symmetric]] by simp
    with eq spec False v sv show ?thesis by auto
  qed
qed

end

end
