(* ===== verification/Sem_Correct.thy ===== *)
theory Sem_Correct
  imports Sem Scheduler_Correct
begin

text \<open>
  Correctness of the semaphores. The registry queue, the semaphores and their queues of blocked
  pids live in the blocks \<open>R\<close> outside the ready queues; \<open>sem_heap\<close> is their representation
  invariant. Clients see a semaphore as its value and the list of blocked pids.
\<close>

section \<open>Memory outside the ready queues\<close>

lemma heap_mem_cong: "heap rk k (s\<lparr>mem := m\<rparr>) R \<longleftrightarrow> table_wf s \<and>
    (\<forall>pr. is_prio pr \<longrightarrow> (\<exists>q. rq s pr = Some q \<and> q_ok q)) \<and> (\<exists>L. rk k m L \<and> owned L (queues s) \<and> rest_of L (queues s) = R)"
  by (simp add: heap_def queues_def)

lemma heap_other_cong [simp]:
  "heap rk k (registry_update f s) R = heap rk k s R" "heap rk k (sems_update g s) R = heap rk k s R"
  "heap rk k (process_table_update h s) R = heap rk k s R"
  by (simp_all add: heap_def queues_def rq_def table_wf_def)

lemma rlists_other_cong [simp]:
  "rlists (registry_update f s) = rlists s" "rlists (sems_update g s) = rlists s" "rlists (mem_update h s) = rlists s"
  "rlists (procs_update h' s) = rlists s" "rlists (pipes_update h'' s) = rlists s"
  by (simp_all add: rlists_def ready_def rq_def fun_eq_iff)

lemma owned_rest_owns:
  assumes "owned L qs" and "queue_owns (rest_of L qs) q"
  shows "queue_owns L q" and "set (cells q) \<inter> set (concat (map cells qs)) = {}"
  using assms by (auto simp: queue_owns_def rest_of_def owned_def cells_def restrict_map_def domIff subset_iff split: if_splits)

lemma owned_other_frame:
  assumes o: "owned L qs" and own: "queue_owns (rest_of L qs) q" and f: "frame L q L' q'"
  shows "owned L' qs \<and> frame (rest_of L qs) q (rest_of L' qs) q'"
proof -
  let ?C = "set (concat (map cells qs))"
  note d = owned_rest_owns(2) [OF o own]
  have keep: "L' x = L x \<and> x \<notin> set (cells q')" if "x \<in> ?C" for x
  proof (rule frame_other [OF f])
    show "x \<in> dom L" using that o by (auto simp: owned_def)
    show "x \<notin> set (cells q)" using that d by auto
  qed
  have "?C \<subseteq> dom L'"
  proof
    fix x assume x: "x \<in> ?C"
    with o have "x \<in> dom L" by (auto simp: owned_def)
    with keep [OF x] show "x \<in> dom L'" by (auto simp: domIff)
  qed
  moreover have "null \<notin> dom L'" using f by (simp add: frame_def queue_owns_def)
  ultimately have o': "owned L' qs" using o by (simp add: owned_def)
  have "(L' |` (- set (cells q'))) |` (- ?C) = (L |` (- set (cells q))) |` (- ?C)" using f by (simp add: frame_def)
  then have eq: "rest_of L' qs |` (- set (cells q')) = rest_of L qs |` (- set (cells q))"
    by (simp add: rest_of_def Int_commute)
  have "set (cells q') \<subseteq> dom (rest_of L' qs)"
    using keep f by (auto simp: rest_of_def frame_def queue_owns_def cells_def)
  then have "queue_owns (rest_of L' qs) q'"
    using f by (auto simp: queue_owns_def frame_def cells_def rest_of_def)
  with o' eq f show ?thesis by (simp add: frame_def)
qed

lemma heap_rest_step:
  assumes h: "heap rk k s R" and own: "queue_owns R q"
    and step: "\<And>L. rk k (mem s) L \<Longrightarrow> queue_owns L q \<Longrightarrow> \<exists>L'. rk j m L' \<and> frame L q L' q'"
  shows "\<exists>R'. heap rk j (s\<lparr>mem := m\<rparr>) R' \<and> frame R q R' q'"
proof -
  from h obtain L where L: "rk k (mem s) L" "owned L (queues s)" "rest_of L (queues s) = R" by (auto simp: heap_def)
  have own': "queue_owns (rest_of L (queues s)) q" using own L(3) by simp
  from step [OF L(1) owned_rest_owns(1) [OF L(2) own']] obtain L' where L': "rk j m L'" "frame L q L' q'" by blast
  from owned_other_frame [OF L(2) own' L'(2)] L L'(1) h show ?thesis
    unfolding heap_mem_cong by (auto simp: heap_def)
qed

context memory_room
begin

lemma heap_alloc:
  assumes h: "heap rk (Suc k) s R" and n: "0 < n" "n \<le> small"
  shows "\<exists>a m. mm_alloc_op M n (mem s) = Ret (a, m) \<and> a \<noteq> null \<and> a \<notin> dom R \<and> heap rk k (s\<lparr>mem := m\<rparr>) (R(a \<mapsto> n))"
proof -
  from h obtain L where L: "rk (Suc k) (mem s) L" "owned L (queues s)" "rest_of L (queues s) = R" by (auto simp: heap_def)
  from alloc_room [OF L(1) n] obtain a m where a: "mm_alloc_op M n (mem s) = Ret (a, m)" "a \<noteq> null" "a \<notin> dom L"
    "rk k m (L(a \<mapsto> n))" by (auto elim!: wp_no_stopE)
  have fresh: "a \<notin> set (concat (map cells (queues s)))" using a(3) L(2) by (auto simp: owned_def)
  then have "rest_of (L(a \<mapsto> n)) (queues s) = R(a \<mapsto> n)" "a \<notin> dom R"
    unfolding L(3) [symmetric] using a(3) by (auto simp: rest_of_def restrict_map_def fun_eq_iff domIff)
  moreover have "owned (L(a \<mapsto> n)) (queues s)" using L(2) a(2) by (auto simp: owned_def)
  ultimately show ?thesis using a h unfolding heap_mem_cong by (auto simp: heap_def)
qed

lemma heap_free:
  assumes h: "heap rk k s R" and a: "a \<in> dom R"
  shows "\<exists>m. mm_free_op M a (mem s) = Ret ((), m) \<and> heap rk k (s\<lparr>mem := m\<rparr>) (R(a := None))"
proof -
  from h obtain L where L: "rk k (mem s) L" "owned L (queues s)" "rest_of L (queues s) = R" by (auto simp: heap_def)
  have aL: "a \<in> dom L" "a \<notin> set (concat (map cells (queues s)))"
    using a L(3) by (auto simp: rest_of_def restrict_map_def split: if_splits)
  from free_room [OF L(1) aL(1)] obtain m where m: "mm_free_op M a (mem s) = Ret ((), m)" "rk k m (L(a := None))"
    by (auto elim!: wp_no_stopE)
  have "rest_of (L(a := None)) (queues s) = R(a := None)"
    unfolding L(3) [symmetric] using aL by (auto simp: rest_of_def restrict_map_def fun_eq_iff)
  moreover have "owned (L(a := None)) (queues s)" using L(2) aL(2) by (auto simp: owned_def)
  ultimately show ?thesis using m h unfolding heap_mem_cong by (auto simp: heap_def)
qed

lemma rest_dequeue:
  assumes h: "heap rk k s R" and own: "queue_owns R q" and nodes: "q_nodes q = n # ns"
  shows "\<exists>q' m R'. dequeue M (Some q) (mem s) = Ret (Some (n_val n, q'), m) \<and> heap rk k (s\<lparr>mem := m\<rparr>) R' \<and>
    frame R q R' q' \<and> q_nodes q' = ns \<and> elemCount q' = elemCount q - 1"
proof -
  from h obtain L where L: "rk k (mem s) L" "owned L (queues s)" "rest_of L (queues s) = R" by (auto simp: heap_def)
  then have "queue_owns L q" using owned_rest_owns(1) own by blast
  from room.dequeue_run [OF L(1) this nodes] obtain q' m where
    d: "dequeue M (Some q) (mem s) = Ret (Some (n_val n, q'), m)" "q_nodes q' = ns" "elemCount q' = elemCount q - 1" by blast
  have "\<exists>R'. heap rk k (s\<lparr>mem := m\<rparr>) R' \<and> frame R q R' q'"
    by (rule heap_rest_step [OF h own]) (use room.dequeue_run [OF _ _ nodes] d(1) in fastforce)
  with d show ?thesis by blast
qed

lemma rest_enqueue:
  assumes h: "heap rk (Suc (Suc k)) s R" and own: "queue_owns R q"
    and size: "sizeof_Node \<le> small" "0 < dataSize q" "dataSize q \<le> small"
  shows "\<exists>q' m R' a d. enqueue M (Some q) x (mem s) = Ret (Some q', m) \<and> heap rk k (s\<lparr>mem := m\<rparr>) R' \<and>
    frame R q R' q' \<and> q_nodes q' = q_nodes q @ [\<lparr>n_addr = a, n_data = d, n_val = x\<rparr>] \<and> elemCount q' = elemCount q + 1"
proof -
  from h obtain L where L: "rk (Suc (Suc k)) (mem s) L" "owned L (queues s)" "rest_of L (queues s) = R" by (auto simp: heap_def)
  then have "queue_owns L q" using owned_rest_owns(1) own by blast
  from enqueue_room [OF L(1) this size, of x] obtain q' m a d where
    e: "enqueue M (Some q) x (mem s) = Ret (Some q', m)" "elemCount q' = elemCount q + 1"
      "q_nodes q' = q_nodes q @ [\<lparr>n_addr = a, n_data = d, n_val = x\<rparr>]" by blast
  have "\<exists>R'. heap rk k (s\<lparr>mem := m\<rparr>) R' \<and> frame R q R' q'"
    by (rule heap_rest_step [OF h own]) (use enqueue_room [OF _ _ size, of k "mem s" _ x] e(1) in fastforce)
  with e show ?thesis by blast
qed

end

section \<open>Searching the registry\<close>

lemma exists_scan_all:
  assumes "distinct (map n_addr (q_nodes q))" and "null \<notin> set (map n_addr (q_nodes q))"
    and "q_nodes q = dn @ rs" and "rs \<noteq> [] \<Longrightarrow> cyclicIter q = n_addr (hd rs)"
  shows "\<exists>i. exists_scan compare_semaphore_pointers (length rs) buf q x =
    Inr (x \<in> set (map n_val rs), q\<lparr>cyclicIter := i\<rparr>)"
  using assms
proof (induction rs arbitrary: q dn buf)
  case Nil
  then show ?case by (auto intro!: exI [of _ "cyclicIter q"])
next
  case (Cons n rs)
  let ?q = "q\<lparr>cyclicIter := (case rs of [] \<Rightarrow> head_addr q | k # _ \<Rightarrow> n_addr k)\<rparr>"
  have nx: "queueNextCyclicIter (Some q) = Inr (Some (n_val n, ?q))"
    by (rule next_iter) (use Cons.prems in auto)
  have "\<exists>i. exists_scan compare_semaphore_pointers (length rs) (Some (n_val n)) ?q x =
      Inr (x \<in> set (map n_val rs), ?q\<lparr>cyclicIter := i\<rparr>)"
    by (rule Cons.IH [of ?q "dn @ [n]"]) (use Cons.prems in \<open>auto split: list.split\<close>)
  then obtain i where i: "exists_scan compare_semaphore_pointers (length rs) (Some (n_val n)) ?q x =
      Inr (x \<in> set (map n_val rs), q\<lparr>cyclicIter := i\<rparr>)" by auto
  show ?case
  proof (cases "n_val n = x")
    case True
    with nx show ?thesis by (intro exI [of _ "cyclicIter ?q"]) (simp add: compare_semaphore_pointers_def)
  next
    case False
    then obtain c where "compare_semaphore_pointers (n_val n) x = Some c" "c \<noteq> 0"
      by (auto simp: compare_semaphore_pointers_def)
    with nx i False show ?thesis by (intro exI [of _ i]) simp
  qed
qed

section \<open>The representation invariant\<close>

definition blk :: "'m kst \<Rightarrow> addr \<Rightarrow> int queue" where
  "blk s a = the (s_blocked (the (sems s a)))"

definition sem_cells :: "'m kst \<Rightarrow> addr queue \<Rightarrow> addr list list" where
  "sem_cells s q = cells q # map (\<lambda>a. cells (blk s a)) (vals q)"

definition own_cells :: "(addr \<rightharpoonup> nat) \<Rightarrow> addr list list \<Rightarrow> bool" where
  "own_cells R css \<longleftrightarrow> distinct (concat css) \<and> set (concat css) \<subseteq> dom R \<and> null \<notin> dom R"

definition sem_ok :: "'m kst \<Rightarrow> addr \<Rightarrow> bool" where
  "sem_ok s a \<longleftrightarrow> a \<noteq> null \<and> (\<exists>sm b. sems s a = Some sm \<and> \<not> s_lock sm \<and> s_blocked sm = Some b \<and>
     elemCount b = length (q_nodes b) \<and> dataSize b = 4)"

text \<open>\<open>sem_heap s R q\<close>: the registry is unlocked and holds the queue \<open>q\<close> of semaphores.\<close>

definition sem_heap :: "'m kst \<Rightarrow> (addr \<rightharpoonup> nat) \<Rightarrow> addr queue \<Rightarrow> bool" where
  "sem_heap s R q \<longleftrightarrow> (\<exists>r. registry s = Some r \<and> \<not> r_lock r \<and> r_sems r = Some q) \<and>
     elemCount q = length (q_nodes q) \<and> dataSize q = 8 \<and> distinct (vals q) \<and>
     (\<forall>a\<in>set (vals q). sem_ok s a) \<and> own_cells R (sem_cells s q)"

text \<open>What a client sees of a semaphore.\<close>

definition sem_value :: "'m kst \<Rightarrow> addr \<Rightarrow> u16" where
  "sem_value s a = s_value (the (sems s a))"

definition sem_blocked :: "'m kst \<Rightarrow> addr \<Rightarrow> int list" where
  "sem_blocked s a = vals (blk s a)"

lemma own_cells_queue: "own_cells R css \<Longrightarrow> cells q \<in> set css \<Longrightarrow> queue_owns R q"
  by (auto simp: own_cells_def queue_owns_def cells_def dest!: split_list)

lemma own_cells_frame:
  assumes o: "own_cells R (pre @ cells q # post)" and f: "frame R q R' q'"
  shows "own_cells R' (pre @ cells q' # post)"
proof -
  have other: "x \<in> dom R' \<and> x \<notin> set (cells q')" if "x \<in> set (concat pre @ concat post)" for x
  proof -
    have "x \<in> dom R" "x \<notin> set (cells q)" using that o by (auto simp: own_cells_def)
    from frame_other [OF f this] \<open>x \<in> dom R\<close> show ?thesis by (auto simp: domIff)
  qed
  have q': "distinct (cells q')" "set (cells q') \<subseteq> dom R'" "null \<notin> dom R'"
    using f by (auto simp: frame_def queue_owns_def cells_def)
  have "distinct (concat pre @ concat post)" using o by (auto simp: own_cells_def)
  with other q' have "distinct (concat (pre @ cells q' # post))"
    by (simp only: concat_append concat.simps distinct_append) fastforce
  moreover have "set (concat (pre @ cells q' # post)) \<subseteq> dom R'" using other q'(2) by auto
  ultimately show ?thesis using q'(3) by (simp add: own_cells_def)
qed

lemma own_cells_update: "own_cells R css \<Longrightarrow> a \<notin> dom R \<Longrightarrow> a \<noteq> null \<Longrightarrow> own_cells (R(a \<mapsto> n)) css"
  by (auto simp: own_cells_def)

lemma own_cells_iter: "own_cells R (sem_cells s (q\<lparr>cyclicIter := i\<rparr>)) = own_cells R (sem_cells s q)"
  by (simp add: sem_cells_def cells_def vals_def)

lemma sem_heap_sem:
  assumes "sem_heap s R q" and "a \<in> set (vals q)"
  obtains sm b where "sems s a = Some sm" "\<not> s_lock sm" "s_blocked sm = Some b" "elemCount b = length (q_nodes b)"
    "dataSize b = 4" "blk s a = b" "a \<noteq> null" "queue_owns R b"
proof -
  from assms obtain sm b where 1: "sems s a = Some sm" "\<not> s_lock sm" "s_blocked sm = Some b"
    "elemCount b = length (q_nodes b)" "dataSize b = 4" "a \<noteq> null" by (auto simp: sem_heap_def sem_ok_def)
  then have 2: "blk s a = b" by (simp add: blk_def)
  have "queue_owns R b" by (rule own_cells_queue [of R "sem_cells s q"]) (use assms 2 in \<open>auto simp: sem_heap_def sem_cells_def\<close>)
  with 1 2 that show thesis by blast
qed

text \<open>Replacing the fields of one semaphore, its queue included.\<close>

lemma sem_heap_update:
  assumes h: "sem_heap s R q" and a: "a \<in> set (vals q)" and f: "frame R (blk s a) R' b'"
    and sm: "\<not> s_lock sm" "s_blocked sm = Some b'" "elemCount b' = length (q_nodes b')"
    and t: "sems t = (sems s)(a \<mapsto> sm)" "registry t = registry s"
  shows "sem_heap t R' q"
proof -
  from a obtain pre post where split: "vals q = pre @ a # post" by (auto dest: split_list)
  have "distinct (vals q)" using h by (simp add: sem_heap_def)
  then have na: "a \<notin> set pre" "a \<notin> set post" using split by auto
  have b: "blk t x = (if x = a then b' else blk s x)" for x using t sm by (simp add: blk_def)
  have "own_cells R ((cells q # map (\<lambda>x. cells (blk s x)) pre) @ cells (blk s a) # map (\<lambda>x. cells (blk s x)) post)"
    using h split by (simp add: sem_heap_def sem_cells_def)
  from own_cells_frame [OF this f]
  have "own_cells R' ((cells q # map (\<lambda>x. cells (blk s x)) pre) @ cells b' # map (\<lambda>x. cells (blk s x)) post)" .
  moreover have "map (\<lambda>x. cells (blk t x)) pre = map (\<lambda>x. cells (blk s x)) pre"
    "map (\<lambda>x. cells (blk t x)) post = map (\<lambda>x. cells (blk s x)) post" using na b by auto
  moreover have "blk t a = b'" using b by simp
  ultimately have own: "own_cells R' (sem_cells t q)" using split by (simp add: sem_cells_def del: map_eq_conv)
  have "dataSize b' = 4" "a \<noteq> null" using f h a sem_heap_sem [OF h a] by (auto simp: frame_def)
  then have "sem_ok t x" if "x \<in> set (vals q)" for x
    using that h sm t by (cases "x = a") (auto simp: sem_heap_def sem_ok_def)
  with own h t show ?thesis by (simp add: sem_heap_def)
qed

lemma sem_heap_cong:
  assumes "sem_heap s R q" and "sems t = sems s" and "registry t = registry s"
  shows "sem_heap t R q"
  using assms by (simp add: sem_heap_def sem_ok_def sem_cells_def blk_def)

lemma frame_refl: "queue_owns R q \<Longrightarrow> frame R q R q"
  by (simp add: frame_def)

context memory_room
begin

text \<open>The validity check finds exactly the registered handles and leaves the registry as it was, up
  to its iterator.\<close>

lemma is_semaphore_valid_run:
  assumes h: "heap rk (Suc k) s R" and sh: "sem_heap s R q" and small: "16 \<le> small"
  shows "\<exists>t q'. is_semaphore_valid M a s = Ret (a \<in> set (vals q), t) \<and> heap rk k t R \<and> sem_heap t R q' \<and>
    vals q' = vals q \<and> cells q' = cells q \<and> sems t = sems s \<and> t = s\<lparr>mem := mem t, registry := registry t\<rparr>"
proof -
  from sh obtain r where r: "registry s = Some r" "\<not> r_lock r" "r_sems r = Some q"
    and q: "elemCount q = length (q_nodes q)" "dataSize q = 8" by (auto simp: sem_heap_def)
  have own: "queue_owns R q" by (rule own_cells_queue [of R "sem_cells s q"]) (use sh in \<open>auto simp: sem_heap_def sem_cells_def\<close>)
  show ?thesis
  proof (cases "a = null")
    case True
    have "a \<notin> set (vals q)" using True sh by (auto simp: sem_heap_def sem_ok_def)
    moreover have "heap rk k s R" by (rule heap_le [OF h]) simp
    ultimately show ?thesis using True sh
      by (intro exI [of _ s] exI [of _ q]) (simp add: is_semaphore_valid_def run_simps)
  next
    case False
    have "0 < (8::nat)" "8 \<le> small" using small by auto
    from heap_alloc [OF h this] obtain buf m where al: "mm_alloc_op M 8 (mem s) = Ret (buf, m)" "buf \<noteq> null" "buf \<notin> dom R"
      "heap rk k (s\<lparr>mem := m\<rparr>) (R(buf \<mapsto> 8))" by blast
    from heap_free [OF al(4), of buf] obtain m' where fr: "mm_free_op M buf m = Ret ((), m')"
      "heap rk k (s\<lparr>mem := m'\<rparr>) ((R(buf \<mapsto> 8))(buf := None))" by auto
    have R: "(R(buf \<mapsto> 8))(buf := None) = R" using al(3) by (auto simp: fun_eq_iff domIff)
    have nodes: "distinct (map n_addr (q_nodes q))" "null \<notin> set (map n_addr (q_nodes q))"
      using owned_distinct_addr [OF own] by auto
    let ?q0 = "case queueBeginCyclicIter (Some q) of None \<Rightarrow> q | Some q' \<Rightarrow> q'"
    have q0: "\<exists>j. ?q0 = q\<lparr>cyclicIter := j\<rparr>"
    proof (cases "q_nodes q = []")
      case True
      then show ?thesis by (intro exI [of _ "cyclicIter q"]) (simp add: queueBeginCyclicIter_def)
    qed (auto simp: queueBeginCyclicIter_def)
    have "\<exists>i. exists_scan compare_semaphore_pointers (length (q_nodes ?q0)) None ?q0 a =
        Inr (a \<in> set (map n_val (q_nodes ?q0)), ?q0\<lparr>cyclicIter := i\<rparr>)"
      by (rule exists_scan_all [where dn = "[]"])
         (use nodes q0 in \<open>auto simp: queueBeginCyclicIter_def head_addr_def split: list.splits if_splits\<close>)
    then obtain i where scan: "exists_scan compare_semaphore_pointers (length (q_nodes q)) None ?q0 a =
        Inr (a \<in> set (vals q), q\<lparr>cyclicIter := i\<rparr>)" using q0 by (auto simp: vals_def)
    let ?q' = "q\<lparr>cyclicIter := i\<rparr>" and ?r' = "r\<lparr>r_sems := Some (q\<lparr>cyclicIter := i\<rparr>), r_lock := False\<rparr>"
    let ?t = "s\<lparr>mem := m', registry := Some ?r'\<rparr>"
    have "queueElementExists M compare_semaphore_pointers (Some q) a (mem s) = Ret ((a \<in> set (vals q), ?q'), m')"
      using al(1,2) fr(1) scan q by (simp add: queueElementExists_def run_simps Let_def)
    then have "is_semaphore_valid M a s = Ret (a \<in> set (vals q), ?t)"
      using False r by (simp add: is_semaphore_valid_def lock_registry_def unlock_registry_def get_registry_def
          upd_registry_def run_simps)
    moreover have "heap rk k ?t R" using fr(2) R by simp
    moreover have "sem_heap ?t R ?q'"
      using sh by (auto simp: sem_heap_def sem_ok_def own_cells_iter vals_def) (simp add: sem_cells_def blk_def vals_def cells_def own_cells_def)
    ultimately show ?thesis by (intro exI [of _ ?t] exI [of _ ?q']) (simp add: vals_def cells_def)
  qed
qed

end

section \<open>Blocking the running process\<close>

lemma queueRemove_absent:
  assumes miss: "\<forall>v\<in>set (vals q). \<exists>c. f v x = Some c \<and> c \<noteq> 0"
  shows "queueRemove M (Some f) (Some q) x m = Ret (None, m)"
proof -
  have "find_node f ns x = Inr None" if "\<forall>n\<in>set ns. \<exists>c. f (n_val n) x = Some c \<and> c \<noteq> 0" for ns
    using that by (induction ns) auto
  with miss have "find_node f (q_nodes q) x = Inr None" by (simp add: vals_def)
  then show ?thesis by (simp add: queueRemove_def run_simps)
qed

text \<open>A process that is in no queue is not found by \<open>remove_from_all_priority_queues\<close>.\<close>

lemma remove_absent_run:
  assumes h: "heap rk k s R" and p: "p \<noteq> null" "procs s p = Some pc" "is_prio (p_priority pc)"
    and others: "\<forall>a\<in>set (ready s (p_priority pc)). \<exists>qc. procs s a = Some qc \<and> p_pid qc \<noteq> p_pid pc"
  shows "remove_from_all_priority_queues M p s = Ret ((), s)"
proof -
  from heap_rq [OF h p(3)] obtain q where q: "rq s (p_priority pc) = Some q" "ready s (p_priority pc) = vals q" by blast
  have "\<forall>v\<in>set (vals q). \<exists>c. compareProcesses s v p = Some c \<and> c \<noteq> 0"
    using others q(2) p(2) by (fastforce simp: compareProcesses_def)
  then have "queueRemove M (Some (compareProcesses s)) (Some q) p (mem s) = Ret (None, mem s)"
    by (rule queueRemove_absent)
  with h p q(1) show ?thesis
    by (simp add: remove_from_all_priority_queues_def remove_from_queue_def run_simps)
qed

definition blocked_pcb :: "process \<Rightarrow> process" where
  "blocked_pcb pc = pc\<lparr>p_state := BLOCKED, p_wait_ticks := 0\<rparr>"

context memory_room
begin

lemma block_running_run:
  assumes h: "heap rk (k + 2 + 2 * length (all_ready (rlists s))) s R" and small: "16 \<le> small"
    and ok: "sched_ok s" and online: "scheduler_online s" and p: "running_process s = p" "p \<noteq> null" "p \<noteq> idle_proc s"
    and pc: "procs s p = Some pc" "p_pid pc \<noteq> 1" "p_state pc = RUNNING"
  shows "\<exists>t. block_process M p s = Ret (0, t) \<and> heap rk k t R \<and> sched_ok t \<and> same s (t\<lparr>cpu_rsp := cpu_rsp s\<rparr>) \<and>
    (cpu_rsp t, running_process t, rlists t, procs t) =
      schedule_spec (idle_proc s) (cpu_rsp s) p (rlists s, (procs s)(p \<mapsto> blocked_pcb pc))"
proof -
  let ?s1 = "s\<lparr>procs := (procs s)(p \<mapsto> blocked_pcb pc)\<rparr>"
  from ok p pc(1) have r: "p \<notin> set (all_ready (rlists s))" "is_prio (p_priority pc)"
    "\<forall>a\<in>set (all_ready (rlists s)). p_pid (the (procs s a)) \<noteq> p_pid pc"
    and q: "queued_ok (idle_proc s) (rlists s, procs s)" by (auto simp: sched_ok_def running_ok_def)
  have sub: "set (ready s (p_priority pc)) \<subseteq> set (all_ready (rlists s))"
    using is_prio_cases [OF r(2)] by (auto simp: all_ready_def)
  have "\<forall>a\<in>set (ready s (p_priority pc)). \<exists>qc. procs s a = Some qc \<and> p_pid qc \<noteq> p_pid pc"
  proof
    fix a assume a: "a \<in> set (ready s (p_priority pc))"
    with sub q obtain qc where "procs s a = Some qc" by (auto simp: queued_ok_def wait_ok_def)
    with a sub r(3) show "\<exists>qc. procs s a = Some qc \<and> p_pid qc \<noteq> p_pid pc" by fastforce
  qed
  from remove_absent_run [OF h p(2) pc(1) r(2) this]
  have blk: "block_process M p s = sq (force_scheduler_interrupt M) (ret 0) ?s1"
    using p pc by (simp add: block_process_def reset_aging_def run_simps blocked_pcb_def)
  have h1: "heap rk (k + 2 + 2 * length (all_ready (rlists ?s1))) ?s1 R" using h by (simp add: view_simps)
  have "sched_ok ?s1"
    using ok p r queued_ok_update_other [OF q r(1)] pc
    by (auto simp: sched_ok_def running_ok_def view_simps blocked_pcb_def)
  from schedule_run [OF h1 small this, of "cpu_rsp s"] online p obtain rsp t where
    t: "schedule M (cpu_rsp s) ?s1 = Ret (rsp, t)" "heap rk k t R" "same ?s1 t" "sched_ok t"
      "(rsp, running_process t, rlists t, procs t) =
        schedule_spec (idle_proc s) (cpu_rsp s) p (rlists s, (procs s)(p \<mapsto> blocked_pcb pc))"
    by (auto simp: view_simps)
  let ?u = "t\<lparr>cpu_rsp := rsp\<rparr>"
  have "block_process M p s = Ret (0, ?u)"
    unfolding blk using t(1) by (simp add: force_scheduler_interrupt_def run_simps)
  moreover have "rlists ?u = rlists t" by (auto simp: rlists_def fun_eq_iff)
  moreover have "sched_ok ?u" using t(4) calculation(2) by (simp add: sched_ok_def)
  moreover have "same s (?u\<lparr>cpu_rsp := cpu_rsp s\<rparr>)"
    using same_trans [OF _ t(3), of s] same_fields(8) [OF t(3)] by (cases t) (simp add: same_def)
  ultimately show ?thesis using t(2,5) by (intro exI [of _ ?u]) simp
qed

section \<open>Post\<close>

lemma valid_then_run:
  assumes h: "heap rk (Suc k) s R" and sh: "sem_heap s R q" and small: "16 \<le> small"
  obtains t q' where "heap rk k t R" "sem_heap t R q'" "vals q' = vals q" "cells q' = cells q" "sems t = sems s"
    "t = s\<lparr>mem := mem t, registry := registry t\<rparr>"
    "semPost M a s = (if a \<in> set (vals q) then semPost_locked M a t else Ret (- 1, t))"
    "semWait M a s = (if a \<in> set (vals q) then semWait_locked M a t else Ret (Done (- 1), t))"
proof -
  have r: "registry s \<noteq> None" using sh by (auto simp: sem_heap_def)
  from is_semaphore_valid_run [OF assms, of a] obtain t q' where
    t: "is_semaphore_valid M a s = Ret (a \<in> set (vals q), t)" "heap rk k t R" "sem_heap t R q'" "vals q' = vals q" "cells q' = cells q"
       "t = s\<lparr>mem := mem t, registry := registry t\<rparr>" by metis
  then have "sems t = sems s" by (cases s, cases t) simp
  with t r show ?thesis by (intro that [of t q']) (auto simp: semPost_def semWait_def run_simps)
qed

text \<open>A critical section that ends with the lock released puts back the lock field it found.\<close>

lemma sem_unlock_same:
  "\<not> s_lock sm \<Longrightarrow> sm\<lparr>s_lock := False\<rparr> = sm"
  "sm\<lparr>s_lock := l, s_blocked := b\<rparr> = sm\<lparr>s_blocked := b, s_lock := l\<rparr>"
  "sm\<lparr>s_lock := l, s_value := v\<rparr> = sm\<lparr>s_value := v, s_lock := l\<rparr>"
  by simp_all

lemma semPost_free_run:
  assumes h: "heap rk k s R" and sh: "sem_heap s R q" and a: "a \<in> set (vals q)" "sem_blocked s a = []"
  shows "\<exists>t. semPost_locked M a s = Ret (0, t) \<and> heap rk k t R \<and> sem_heap t R q \<and>
    sem_value t a = sem_value s a + 1 \<and> sem_blocked t a = [] \<and>
    (\<forall>b. b \<noteq> a \<longrightarrow> sems t b = sems s b) \<and> t = s\<lparr>sems := sems t\<rparr> \<and> blk t a = blk s a \<and>
    s_name (the (sems t a)) = s_name (the (sems s a)) \<and> s_users (the (sems t a)) = s_users (the (sems s a))"
proof -
  from sem_heap_sem [OF sh a(1)] obtain sm b where sm: "sems s a = Some sm" "\<not> s_lock sm" "s_blocked sm = Some b"
    "elemCount b = length (q_nodes b)" "blk s a = b" "queue_owns R b" by metis
  have empty: "elemCount b = 0" using a(2) sm by (simp add: sem_blocked_def vals_def)
  let ?sm = "sm\<lparr>s_value := s_value sm + 1\<rparr>"
  let ?u = "s\<lparr>sems := (sems s)(a \<mapsto> ?sm)\<rparr>"
  have "semPost_locked M a s = Ret (0, ?u)"
    using sm empty
    by (simp add: semPost_locked_def semLock_def semUnlock_def upd_sem_def get_sem_def queueSize_def run_simps sem_unlock_same)
  moreover have "sem_heap ?u R q"
    by (rule sem_heap_update [OF sh a(1), where b' = b and sm = ?sm])
       (use sm frame_refl [OF sm(6)] in auto)
  ultimately show ?thesis using h sm a(2)
    by (intro exI [of _ ?u]) (simp add: sem_value_def sem_blocked_def blk_def)
qed

lemma semPost_wake_run:
  assumes h: "heap rk (Suc (Suc k)) s R" and sh: "sem_heap s R q" and small: "16 \<le> small"
    and a: "a \<in> set (vals q)" "sem_blocked s a = pid # pids"
    and pid: "0 \<le> pid" "pid < int MAX_PROCESSES" "process_table s ! nat pid = p"
    and p: "p \<noteq> null" "p \<noteq> idle_proc s" "procs s p = Some pc" "p_pid pc \<noteq> 1" "p_state pc = BLOCKED" "is_prio (p_priority pc)"
  shows "\<exists>t R'. semPost_locked M a s = Ret (0, t) \<and> heap rk k t R' \<and> sem_heap t R' q \<and>
    sem_value t a = sem_value s a \<and> sem_blocked t a = pids \<and> (\<forall>b. b \<noteq> a \<longrightarrow> sems t b = sems s b) \<and>
    rlists t = (rlists s)(p_priority pc := rlists s (p_priority pc) @ [p]) \<and> running_process t = running_process s \<and>
    procs t = (procs s)(p \<mapsto> pc\<lparr>p_state := READY\<rparr>) \<and> same s (t\<lparr>sems := sems s\<rparr>) \<and> frame R (blk s a) R' (blk t a) \<and>
    s_name (the (sems t a)) = s_name (the (sems s a)) \<and> s_users (the (sems t a)) = s_users (the (sems s a))"
proof -
  from sem_heap_sem [OF sh a(1)] obtain sm b where sm: "sems s a = Some sm" "\<not> s_lock sm" "s_blocked sm = Some b"
    "elemCount b = length (q_nodes b)" "blk s a = b" "queue_owns R b" by metis
  from a(2) sm(5) obtain n ns where n: "q_nodes b = n # ns" "n_val n = pid" "map n_val ns = pids"
    by (auto simp: sem_blocked_def vals_def)
  from rest_dequeue [OF h sm(6) n(1)] obtain b' m R' where
    d: "dequeue M (Some b) (mem s) = Ret (Some (pid, b'), m)" "heap rk (Suc (Suc k)) (s\<lparr>mem := m\<rparr>) R'" "frame R b R' b'"
      "q_nodes b' = ns" "elemCount b' = elemCount b - 1" using n(2) by metis
  let ?sm = "sm\<lparr>s_blocked := Some b'\<rparr>"
  let ?s1 = "s\<lparr>mem := m, sems := (sems s)(a \<mapsto> ?sm\<lparr>s_lock := True\<rparr>), procs := (procs s)(p \<mapsto> pc\<lparr>p_state := READY\<rparr>)\<rparr>"
  have "heap rk (Suc (Suc k)) ?s1 R'" using d(2) by simp
  from add_to_scheduler_run [OF this small, of p "pc\<lparr>p_state := READY\<rparr>"] p obtain t where
    t: "add_to_scheduler M p ?s1 = Ret ((), t)" "heap rk k t R'" "same ?s1 t" "running_process t = running_process s"
      "rlists t = (rlists ?s1)(p_priority pc := rlists ?s1 (p_priority pc) @ [p])"
      "procs t = (procs s)(p \<mapsto> pc\<lparr>p_state := READY\<rparr>)" by auto
  have st: "sems t = (sems s)(a \<mapsto> ?sm\<lparr>s_lock := True\<rparr>)" "registry t = registry s" using same_fields(3,4) [OF t(3)] by auto
  let ?u = "t\<lparr>sems := (sems s)(a \<mapsto> ?sm)\<rparr>"
  have "semPost_locked M a s = Ret (0, ?u)"
    using sm n d(1) pid p t(1) st(1)
    by (simp add: semPost_locked_def semLock_def semUnlock_def upd_sem_def get_sem_def queueSize_def get_process_def
        unblock_process_def run_simps sem_unlock_same)
  moreover have "sem_heap ?u R' q"
    by (rule sem_heap_update [OF sh a(1), where b' = b' and sm = ?sm]) (use sm d n st in auto)
  moreover have "rlists ?u = (rlists s)(p_priority pc := rlists s (p_priority pc) @ [p])"
    using t(5) by simp
  moreover have "same s (?u\<lparr>sems := sems s\<rparr>)" using t(3) by (cases s, cases t) (simp add: same_def)
  ultimately show ?thesis using t sm n(3) d(3,4)
    by (intro exI [of _ ?u] exI [of _ R']) (simp add: sem_value_def sem_blocked_def blk_def vals_def)
qed


text \<open>The pid at the head of the queue has no process any more: it is dropped and the signal with it.\<close>

lemma semPost_gone_run:
  assumes h: "heap rk k s R" and sh: "sem_heap s R q"
    and a: "a \<in> set (vals q)" "sem_blocked s a = pid # pids"
    and pid: "0 \<le> pid" "pid < int MAX_PROCESSES" "process_table s ! nat pid = null"
  shows "\<exists>t R'. semPost_locked M a s = Ret (0, t) \<and> heap rk k t R' \<and> sem_heap t R' q \<and>
    sem_value t a = sem_value s a \<and> sem_blocked t a = pids \<and> (\<forall>b. b \<noteq> a \<longrightarrow> sems t b = sems s b) \<and>
    t = s\<lparr>mem := mem t, sems := sems t\<rparr>"
proof -
  from sem_heap_sem [OF sh a(1)] obtain sm b where sm: "sems s a = Some sm" "\<not> s_lock sm" "s_blocked sm = Some b"
    "elemCount b = length (q_nodes b)" "blk s a = b" "queue_owns R b" by metis
  from a(2) sm(5) obtain n ns where n: "q_nodes b = n # ns" "n_val n = pid" "map n_val ns = pids"
    by (auto simp: sem_blocked_def vals_def)
  from rest_dequeue [OF h sm(6) n(1)] obtain b' m R' where
    d: "dequeue M (Some b) (mem s) = Ret (Some (pid, b'), m)" "heap rk k (s\<lparr>mem := m\<rparr>) R'" "frame R b R' b'"
      "q_nodes b' = ns" "elemCount b' = elemCount b - 1" using n(2) by metis
  let ?sm = "sm\<lparr>s_blocked := Some b'\<rparr>"
  let ?u = "s\<lparr>mem := m, sems := (sems s)(a \<mapsto> ?sm)\<rparr>"
  have "semPost_locked M a s = Ret (0, ?u)"
    using sm n d(1) pid
    by (simp add: semPost_locked_def semLock_def semUnlock_def upd_sem_def get_sem_def queueSize_def get_process_def
        run_simps sem_unlock_same)
  moreover have "sem_heap ?u R' q"
    by (rule sem_heap_update [OF sh a(1), where b' = b' and sm = ?sm]) (use sm d n in auto)
  moreover have "heap rk k ?u R'" using d(2) by simp
  ultimately show ?thesis using sm n(3) d(4)
    by (intro exI [of _ ?u] exI [of _ R']) (simp add: sem_value_def sem_blocked_def blk_def vals_def)
qed

section \<open>Wait\<close>

lemma semWait_take_run:
  assumes h: "heap rk k s R" and sh: "sem_heap s R q" and a: "a \<in> set (vals q)" "sem_value s a \<noteq> 0"
  shows "\<exists>t. semWait_locked M a s = Ret (Done 0, t) \<and> heap rk k t R \<and> sem_heap t R q \<and>
    sem_value t a = sem_value s a - 1 \<and> sem_blocked t a = sem_blocked s a \<and>
    (\<forall>b. b \<noteq> a \<longrightarrow> sems t b = sems s b) \<and> t = s\<lparr>sems := sems t\<rparr> \<and> blk t a = blk s a \<and>
    s_name (the (sems t a)) = s_name (the (sems s a)) \<and> s_users (the (sems t a)) = s_users (the (sems s a))"
proof -
  from sem_heap_sem [OF sh a(1)] obtain sm b where sm: "sems s a = Some sm" "\<not> s_lock sm" "s_blocked sm = Some b"
    "elemCount b = length (q_nodes b)" "blk s a = b" "queue_owns R b" by metis
  have pos: "s_value sm \<noteq> 0" using a(2) sm(1) by (simp add: sem_value_def)
  let ?sm = "sm\<lparr>s_value := s_value sm - 1\<rparr>"
  let ?u = "s\<lparr>sems := (sems s)(a \<mapsto> ?sm)\<rparr>"
  have "semWait_locked M a s = Ret (Done 0, ?u)"
    using sm pos
    by (simp add: semWait_locked_def semLock_def semUnlock_def upd_sem_def get_sem_def run_simps sem_unlock_same)
  moreover have "sem_heap ?u R q"
    by (rule sem_heap_update [OF sh a(1), where b' = b and sm = ?sm]) (use sm frame_refl [OF sm(6)] in auto)
  ultimately show ?thesis using h sm
    by (intro exI [of _ ?u]) (simp add: sem_value_def sem_blocked_def blk_def)
qed

lemma semWait_block_run:
  assumes h: "heap rk (k + 4 + 2 * length (all_ready (rlists s))) s R" and sh: "sem_heap s R q" and small: "16 \<le> small"
    and a: "a \<in> set (vals q)" "sem_value s a = 0"
    and ok: "sched_ok s" and online: "scheduler_online s" and p: "running_process s = p" "p \<noteq> null" "p \<noteq> idle_proc s"
    and pc: "procs s p = Some pc" "p_pid pc \<noteq> 1" "p_state pc = RUNNING"
  shows "\<exists>t R'. semWait_locked M a s = Ret (Suspended, t) \<and> heap rk k t R' \<and> sem_heap t R' q \<and> sched_ok t \<and>
    sem_value t a = 0 \<and> sem_blocked t a = sem_blocked s a @ [p_pid pc] \<and> (\<forall>b. b \<noteq> a \<longrightarrow> sems t b = sems s b) \<and>
    (cpu_rsp t, running_process t, rlists t, procs t) =
      schedule_spec (idle_proc s) (cpu_rsp s) p (rlists s, (procs s)(p \<mapsto> blocked_pcb pc)) \<and>
    frame R (blk s a) R' (blk t a) \<and> same s (t\<lparr>sems := sems s, cpu_rsp := cpu_rsp s\<rparr>) \<and>
    s_name (the (sems t a)) = s_name (the (sems s a)) \<and> s_users (the (sems t a)) = s_users (the (sems s a))"
proof -
  from sem_heap_sem [OF sh a(1)] obtain sm b where sm: "sems s a = Some sm" "\<not> s_lock sm" "s_blocked sm = Some b"
    "elemCount b = length (q_nodes b)" "blk s a = b" "queue_owns R b" "dataSize b = 4" by metis
  have zero: "s_value sm = 0" using a(2) sm(1) by (simp add: sem_value_def)
  let ?n = "k + 2 + 2 * length (all_ready (rlists s))"
  have h': "heap rk (Suc (Suc ?n)) s R" by (rule heap_le [OF h]) simp
  have "sizeof_Node \<le> small" "0 < dataSize b" "dataSize b \<le> small" using small sm(7) by (simp_all add: sizeof_Node_def)
  from rest_enqueue [OF h' sm(6) this, of "p_pid pc"] obtain b' m R' x d where
    e: "enqueue M (Some b) (p_pid pc) (mem s) = Ret (Some b', m)" "heap rk ?n (s\<lparr>mem := m\<rparr>) R'" "frame R b R' b'"
      "q_nodes b' = q_nodes b @ [\<lparr>n_addr = x, n_data = d, n_val = p_pid pc\<rparr>]" "elemCount b' = elemCount b + 1" by metis
  let ?sm = "sm\<lparr>s_blocked := Some b'\<rparr>"
  let ?s1 = "s\<lparr>mem := m, sems := (sems s)(a \<mapsto> ?sm)\<rparr>"
  have rl: "rlists ?s1 = rlists s" by simp
  have h1: "heap rk (k + 2 + 2 * length (all_ready (rlists ?s1))) ?s1 R'" using e(2) rl by simp
  have "sched_ok ?s1" using ok rl by (simp add: sched_ok_def)
  from block_running_run [OF h1 small this, of p pc] online p pc obtain t where
    t: "block_process M p ?s1 = Ret (0, t)" "heap rk k t R'" "sched_ok t" "same ?s1 (t\<lparr>cpu_rsp := cpu_rsp s\<rparr>)"
      "(cpu_rsp t, running_process t, rlists t, procs t) =
        schedule_spec (idle_proc s) (cpu_rsp s) p (rlists s, (procs s)(p \<mapsto> blocked_pcb pc))"
    using rl by auto
  have st: "sems t = (sems s)(a \<mapsto> ?sm)" "registry t = registry s" using same_fields(3,4) [OF t(4)] by auto
  have "semWait_locked M a s = Ret (Suspended, t)"
    using sm zero e(1) p pc t(1)
    by (simp add: semWait_locked_def semLock_def semUnlock_def upd_sem_def get_sem_def get_current_process_def
        run_simps sem_unlock_same)
  moreover have "sem_heap t R' q"
    by (rule sem_heap_update [OF sh a(1), where b' = b' and sm = ?sm]) (use sm e st in auto)
  moreover have "same s (t\<lparr>sems := sems s, cpu_rsp := cpu_rsp s\<rparr>)" using t(4) by (cases s, cases t) (simp add: same_def)
  ultimately show ?thesis using t sm e(3,4) st zero
    by (intro exI [of _ t] exI [of _ R']) (simp add: sem_value_def sem_blocked_def blk_def vals_def)
qed

end

end
