(* ===== verification/Pipe.thy ===== *)
theory Pipe
  imports Sem
begin

text \<open>
  Pipes, src/TP2-SO-2025/Kernel/pipe.c: a ring buffer per pipe, two semaphores, counters of
  attached readers and writers, and an array of pipe pointers. A read or a write that has to
  wait is split at the wait: \<open>readPipe_rest\<close> and \<open>writePipe_resume\<close> are the code after it.
\<close>

section \<open>Access\<close>

definition MAX_PIPES :: int where "MAX_PIPES = 100"
definition PIPE_BUFFER_SIZE :: nat where "PIPE_BUFFER_SIZE = 16384"
definition sizeof_pipe :: nat where "sizeof_pipe = 16440"
definition STDIN :: u8 where "STDIN = 0"
definition STDOUT :: u8 where "STDOUT = 1"
definition STDERR :: u8 where "STDERR = 2"

definition NEXT_IDX :: "nat \<Rightarrow> nat" where
  "NEXT_IDX i = (i + 1) mod PIPE_BUFFER_SIZE"

definition PREVIOUS_IDX :: "nat \<Rightarrow> nat" where
  "PREVIOUS_IDX i = (if i = 0 then PIPE_BUFFER_SIZE - 1 else i - 1)"

definition get_pipe :: "addr \<Rightarrow> ('m kst, pipe) kernel" where
  "get_pipe = deref pipes"

definition upd_pipe :: "addr \<Rightarrow> (pipe \<Rightarrow> pipe) \<Rightarrow> ('m kst, unit) kernel" where
  "upd_pipe a f = bnd (get_pipe a) (\<lambda>pi. upd (\<lambda>s. s\<lparr>pipes := (pipes s)(a \<mapsto> f pi)\<rparr>))"

definition sem_panic :: "('s, 'a) kernel" where
  "sem_panic = halt (Panic ''Pipe's sem didn't work.'')"

text \<open>Name of a pipe's semaphore: \<open>semPipe\<close>, two digits, and the suffix.\<close>

definition buildSemName :: "u8 \<Rightarrow> char \<Rightarrow> string" where
  "buildSemName ident suffix =
     ''semPipe'' @ [char_of (48 + unat ident div 10), char_of (48 + unat ident mod 10), suffix]"

text \<open>The scans over the storage array, from index \<open>i\<close> with \<open>k\<close> entries left.\<close>

fun find_pipe :: "(addr \<Rightarrow> pipe \<Rightarrow> bool) \<Rightarrow> nat \<Rightarrow> nat \<Rightarrow> ('m kst, (nat \<times> addr) option) kernel" where
  "find_pipe P i 0 = ret None"
| "find_pipe P i (Suc k) =
     bnd (gets pipeStorage) (\<lambda>st.
     bnd (getElemByIndex st (of_nat i)) (\<lambda>r.
     case r of None \<Rightarrow> halt (Panic ''Invalid pipe array.'')
     | Some tmp \<Rightarrow>
         if tmp = null then find_pipe P (i + 1) k
         else bnd (get_pipe tmp) (\<lambda>pi.
           if P tmp pi then ret (Some (i, tmp)) else find_pipe P (i + 1) k)))"

text \<open>\<open>null\<close> is the result -1.\<close>

definition getValidPipe :: "u8 \<Rightarrow> ('m kst, addr) kernel" where
  "getValidPipe ident =
     bnd (gets pipeStorage) (\<lambda>st.
     if st = None then ret null
     else bnd (find_pipe (\<lambda>_ pi. pi_id pi = ident) 0 (unat (arraySize st))) (\<lambda>r.
       ret (case r of None \<Rightarrow> null | Some (_, p) \<Rightarrow> p)))"

definition freePipe :: "'m mm \<Rightarrow> addr \<Rightarrow> ('m kst, unit) kernel" where
  "freePipe M p =
     (if p = null then ret ()
      else bnd (get_pipe p) (\<lambda>pi.
        sq (semClose M (pi_canRead pi))
        (sq (semClose M (pi_canWrite pi))
        (sq (mm_free M p)
        (upd (\<lambda>s. s\<lparr>pipes := (pipes s)(p := None)\<rparr>))))))"

text \<open>\<open>deletePipe\<close> compares pointers only, so a dead entry of the array does no harm.\<close>

fun delete_scan :: "'m mm \<Rightarrow> addr \<Rightarrow> nat \<Rightarrow> nat \<Rightarrow> ('m kst, int) kernel" where
  "delete_scan M p i 0 = ret (- 1)"
| "delete_scan M p i (Suc k) =
     bnd (gets pipeStorage) (\<lambda>st.
     bnd (getElemByIndex st (of_nat i)) (\<lambda>r.
     case r of None \<Rightarrow> halt (Panic ''Invalid pipe array.'')
     | Some tmp \<Rightarrow>
         if tmp = p then
           (case setElemByIndex st (of_nat i) null of
              None \<Rightarrow> ret (- 1)
            | Some st' \<Rightarrow> sq (upd (\<lambda>s. s\<lparr>pipeStorage := Some st'\<rparr>)) (sq (freePipe M p) (ret 0)))
         else delete_scan M p (i + 1) k))"

definition deletePipe :: "'m mm \<Rightarrow> addr \<Rightarrow> ('m kst, int) kernel" where
  "deletePipe M p =
     bnd (gets pipeStorage) (\<lambda>st.
     if p = null \<or> st = None then ret (- 1)
     else delete_scan M p 0 (unat (arraySize st)))"

section \<open>Opening\<close>

definition initPipeStorage :: "'m mm \<Rightarrow> u16 \<Rightarrow> ('m kst, int) kernel" where
  "initPipeStorage M junk_iter =
     bnd (on_mem (createArray M junk_iter 8)) (\<lambda>st.
     sq (upd (\<lambda>s. s\<lparr>pipeStorage := st\<rparr>))
     (if st = None then halt (Panic ''Not enough memory to create pipes.'') else ret 0))"

definition createPipe :: "'m mm \<Rightarrow> ('m kst, addr) kernel" where
  "createPipe M =
     bnd (mm_alloc M sizeof_pipe) (\<lambda>new.
     if new = null then ret null
     else bnd (gets nextId) (\<lambda>nid.
       let ident = word_of_int nid in
       sq (upd (\<lambda>s. s\<lparr>pipes := (pipes s)(new \<mapsto>
             (junk_pipe s)\<lparr>pi_id := ident, pi_idxToRead := 0, pi_idxToWrite := 0,
                pi_waitingToRead := False, pi_waitingToWrite := False, pi_attached := 0,
                pi_readers := 0, pi_writers := 0, pi_exp_readers := 1, pi_exp_writers := 1\<rparr>)\<rparr>))
       (bnd (semOpen M (Some (buildSemName ident (CHR ''R''))) 0) (\<lambda>rd.
        sq (upd_pipe new (\<lambda>pi. pi\<lparr>pi_canRead := rd\<rparr>))
        (if rd = null then sq (freePipe M new) (ret null)
         else bnd (semOpen M (Some (buildSemName ident (CHR ''W''))) 0) (\<lambda>wr.
           sq (upd_pipe new (\<lambda>pi. pi\<lparr>pi_canWrite := wr\<rparr>))
           (if wr = null then
              bnd (get_pipe new) (\<lambda>pi.
              sq (semClose M (pi_canRead pi)) (sq (freePipe M new) (ret null)))
            else sq (upd_pipe new (\<lambda>pi. pi\<lparr>pi_attached := 0\<rparr>))
                 (sq (upd (\<lambda>s. s\<lparr>nextId := nextId s + 1\<rparr>)) (ret new)))))))))"

definition openPipe :: "'m mm \<Rightarrow> ('m kst, int) kernel" where
  "openPipe M =
     bnd (gets nextId) (\<lambda>nid.
     if nid = MAX_PIPES then ret (- 1)
     else bnd (createPipe M) (\<lambda>p.
       if p = null then ret (- 1)
       else bnd (gets pipeStorage) (\<lambda>st.
         bnd (on_mem (arrayAdd M st p)) (\<lambda>st'.
         case st' of None \<Rightarrow> ret (- 1)
         | Some a \<Rightarrow> sq (upd (\<lambda>s. s\<lparr>pipeStorage := Some a\<rparr>))
                     (bnd (get_pipe p) (\<lambda>pi. ret (uint (pi_id pi))))))))"

definition attachReader :: "u8 \<Rightarrow> ('m kst, int) kernel" where
  "attachReader ident =
     bnd (getValidPipe ident) (\<lambda>p.
     if p = null then ret (- 1)
     else sq (upd_pipe p (\<lambda>pi. pi\<lparr>pi_readers := pi_readers pi + 1, pi_attached := pi_attached pi + 1,
                pi_exp_readers := (if pi_exp_readers pi > 0 then pi_exp_readers pi - 1 else pi_exp_readers pi)\<rparr>))
          (ret 0))"

definition attachWriter :: "u8 \<Rightarrow> ('m kst, int) kernel" where
  "attachWriter ident =
     bnd (getValidPipe ident) (\<lambda>p.
     if p = null then ret (- 1)
     else sq (upd_pipe p (\<lambda>pi. pi\<lparr>pi_writers := pi_writers pi + 1, pi_attached := pi_attached pi + 1,
                pi_exp_writers := (if pi_exp_writers pi > 0 then pi_exp_writers pi - 1 else pi_exp_writers pi)\<rparr>))
          (ret 0))"

section \<open>Detaching and closing\<close>

fun post_n :: "'m mm \<Rightarrow> addr \<Rightarrow> nat \<Rightarrow> ('m kst, unit) kernel" where
  "post_n M sm 0 = ret ()"
| "post_n M sm (Suc k) = sq (semPost M sm) (post_n M sm k)"

definition wake_all :: "'m mm \<Rightarrow> addr \<Rightarrow> ('m kst, unit) kernel" where
  "wake_all M sm = bnd (semGetUsersCount M sm) (\<lambda>users. post_n M sm (nat users))"

definition delete_if_unused :: "'m mm \<Rightarrow> addr \<Rightarrow> ('m kst, unit) kernel" where
  "delete_if_unused M p =
     bnd (get_pipe p) (\<lambda>pi.
     if pi_readers pi = 0 \<and> pi_writers pi = 0 \<and> pi_exp_readers pi = 0 \<and> pi_exp_writers pi = 0
     then sq (deletePipe M p) (ret ()) else ret ())"

definition detachReader :: "'m mm \<Rightarrow> u8 \<Rightarrow> int \<Rightarrow> ('m kst, unit) kernel" where
  "detachReader M ident pid =
     bnd (getValidPipe ident) (\<lambda>p.
     if p = null then ret ()
     else bnd (get_pipe p) (\<lambda>pi.
       sq (removeFromSemaphore M (pi_canRead pi) pid)
       (sq (removeFromSemaphore M (pi_canWrite pi) pid)
       (sq (upd_pipe p (\<lambda>pi. if pi_readers pi > 0
              then pi\<lparr>pi_readers := pi_readers pi - 1,
                      pi_attached := (if pi_attached pi > 0 then pi_attached pi - 1 else pi_attached pi)\<rparr>
              else pi))
       (sq (bnd (get_pipe p) (\<lambda>pi.
              if pi_readers pi = 0 \<and> pi_waitingToWrite pi
              then sq (wake_all M (pi_canWrite pi)) (upd_pipe p (\<lambda>pi. pi\<lparr>pi_waitingToWrite := False\<rparr>))
              else ret ()))
       (delete_if_unused M p))))))"

definition detachWriter :: "'m mm \<Rightarrow> u8 \<Rightarrow> int \<Rightarrow> ('m kst, unit) kernel" where
  "detachWriter M ident pid =
     bnd (getValidPipe ident) (\<lambda>p.
     if p = null then ret ()
     else bnd (get_pipe p) (\<lambda>pi.
       sq (removeFromSemaphore M (pi_canRead pi) pid)
       (sq (removeFromSemaphore M (pi_canWrite pi) pid)
       (sq (upd_pipe p (\<lambda>pi. if pi_writers pi > 0
              then pi\<lparr>pi_writers := pi_writers pi - 1,
                      pi_attached := (if pi_attached pi > 0 then pi_attached pi - 1 else pi_attached pi)\<rparr>
              else pi))
       (sq (bnd (get_pipe p) (\<lambda>pi.
              if pi_writers pi = 0 \<and> pi_waitingToRead pi
              then sq (wake_all M (pi_canRead pi)) (upd_pipe p (\<lambda>pi. pi\<lparr>pi_waitingToRead := False\<rparr>))
              else ret ()))
       (delete_if_unused M p))))))"

text \<open>\<open>while (users--)\<close> runs \<open>users mod 2 ^ 32\<close> times: a count of -1 does not stop it early.\<close>

definition post_users :: "'m mm \<Rightarrow> addr \<Rightarrow> ('m kst, unit) kernel" where
  "post_users M sm = bnd (semGetUsersCount M sm) (\<lambda>users. post_n M sm (nat (users mod 2 ^ 32)))"

definition closePipe :: "'m mm \<Rightarrow> u8 \<Rightarrow> ('m kst, int) kernel" where
  "closePipe M ident =
     bnd (getValidPipe ident) (\<lambda>p.
     if p = null then ret (- 1)
     else bnd (get_pipe p) (\<lambda>pi.
       sq (if (ident \<noteq> STDIN \<and> ident \<noteq> STDOUT) \<and> pi_attached pi \<le> 1
           then sq (post_users M (pi_canRead pi)) (post_users M (pi_canWrite pi)) else ret ())
       (if pi_attached pi = 0 \<or> ((ident = STDIN \<or> ident = STDOUT) \<and> pi_attached pi = 1)
        then bnd (deletePipe M p) (\<lambda>r. if r = - 1 then halt (Panic ''Couldn't delete pipe.'') else ret 0)
        else ret 0)))"

definition resetPipeStorage :: "('m kst, unit) kernel" where
  "resetPipeStorage = upd (\<lambda>s. s\<lparr>nextId := 0, pipeStorage := arrayResetSize (pipeStorage s)\<rparr>)"

definition freePipeStorage :: "'m mm \<Rightarrow> ('m kst, unit) kernel" where
  "freePipeStorage M = sq resetPipeStorage (bnd (gets pipeStorage) (\<lambda>st. on_mem (arrayFree M st)))"

definition setNextId :: "u8 \<Rightarrow> ('m kst, unit) kernel" where
  "setNextId ident = upd (\<lambda>s. s\<lparr>nextId := uint ident\<rparr>)"

definition unblockPipeReader :: "'m mm \<Rightarrow> u8 \<Rightarrow> ('m kst, unit) kernel" where
  "unblockPipeReader M ident =
     bnd (getValidPipe ident) (\<lambda>p.
     if p = null then ret ()
     else bnd (get_pipe p) (\<lambda>pi.
       if pi_waitingToRead pi then
         sq (upd_pipe p (\<lambda>pi. pi\<lparr>pi_waitingToRead := False\<rparr>))
         (bnd (semPost M (pi_canRead pi)) (\<lambda>r. if r = - 1 then sem_panic else ret ()))
       else ret ()))"

section \<open>Reading\<close>

text \<open>The copy loop of \<open>readPipe\<close>: the bytes stored in the caller's buffer and the pipe after.\<close>

fun drain :: "nat \<Rightarrow> pipe \<Rightarrow> u8 list \<times> pipe" where
  "drain 0 pi = ([], pi)"
| "drain (Suc bytes) pi =
     (if pi_idxToRead pi = pi_idxToWrite pi then ([], pi)
      else let (xs, pi') = drain bytes (pi\<lparr>pi_idxToRead := NEXT_IDX (pi_idxToRead pi)\<rparr>)
           in (pi_buffer pi (pi_idxToRead pi) # xs, pi'))"

definition readPipe_rest :: "'m mm \<Rightarrow> addr \<Rightarrow> nat \<Rightarrow> ('m kst, int \<times> u8 list) kernel" where
  "readPipe_rest M p bytes =
     bnd (get_pipe p) (\<lambda>pi.
     let (xs, pi') = drain bytes pi in
     sq (upd_pipe p (\<lambda>_. pi'))
     (if length xs > 0 \<and> pi_waitingToWrite pi' then
        sq (upd_pipe p (\<lambda>pi. pi\<lparr>pi_waitingToWrite := False\<rparr>))
        (bnd (semPost M (pi_canWrite pi')) (\<lambda>r.
         if r = - 1 then sem_panic else ret (int (length xs), xs)))
      else ret (int (length xs), xs)))"

definition readPipe :: "'m mm \<Rightarrow> u8 \<Rightarrow> addr \<Rightarrow> nat \<Rightarrow> ('m kst, (int \<times> u8 list) cont) kernel" where
  "readPipe M ident buffer bytes =
     bnd (getValidPipe ident) (\<lambda>p.
     if p = null \<or> buffer = null then ret (Done (- 1, []))
     else bnd (get_pipe p) (\<lambda>pi.
       if pi_idxToRead pi = pi_idxToWrite pi then
         if pi_writers pi = 0 \<and> pi_exp_writers pi = 0 then ret (Done (0, []))
         else sq (upd_pipe p (\<lambda>pi. pi\<lparr>pi_waitingToRead := True\<rparr>))
           (bnd (semWait M (pi_canRead pi)) (\<lambda>w.
            case w of Suspended \<Rightarrow> ret Suspended
            | Done r \<Rightarrow> if r = - 1 then sem_panic else bnd (readPipe_rest M p bytes) (\<lambda>x. ret (Done x))))
       else bnd (readPipe_rest M p bytes) (\<lambda>x. ret (Done x))))"

section \<open>Writing\<close>

definition store_byte :: "u8 \<Rightarrow> pipe \<Rightarrow> pipe" where
  "store_byte c pi =
     pi\<lparr>pi_buffer := (pi_buffer pi)(pi_idxToWrite pi := c),
        pi_idxToWrite := NEXT_IDX (pi_idxToWrite pi)\<rparr>"

text \<open>The end of \<open>writePipe\<close>, after the loop.\<close>

definition writePipe_done :: "'m mm \<Rightarrow> addr \<Rightarrow> nat \<Rightarrow> ('m kst, int) kernel" where
  "writePipe_done M p written =
     bnd (get_pipe p) (\<lambda>pi.
     if written > 0 \<and> pi_waitingToRead pi then
       sq (upd_pipe p (\<lambda>pi. pi\<lparr>pi_waitingToRead := False\<rparr>))
       (bnd (semPost M (pi_canRead pi)) (\<lambda>r.
        if r = - 1 then sem_panic else ret (int written)))
     else ret (int written))"

text \<open>The loop over the bytes still to be written. A suspended write returns them, the byte it
  was about to store included; \<open>semWait\<close> is asked once per full buffer, not again after it.\<close>

fun write_loop :: "'m mm \<Rightarrow> addr \<Rightarrow> u8 list \<Rightarrow> nat \<Rightarrow> ('m kst, int cont \<times> u8 list) kernel" where
  "write_loop M p [] written = bnd (writePipe_done M p written) (\<lambda>n. ret (Done n, []))"
| "write_loop M p (c # cs) written =
     bnd (get_pipe p) (\<lambda>pi.
     if pi_idxToWrite pi = PREVIOUS_IDX (pi_idxToRead pi) then
       sq (upd_pipe p (\<lambda>pi. pi\<lparr>pi_waitingToWrite := True\<rparr>))
       (bnd (semWait M (pi_canWrite pi)) (\<lambda>w.
        case w of Suspended \<Rightarrow> ret (Suspended, c # cs)
        | Done r \<Rightarrow>
            if r = - 1 then sem_panic
            else sq (upd_pipe p (store_byte c)) (write_loop M p cs (written + 1))))
     else sq (upd_pipe p (store_byte c)) (write_loop M p cs (written + 1)))"

definition writePipe_resume :: "'m mm \<Rightarrow> addr \<Rightarrow> u8 list \<Rightarrow> nat \<Rightarrow> ('m kst, int cont \<times> u8 list) kernel" where
  "writePipe_resume M p rest written =
     (case rest of [] \<Rightarrow> write_loop M p [] written
      | c # cs \<Rightarrow> sq (upd_pipe p (store_byte c)) (write_loop M p cs (written + 1)))"

text \<open>The loop compares with \<open>(int)bytes\<close>: a count of \<open>2 ^ 31\<close> or more is negative or smaller.\<close>

definition int_count :: "nat \<Rightarrow> nat" where
  "int_count bytes = nat (sint (of_nat bytes :: 32 word))"

definition writePipe :: "'m mm \<Rightarrow> u8 \<Rightarrow> u8 list option \<Rightarrow> nat \<Rightarrow> ('m kst, int cont \<times> u8 list) kernel" where
  "writePipe M ident buffer bytes =
     bnd (getValidPipe ident) (\<lambda>p.
     case buffer of None \<Rightarrow> ret (Done (- 1), [])
     | Some bs \<Rightarrow>
         if p = null then ret (Done (- 1), [])
         else write_loop M p (take (int_count bytes) bs) 0)"

end
