(* ===== verification/Process.thy ===== *)
theory Process
  imports Pipe
begin

text \<open>
  Process management, src/TP2-SO-2025/Kernel/process.c: the process table, creation, killing,
  waiting and the queries behind \<open>ps\<close>. Operations follow the order of the source. Fields of a
  new control block that \<open>create_process\<close> does not set keep whatever the allocation found
  (\<open>junk\<close>).
\<close>

section \<open>Names of wait semaphores\<close>

text \<open>The buffers are built with the string routines; the result is the block and its text.\<close>

definition build_wait_semaphore_name :: "'m mm \<Rightarrow> int \<Rightarrow> ('m kst, (addr \<times> string) option) kernel" where
  "build_wait_semaphore_name M pid =
     (if pid < 0 \<or> pid \<ge> int MAX_PROCESSES then ret None
      else bnd (on_mem (num_to_str M NUL (nat pid))) (\<lambda>r.
        case r of None \<Rightarrow> ret None
        | Some (pid_str, digs) \<Rightarrow>
            (case strlen digs of None \<Rightarrow> halt Fault
             | Some k \<Rightarrow>
                 let name_len = 5 + k + 1 in
                 bnd (mm_alloc M name_len) (\<lambda>name.
                 if name = null then sq (mm_free M pid_str) (ret None)
                 else (case my_strcpy (replicate name_len NUL) (''wait_'' @ [NUL]) of
                         None \<Rightarrow> halt Fault
                       | Some b1 \<Rightarrow>
                           (case catenate (Some b1) (Some digs) of
                              Some (Some b2) \<Rightarrow>
                                sq (mm_free M pid_str) (ret (Some (name, takeWhile (\<lambda>c. c \<noteq> NUL) b2)))
                            | _ \<Rightarrow> halt Fault))))))"

section \<open>Children\<close>

text \<open>\<open>p->children[i]\<close> and \<open>p->children[p->child_count++] = pid\<close>; an index outside the array is
  a fault.\<close>

definition get_child :: "addr \<Rightarrow> nat \<Rightarrow> ('m kst, int) kernel" where
  "get_child p i =
     bnd (get_proc p) (\<lambda>pc. if i < length (p_children pc) then ret (p_children pc ! i) else halt Fault)"

definition add_child :: "addr \<Rightarrow> int \<Rightarrow> ('m kst, unit) kernel" where
  "add_child p pid =
     bnd (get_proc p) (\<lambda>pc.
     if p_child_count pc < int MAX_CHILDREN then
       if p_child_count pc < 0 then halt Fault
       else upd_proc p (\<lambda>pc. pc\<lparr>p_children := (p_children pc)[nat (p_child_count pc) := pid],
                              p_child_count := p_child_count pc + 1\<rparr>)
     else ret ())"

definition reparent_one :: "addr \<Rightarrow> addr \<Rightarrow> nat \<Rightarrow> ('m kst, unit) kernel" where
  "reparent_one dying init i =
     bnd (get_child dying i) (\<lambda>child_pid.
     bnd (get_process child_pid) (\<lambda>child.
     if child = null then ret ()
     else bnd (get_proc child) (\<lambda>cc.
       if p_state cc = TERMINATED then ret ()
       else sq (upd_proc child (\<lambda>cc. cc\<lparr>p_ppid := 1\<rparr>)) (add_child init child_pid))))"

definition reparent_children :: "int \<Rightarrow> ('m kst, unit) kernel" where
  "reparent_children dying_pid =
     bnd (get_process dying_pid) (\<lambda>dying.
     if dying = null then ret ()
     else bnd (get_process INIT_PID) (\<lambda>init.
       if init = null then ret ()
       else bnd (get_proc dying) (\<lambda>dc.
         sq (for_each [0..<nat (p_child_count dc)] (reparent_one dying init))
         (upd_proc dying (\<lambda>dc. dc\<lparr>p_child_count := 0\<rparr>)))))"

section \<open>Freeing a control block\<close>

definition free_arg :: "'m mm \<Rightarrow> addr \<Rightarrow> nat \<Rightarrow> ('m kst, unit) kernel" where
  "free_arg M argv i =
     bnd (deref argvs argv) (\<lambda>v.
     if length v \<le> i then halt Fault
     else if v ! i = null then ret ()
     else sq (mm_free M (v ! i)) (upd (\<lambda>s. s\<lparr>strs := (strs s)(v ! i := None)\<rparr>)))"

definition free_args_stack :: "'m mm \<Rightarrow> process \<Rightarrow> ('m kst, unit) kernel" where
  "free_args_stack M pc =
     sq (if p_argv pc = null then ret ()
         else sq (for_each [0..<nat (p_argc pc)] (free_arg M (p_argv pc)))
           (sq (mm_free M (p_argv pc)) (upd (\<lambda>s. s\<lparr>argvs := (argvs s)(p_argv pc := None)\<rparr>))))
     (if p_stackBase pc = null then ret () else mm_free M (p_stackBase pc))"

definition free_process_resources :: "'m mm \<Rightarrow> addr \<Rightarrow> bool \<Rightarrow> ('m kst, unit) kernel" where
  "free_process_resources M p remove_from_scheduler =
     (if p = null then ret ()
      else bnd (get_proc p) (\<lambda>pc.
        sq (free_args_stack M pc)
        (sq (if remove_from_scheduler then remove_process_from_scheduler M p else ret ())
        (sq (mm_free M p) (upd (\<lambda>s. s\<lparr>procs := (procs s)(p := None)\<rparr>))))))"

section \<open>The process table\<close>

fun assign_scan :: "nat \<Rightarrow> nat \<Rightarrow> ('m kst, int) kernel" where
  "assign_scan i 0 = ret (- 1)"
| "assign_scan i (Suc k) =
     bnd (gets (\<lambda>s. process_table s ! i)) (\<lambda>p.
     if p = null then ret (int i)
     else bnd (get_proc p) (\<lambda>pc.
       if p_state pc = TERMINATED then ret (int i) else assign_scan (i + 1) k))"

definition assign_pid :: "('m kst, int) kernel" where
  "assign_pid = assign_scan 0 MAX_PROCESSES"

definition add_to_process_table :: "addr \<Rightarrow> ('m kst, int) kernel" where
  "add_to_process_table p =
     (if p = null then ret (- 1)
      else bnd (get_proc p) (\<lambda>pc.
        if p_pid pc < 0 \<or> p_pid pc \<ge> int MAX_PROCESSES then ret (- 1)
        else sq (upd (\<lambda>s. s\<lparr>process_table := (process_table s)[nat (p_pid pc) := p]\<rparr>)) (ret 0)))"

definition remove_from_process_table :: "int \<Rightarrow> ('m kst, unit) kernel" where
  "remove_from_process_table pid =
     (if pid \<ge> 0 \<and> pid < int MAX_PROCESSES
      then upd (\<lambda>s. s\<lparr>process_table := (process_table s)[nat pid := null]\<rparr>) else ret ())"

definition reap_one :: "'m mm \<Rightarrow> nat \<Rightarrow> ('m kst, unit) kernel" where
  "reap_one M i =
     bnd (get_process (int i)) (\<lambda>p.
     if p = null then ret ()
     else bnd (get_proc p) (\<lambda>pc.
       if p_state pc = TERMINATED
       then sq (remove_from_process_table (p_pid pc)) (free_process_resources M p False)
       else ret ()))"

definition reap_terminated_processes :: "'m mm \<Rightarrow> ('m kst, unit) kernel" where
  "reap_terminated_processes M = for_each [0..<MAX_PROCESSES] (reap_one M)"

section \<open>Creation\<close>

text \<open>\<open>stackInit\<close> of libasm.asm aligns the top down to 16 bytes and pushes an interrupt frame of
  five words and fifteen registers.\<close>

definition stackInit :: "nat \<Rightarrow> nat" where
  "stackInit stack_top = (stack_top - stack_top mod 16) - 8 * 20"

text \<open>A fresh control block: memory as the allocator returns it.\<close>

definition new_pcb :: "addr \<Rightarrow> ('m kst, unit) kernel" where
  "new_pcb p = upd (\<lambda>s. s\<lparr>procs := (procs s)(p \<mapsto> junk s 0), junk := (\<lambda>n. junk s (Suc n))\<rparr>)"

definition link_parent :: "addr \<Rightarrow> int \<Rightarrow> ('m kst, unit) kernel" where
  "link_parent p pid =
     (if pid = 0 then upd_proc p (\<lambda>pc. pc\<lparr>p_ppid := 0\<rparr>)
      else bnd get_current_process (\<lambda>parent.
        if parent = null then upd_proc p (\<lambda>pc. pc\<lparr>p_ppid := 0\<rparr>)
        else bnd (get_proc parent) (\<lambda>par.
          sq (upd_proc p (\<lambda>pc. pc\<lparr>p_ppid := p_pid par\<rparr>)) (add_child parent pid))))"

text \<open>The loop that copies the argument strings, from index \<open>i\<close>; \<open>False\<close> when an allocation
  failed.\<close>

fun copy_args :: "'m mm \<Rightarrow> addr \<Rightarrow> string list \<Rightarrow> nat \<Rightarrow> nat \<Rightarrow> ('m kst, bool) kernel" where
  "copy_args M argv args i 0 = ret True"
| "copy_args M argv args i (Suc k) =
     (if length args \<le> i then halt Fault
      else bnd (mm_alloc M (length (args ! i) + 1)) (\<lambda>a.
        sq (bnd (deref argvs argv) (\<lambda>v. upd (\<lambda>s. s\<lparr>argvs := (argvs s)(argv \<mapsto> v[i := a])\<rparr>)))
        (if a = null then ret False
         else sq (upd (\<lambda>s. s\<lparr>strs := (strs s)(a \<mapsto> args ! i)\<rparr>)) (copy_args M argv args (i + 1) k))))"

definition attach_targets :: "addr \<Rightarrow> int list \<Rightarrow> ('m kst, unit) kernel" where
  "attach_targets p targets =
     sq (upd_proc p (\<lambda>pc. pc\<lparr>p_targetByFd := map word_of_int (take 3 targets)\<rparr>))
     (let r = word_of_int (targets ! 0); w = word_of_int (targets ! 1) in
      sq (if r \<noteq> STDIN \<and> r \<noteq> STDOUT then sq (attachReader r) (ret ()) else ret ())
         (if w \<noteq> STDIN \<and> w \<noteq> STDOUT then sq (attachWriter w) (ret ()) else ret ()))"

text \<open>The end of \<open>create_process\<close>, once the arguments are copied.\<close>

definition start_process :: "'m mm \<Rightarrow> addr \<Rightarrow> int list \<Rightarrow> ('m kst, addr) kernel" where
  "start_process M p targets =
     bnd (get_proc p) (\<lambda>pc.
     let stack_top = p_stackBase pc + PROCESS_STACK_SIZE; rsp = stackInit stack_top in
     sq (upd_proc p (\<lambda>pc. pc\<lparr>p_rsp := rsp\<rparr>))
     (if rsp < p_stackBase pc \<or> rsp \<ge> stack_top then sq (free_process_resources M p False) (ret null)
      else bnd (add_to_process_table p) (\<lambda>r.
        if r \<noteq> 0 then sq (free_process_resources M p False) (ret null)
        else
          sq (if p_pid pc = 0 then ret ()
              else bnd (build_wait_semaphore_name M (p_pid pc)) (\<lambda>n.
                case n of None \<Rightarrow> ret ()
                | Some (a, name) \<Rightarrow> sq (semOpen M (Some name) 0) (mm_free M a)))
          (sq (attach_targets p targets)
          (sq (if p_pid pc = 0 then ret () else add_to_scheduler M p)
          (sq (reap_terminated_processes M) (ret p)))))))"

text \<open>\<open>argv\<close> is \<open>None\<close> for a null vector.\<close>

definition create_process ::
  "'m mm \<Rightarrow> int \<Rightarrow> string list option \<Rightarrow> addr \<Rightarrow> int \<Rightarrow> int list \<Rightarrow> bool \<Rightarrow> ('m kst, addr) kernel" where
  "create_process M argc argv entry_point priority targets hasForeground =
     bnd (mm_alloc M sizeof_Process) (\<lambda>p.
     if p = null then ret null
     else sq (new_pcb p)
      (bnd (mm_alloc M PROCESS_STACK_SIZE) (\<lambda>stack.
       sq (upd_proc p (\<lambda>pc. pc\<lparr>p_stackBase := stack\<rparr>))
       (if stack = null then
          sq (mm_free M p) (sq (upd (\<lambda>s. s\<lparr>procs := (procs s)(p := None)\<rparr>)) (ret null))
        else bnd assign_pid (\<lambda>pid.
          sq (upd_proc p (\<lambda>pc. pc\<lparr>p_pid := pid\<rparr>))
          (if pid = - 1 then sq (free_process_resources M p False) (ret null)
           else
             let prio = (if priority < MIN_PRIORITY \<or> priority > MAX_PRIORITY
                         then DEFAULT_PRIORITY else priority) in
             sq (link_parent p pid)
             (sq (upd_proc p (\<lambda>pc. pc\<lparr>p_state := READY, p_rip := entry_point,
                    p_ground := (if hasForeground then 1 else 0), p_rbp := 0,
                    p_priority := prio, p_original_priority := prio,
                    p_quantum_remaining := DEFAULT_QUANTUM, p_wait_ticks := 0, p_argc := argc\<rparr>))
             (case argv of
                None \<Rightarrow> sq (free_process_resources M p False) (ret null)
              | Some args \<Rightarrow>
                  if argc \<le> 0 then sq (free_process_resources M p False) (ret null)
                  else bnd (mm_alloc M (8 * nat argc)) (\<lambda>v.
                    sq (upd_proc p (\<lambda>pc. pc\<lparr>p_argv := v\<rparr>))
                    (if v = null then sq (free_process_resources M p False) (ret null)
                     else sq (upd (\<lambda>s. s\<lparr>argvs := (argvs s)(v \<mapsto> map (junk_argv s) [0..<nat argc])\<rparr>))
                       (bnd (copy_args M v args 0 (nat argc)) (\<lambda>copied.
                        if \<not> copied then sq (free_process_resources M p False) (ret null)
                        else start_process M p targets))))))))))))"

text \<open>\<open>init_scheduler\<close> of scheduler.c.\<close>

definition init_scheduler :: "'m mm \<Rightarrow> u16 \<Rightarrow> addr \<Rightarrow> ('m kst, unit) kernel" where
  "init_scheduler M junk_iter idleProcess =
     sq (init_ready_queues M junk_iter)
     (bnd (create_process M 1 (Some [''idle'']) idleProcess MIN_PRIORITY [0, 1, 1] False) (\<lambda>p.
      sq (upd (\<lambda>s. s\<lparr>idle_proc := p\<rparr>))
      (if p = null then halt (Panic ''Idle create failed'')
       else sq (upd (\<lambda>s. s\<lparr>running_process := p\<rparr>))
         (sq (upd_proc p (\<lambda>pc. pc\<lparr>p_state := RUNNING\<rparr>))
         (upd (\<lambda>s. s\<lparr>scheduler_online := True\<rparr>))))))"

section \<open>Yielding, priorities and queries\<close>

definition yield_cpu :: "'m mm \<Rightarrow> ('m kst, unit) kernel" where
  "yield_cpu M =
     bnd get_current_process (\<lambda>current.
     sq (if current = null then ret ()
         else bnd (get_proc current) (\<lambda>pc.
           if p_state pc = RUNNING then upd_proc current (\<lambda>pc. pc\<lparr>p_quantum_remaining := 0\<rparr>) else ret ()))
     (force_scheduler_interrupt M))"

definition get_pid :: "addr \<Rightarrow> ('m kst, int) kernel" where
  "get_pid p = bnd (get_proc p) (\<lambda>pc. ret (p_pid pc))"

definition get_parent_pid :: "addr \<Rightarrow> ('m kst, int) kernel" where
  "get_parent_pid p = bnd (get_proc p) (\<lambda>pc. ret (p_ppid pc))"

definition set_priority :: "int \<Rightarrow> int \<Rightarrow> ('m kst, int) kernel" where
  "set_priority pid new_priority =
     (if new_priority < MIN_PRIORITY \<or> new_priority > MAX_PRIORITY then ret (- 1)
      else bnd (get_process pid) (\<lambda>p.
        if p = null then ret (- 1)
        else sq (upd_proc p (\<lambda>pc. pc\<lparr>p_priority := new_priority, p_original_priority := new_priority,
                                    p_quantum_remaining := DEFAULT_QUANTUM\<rparr>)) (ret 0)))"

definition get_priority :: "int \<Rightarrow> ('m kst, int) kernel" where
  "get_priority pid =
     bnd (get_process pid) (\<lambda>p.
     if p = null then ret (- 1) else bnd (get_proc p) (\<lambda>pc. ret (p_priority pc)))"

definition get_process_count :: "('m kst, int) kernel" where
  "get_process_count = gets (\<lambda>s. int (length (filter (\<lambda>p. p \<noteq> null) (process_table s))))"

definition foreach_process :: "(addr \<Rightarrow> ('m kst, unit) kernel) option \<Rightarrow> ('m kst, unit) kernel" where
  "foreach_process callback =
     (case callback of None \<Rightarrow> ret ()
      | Some f \<Rightarrow> for_each [0..<MAX_PROCESSES] (\<lambda>i.
          bnd (gets (\<lambda>s. process_table s ! i)) (\<lambda>p. if p \<noteq> null then f p else ret ())))"

definition set_ground :: "int \<Rightarrow> int \<Rightarrow> ('m kst, int) kernel" where
  "set_ground pid ground =
     bnd (get_process pid) (\<lambda>p.
     if p = null then ret (- 1) else sq (upd_proc p (\<lambda>pc. pc\<lparr>p_ground := ground\<rparr>)) (ret 0))"

definition get_ground :: "int \<Rightarrow> ('m kst, int) kernel" where
  "get_ground pid =
     bnd (get_process pid) (\<lambda>p.
     if p = null then ret (- 1) else bnd (get_proc p) (\<lambda>pc. ret (p_ground pc)))"

section \<open>Termination\<close>

text \<open>The steps \<open>kill_process\<close> and \<open>process_terminator\<close> share: leaving the pipes, handing over
  the children, and posting the wait semaphore.\<close>

definition leave_pipes :: "'m mm \<Rightarrow> int \<Rightarrow> process \<Rightarrow> ('m kst, unit) kernel" where
  "leave_pipes M pid pc =
     (let r = p_targetByFd pc ! 0; w = p_targetByFd pc ! 1 in
      sq (if r \<noteq> STDIN \<and> r \<noteq> STDOUT then sq (detachReader M r pid) (sq (closePipe M r) (ret ())) else ret ())
         (if w \<noteq> STDIN \<and> w \<noteq> STDOUT
          then sq (detachWriter M w pid) (if w \<noteq> r then sq (closePipe M w) (ret ()) else ret ())
          else ret ()))"

definition post_wait_semaphore :: "'m mm \<Rightarrow> int \<Rightarrow> ('m kst, unit) kernel" where
  "post_wait_semaphore M pid =
     bnd (build_wait_semaphore_name M pid) (\<lambda>n.
     case n of None \<Rightarrow> ret ()
     | Some (a, name) \<Rightarrow>
         bnd (semOpen M (Some name) 0) (\<lambda>sm.
         sq (if sm = null then ret () else sq (semPost M sm) (sq (semClose M sm) (ret ())))
            (mm_free M a)))"

text \<open>A process that kills itself never returns from the call: it ends in \<open>Suspended\<close>.\<close>

definition kill_process :: "'m mm \<Rightarrow> int \<Rightarrow> ('m kst, int cont) kernel" where
  "kill_process M pid =
     (if pid = 0 \<or> pid = 1 then ret (Done (- 1))
      else bnd (get_process pid) (\<lambda>p.
        if p = null then ret (Done (- 1))
        else bnd (gets running_process) (\<lambda>running.
          bnd (get_proc p) (\<lambda>pc.
          sq (leave_pipes M pid pc)
          (sq (reparent_children pid)
          (sq (post_wait_semaphore M pid)
          (sq (upd_proc p (\<lambda>pc. pc\<lparr>p_state := TERMINATED\<rparr>))
          (sq (remove_from_process_table pid)
          (sq (upd (\<lambda>s. if shell_proc s = p then s\<lparr>shell_proc := null\<rparr> else s))
          (sq (free_process_resources M p True)
          (if running = p then sq (yield_cpu M) (ret Suspended) else ret (Done 0))))))))))))"

definition kill_foreground_processes :: "'m mm \<Rightarrow> ('m kst, int cont) kernel" where
  "kill_foreground_processes M =
     bnd get_current_process (\<lambda>current.
     if current = null then ret (Done (- 1))
     else bnd (get_proc current) (\<lambda>pc.
       if p_ground pc = 1 \<and> p_pid pc \<noteq> 0 \<and> p_pid pc \<noteq> 1
       then kill_process M (p_pid pc) else ret (Done 0)))"

definition process_terminator :: "'m mm \<Rightarrow> ('m kst, unit cont) kernel" where
  "process_terminator M =
     bnd get_current_process (\<lambda>cur.
     if cur = null then halt (Panic ''process_terminator: Current process is NULL'')
     else bnd (get_proc cur) (\<lambda>pc.
       sq (leave_pipes M (p_pid pc) pc)
       (sq (reparent_children (p_pid pc))
       (sq (post_wait_semaphore M (p_pid pc))
       (sq (upd_proc cur (\<lambda>pc. pc\<lparr>p_state := TERMINATED\<rparr>))
       (sq (remove_process_from_scheduler M cur)
       (sq (upd (\<lambda>s. if running_process s = cur then s\<lparr>running_process := null\<rparr> else s))
       (sq (upd (\<lambda>s. if shell_proc s = cur then s\<lparr>shell_proc := null\<rparr> else s))
       (sq (yield_cpu M) (ret Suspended))))))))))"

section \<open>Waiting\<close>

text \<open>The removal of a pid from the array of children.\<close>

fun drop_child :: "int list \<Rightarrow> int \<Rightarrow> int list" where
  "drop_child [] pid = []"
| "drop_child (c # cs) pid = (if c = pid then cs else c # drop_child cs pid)"

definition forget_child :: "int \<Rightarrow> process \<Rightarrow> process" where
  "forget_child pid pc =
     (let n = nat (p_child_count pc); live = take n (p_children pc); live' = drop_child live pid in
      if pid \<in> set live
      then pc\<lparr>p_children := live' @ drop (n - 1) (p_children pc), p_child_count := p_child_count pc - 1\<rparr>
      else pc)"

definition wait_child_rest :: "'m mm \<Rightarrow> int \<Rightarrow> addr \<Rightarrow> addr \<Rightarrow> int \<Rightarrow> ('m kst, int) kernel" where
  "wait_child_rest M child_pid sm name result =
     sq (semClose M sm)
     (sq (mm_free M name)
     (sq (reap_terminated_processes M)
     (if result \<noteq> 0 then ret (- 1)
      else bnd get_current_process (\<lambda>cur.
        if cur = null then ret 0
        else bnd (get_proc cur) (\<lambda>pc.
          if p_child_count pc > int (length (p_children pc)) then halt Fault
          else sq (upd_proc cur (forget_child child_pid)) (ret 0))))))"

text \<open>A suspended wait returns the semaphore and the name that \<open>wait_child_resume\<close> needs.\<close>

definition wait_child :: "'m mm \<Rightarrow> int \<Rightarrow> ('m kst, int cont \<times> addr \<times> addr) kernel" where
  "wait_child M child_pid =
     bnd (get_process child_pid) (\<lambda>child.
     if child = null then ret (Done (- 1), null, null)
     else bnd (build_wait_semaphore_name M child_pid) (\<lambda>n.
       case n of None \<Rightarrow> ret (Done (- 1), null, null)
       | Some (a, name) \<Rightarrow>
           bnd (semOpen M (Some name) 0) (\<lambda>sm.
           if sm = null then sq (mm_free M a) (ret (Done (- 1), null, null))
           else bnd (semWait M sm) (\<lambda>w.
             case w of Suspended \<Rightarrow> ret (Suspended, sm, a)
             | Done result \<Rightarrow> bnd (wait_child_rest M child_pid sm a result) (\<lambda>r. ret (Done r, sm, a))))))"

definition wait_child_resume :: "'m mm \<Rightarrow> int \<Rightarrow> addr \<Rightarrow> addr \<Rightarrow> ('m kst, int) kernel" where
  "wait_child_resume M child_pid sm name =
     bnd (semWait_resume M) (\<lambda>result. wait_child_rest M child_pid sm name result)"

text \<open>One round of the loop of \<open>wait_all_children\<close> at index \<open>i\<close>. A suspended call returns the index,
  the pid, the semaphore and the name it waits with.\<close>

type_synonym waiting = "int cont \<times> nat \<times> int \<times> addr \<times> addr"

definition wait_all_step :: "'m mm \<Rightarrow> addr \<Rightarrow> nat \<Rightarrow> ('m kst, nat + waiting) kernel" where
  "wait_all_step M cur i =
     bnd (get_proc cur) (\<lambda>pc.
     if int i \<ge> p_child_count pc then ret (Inr (Done 0, i, 0, null, null))
     else bnd (get_child cur i) (\<lambda>child_pid.
       if child_pid \<le> 0 then ret (Inl (i + 1))
       else bnd (wait_child M child_pid) (\<lambda>r.
         case r of
           (Suspended, sm, a) \<Rightarrow> ret (Inr (Suspended, i, child_pid, sm, a))
         | (Done _, _) \<Rightarrow> ret (Inl (i + 1)))))"

definition wait_all_children :: "'m mm \<Rightarrow> ('m kst, waiting) kernel" where
  "wait_all_children M =
     bnd get_current_process (\<lambda>cur.
     if cur = null then ret (Done (- 1), 0, 0, null, null) else loop (wait_all_step M cur) 0)"

definition wait_all_resume :: "'m mm \<Rightarrow> addr \<Rightarrow> nat \<Rightarrow> int \<Rightarrow> addr \<Rightarrow> addr \<Rightarrow> ('m kst, waiting) kernel" where
  "wait_all_resume M cur i child_pid sm name =
     sq (wait_child_resume M child_pid sm name) (loop (wait_all_step M cur) (i + 1))"

section \<open>Snapshots\<close>

record process_info =
  i_pid :: int
  i_ppid :: int
  i_name :: string
  i_state :: proc_state
  i_rsp :: nat
  i_stackBase :: addr
  i_priority :: int
  i_ground :: int

definition MAX_PROCESS_NAME :: nat where "MAX_PROCESS_NAME = 32"

text \<open>\<open>my_strcpy\<close> into the name field has no bound: a name of 32 characters or more is written past
  the field.\<close>

definition name_of :: "process \<Rightarrow> ('m kst, string) kernel" where
  "name_of pc =
     (if p_argc pc > 0 \<and> p_argv pc \<noteq> null then
        bnd (deref argvs (p_argv pc)) (\<lambda>v.
        if v = [] then halt Fault
        else if hd v = null then ret ''unknown''
        else bnd (deref strs (hd v)) (\<lambda>nm. if length nm \<ge> MAX_PROCESS_NAME then halt Fault else ret nm))
      else ret ''unknown'')"

fun ps_scan :: "process_info list \<Rightarrow> nat \<Rightarrow> nat \<Rightarrow> ('m kst, process_info list) kernel" where
  "ps_scan info i 0 = ret info"
| "ps_scan info i (Suc k) =
     bnd (gets (\<lambda>s. process_table s ! i)) (\<lambda>p.
     if p = null then ps_scan info (i + 1) k
     else bnd (get_proc p) (\<lambda>pc.
       if p_state pc = TERMINATED then ps_scan info (i + 1) k
       else bnd (name_of pc) (\<lambda>nm.
         ps_scan (info[i := \<lparr>i_pid = p_pid pc, i_ppid = p_ppid pc, i_name = nm, i_state = p_state pc,
            i_rsp = p_rsp pc, i_stackBase = p_stackBase pc, i_priority = p_priority pc,
            i_ground = p_ground pc\<rparr>]) (i + 1) k)))"

definition ps :: "process_info list option \<Rightarrow> ('m kst, int \<times> process_info list) kernel" where
  "ps process_info =
     (case process_info of None \<Rightarrow> ret (- 1, [])
      | Some info \<Rightarrow>
          bnd (ps_scan (map (\<lambda>i. i\<lparr>i_pid := - 1\<rparr>) info) 0 MAX_PROCESSES) (\<lambda>info'. ret (0, info')))"

text \<open>A negative pid passes the test and indexes before the table.\<close>

definition get_process_info :: "process_info option \<Rightarrow> int \<Rightarrow> ('m kst, int \<times> process_info option) kernel" where
  "get_process_info info pid =
     (case info of None \<Rightarrow> ret (- 1, None)
      | Some i \<Rightarrow>
          if pid \<ge> int MAX_PROCESSES then ret (- 1, info)
          else if pid < 0 then halt Fault
          else bnd (gets (\<lambda>s. process_table s ! nat pid)) (\<lambda>p.
            if p = null then ret (- 1, info)
            else bnd (get_proc p) (\<lambda>pc.
              ret (1, Some (i\<lparr>i_pid := p_pid pc, i_ppid := p_ppid pc, i_state := p_state pc,
                 i_rsp := p_rsp pc, i_stackBase := p_stackBase pc, i_priority := p_priority pc,
                 i_ground := p_ground pc\<rparr>)))))"

end
