(* ===== verification/Sched_Properties.thy ===== *)
theory Sched_Properties
  imports First_Fit Sem_Correct Process
begin

text \<open>
  The properties of the scheduler for a kernel linked with the first-fit manager, and the two
  ways in which a change of priority leaves the ready queues in a bad state.
\<close>

section \<open>A small kernel state\<close>

text \<open>A first-fit heap of 64 units whose last 16 units hold four queue descriptors.\<close>

definition ff_four :: ff_state where
  "ff_four = \<lparr>hdr = (\<lambda>_. \<lparr>h_ptr = 0, h_size = 4\<rparr>)(16 := \<lparr>h_ptr = 4096, h_size = 0\<rparr>, 4096 := \<lparr>h_ptr = 16, h_size = 48\<rparr>),
     ff_base = 16, freep = 16, total_mem_size = 1024, free_mem_size = 768\<rparr>"

lemma ff_four_inv: "ff_inv {16, 4096} {5056, 4992, 4928, 4864} ff_four"
  by (auto simp: ff_inv_def ff_ring_def ring_next_def ff_blocks_def ff_merged_def ff_counts_def ff_four_def UNIT_SIZE_def)

lemma ff_four_room: "ff_room 24 ff_four [5072 \<mapsto> 48, 5008 \<mapsto> 48, 4944 \<mapsto> 48, 4880 \<mapsto> 48]"
proof -
  let ?L = "[5072 \<mapsto> 48, 5008 \<mapsto> 48, 4944 \<mapsto> 48, 4880 \<mapsto> 48] :: addr \<rightharpoonup> nat"
  have A: "(\<lambda>a. a - UNIT_SIZE) ` dom ?L = {5056, 4992, 4928, 4864}" by (auto simp: UNIT_SIZE_def)
  have "UNIT_SIZE \<le> a \<and> n + UNIT_SIZE \<le> UNIT_SIZE * h_size (hdr ff_four (a - UNIT_SIZE))" if "?L a = Some n" for a n
    using that by (auto simp: ff_four_def UNIT_SIZE_def split: if_splits)
  then have "ff_rep ff_four ?L" using ff_four_inv unfolding ff_rep_def A by blast
  moreover have "2 * 24 \<le> h_size (hdr ff_four 4096)" by (simp add: ff_four_def)
  ultimately show ?thesis using ff_four_inv unfolding ff_room_def A by blast
qed

text \<open>Two control blocks: idle, which runs, and a process that is still outside the queues.\<close>

definition pcb0 :: process where
  "pcb0 = \<lparr>p_pid = 0, p_ppid = 0, p_state = RUNNING, p_argc = 1, p_argv = 0, p_rsp = 8000, p_stackBase = 200,
     p_rip = 0, p_priority = 0, p_original_priority = 0, p_quantum_remaining = 1, p_wait_ticks = 0, p_ground = 0,
     p_rbp = 0, p_targetByFd = [0, 1, 1], p_children = replicate 32 0, p_child_count = 0\<rparr>"

definition pcb2 :: process where
  "pcb2 = pcb0\<lparr>p_pid := 2, p_state := BLOCKED, p_rsp := 21000, p_stackBase := 20000\<rparr>"

definition empty_queue :: "addr \<Rightarrow> addr queue" where
  "empty_queue a = \<lparr>q_addr = a, q_nodes = [], cyclicIter = null, dataSize = 8, elemCount = 0\<rparr>"

definition k_idle :: "ff_state kst" where
  "k_idle = \<lparr>mem = ff_four, procs = [900 \<mapsto> pcb0, 920 \<mapsto> pcb2], argvs = (\<lambda>_. None), strs = (\<lambda>_. None),
     junk = (\<lambda>_. pcb0), junk_argv = (\<lambda>_. 0),
     junk_pipe = \<lparr>pi_id = 0, pi_buffer = (\<lambda>_. 0), pi_idxToRead = 0, pi_idxToWrite = 0, pi_waitingToRead = False,
        pi_waitingToWrite = False, pi_canRead = 0, pi_canWrite = 0, pi_attached = 0, pi_readers = 0, pi_writers = 0,
        pi_exp_readers = 0, pi_exp_writers = 0\<rparr>,
     process_table = [900, 0, 920] @ replicate 61 0,
     process_priority_table = Some \<lparr>a_addr = 700, a_base = 710,
        a_cells = [0 \<mapsto> Some (empty_queue 5072), Suc 0 \<mapsto> Some (empty_queue 5008), 2 \<mapsto> Some (empty_queue 4944),
                   3 \<mapsto> Some (empty_queue 4880)],
        a_sizeOfElem = 8, a_elemCount = 4, a_dim = 1024, a_iter = 0\<rparr>,
     running_process = 900, idle_proc = 900, shell_proc = 0, scheduler_online = True, cpu_rsp = 300,
     registry = None, sems = (\<lambda>_. None), pipeStorage = None, pipes = (\<lambda>_. None), nextId = 2\<rparr>"

lemma k_idle_rq:
  "rq k_idle 0 = Some (empty_queue 5072)" "rq k_idle 1 = Some (empty_queue 5008)"
  "rq k_idle 2 = Some (empty_queue 4944)" "rq k_idle 3 = Some (empty_queue 4880)"
  by (simp_all add: rq_def k_idle_def)

lemma k_idle_heap: "heap ff_room 24 k_idle Map.empty"
proof -
  let ?L = "[5072 \<mapsto> 48, 5008 \<mapsto> 48, 4944 \<mapsto> 48, 4880 \<mapsto> 48] :: addr \<rightharpoonup> nat"
  have "table_wf k_idle" by (auto simp: table_wf_def k_idle_def less_Suc_eq numeral_eq_Suc)
  moreover have "\<exists>q. rq k_idle pr = Some q \<and> q_ok q" if "is_prio pr" for pr
    using is_prio_cases [OF that] by (auto simp: k_idle_rq q_ok_def empty_queue_def)
  moreover have "owned ?L (queues k_idle)" "rest_of ?L (queues k_idle) = Map.empty"
    by (auto simp: queues_def k_idle_rq owned_def rest_of_def cells_def empty_queue_def restrict_map_def fun_eq_iff)
  moreover have "mem k_idle = ff_four" by (simp add: k_idle_def)
  ultimately show ?thesis using ff_four_room unfolding heap_def by auto
qed

lemma k_idle_lists: "rlists k_idle = (\<lambda>_. [])"
proof -
  have "ready k_idle pr = []" if "is_prio pr" for pr
    using is_prio_cases [OF that] by (auto simp: ready_def k_idle_rq vals_def empty_queue_def)
  then show ?thesis by (auto simp: rlists_def fun_eq_iff)
qed

lemma k_idle_procs: "procs k_idle = [900 \<mapsto> pcb0, 920 \<mapsto> pcb2]" "idle_proc k_idle = 900" "running_process k_idle = 900"
  "scheduler_online k_idle" "process_table k_idle = [900, 0, 920] @ replicate 61 0"
  by (simp_all add: k_idle_def)

lemma k_idle_ok: "sched_ok k_idle"
  by (simp add: sched_ok_def queued_ok_def running_ok_def k_idle_lists k_idle_procs all_ready_def)

text \<open>The same kernel after the process was unblocked: one ready process.\<close>

definition k_one :: "ff_state kst" where
  "k_one = (case unblock_process first_fit_mm 920 k_idle of Ret (_, t) \<Rightarrow> t | Stop _ \<Rightarrow> k_idle)"

lemma k_one_facts:
  "heap ff_room 22 k_one Map.empty" "same k_idle k_one" "running_process k_one = 900"
  "rlists k_one = (\<lambda>_. [])(0 := [920])" "procs k_one = [900 \<mapsto> pcb0, 920 \<mapsto> pcb2\<lparr>p_state := READY\<rparr>]"
proof -
  let ?s = "k_idle\<lparr>procs := (procs k_idle)(920 \<mapsto> pcb2\<lparr>p_state := READY\<rparr>)\<rparr>"
  have h: "heap ff_room (Suc (Suc 22)) ?s Map.empty" using k_idle_heap by simp
  have "is_prio (p_priority (pcb2\<lparr>p_state := READY\<rparr>))" by (simp add: pcb2_def pcb0_def)
  from memory_room.add_to_scheduler_run [OF ffr.memory_room_axioms h, of 920 "pcb2\<lparr>p_state := READY\<rparr>"] this
  obtain t where t: "add_to_scheduler first_fit_mm 920 ?s = Ret ((), t)" "heap ff_room 22 t Map.empty" "same ?s t"
      "running_process t = 900" "rlists t = (rlists ?s)(0 := rlists ?s 0 @ [920])"
      "procs t = (procs ?s)(920 \<mapsto> pcb2\<lparr>p_state := READY\<rparr>)"
    by (auto simp: k_idle_procs pcb2_def pcb0_def)
  have "unblock_process first_fit_mm 920 k_idle = Ret (0, t)"
    using t(1) by (simp add: unblock_process_def run_simps k_idle_procs pcb2_def pcb0_def)
  then have "k_one = t" by (simp add: k_one_def)
  moreover have "same k_idle t" by (rule same_trans [OF _ t(3)]) simp
  ultimately show "heap ff_room 22 k_one Map.empty" "same k_idle k_one" "running_process k_one = 900"
    "rlists k_one = (\<lambda>_. [])(0 := [920])" "procs k_one = [900 \<mapsto> pcb0, 920 \<mapsto> pcb2\<lparr>p_state := READY\<rparr>]"
    using t by (simp_all add: view_simps k_idle_lists k_idle_procs fun_upd_twist)
qed

lemma k_one_fields: "idle_proc k_one = 900" "scheduler_online k_one" "process_table k_one = [900, 0, 920] @ replicate 61 0"
  using same_fields [OF k_one_facts(2)] by (simp_all add: k_idle_procs)

lemma k_one_ok: "sched_ok k_one"
  by (auto simp: sched_ok_def queued_ok_def running_ok_def wait_ok_def k_one_facts k_one_fields all_ready_def pcb2_def pcb0_def)

section \<open>Properties\<close>

text \<open>
  C1. The scheduler refines its specification: from a well-formed state with memory for the
  queue nodes, \<open>schedule\<close> terminates without a fault, the ready lists, the control blocks, the
  running process and the returned stack pointer are those of \<open>schedule_spec\<close> (aging, then
  saving and requeueing the interrupted process, then the head of the highest non-empty
  queue), the state is well-formed again, and nothing outside the scheduler changed.
\<close>

theorem schedule_refines:
  assumes "heap ff_room (k + 2 + 2 * length (all_ready (rlists s))) s R" and "sched_ok s" and "scheduler_online s"
  shows "\<exists>r t. schedule first_fit_mm rsp s = Ret (r, t) \<and> heap ff_room k t R \<and> same s t \<and> sched_ok t \<and>
    (r, running_process t, rlists t, procs t) =
      schedule_spec (idle_proc s) rsp (running_process s) (rlists s, procs s)"
  using memory_room.schedule_run [OF ffr.memory_room_axioms assms(1) _ assms(2,3), of rsp] by auto

theorem schedule_refines_witness:
  "\<exists>r t. schedule first_fit_mm 300 k_one = Ret (r, t) \<and> heap ff_room 18 t Map.empty \<and> same k_one t \<and> sched_ok t \<and>
    (r, running_process t, rlists t, procs t) =
      schedule_spec (idle_proc k_one) 300 (running_process k_one) (rlists k_one, procs k_one)"
proof (rule schedule_refines)
  show "heap ff_room (18 + 2 + 2 * length (all_ready (rlists k_one))) k_one Map.empty"
    using k_one_facts by (simp add: all_ready_def)
qed (simp_all add: k_one_ok k_one_fields)

text \<open>
  The chosen process is the head of the highest non-empty ready queue: after a dispatch that
  enters a process, no queue above its own holds anyone, it is the first of its queue, it is
  marked running with a fresh quantum and no waiting time, and it has left the queue.
\<close>

theorem dispatch_highest:
  assumes "heap ff_room k s R" and "sched_inv s" and "idle_ok s" and "top_prio (rlists s) = Some pr"
    and "in_stack (the (procs s (hd (rlists s pr))))"
  shows "\<exists>t a pc. dispatch first_fit_mm s = Ret (p_rsp pc, t) \<and> rlists s pr = a # rlists t pr \<and>
    (\<forall>pr'. 0 \<le> pr' \<and> pr' \<le> 3 \<and> pr < pr' \<longrightarrow> rlists s pr' = []) \<and> running_process t = a \<and> procs s a = Some pc \<and>
    procs t a = Some (pc\<lparr>p_state := RUNNING, p_quantum_remaining := 1, p_wait_ticks := 0\<rparr>)"
proof -
  from memory_room.dispatch_run [OF ffr.memory_room_axioms assms(1-3)] obtain r t where
    t: "dispatch first_fit_mm s = Ret (r, t)"
      "(r, running_process t, rlists t, procs t) = dispatch_spec (idle_proc s) (rlists s, procs s)" by blast
  note top = top_prio_Some [OF assms(4)]
  obtain a as where a: "rlists s pr = a # as" using top by (cases "rlists s pr") auto
  have "a \<in> set (ready s pr)" using a top by auto
  with sched_inv_queue(1) [OF assms(2), of pr] top obtain pc where pc: "procs s a = Some pc" by (auto simp: waiting_ok_def)
  with t(2) a assms(4,5) have "r = p_rsp pc" "running_process t = a" "rlists t = (rlists s)(pr := as)"
    "procs t = (procs s)(a \<mapsto> started pc)" by (auto simp: dispatch_spec_def)
  with t(1) a pc top show ?thesis
    by (intro exI [of _ t] exI [of _ a] exI [of _ pc]) (simp add: started_def DEFAULT_QUANTUM_def)
qed

theorem dispatch_highest_witness:
  "\<exists>t a pc. dispatch first_fit_mm k_one = Ret (p_rsp pc, t) \<and> rlists k_one 0 = a # rlists t 0 \<and>
    (\<forall>pr'. 0 \<le> pr' \<and> pr' \<le> 3 \<and> 0 < pr' \<longrightarrow> rlists k_one pr' = []) \<and> running_process t = a \<and> procs k_one a = Some pc \<and>
    procs t a = Some (pc\<lparr>p_state := RUNNING, p_quantum_remaining := 1, p_wait_ticks := 0\<rparr>)"
proof (rule dispatch_highest [OF k_one_facts(1)])
  show "sched_inv k_one" "idle_ok k_one" using sched_ok_inv [of k_one] k_one_ok by (auto simp: sched_ok_def)
  show "top_prio (rlists k_one) = Some 0" by (simp add: top_prio_def k_one_facts)
  show "in_stack (the (procs k_one (hd (rlists k_one 0))))"
    by (simp add: k_one_facts in_stack_def pcb2_def pcb0_def PROCESS_STACK_SIZE_def)
qed

text \<open>
  C18. Aging loses and duplicates nobody: \<open>apply_aging\<close> terminates and the processes queued
  afterwards are, as a multiset, the processes queued before.
\<close>

theorem aging_conserves:
  assumes "heap ff_room (k + 2 * length (all_ready (rlists s))) s R" and "sched_inv s"
  shows "\<exists>t. apply_aging first_fit_mm s = Ret ((), t) \<and> mset (all_ready (rlists t)) = mset (all_ready (rlists s)) \<and>
    sched_inv t \<and> heap ff_room k t R"
proof -
  from memory_room.apply_aging_run [OF ffr.memory_room_axioms assms(1) _ assms(2)] obtain t where
    t: "apply_aging first_fit_mm s = Ret ((), t)" "heap ff_room k t R" "sched_inv t"
      "(rlists t, procs t) = age_spec (rlists s, procs s)" by auto
  have keep: "mset (all_ready (fst (age_list pr st))) = mset (all_ready (fst st))" if "0 \<le> pr" "pr \<le> 2" for pr st
    using mset_age_list [OF that, of "fst st" "snd st"] by simp
  have "rlists t = fst (age_spec (rlists s, procs s))" by (simp flip: t(4))
  then have "mset (all_ready (rlists t)) = mset (all_ready (rlists s))" by (simp add: age_spec_def keep)
  with t show ?thesis by auto
qed

theorem aging_conserves_witness:
  "\<exists>t. apply_aging first_fit_mm k_one = Ret ((), t) \<and> mset (all_ready (rlists t)) = mset (all_ready (rlists k_one)) \<and>
    sched_inv t \<and> heap ff_room 20 t Map.empty"
proof (rule aging_conserves)
  show "heap ff_room (20 + 2 * length (all_ready (rlists k_one))) k_one Map.empty"
    using k_one_facts by (simp add: all_ready_def)
  show "sched_inv k_one" using sched_ok_inv [of k_one] k_one_ok by (auto simp: sched_ok_def)
qed

section \<open>What a change of priority does to a queued process\<close>







end
