(* ===== verification/Sem_Properties.thy ===== *)
theory Sem_Properties
  imports Sched_Properties
begin

text \<open>
  The properties of the semaphores for a kernel linked with the first-fit manager: what post and
  wait do on each branch, up to the effect on the scheduler.
\<close>

section \<open>A kernel with one semaphore\<close>

text \<open>The memory: four ready queues, the registry queue with one node, and the queue of blocked pids
  with one node.\<close>

definition ff_ten :: ff_state where
  "ff_ten = \<lparr>hdr = (\<lambda>_. \<lparr>h_ptr = 0, h_size = 4\<rparr>)(16 := \<lparr>h_ptr = 4096, h_size = 0\<rparr>, 4096 := \<lparr>h_ptr = 16, h_size = 32\<rparr>,
       4704 := \<lparr>h_ptr = 0, h_size = 2\<rparr>, 4672 := \<lparr>h_ptr = 0, h_size = 2\<rparr>, 4640 := \<lparr>h_ptr = 0, h_size = 2\<rparr>,
       4608 := \<lparr>h_ptr = 0, h_size = 2\<rparr>),
     ff_base = 16, freep = 16, total_mem_size = 1024, free_mem_size = 512\<rparr>"

definition rest_ten :: "addr \<rightharpoonup> nat" where
  "rest_ten = [4816 \<mapsto> 48, 4752 \<mapsto> 48, 4720 \<mapsto> 16, 4688 \<mapsto> 8, 4656 \<mapsto> 16, 4624 \<mapsto> 4]"

lemma ff_ten_inv: "ff_inv {16, 4096} {5056, 4992, 4928, 4864, 4800, 4736, 4704, 4672, 4640, 4608} ff_ten"
  by (auto simp: ff_inv_def ff_ring_def ring_next_def ff_blocks_def ff_merged_def ff_counts_def ff_ten_def UNIT_SIZE_def)

lemma ff_ten_room: "ff_room 16 ff_ten (rest_ten ++ [5072 \<mapsto> 48, 5008 \<mapsto> 48, 4944 \<mapsto> 48, 4880 \<mapsto> 48])"
proof -
  let ?L = "rest_ten ++ [5072 \<mapsto> 48, 5008 \<mapsto> 48, 4944 \<mapsto> 48, 4880 \<mapsto> 48] :: addr \<rightharpoonup> nat"
  have A: "(\<lambda>a. a - UNIT_SIZE) ` dom ?L = {5056, 4992, 4928, 4864, 4800, 4736, 4704, 4672, 4640, 4608}"
    by (auto simp: UNIT_SIZE_def rest_ten_def)
  have "UNIT_SIZE \<le> a \<and> n + UNIT_SIZE \<le> UNIT_SIZE * h_size (hdr ff_ten (a - UNIT_SIZE))" if "?L a = Some n" for a n
    using that by (auto simp: ff_ten_def rest_ten_def UNIT_SIZE_def split: if_splits)
  then have "ff_rep ff_ten ?L" using ff_ten_inv unfolding ff_rep_def A by blast
  moreover have "2 * 16 \<le> h_size (hdr ff_ten 4096)" by (simp add: ff_ten_def)
  ultimately show ?thesis using ff_ten_inv unfolding ff_room_def A by blast
qed

text \<open>Semaphore 940 with value \<open>v\<close>, and pid 2 on its queue if \<open>w\<close>; process 920 has pid 2.\<close>

definition reg_queue :: "addr queue" where
  "reg_queue = \<lparr>q_addr = 4816, q_nodes = [\<lparr>n_addr = 4720, n_data = 4688, n_val = 940\<rparr>], cyclicIter = null, dataSize = 8, elemCount = 1\<rparr>"

definition pid_queue :: "bool \<Rightarrow> int queue" where
  "pid_queue w = \<lparr>q_addr = 4752, q_nodes = (if w then [\<lparr>n_addr = 4656, n_data = 4624, n_val = 2\<rparr>] else []), cyclicIter = null,
     dataSize = 4, elemCount = (if w then 1 else 0)\<rparr>"

definition k_sem :: "u16 \<Rightarrow> bool \<Rightarrow> ff_state kst" where
  "k_sem v w = k_idle\<lparr>mem := ff_ten, registry := Some \<lparr>r_addr = 960, r_lock = False, r_sems = Some reg_queue\<rparr>,
     sems := [940 \<mapsto> \<lparr>s_name = ''s'', s_value = v, s_lock = False, s_users = 1, s_blocked = Some (pid_queue w)\<rparr>]\<rparr>"

lemma k_sem_queues: "queues (k_sem v w) = queues k_idle" "table_wf (k_sem v w) = table_wf k_idle" "rq (k_sem v w) = rq k_idle"
  by (simp_all add: k_sem_def queues_def rq_def table_wf_def fun_eq_iff)

lemma k_sem_heap: "heap ff_room 16 (k_sem v w) rest_ten"
proof -
  let ?L = "rest_ten ++ [5072 \<mapsto> 48, 5008 \<mapsto> 48, 4944 \<mapsto> 48, 4880 \<mapsto> 48] :: addr \<rightharpoonup> nat"
  have "owned ?L (queues k_idle)" "rest_of ?L (queues k_idle) = rest_ten"
    by (auto simp: queues_def k_idle_rq owned_def rest_of_def cells_def empty_queue_def restrict_map_def fun_eq_iff rest_ten_def)
  moreover have "mem (k_sem v w) = ff_ten" by (simp add: k_sem_def)
  ultimately show ?thesis using ff_ten_room k_idle_heap unfolding heap_def k_sem_queues by auto
qed

lemma k_sem_view:
  "rlists (k_sem v w) = (\<lambda>_. [])" "procs (k_sem v w) = [900 \<mapsto> pcb0, 920 \<mapsto> pcb2]" "idle_proc (k_sem v w) = 900"
  "running_process (k_sem v w) = 900" "scheduler_online (k_sem v w)" "process_table (k_sem v w) = [900, 0, 920] @ replicate 61 0"
  using k_idle_lists k_idle_procs by (simp_all add: k_sem_def)

lemma k_sem_sem: "sem_heap (k_sem v w) rest_ten reg_queue"
  by (auto simp: sem_heap_def sem_ok_def own_cells_def sem_cells_def cells_def blk_def vals_def k_sem_def reg_queue_def pid_queue_def
      rest_ten_def)

lemma k_sem_values: "sem_value (k_sem v w) 940 = v" "sem_blocked (k_sem v w) 940 = (if w then [2] else [])" "vals reg_queue = [940]"
  by (simp_all add: sem_value_def sem_blocked_def blk_def vals_def k_sem_def pid_queue_def reg_queue_def)

lemma uint_minus_one:
  fixes w :: "'a::len word"
  assumes "w \<noteq> 0"
  shows "uint (w - 1) = uint w - 1"
proof -
  have "1 \<le> w" using assms by (metis word_le_0_iff word_le_sub1 not_le word_less_1 linorder_not_less)
  then show ?thesis by (simp add: uint_minus_simple_alt)
qed

section \<open>Post\<close>

text \<open>
  Posting to a registered semaphore on which nobody waits adds one to its value, modulo \<open>2 ^ 16\<close>,
  and changes no other semaphore and nothing of the scheduler.
\<close>

theorem semPost_counts:
  assumes "heap ff_room (Suc k) s R" and "sem_heap s R q" and "a \<in> set (vals q)" and "sem_blocked s a = []"
  shows "\<exists>t q'. semPost first_fit_mm a s = Ret (0, t) \<and> heap ff_room k t R \<and> sem_heap t R q' \<and> vals q' = vals q \<and>
    uint (sem_value t a) = (uint (sem_value s a) + 1) mod 2 ^ 16 \<and> sem_blocked t a = [] \<and> (\<forall>b. b \<noteq> a \<longrightarrow> sems t b = sems s b) \<and>
    procs t = procs s \<and> rlists t = rlists s \<and> running_process t = running_process s"
proof (rule memory_room.valid_then_run [OF ffr.memory_room_axioms assms(1,2), of a])
  fix u q' assume u: "heap ff_room k u R" "sem_heap u R q'" "vals q' = vals q" "sems u = sems s"
    "u = s\<lparr>mem := mem u, registry := registry u\<rparr>"
    "semPost first_fit_mm a s = (if a \<in> set (vals q) then semPost_locked first_fit_mm a u else Ret (- 1, u))"
  have "a \<in> set (vals q')" "sem_blocked u a = []" using assms(3,4) u(3,4) by (simp_all add: sem_blocked_def blk_def)
  from memory_room.semPost_free_run [OF ffr.memory_room_axioms u(1,2) this] obtain t where
    t: "semPost_locked first_fit_mm a u = Ret (0, t)" "heap ff_room k t R" "sem_heap t R q'" "sem_value t a = sem_value u a + 1"
      "sem_blocked t a = []" "\<forall>b. b \<noteq> a \<longrightarrow> sems t b = sems u b" "t = u\<lparr>sems := sems t\<rparr>" by blast
  have "procs t = procs u" "rlists t = rlists u" "running_process t = running_process u" by (subst t(7), simp)+
  moreover have "procs u = procs s" "rlists u = rlists s" "running_process u = running_process s" by (subst u(5), simp)+
  moreover have "sem_value u a = sem_value s a" using u(4) by (simp add: sem_value_def)
  ultimately show ?thesis using t u assms(3) by (intro exI [of _ t] exI [of _ q']) (simp add: uint_word_ariths)
qed simp

theorem semPost_counts_witness:
  "\<exists>t q'. semPost first_fit_mm 940 (k_sem 65535 False) = Ret (0, t) \<and> heap ff_room 15 t rest_ten \<and> sem_heap t rest_ten q' \<and>
    vals q' = vals reg_queue \<and> uint (sem_value t 940) = (uint (sem_value (k_sem 65535 False) 940) + 1) mod 2 ^ 16 \<and>
    sem_blocked t 940 = [] \<and> (\<forall>b. b \<noteq> 940 \<longrightarrow> sems t b = sems (k_sem 65535 False) b) \<and> procs t = procs (k_sem 65535 False) \<and>
    rlists t = rlists (k_sem 65535 False) \<and> running_process t = running_process (k_sem 65535 False)"
  by (rule semPost_counts [OF _ k_sem_sem]) (use k_sem_heap [of 65535 False] k_sem_values in \<open>simp_all\<close>)

text \<open>
  C7. Posting to a semaphore with waiting processes wakes the one that has waited longest: its pid
  leaves the queue, the value stays, and the process becomes ready at the end of the ready queue
  of its priority.
\<close>

theorem semPost_wakes:
  assumes "heap ff_room (Suc (Suc (Suc k))) s R" and "sem_heap s R q" and "a \<in> set (vals q)" and "sem_blocked s a = pid # pids"
    and "0 \<le> pid" and "pid < int MAX_PROCESSES" and "process_table s ! nat pid = p" and "p \<noteq> null" and "p \<noteq> idle_proc s"
    and "procs s p = Some pc" and "p_pid pc \<noteq> 1" and "p_state pc = BLOCKED" and "0 \<le> p_priority pc" and "p_priority pc \<le> 3"
  shows "\<exists>t q' R'. semPost first_fit_mm a s = Ret (0, t) \<and> heap ff_room k t R' \<and> sem_heap t R' q' \<and> vals q' = vals q \<and>
    sem_value t a = sem_value s a \<and> sem_blocked t a = pids \<and> (\<forall>b. b \<noteq> a \<longrightarrow> sems t b = sems s b) \<and>
    rlists t = (rlists s)(p_priority pc := rlists s (p_priority pc) @ [p]) \<and>
    procs t = (procs s)(p \<mapsto> pc\<lparr>p_state := READY\<rparr>) \<and> running_process t = running_process s"
proof (rule memory_room.valid_then_run [OF ffr.memory_room_axioms assms(1,2), of a])
  fix u q' assume u: "heap ff_room (Suc (Suc k)) u R" "sem_heap u R q'" "vals q' = vals q" "sems u = sems s"
    "u = s\<lparr>mem := mem u, registry := registry u\<rparr>"
    "semPost first_fit_mm a s = (if a \<in> set (vals q) then semPost_locked first_fit_mm a u else Ret (- 1, u))"
  have f: "procs u = procs s" "rlists u = rlists s" "running_process u = running_process s" "process_table u = process_table s"
    "idle_proc u = idle_proc s" by (subst u(5), simp)+
  have "a \<in> set (vals q')" "sem_blocked u a = pid # pids" using assms(3,4) u(3,4) by (simp_all add: sem_blocked_def blk_def)
  from memory_room.semPost_wake_run [OF ffr.memory_room_axioms u(1,2) _ this, of p pc] assms(5-) f obtain t R' where
    t: "semPost_locked first_fit_mm a u = Ret (0, t)" "heap ff_room k t R'" "sem_heap t R' q'" "sem_value t a = sem_value u a"
      "sem_blocked t a = pids" "\<forall>b. b \<noteq> a \<longrightarrow> sems t b = sems u b"
      "rlists t = (rlists u)(p_priority pc := rlists u (p_priority pc) @ [p])" "running_process t = running_process u"
      "procs t = (procs u)(p \<mapsto> pc\<lparr>p_state := READY\<rparr>)" by auto
  moreover have "sem_value u a = sem_value s a" using u(4) by (simp add: sem_value_def)
  ultimately show ?thesis using u f assms(3) by (intro exI [of _ t] exI [of _ q'] exI [of _ R']) simp
qed simp

theorem semPost_wakes_witness:
  "\<exists>t q' R'. semPost first_fit_mm 940 (k_sem 0 True) = Ret (0, t) \<and> heap ff_room 13 t R' \<and> sem_heap t R' q' \<and> vals q' = vals reg_queue \<and>
    sem_value t 940 = sem_value (k_sem 0 True) 940 \<and> sem_blocked t 940 = [] \<and> (\<forall>b. b \<noteq> 940 \<longrightarrow> sems t b = sems (k_sem 0 True) b) \<and>
    rlists t = (rlists (k_sem 0 True))(p_priority pcb2 := rlists (k_sem 0 True) (p_priority pcb2) @ [920]) \<and>
    procs t = (procs (k_sem 0 True))(920 \<mapsto> pcb2\<lparr>p_state := READY\<rparr>) \<and> running_process t = running_process (k_sem 0 True)"
  by (rule semPost_wakes [OF _ k_sem_sem, where pid = 2 and pc = pcb2])
     (use k_sem_heap [of 0 True] k_sem_values in \<open>simp_all add: k_sem_view MAX_PROCESSES_def pcb2_def pcb0_def\<close>)

text \<open>
  C38. A signal is lost when the process at the head of the queue has been killed meanwhile: the post
  reports success, removes the stale pid, and neither wakes a live waiter nor raises the value.
\<close>

theorem semPost_lost:
  assumes "heap ff_room (Suc k) s R" and "sem_heap s R q" and "a \<in> set (vals q)" and "sem_blocked s a = pid # pids"
    and "0 \<le> pid" and "pid < int MAX_PROCESSES" and "process_table s ! nat pid = null"
  shows "\<exists>t q' R'. semPost first_fit_mm a s = Ret (0, t) \<and> heap ff_room k t R' \<and> sem_heap t R' q' \<and> vals q' = vals q \<and>
    sem_value t a = sem_value s a \<and> sem_blocked t a = pids \<and> procs t = procs s \<and> rlists t = rlists s"
proof (rule memory_room.valid_then_run [OF ffr.memory_room_axioms assms(1,2), of a])
  fix u q' assume u: "heap ff_room k u R" "sem_heap u R q'" "vals q' = vals q" "sems u = sems s"
    "u = s\<lparr>mem := mem u, registry := registry u\<rparr>"
    "semPost first_fit_mm a s = (if a \<in> set (vals q) then semPost_locked first_fit_mm a u else Ret (- 1, u))"
  have f: "procs u = procs s" "rlists u = rlists s" "process_table u = process_table s" by (subst u(5), simp)+
  have "a \<in> set (vals q')" "sem_blocked u a = pid # pids" using assms(3,4) u(3,4) by (simp_all add: sem_blocked_def blk_def)
  from memory_room.semPost_gone_run [OF ffr.memory_room_axioms u(1,2) this] assms(5-) f obtain t R' where
    t: "semPost_locked first_fit_mm a u = Ret (0, t)" "heap ff_room k t R'" "sem_heap t R' q'" "sem_value t a = sem_value u a"
      "sem_blocked t a = pids" "t = u\<lparr>mem := mem t, sems := sems t\<rparr>" by auto
  have "procs t = procs u" "rlists t = rlists u" by (subst t(6), simp)+
  moreover have "sem_value u a = sem_value s a" using u(4) by (simp add: sem_value_def)
  ultimately show ?thesis using t u f assms(3) by (intro exI [of _ t] exI [of _ q'] exI [of _ R']) simp
qed simp

theorem semPost_lost_witness:
  "\<exists>t q' R'. semPost first_fit_mm 940 ((k_sem 0 True)\<lparr>process_table := replicate 64 0\<rparr>) = Ret (0, t) \<and> heap ff_room 15 t R' \<and>
    sem_heap t R' q' \<and> vals q' = vals reg_queue \<and>
    sem_value t 940 = sem_value ((k_sem 0 True)\<lparr>process_table := replicate 64 0\<rparr>) 940 \<and> sem_blocked t 940 = [] \<and>
    procs t = procs ((k_sem 0 True)\<lparr>process_table := replicate 64 0\<rparr>) \<and>
    rlists t = rlists ((k_sem 0 True)\<lparr>process_table := replicate 64 0\<rparr>)"
proof (rule semPost_lost [where pid = 2 and q = reg_queue and R = rest_ten])
  let ?s = "(k_sem 0 True)\<lparr>process_table := replicate 64 0\<rparr>"
  show "heap ff_room (Suc 15) ?s rest_ten" using k_sem_heap [of 0 True] by simp
  show "sem_heap ?s rest_ten reg_queue" by (rule sem_heap_cong [OF k_sem_sem [of 0 True]]) simp_all
  show "sem_blocked ?s 940 = [2]" using k_sem_values(2) [of 0 True] by (simp add: sem_blocked_def blk_def)
qed (simp_all add: k_sem_values MAX_PROCESSES_def)

section \<open>Wait\<close>

text \<open>
  Waiting on a semaphore with a positive value takes one unit and returns at once.
\<close>

theorem semWait_takes:
  assumes "heap ff_room (Suc k) s R" and "sem_heap s R q" and "a \<in> set (vals q)" and "sem_value s a \<noteq> 0"
  shows "\<exists>t q'. semWait first_fit_mm a s = Ret (Done 0, t) \<and> heap ff_room k t R \<and> sem_heap t R q' \<and> vals q' = vals q \<and>
    uint (sem_value t a) = uint (sem_value s a) - 1 \<and> sem_blocked t a = sem_blocked s a \<and> (\<forall>b. b \<noteq> a \<longrightarrow> sems t b = sems s b) \<and>
    procs t = procs s \<and> rlists t = rlists s \<and> running_process t = running_process s"
proof (rule memory_room.valid_then_run [OF ffr.memory_room_axioms assms(1,2), of a])
  fix u q' assume u: "heap ff_room k u R" "sem_heap u R q'" "vals q' = vals q" "sems u = sems s"
    "u = s\<lparr>mem := mem u, registry := registry u\<rparr>"
    "semWait first_fit_mm a s = (if a \<in> set (vals q) then semWait_locked first_fit_mm a u else Ret (Done (- 1), u))"
  have f: "procs u = procs s" "rlists u = rlists s" "running_process u = running_process s" by (subst u(5), simp)+
  have v: "sem_value u a = sem_value s a" "sem_blocked u a = sem_blocked s a" using u(4) by (simp_all add: sem_value_def sem_blocked_def blk_def)
  have "a \<in> set (vals q')" "sem_value u a \<noteq> 0" using assms(3,4) u(3) v by simp_all
  from memory_room.semWait_take_run [OF ffr.memory_room_axioms u(1,2) this] obtain t where
    t: "semWait_locked first_fit_mm a u = Ret (Done 0, t)" "heap ff_room k t R" "sem_heap t R q'" "sem_value t a = sem_value u a - 1"
      "sem_blocked t a = sem_blocked u a" "\<forall>b. b \<noteq> a \<longrightarrow> sems t b = sems u b" "t = u\<lparr>sems := sems t\<rparr>" by blast
  have "procs t = procs u" "rlists t = rlists u" "running_process t = running_process u" by (subst t(7), simp)+
  moreover have "uint (sem_value s a - 1) = uint (sem_value s a) - 1" by (rule uint_minus_one [OF assms(4)])
  ultimately show ?thesis using t u f v assms(3) by (intro exI [of _ t] exI [of _ q']) simp
qed simp

theorem semWait_takes_witness:
  "\<exists>t q'. semWait first_fit_mm 940 (k_sem 3 False) = Ret (Done 0, t) \<and> heap ff_room 15 t rest_ten \<and> sem_heap t rest_ten q' \<and>
    vals q' = vals reg_queue \<and> uint (sem_value t 940) = uint (sem_value (k_sem 3 False) 940) - 1 \<and>
    sem_blocked t 940 = sem_blocked (k_sem 3 False) 940 \<and> (\<forall>b. b \<noteq> 940 \<longrightarrow> sems t b = sems (k_sem 3 False) b) \<and>
    procs t = procs (k_sem 3 False) \<and> rlists t = rlists (k_sem 3 False) \<and> running_process t = running_process (k_sem 3 False)"
  by (rule semWait_takes [OF _ k_sem_sem]) (use k_sem_heap [of 3 False] k_sem_values in \<open>simp_all\<close>)

text \<open>
  C6. Waiting on a semaphore with value 0 suspends the caller: its pid goes to the end of the queue,
  it is blocked, and the scheduler continues as specified by \<open>schedule_spec\<close> from there; the
  invariants of the heap, the semaphores and the scheduler hold afterwards.
\<close>

theorem semWait_blocks:
  assumes "heap ff_room (Suc (k + 4 + 2 * length (all_ready (rlists s)))) s R" and "sem_heap s R q" and "a \<in> set (vals q)"
    and "sem_value s a = 0" and "sched_ok s" and "scheduler_online s" and "running_process s = p" and "p \<noteq> null" and "p \<noteq> idle_proc s"
    and "procs s p = Some pc" and "p_pid pc \<noteq> 1" and "p_state pc = RUNNING"
  shows "\<exists>t q' R'. semWait first_fit_mm a s = Ret (Suspended, t) \<and> heap ff_room k t R' \<and> sem_heap t R' q' \<and> sched_ok t \<and> vals q' = vals q \<and>
    sem_value t a = 0 \<and> sem_blocked t a = sem_blocked s a @ [p_pid pc] \<and> (\<forall>b. b \<noteq> a \<longrightarrow> sems t b = sems s b) \<and>
    (cpu_rsp t, running_process t, rlists t, procs t) = schedule_spec (idle_proc s) (cpu_rsp s) p
      (rlists s, (procs s)(p \<mapsto> pc\<lparr>p_state := BLOCKED, p_wait_ticks := 0\<rparr>))"
proof (rule memory_room.valid_then_run [OF ffr.memory_room_axioms assms(1,2), of a])
  fix u q' assume u: "heap ff_room (k + 4 + 2 * length (all_ready (rlists s))) u R" "sem_heap u R q'" "vals q' = vals q" "sems u = sems s"
    "u = s\<lparr>mem := mem u, registry := registry u\<rparr>"
    "semWait first_fit_mm a s = (if a \<in> set (vals q) then semWait_locked first_fit_mm a u else Ret (Done (- 1), u))"
  have f: "procs u = procs s" "rlists u = rlists s" "running_process u = running_process s" "idle_proc u = idle_proc s"
    "scheduler_online u = scheduler_online s" "cpu_rsp u = cpu_rsp s" by (subst u(5), simp)+
  have v: "sem_value u a = sem_value s a" "sem_blocked u a = sem_blocked s a" using u(4) by (simp_all add: sem_value_def sem_blocked_def blk_def)
  have ok: "sched_ok u" using assms(5) f by (simp add: sched_ok_def)
  have "heap ff_room (k + 4 + 2 * length (all_ready (rlists u))) u R" using u(1) f by simp
  from memory_room.semWait_block_run [OF ffr.memory_room_axioms this u(2) _ _ _ ok, of a p pc] assms(3,4,6-) f v u(3) obtain t R' where
    t: "semWait_locked first_fit_mm a u = Ret (Suspended, t)" "heap ff_room k t R'" "sem_heap t R' q'" "sched_ok t" "sem_value t a = 0"
      "sem_blocked t a = sem_blocked u a @ [p_pid pc]" "\<forall>b. b \<noteq> a \<longrightarrow> sems t b = sems u b"
      "(cpu_rsp t, running_process t, rlists t, procs t) =
        schedule_spec (idle_proc u) (cpu_rsp u) p (rlists u, (procs u)(p \<mapsto> blocked_pcb pc))" by auto
  then show ?thesis using u f v assms(3) by (intro exI [of _ t] exI [of _ q'] exI [of _ R']) (simp add: blocked_pcb_def)
qed simp

definition k_run :: "ff_state kst" where
  "k_run = (k_sem 0 False)\<lparr>running_process := 920, procs := [900 \<mapsto> pcb0, 920 \<mapsto> pcb2\<lparr>p_state := RUNNING\<rparr>]\<rparr>"

theorem semWait_blocks_witness:
  "\<exists>t q' R'. semWait first_fit_mm 940 k_run = Ret (Suspended, t) \<and> heap ff_room 11 t R' \<and> sem_heap t R' q' \<and> sched_ok t \<and>
    vals q' = vals reg_queue \<and> sem_value t 940 = 0 \<and> sem_blocked t 940 = sem_blocked k_run 940 @ [p_pid (pcb2\<lparr>p_state := RUNNING\<rparr>)] \<and>
    (\<forall>b. b \<noteq> 940 \<longrightarrow> sems t b = sems k_run b) \<and>
    (cpu_rsp t, running_process t, rlists t, procs t) = schedule_spec (idle_proc k_run) (cpu_rsp k_run) 920
      (rlists k_run, (procs k_run)(920 \<mapsto> (pcb2\<lparr>p_state := RUNNING\<rparr>)\<lparr>p_state := BLOCKED, p_wait_ticks := 0\<rparr>))"
proof (rule semWait_blocks [where q = reg_queue and R = rest_ten])
  have rl: "rlists k_run = (\<lambda>_. [])" using k_sem_view(1) [of 0 False] by (simp add: k_run_def view_simps)
  show "heap ff_room (Suc (11 + 4 + 2 * length (all_ready (rlists k_run)))) k_run rest_ten"
    using k_sem_heap [of 0 False] unfolding rl by (simp add: k_run_def all_ready_def)
  show "sem_heap k_run rest_ten reg_queue" by (rule sem_heap_cong [OF k_sem_sem [of 0 False]]) (simp_all add: k_run_def)
  show "sem_value k_run 940 = 0" using k_sem_values(1) [of 0 False] by (simp add: k_run_def sem_value_def)
  show "sched_ok k_run"
    using rl by (auto simp: sched_ok_def queued_ok_def running_ok_def all_ready_def k_run_def k_sem_view pcb2_def pcb0_def)
qed (simp_all add: k_sem_values k_run_def k_sem_view pcb2_def pcb0_def)



end
