(* ===== verification/Pipe_Properties.thy ===== *)
theory Pipe_Properties
  imports Pipe
begin

text \<open>
  Correctness of pipes: the ring buffer is a bounded queue of bytes, reading and writing through
  the system interface move bytes in order, and the lookup in the storage array finds the first
  pipe with the given id.
\<close>

section \<open>The ring as a queue of bytes\<close>

definition ring_ok :: "pipe \<Rightarrow> bool" where
  "ring_ok pi \<longleftrightarrow> pi_idxToRead pi < PIPE_BUFFER_SIZE \<and> pi_idxToWrite pi < PIPE_BUFFER_SIZE"

definition used :: "pipe \<Rightarrow> nat" where
  "used pi = (if pi_idxToRead pi \<le> pi_idxToWrite pi then pi_idxToWrite pi - pi_idxToRead pi
              else PIPE_BUFFER_SIZE - pi_idxToRead pi + pi_idxToWrite pi)"

definition ring :: "pipe \<Rightarrow> u8 list" where
  "ring pi = map (\<lambda>i. pi_buffer pi ((pi_idxToRead pi + i) mod PIPE_BUFFER_SIZE)) [0..<used pi]"

definition full :: "pipe \<Rightarrow> bool" where
  "full pi \<longleftrightarrow> pi_idxToWrite pi = PREVIOUS_IDX (pi_idxToRead pi)"

lemma NEXT_IDX_less: "i < PIPE_BUFFER_SIZE \<Longrightarrow> NEXT_IDX i = (if i + 1 = PIPE_BUFFER_SIZE then 0 else i + 1)"
  by (auto simp: NEXT_IDX_def)

lemma length_ring [simp]: "length (ring pi) = used pi"
  by (simp add: ring_def)

lemma used_less: "ring_ok pi \<Longrightarrow> used pi < PIPE_BUFFER_SIZE"
  by (auto simp: ring_ok_def used_def)

lemma full_iff: "ring_ok pi \<Longrightarrow> full pi \<longleftrightarrow> used pi = PIPE_BUFFER_SIZE - 1"
  by (auto simp: ring_ok_def used_def full_def PREVIOUS_IDX_def)

lemma empty_iff: "ring_ok pi \<Longrightarrow> ring pi = [] \<longleftrightarrow> pi_idxToRead pi = pi_idxToWrite pi"
  by (auto simp: ring_ok_def used_def ring_def)

lemma store_byte_fields [simp]:
  "pi_idxToRead (store_byte c pi) = pi_idxToRead pi" "pi_idxToWrite (store_byte c pi) = NEXT_IDX (pi_idxToWrite pi)"
  "pi_waitingToRead (store_byte c pi) = pi_waitingToRead pi" "pi_waitingToWrite (store_byte c pi) = pi_waitingToWrite pi"
  "pi_id (store_byte c pi) = pi_id pi" "pi_canRead (store_byte c pi) = pi_canRead pi" "pi_canWrite (store_byte c pi) = pi_canWrite pi"
  by (simp_all add: store_byte_def)

lemma store_byte_ok: "ring_ok pi \<Longrightarrow> ring_ok (store_byte c pi)"
  by (simp add: ring_ok_def NEXT_IDX_def)

lemma store_byte_used:
  assumes "ring_ok pi" and "\<not> full pi"
  shows "used (store_byte c pi) = Suc (used pi)"
  using assms by (auto simp: ring_ok_def used_def full_def PREVIOUS_IDX_def NEXT_IDX_less split: if_splits)

lemma mod_minus: "m < n \<Longrightarrow> n \<le> k \<Longrightarrow> k < n + (n::nat) \<Longrightarrow> k mod n = k - n"
  by (metis add_diff_inverse_nat le_mod_geq less_diff_conv2 linorder_not_less mod_less)

lemma ring_store:
  assumes ok: "ring_ok pi" and room: "\<not> full pi"
  shows "ring (store_byte c pi) = ring pi @ [c]"
proof (rule nth_equalityI)
  show "length (ring (store_byte c pi)) = length (ring pi @ [c])" by (simp add: store_byte_used [OF assms])
next
  let ?N = "PIPE_BUFFER_SIZE" and ?r = "pi_idxToRead pi" and ?w = "pi_idxToWrite pi"
  fix i assume "i < length (ring (store_byte c pi))"
  then have i: "i < Suc (used pi)" by (simp add: store_byte_used [OF assms])
  have rw: "?r < ?N" "?w < ?N" using ok by (auto simp: ring_ok_def)
  have u: "(?r + used pi) mod ?N = ?w"
    using rw by (auto simp: used_def mod_if)
  have "(?r + j) mod ?N \<noteq> ?w" if "j < used pi" for j
    using rw that mod_minus [of ?r ?N "?r + j"] by (cases "?r + j < ?N") (auto simp: used_def split: if_splits)
  moreover have "ring (store_byte c pi) ! i = pi_buffer (store_byte c pi) ((?r + i) mod ?N)"
    using i by (simp add: ring_def store_byte_used [OF assms] del: upt_Suc)
  ultimately show "ring (store_byte c pi) ! i = (ring pi @ [c]) ! i"
    using i u by (cases "i = used pi") (auto simp: nth_append ring_def store_byte_def)
qed

lemma drain_ring:
  assumes "ring_ok pi"
  shows "fst (drain n pi) = take n (ring pi) \<and> ring (snd (drain n pi)) = drop n (ring pi) \<and> ring_ok (snd (drain n pi)) \<and>
    snd (drain n pi) = pi\<lparr>pi_idxToRead := pi_idxToRead (snd (drain n pi))\<rparr>"
  using assms
proof (induction n arbitrary: pi)
  case (Suc n)
  show ?case
  proof (cases "pi_idxToRead pi = pi_idxToWrite pi")
    case True
    then have "ring pi = []" using empty_iff [OF Suc.prems] by simp
    with True Suc.prems show ?thesis by simp
  next
    case False
    let ?q = "pi\<lparr>pi_idxToRead := NEXT_IDX (pi_idxToRead pi)\<rparr>" and ?N = PIPE_BUFFER_SIZE
    have ok: "ring_ok ?q" using Suc.prems by (simp add: ring_ok_def NEXT_IDX_def)
    have u: "used pi = Suc (used ?q)"
      using Suc.prems False by (auto simp: used_def ring_ok_def NEXT_IDX_less split: if_splits)
    have "(NEXT_IDX (pi_idxToRead pi) + i) mod ?N = (pi_idxToRead pi + Suc i) mod ?N" for i
      by (simp add: NEXT_IDX_def mod_add_left_eq)
    then have r: "ring pi = pi_buffer pi (pi_idxToRead pi) # ring ?q"
      using Suc.prems unfolding ring_def u by (simp add: upt_conv_Cons map_Suc_upt [symmetric] ring_ok_def del: upt_Suc)
    obtain xs pi' where d: "drain n ?q = (xs, pi')" by (cases "drain n ?q")
    have "xs = take n (ring ?q)" "ring pi' = drop n (ring ?q)" "ring_ok pi'" "pi' = ?q\<lparr>pi_idxToRead := pi_idxToRead pi'\<rparr>"
      using Suc.IH [OF ok] d by simp_all
    with False d r show ?thesis by simp
  qed
qed simp

text \<open>
  C17. The ring is a bounded first-in first-out queue: storing a list of bytes that fits and then
  reading \<open>n\<close> bytes yields the first \<open>n\<close> of what was buffered and what was stored, in order, and
  leaves the rest; the indices stay within the buffer.
\<close>

theorem pipe_fifo:
  assumes "ring_ok pi" and "used pi + length bs < PIPE_BUFFER_SIZE"
  shows "fst (drain n (fold store_byte bs pi)) = take n (ring pi @ bs) \<and>
    ring (snd (drain n (fold store_byte bs pi))) = drop n (ring pi @ bs) \<and> ring_ok (snd (drain n (fold store_byte bs pi)))"
proof -
  have "ring_ok (fold store_byte bs pi) \<and> ring (fold store_byte bs pi) = ring pi @ bs"
    using assms
  proof (induction bs arbitrary: pi)
    case (Cons b bs)
    then have room: "\<not> full pi" using full_iff [of pi] by simp
    have "ring_ok (fold store_byte bs (store_byte b pi)) \<and>
        ring (fold store_byte bs (store_byte b pi)) = ring (store_byte b pi) @ bs"
      by (rule Cons.IH) (use Cons.prems store_byte_ok store_byte_used [OF _ room] in auto)
    with ring_store [OF Cons.prems(1) room] show ?case by simp
  qed simp
  with drain_ring [of "fold store_byte bs pi" n] show ?thesis by simp
qed

definition pipe0 :: pipe where
  "pipe0 = \<lparr>pi_id = 3, pi_buffer = (\<lambda>_. 0), pi_idxToRead = 16382, pi_idxToWrite = 16382, pi_waitingToRead = False,
     pi_waitingToWrite = False, pi_canRead = 0, pi_canWrite = 0, pi_attached = 0, pi_readers = 1, pi_writers = 1,
     pi_exp_readers = 0, pi_exp_writers = 0\<rparr>"

lemma pipe0_ring: "ring_ok pipe0" "used pipe0 = 0" "ring pipe0 = []"
  by (simp_all add: ring_ok_def used_def ring_def pipe0_def PIPE_BUFFER_SIZE_def)

theorem pipe_fifo_witness:
  "fst (drain 3 (fold store_byte [1, 2, 3, 4] pipe0)) = [1, 2, 3] \<and> ring (snd (drain 3 (fold store_byte [1, 2, 3, 4] pipe0))) = [4]"
  using pipe_fifo [of pipe0 "[1, 2, 3, 4]" 3] by (simp add: pipe0_ring PIPE_BUFFER_SIZE_def)

section \<open>Looking a pipe up\<close>

lemma find_pipe_run:
  assumes st: "pipeStorage s = Some a" "arr_wf a" and i: "i + k = unat (a_elemCount a)"
    and live: "\<forall>p\<in>set (contents a). p \<noteq> null \<longrightarrow> pipes s p \<noteq> None"
  shows "find_pipe P i k s = Ret (find (\<lambda>(_, p). p \<noteq> null \<and> P p (the (pipes s p))) (zip [i..<i + k] (drop i (contents a))), s)"
  using i
proof (induction k arbitrary: i)
  case (Suc k)
  have lt: "i < unat (a_elemCount a)" using Suc.prems by simp
  moreover have "unat (a_elemCount a) < 2 ^ 16" using unsigned_less [of "a_elemCount a", where 'a = nat] by simp
  ultimately have u: "unat (of_nat i :: u16) = i" by (simp add: unat_of_nat)
  let ?p = "contents a ! i"
  have g: "getElemByIndex (pipeStorage s) (of_nat i) s = Ret (Some ?p, s)"
    using getElemByIndex_wf [OF st(2), of "of_nat i", THEN fun_cong, of s] st(1) u lt by (simp add: run_simps)
  have d: "drop i (contents a) = ?p # drop (Suc i) (contents a)" using lt by (metis Cons_nth_drop_Suc length_contents)
  have "?p \<in> set (contents a)" using lt by (metis length_contents nth_mem)
  with live have l: "?p \<noteq> null \<Longrightarrow> pipes s ?p \<noteq> None" by blast
  have IH: "find_pipe P (Suc i) k s =
      Ret (find (\<lambda>(_, p). p \<noteq> null \<and> P p (the (pipes s p))) (zip [Suc i..<Suc i + k] (drop (Suc i) (contents a))), s)"
    using Suc.IH [of "Suc i"] Suc.prems by (simp del: upt_Suc)
  have z: "zip [i..<i + Suc k] (drop i (contents a)) = (i, ?p) # zip [Suc i..<Suc i + k] (drop (Suc i) (contents a))"
    unfolding d by (simp add: upt_conv_Cons del: upt_Suc)
  show ?case unfolding z using g IH l by (auto simp: get_pipe_def run_simps)
qed (simp add: run_simps)

lemma find_zip: "map_option snd (find (\<lambda>(_, p). Q p) (zip [i..<i + length xs] xs)) = find Q xs"
proof (induction xs arbitrary: i)
  case (Cons x xs)
  from Cons.IH [of "Suc i"] show ?case by (simp add: upt_conv_Cons del: upt_Suc)
qed simp

lemma getValidPipe_run:
  assumes "pipeStorage s = Some a" and "arr_wf a" and "\<forall>p\<in>set (contents a). p \<noteq> null \<longrightarrow> pipes s p \<noteq> None"
  shows "getValidPipe ident s =
    Ret (case find (\<lambda>p. p \<noteq> null \<and> pi_id (the (pipes s p)) = ident) (contents a) of None \<Rightarrow> null | Some p \<Rightarrow> p, s)"
proof -
  let ?Q = "\<lambda>p. p \<noteq> null \<and> pi_id (the (pipes s p)) = ident"
  let ?z = "find (\<lambda>(_, p). ?Q p) (zip [0..<unat (a_elemCount a)] (contents a))"
  have "find_pipe (\<lambda>_ pi. pi_id pi = ident) 0 (unat (arraySize (pipeStorage s))) s = Ret (?z, s)"
    using find_pipe_run [OF assms(1,2) _ assms(3), of 0 _ "\<lambda>_ pi. pi_id pi = ident"] assms(1)
    by (simp add: arraySize_def)
  then have "getValidPipe ident s = Ret (case ?z of None \<Rightarrow> null | Some (_, p) \<Rightarrow> p, s)"
    using assms(1) by (simp add: getValidPipe_def run_simps)
  moreover have "(case ?z of None \<Rightarrow> null | Some (_, p) \<Rightarrow> p) = (case map_option snd ?z of None \<Rightarrow> null | Some p \<Rightarrow> p)"
    by (auto split: option.split)
  moreover have "map_option snd ?z = find ?Q (contents a)" using find_zip [of ?Q 0 "contents a"] by simp
  ultimately show ?thesis by (simp only:)
qed

text \<open>
  \<open>getValidPipe\<close> finds the first live pipe of the storage array with the given id, or
  reports that there is none; it never panics on a well-formed array and changes nothing.
\<close>

theorem getValidPipe_finds:
  assumes "pipeStorage s = Some a" and "arr_wf a" and "\<forall>p\<in>set (contents a). p \<noteq> null \<longrightarrow> pipes s p \<noteq> None"
  shows "getValidPipe ident s =
    Ret (case find (\<lambda>p. p \<noteq> null \<and> pi_id (the (pipes s p)) = ident) (contents a) of None \<Rightarrow> null | Some p \<Rightarrow> p, s)"
  by (rule getValidPipe_run [OF assms])

definition st_pipes :: "addr arr" where
  "st_pipes = \<lparr>a_addr = 500, a_base = 510, a_cells = [0 \<mapsto> null, Suc 0 \<mapsto> 600, 2 \<mapsto> 620], a_sizeOfElem = 8, a_elemCount = 3,
     a_dim = 1024, a_iter = 0\<rparr>"

definition k_pipes :: "nat kst" where
  "k_pipes = \<lparr>mem = 64, procs = (\<lambda>_. None), argvs = (\<lambda>_. None), strs = (\<lambda>_. None), junk = (\<lambda>_. undefined), junk_argv = (\<lambda>_. 0),
     junk_pipe = pipe0, process_table = replicate 64 0, process_priority_table = None, running_process = null, idle_proc = null,
     shell_proc = null, scheduler_online = False, cpu_rsp = 0, registry = None, sems = (\<lambda>_. None), pipeStorage = Some st_pipes,
     pipes = [600 \<mapsto> pipe0, 620 \<mapsto> pipe0\<lparr>pi_id := 4\<rparr>], nextId = 5\<rparr>"

lemma k_pipes_storage: "pipeStorage k_pipes = Some st_pipes" "arr_wf st_pipes" "contents st_pipes = [0, 600, 620]"
  "pipes k_pipes = [600 \<mapsto> pipe0, 620 \<mapsto> pipe0\<lparr>pi_id := 4\<rparr>]"
proof -
  have "x = 0 \<or> x = Suc 0 \<or> x = 2" if "x < 3" for x :: nat using that by arith
  then show "arr_wf st_pipes" by (auto simp: arr_wf_def st_pipes_def word_le_nat_alt)
  have "[0..<3] = [0, Suc 0, 2 :: nat]" by (simp add: upt_rec)
  then show "contents st_pipes = [0, 600, 620]" by (simp add: contents_def st_pipes_def)
qed (simp_all add: k_pipes_def)

lemma k_pipes_valid:
  assumes "pi_id pi = 3"
  shows "getValidPipe 3 (k_pipes\<lparr>pipes := [620 \<mapsto> pipe0, 600 \<mapsto> pi]\<rparr>) = Ret (600, k_pipes\<lparr>pipes := [620 \<mapsto> pipe0, 600 \<mapsto> pi]\<rparr>)"
  using getValidPipe_run [of "k_pipes\<lparr>pipes := [620 \<mapsto> pipe0, 600 \<mapsto> pi]\<rparr>" st_pipes 3] k_pipes_storage assms by simp

theorem getValidPipe_finds_witness: "getValidPipe 4 k_pipes = Ret (620, k_pipes)"
  using getValidPipe_finds [OF k_pipes_storage(1,2), of 4] by (simp add: k_pipes_storage pipe0_def)

section \<open>Reading and writing\<close>

lemma readPipe_start:
  assumes "getValidPipe ident s = Ret (p, s)" and "p \<noteq> null" and "buf \<noteq> null" and "pipes s p = Some pi" and "ring_ok pi" and "ring pi \<noteq> []"
  shows "readPipe M ident buf n s = bnd (readPipe_rest M p n) (\<lambda>x. ret (Done x)) s"
  using assms empty_iff [OF assms(5)] by (simp add: readPipe_def get_pipe_def run_simps)

lemma readPipe_data_run:
  assumes "getValidPipe ident s = Ret (p, s)" and "p \<noteq> null" and "buf \<noteq> null" and "pipes s p = Some pi" and "ring_ok pi" and "ring pi \<noteq> []"
    and "\<not> pi_waitingToWrite pi"
  shows "\<exists>pi'. readPipe M ident buf n s =
      Ret (Done (int (min n (used pi)), take n (ring pi)), s\<lparr>pipes := (pipes s)(p \<mapsto> pi')\<rparr>) \<and> ring_ok pi' \<and> ring pi' = drop n (ring pi)"
proof -
  obtain xs pi' where d: "drain n pi = (xs, pi')" by (cases "drain n pi")
  with drain_ring [OF assms(5), of n] have r: "xs = take n (ring pi)" "ring pi' = drop n (ring pi)" "ring_ok pi'"
    "pi' = pi\<lparr>pi_idxToRead := pi_idxToRead pi'\<rparr>" by simp_all
  have "\<not> pi_waitingToWrite pi'" using assms(7) by (subst r(4)) simp
  then have "readPipe M ident buf n s = Ret (Done (int (length xs), xs), s\<lparr>pipes := (pipes s)(p \<mapsto> pi')\<rparr>)"
    unfolding readPipe_start [OF assms(1-6)] using assms(4) d
    by (simp add: readPipe_rest_def get_pipe_def upd_pipe_def run_simps)
  with r show ?thesis by (intro exI [of _ pi']) (simp add: min.commute)
qed

definition k_data :: "nat kst" where
  "k_data = k_pipes\<lparr>pipes := [620 \<mapsto> pipe0, 600 \<mapsto> fold store_byte [7, 8, 9] pipe0]\<rparr>"

lemma k_data_facts: "getValidPipe 3 k_data = Ret (600, k_data)" "pipes k_data 600 = Some (fold store_byte [7, 8, 9] pipe0)"
  "ring_ok (fold store_byte [7, 8, 9] pipe0)" "ring (fold store_byte [7, 8, 9] pipe0) = [7, 8, 9]"
proof -
  show "pipes k_data 600 = Some (fold store_byte [7, 8, 9] pipe0)" by (simp add: k_data_def)
  have n: "\<not> full pipe0" "\<not> full (store_byte 7 pipe0)" "\<not> full (store_byte 8 (store_byte 7 pipe0))"
    by (simp_all add: full_def pipe0_def NEXT_IDX_def PREVIOUS_IDX_def PIPE_BUFFER_SIZE_def)
  show "ring_ok (fold store_byte [7, 8, 9] pipe0)" using pipe0_ring by (simp add: store_byte_ok)
  show "ring (fold store_byte [7, 8, 9] pipe0) = [7, 8, 9]" using n pipe0_ring by (simp add: ring_store store_byte_ok)
  have "pi_id (fold store_byte [7, 8, 9] pipe0) = 3" by (simp add: pipe0_def)
  then show "getValidPipe 3 k_data = Ret (600, k_data)" unfolding k_data_def by (rule k_pipes_valid)
qed

text \<open>
  Reading at most \<open>n\<close> bytes from a pipe that holds data returns at once with the first bytes, in
  order, and leaves the others; no other pipe changes.
\<close>

theorem readPipe_data:
  assumes "getValidPipe ident s = Ret (p, s)" and "p \<noteq> null" and "buf \<noteq> null" and "pipes s p = Some pi" and "ring_ok pi" and "ring pi \<noteq> []"
    and "\<not> pi_waitingToWrite pi"
  shows "\<exists>pi'. readPipe M ident buf n s =
      Ret (Done (int (min n (used pi)), take n (ring pi)), s\<lparr>pipes := (pipes s)(p \<mapsto> pi')\<rparr>) \<and> ring_ok pi' \<and> ring pi' = drop n (ring pi)"
  by (rule readPipe_data_run [OF assms])

theorem readPipe_data_witness:
  "\<exists>pi'. readPipe bump_mm 3 700 2 k_data =
      Ret (Done (int (min 2 (used (fold store_byte [7, 8, 9] pipe0))), [7, 8]), k_data\<lparr>pipes := (pipes k_data)(600 \<mapsto> pi')\<rparr>) \<and>
      ring_ok pi' \<and> ring pi' = [9]"
proof -
  have "\<not> pi_waitingToWrite (fold store_byte [7, 8, 9] pipe0)" by (simp add: pipe0_def)
  from readPipe_data [OF k_data_facts(1) _ _ k_data_facts(2,3) _ this, of 700 bump_mm 2] show ?thesis
    unfolding k_data_facts(4) by simp
qed

text \<open>
  End of file: reading an empty pipe without writers, present or expected, returns 0 bytes
  without blocking; an unknown pipe or a null buffer gives -1. Nothing changes.
\<close>

theorem readPipe_eof:
  assumes "getValidPipe ident s = Ret (p, s)" and "p \<noteq> null \<longrightarrow> pipes s p = Some pi \<and> ring_ok pi \<and> ring pi = [] \<and>
    pi_writers pi = 0 \<and> pi_exp_writers pi = 0"
  shows "readPipe M ident buf n s = Ret (Done (if p = null \<or> buf = null then (- 1, []) else (0, [])), s)"
  using assms empty_iff [of pi] by (auto simp: readPipe_def get_pipe_def run_simps)

theorem readPipe_eof_witness:
  "readPipe bump_mm 3 700 2 (k_pipes\<lparr>pipes := [620 \<mapsto> pipe0, 600 \<mapsto> pipe0\<lparr>pi_writers := 0\<rparr>]\<rparr>) =
    Ret (Done (0, []), k_pipes\<lparr>pipes := [620 \<mapsto> pipe0, 600 \<mapsto> pipe0\<lparr>pi_writers := 0\<rparr>]\<rparr>)"
proof -
  let ?s = "k_pipes\<lparr>pipes := [620 \<mapsto> pipe0, 600 \<mapsto> pipe0\<lparr>pi_writers := 0\<rparr>]\<rparr>"
  have "getValidPipe 3 ?s = Ret (600, ?s)"
    by (rule k_pipes_valid) (simp add: pipe0_def)
  then have "readPipe bump_mm 3 700 2 ?s = Ret (Done (if (600::nat) = null \<or> (700::nat) = null then (- 1, []) else (0, [])), ?s)"
    by (rule readPipe_eof [where pi = "pipe0\<lparr>pi_writers := 0\<rparr>"])
       (simp add: ring_ok_def ring_def used_def pipe0_def PIPE_BUFFER_SIZE_def)
  then show ?thesis by simp
qed

lemma write_loop_run:
  assumes "pipes s p = Some pi" and "ring_ok pi" and "used pi + length bs < PIPE_BUFFER_SIZE" and "\<not> pi_waitingToRead pi"
  shows "\<exists>pi'. write_loop M p bs w s = Ret ((Done (int (w + length bs)), []), s\<lparr>pipes := (pipes s)(p \<mapsto> pi')\<rparr>) \<and>
    ring_ok pi' \<and> ring pi' = ring pi @ bs \<and> pi' = pi\<lparr>pi_buffer := pi_buffer pi', pi_idxToWrite := pi_idxToWrite pi'\<rparr>"
  using assms
proof (induction bs arbitrary: pi s w)
  case Nil
  have eq: "s\<lparr>pipes := (pipes s)(p \<mapsto> pi)\<rparr> = s" using Nil.prems(1) by (simp add: fun_upd_idem)
  show ?case
  proof (intro exI [of _ pi] conjI)
    show "write_loop M p [] w s = Ret ((Done (int (w + length [])), []), s\<lparr>pipes := (pipes s)(p \<mapsto> pi)\<rparr>)"
      unfolding eq using Nil.prems by (simp add: writePipe_done_def get_pipe_def run_simps)
  qed (use Nil.prems in simp_all)
next
  case (Cons b bs)
  have room: "\<not> full pi" using Cons.prems(2,3) full_iff [of pi] by simp
  let ?pi = "store_byte b pi" and ?s = "s\<lparr>pipes := (pipes s)(p \<mapsto> store_byte b pi)\<rparr>"
  have u: "used ?pi = Suc (used pi)" by (rule store_byte_used [OF Cons.prems(2) room])
  have "\<exists>pi'. write_loop M p bs (w + 1) ?s = Ret ((Done (int (w + 1 + length bs)), []), ?s\<lparr>pipes := (pipes ?s)(p \<mapsto> pi')\<rparr>) \<and>
    ring_ok pi' \<and> ring pi' = ring ?pi @ bs \<and> pi' = ?pi\<lparr>pi_buffer := pi_buffer pi', pi_idxToWrite := pi_idxToWrite pi'\<rparr>"
    by (rule Cons.IH) (use Cons.prems u store_byte_ok in auto)
  then obtain pi' where pi': "write_loop M p bs (w + 1) ?s = Ret ((Done (int (w + 1 + length bs)), []), ?s\<lparr>pipes := (pipes ?s)(p \<mapsto> pi')\<rparr>)"
    "ring_ok pi'" "ring pi' = ring ?pi @ bs" "pi' = ?pi\<lparr>pi_buffer := pi_buffer pi', pi_idxToWrite := pi_idxToWrite pi'\<rparr>" by blast
  have w: "write_loop M p (b # bs) w s = write_loop M p bs (w + 1) ?s"
    using room Cons.prems(1) by (simp add: full_def get_pipe_def upd_pipe_def run_simps)
  show ?case
  proof (intro exI [of _ pi'] conjI)
    show "write_loop M p (b # bs) w s = Ret ((Done (int (w + length (b # bs))), []), s\<lparr>pipes := (pipes s)(p \<mapsto> pi')\<rparr>)"
      unfolding w pi'(1) by simp
    show "ring pi' = ring pi @ b # bs" using pi'(3) ring_store [OF Cons.prems(2) room, of b] by simp
    show "pi' = pi\<lparr>pi_buffer := pi_buffer pi', pi_idxToWrite := pi_idxToWrite pi'\<rparr>"
      using pi'(4) by (cases pi, cases pi') (simp add: store_byte_def)
  qed (rule pi'(2))
qed

text \<open>
  C11. Round trip: bytes written to a pipe with room for them come back, behind what was buffered
  before, when they are read through the same pipe; both calls return without blocking and report
  the number of bytes moved.
\<close>

theorem pipe_roundtrip:
  assumes "getValidPipe ident s = Ret (p, s)" and "p \<noteq> null" and "buf \<noteq> null" and "pipes s p = Some pi" and "ring_ok pi"
    and "used pi + length bs < PIPE_BUFFER_SIZE" and "bs \<noteq> []" and "\<not> pi_waitingToRead pi" and "\<not> pi_waitingToWrite pi"
    and "\<And>pi'. pi_id pi' = pi_id pi \<Longrightarrow> getValidPipe ident (s\<lparr>pipes := (pipes s)(p \<mapsto> pi')\<rparr>) = Ret (p, s\<lparr>pipes := (pipes s)(p \<mapsto> pi')\<rparr>)"
  shows "\<exists>t u. writePipe M ident (Some bs) (length bs) s = Ret ((Done (int (length bs)), []), t) \<and>
    readPipe M ident buf (used pi + length bs) t = Ret (Done (int (used pi + length bs), ring pi @ bs), u)"
proof -
  have "length bs < 2 ^ 31" using assms(6) by (simp add: PIPE_BUFFER_SIZE_def)
  then have c: "int_count (length bs) = length bs"
    by (simp add: int_count_def signed_take_bit_int_eq_self sint_uint unsigned_of_nat take_bit_nat_eq_self)
  from write_loop_run [OF assms(4,5,6,8), of M 0] obtain pi' where
    w: "write_loop M p bs 0 s = Ret ((Done (int (length bs)), []), s\<lparr>pipes := (pipes s)(p \<mapsto> pi')\<rparr>)" "ring_ok pi'" "ring pi' = ring pi @ bs"
      "pi' = pi\<lparr>pi_buffer := pi_buffer pi', pi_idxToWrite := pi_idxToWrite pi'\<rparr>" by auto
  let ?t = "s\<lparr>pipes := (pipes s)(p \<mapsto> pi')\<rparr>"
  have f: "pi_id pi' = pi_id pi" "pi_waitingToWrite pi' = pi_waitingToWrite pi" by (subst w(4), simp)+
  have "writePipe M ident (Some bs) (length bs) s = Ret ((Done (int (length bs)), []), ?t)"
    using assms(1,2) w(1) c by (simp add: writePipe_def run_simps)
  moreover from readPipe_data_run [OF assms(10) [OF f(1)] assms(2,3), of pi' M "used pi + length bs"] w(2,3) f(2) assms(7,9)
  obtain pi2 where "readPipe M ident buf (used pi + length bs) ?t =
      Ret (Done (int (min (used pi + length bs) (used pi')), take (used pi + length bs) (ring pi')), ?t\<lparr>pipes := (pipes ?t)(p \<mapsto> pi2)\<rparr>)" by auto
  moreover have "used pi' = used pi + length bs" using w(3) length_ring [of pi'] by simp
  ultimately show ?thesis using w(3) by auto
qed

theorem pipe_roundtrip_witness:
  "\<exists>t u. writePipe bump_mm 3 (Some [5, 6]) 2 k_data = Ret ((Done 2, []), t) \<and>
    readPipe bump_mm 3 700 5 t = Ret (Done (5, [7, 8, 9, 5, 6]), u)"
proof -
  let ?pi = "fold store_byte [7, 8, 9] pipe0"
  have u: "used ?pi = 3" using k_data_facts(4) length_ring [of ?pi] by simp
  have v: "getValidPipe 3 (k_data\<lparr>pipes := (pipes k_data)(600 \<mapsto> pi')\<rparr>) = Ret (600, k_data\<lparr>pipes := (pipes k_data)(600 \<mapsto> pi')\<rparr>)"
    if "pi_id pi' = pi_id ?pi" for pi'
    using that k_pipes_valid [of pi'] by (simp add: k_data_def pipe0_def)
  have "\<exists>t u. writePipe bump_mm 3 (Some [5, 6]) (length [5, 6 :: u8]) k_data = Ret ((Done (int (length [5, 6 :: u8])), []), t) \<and>
    readPipe bump_mm 3 700 (used ?pi + length [5, 6 :: u8]) t = Ret (Done (int (used ?pi + length [5, 6 :: u8]), ring ?pi @ [5, 6]), u)"
    by (rule pipe_roundtrip [OF k_data_facts(1) _ _ k_data_facts(2,3)])
       (use u v in \<open>simp_all add: PIPE_BUFFER_SIZE_def pipe0_def\<close>)
  then show ?thesis unfolding u k_data_facts(4) by (simp add: numeral_eq_Suc)
qed

text \<open>
  C36. A writer that was suspended on a full pipe stores its byte when it runs again without looking
  at the ring. If another writer has filled the pipe meanwhile, the write index runs onto the read
  index: the buffered 16383 bytes are gone, the pipe looks empty, and the write reports success.
\<close>

theorem writePipe_overruns:
  assumes "pipes s p = Some pi" and "ring_ok pi" and "full pi" and "\<not> pi_waitingToRead pi"
  shows "\<exists>pi'. writePipe_resume M p [c] w s = Ret ((Done (int (w + 1)), []), s\<lparr>pipes := (pipes s)(p \<mapsto> pi')\<rparr>) \<and>
    length (ring pi) = PIPE_BUFFER_SIZE - 1 \<and> ring pi' = []"
proof -
  have "ring (store_byte c pi) = []"
    using assms(2,3) empty_iff [OF store_byte_ok [OF assms(2)]]
    by (auto simp: full_def PREVIOUS_IDX_def ring_ok_def NEXT_IDX_less split: if_splits)
  moreover have "writePipe_resume M p [c] w s = Ret ((Done (int (w + 1)), []), s\<lparr>pipes := (pipes s)(p \<mapsto> store_byte c pi)\<rparr>)"
    using assms(1,4) by (simp add: writePipe_resume_def writePipe_done_def get_pipe_def upd_pipe_def run_simps)
  ultimately show ?thesis using full_iff [OF assms(2)] assms(3) by (intro exI [of _ "store_byte c pi"]) simp
qed

theorem writePipe_overruns_witness:
  "\<exists>pi'. writePipe_resume bump_mm 600 [9] 0 (k_pipes\<lparr>pipes := [600 \<mapsto> pipe0\<lparr>pi_idxToWrite := 16381\<rparr>]\<rparr>) =
      Ret ((Done (int (0 + 1)), []), (k_pipes\<lparr>pipes := [600 \<mapsto> pipe0\<lparr>pi_idxToWrite := 16381\<rparr>]\<rparr>)
        \<lparr>pipes := (pipes (k_pipes\<lparr>pipes := [600 \<mapsto> pipe0\<lparr>pi_idxToWrite := 16381\<rparr>]\<rparr>))(600 \<mapsto> pi')\<rparr>) \<and>
    length (ring (pipe0\<lparr>pi_idxToWrite := 16381\<rparr>)) = PIPE_BUFFER_SIZE - 1 \<and> ring pi' = []"
  by (rule writePipe_overruns) (simp_all add: ring_ok_def full_def PREVIOUS_IDX_def pipe0_def PIPE_BUFFER_SIZE_def)

end
