(* ===== verification/Process_Correct.thy ===== *)
theory Process_Correct
  imports Sem_Correct Process
begin

text \<open>
  Correctness of process management. A process that ends posts the semaphore \<open>wait_<pid>\<close> on which its
  parent waits, so the lemmas here follow a handle through the registry: the name, the search by name,
  opening an existing semaphore and closing one that others still use. Then the table of processes, the
  children, and the blocks a control block owns.
\<close>

section \<open>The name of a wait semaphore\<close>

definition wait_name :: "int \<Rightarrow> string" where
  "wait_name pid = ''wait_'' @ dec (nat pid)"

lemma wait_name_inj: "0 \<le> i \<Longrightarrow> 0 \<le> j \<Longrightarrow> wait_name i = wait_name j \<longleftrightarrow> i = j"
  by (auto simp: wait_name_def dec_inj)

lemma length_dec_pid: "n < MAX_PROCESSES \<Longrightarrow> length (dec n) \<le> 2"
  by (simp add: dec_def length_digits MAX_PROCESSES_def num_len.simps)

lemma wait_name_short: "pid < int MAX_PROCESSES \<Longrightarrow> length (wait_name pid) < MAX_SEM_LENGTH"
  using length_dec_pid [of "nat pid"] by (force simp: wait_name_def MAX_SEM_LENGTH_def MAX_PROCESSES_def)

text \<open>The buffers of \<open>build_wait_semaphore_name\<close> are large enough, and hold the name.\<close>

lemma wait_name_buffers:
  assumes "length (dec n) = k"
  shows "\<exists>b1 b2. my_strcpy (replicate (5 + k + 1) NUL) (''wait_'' @ [NUL]) = Some b1 \<and>
    catenate (Some b1) (Some (dec n @ [NUL])) = Some (Some b2) \<and> takeWhile (\<lambda>c. c \<noteq> NUL) b2 = ''wait_'' @ dec n"
proof -
  have w: "is_cstr (''wait_'' @ [NUL]) ''wait_''" and d: "is_cstr (dec n @ [NUL]) (dec n)"
    using dec_no_NUL by (auto simp: is_cstr_def)
  from strcpy_cstr [OF w, of "replicate (5 + k + 1) NUL"] obtain b1 where
    b1: "my_strcpy (replicate (5 + k + 1) NUL) (''wait_'' @ [NUL]) = Some b1" "is_cstr b1 ''wait_''" "length b1 = 5 + k + 1"
    by auto
  from catenate_cstr [OF b1(2) d] b1(3) assms obtain b2 where
    b2: "catenate (Some b1) (Some (dec n @ [NUL])) = Some (Some b2)" "is_cstr b2 (''wait_'' @ dec n)" by auto
  then have "takeWhile (\<lambda>c. c \<noteq> NUL) b2 = ''wait_'' @ dec n"
    by (auto simp: is_cstr_def takeWhile_append)
  with b1(1) b2(1) show ?thesis by blast
qed

context memory_room
begin

lemma build_name_run:
  assumes h: "heap rk (Suc (Suc k)) s R" and small: "16 \<le> small" and pid: "0 \<le> pid" "pid < int MAX_PROCESSES"
  shows "\<exists>a m n. build_wait_semaphore_name M pid s = Ret (Some (a, wait_name pid), s\<lparr>mem := m\<rparr>) \<and> a \<noteq> null \<and> a \<notin> dom R \<and>
    heap rk k (s\<lparr>mem := m\<rparr>) (R(a \<mapsto> n))"
proof -
  let ?n = "nat pid" and ?k = "length (dec (nat pid))"
  let ?len = "if ?n = 0 then 2 else num_len ?n + 1"
  have k: "?k \<le> 2" using length_dec_pid [of ?n] pid by simp
  have len: "?len = ?k + 1" by (simp add: dec_def length_digits)
  have "0 < ?len" "?len \<le> small" "0 < 5 + ?k + 1" "5 + ?k + 1 \<le> small" using k len small by auto
  note sizes = this
  from heap_alloc [OF h sizes(1,2)] obtain x m1 where
    x: "mm_alloc_op M ?len (mem s) = Ret (x, m1)" "x \<noteq> null" "x \<notin> dom R" "heap rk (Suc k) (s\<lparr>mem := m1\<rparr>) (R(x \<mapsto> ?len))" by blast
  from heap_alloc [OF x(4) sizes(3,4)] obtain a m2 where
    a: "mm_alloc_op M (5 + ?k + 1) m1 = Ret (a, m2)" "a \<noteq> null" "a \<notin> dom (R(x \<mapsto> ?len))"
      "heap rk k (s\<lparr>mem := m2\<rparr>) (R(x \<mapsto> ?len, a \<mapsto> 5 + ?k + 1))" by auto
  have "x \<in> dom (R(x \<mapsto> ?len, a \<mapsto> 5 + ?k + 1))" by simp
  from heap_free [OF a(4) this] obtain m3 where
    f: "mm_free_op M x m2 = Ret ((), m3)" "heap rk k (s\<lparr>mem := m3\<rparr>) ((R(x \<mapsto> ?len, a \<mapsto> 5 + ?k + 1))(x := None))" by auto
  have R: "(R(x \<mapsto> ?len, a \<mapsto> 5 + ?k + 1))(x := None) = R(a \<mapsto> 5 + ?k + 1)" using x(3) a(3) by (auto simp: fun_eq_iff domIff)
  from wait_name_buffers [of ?n ?k] obtain b1 b2 where
    b: "my_strcpy (replicate (5 + ?k + 1) NUL) (''wait_'' @ [NUL]) = Some b1"
      "catenate (Some b1) (Some (dec ?n @ [NUL])) = Some (Some b2)" "takeWhile (\<lambda>c. c \<noteq> NUL) b2 = wait_name pid"
    by (auto simp: wait_name_def)
  have "strlen (dec ?n @ [NUL]) = Some ?k" by (rule strlen_cstr) (simp add: is_cstr_def dec_no_NUL)
  with num_to_str_returns [OF x(1,2), of NUL] a(1,2) f(1) b pid
  have "build_wait_semaphore_name M pid s = Ret (Some (a, wait_name pid), s\<lparr>mem := m3\<rparr>)"
    by (simp add: build_wait_semaphore_name_def run_simps mm_alloc_def mm_free_def Let_def)
  with a(2,3) f(2) R show ?thesis by (intro exI [of _ a] exI [of _ m3] exI [of _ "5 + ?k + 1"]) auto
qed

end

section \<open>Handles by name\<close>

text \<open>The first registered semaphore with a name.\<close>

definition named :: "'m kst \<Rightarrow> addr queue \<Rightarrow> string \<Rightarrow> addr option" where
  "named s q nm = find (\<lambda>a. s_name (the (sems s a)) = nm) (vals q)"

lemma named_in: "named s q nm = Some a \<Longrightarrow> a \<in> set (vals q)"
  by (auto simp: named_def find_Some_iff)

lemma locate_scan_finds:
  assumes "distinct (map n_addr (q_nodes q))" and "null \<notin> set (map n_addr (q_nodes q))"
    and "q_nodes q = dn @ rs" and "rs \<noteq> [] \<Longrightarrow> cyclicIter q = n_addr (hd rs)"
    and "\<forall>a\<in>set (map n_val rs). a \<noteq> null \<and> sems s a \<noteq> None"
  shows "\<exists>i. locate_scan s nm (length rs) cand q =
    Inr (case find (\<lambda>a. s_name (the (sems s a)) = nm) (map n_val rs) of None \<Rightarrow> null | Some a \<Rightarrow> a, q\<lparr>cyclicIter := i\<rparr>)"
  using assms
proof (induction rs arbitrary: q dn cand)
  case Nil
  then show ?case by (auto intro!: exI [of _ "cyclicIter q"])
next
  case (Cons n rs)
  let ?q = "q\<lparr>cyclicIter := (case rs of [] \<Rightarrow> head_addr q | k # _ \<Rightarrow> n_addr k)\<rparr>"
  have nx: "queueNextCyclicIter (Some q) = Inr (Some (n_val n, ?q))"
    by (rule next_iter) (use Cons.prems in auto)
  have "\<exists>i. locate_scan s nm (length rs) (n_val n) ?q =
      Inr (case find (\<lambda>a. s_name (the (sems s a)) = nm) (map n_val rs) of None \<Rightarrow> null | Some a \<Rightarrow> a, ?q\<lparr>cyclicIter := i\<rparr>)"
    by (rule Cons.IH [of ?q "dn @ [n]"]) (use Cons.prems in \<open>auto split: list.split\<close>)
  then obtain i where i: "locate_scan s nm (length rs) (n_val n) ?q =
      Inr (case find (\<lambda>a. s_name (the (sems s a)) = nm) (map n_val rs) of None \<Rightarrow> null | Some a \<Rightarrow> a, q\<lparr>cyclicIter := i\<rparr>)" by auto
  from Cons.prems(5) obtain sm where sm: "sems s (n_val n) = Some sm" "n_val n \<noteq> null" by auto
  show ?case
  proof (cases "s_name sm = nm")
    case True
    with nx sm show ?thesis by (intro exI [of _ "cyclicIter ?q"]) simp
  next
    case False
    with nx i sm show ?thesis by (intro exI [of _ i]) simp
  qed
qed

lemma sem_heap_nodes:
  assumes sh: "sem_heap s R q"
  shows "distinct (map n_addr (q_nodes q))" and "null \<notin> set (map n_addr (q_nodes q))"
proof -
  have "queue_owns R q" by (rule own_cells_queue [of R "sem_cells s q"]) (use sh in \<open>auto simp: sem_heap_def sem_cells_def\<close>)
  from owned_distinct_addr [OF this] show "distinct (map n_addr (q_nodes q))" "null \<notin> set (map n_addr (q_nodes q))" by auto
qed

lemma locate_run:
  assumes sh: "sem_heap s R q" and t: "registry t = Some r" "r_sems r = Some q" "sems t = sems s"
  shows "\<exists>i. locate_semaphore_by_name nm t =
    Ret (case named s q nm of None \<Rightarrow> null | Some a \<Rightarrow> a, t\<lparr>registry := Some (r\<lparr>r_sems := Some (q\<lparr>cyclicIter := i\<rparr>)\<rparr>)\<rparr>)"
proof (cases "q_nodes q = []")
  case True
  then have "elemCount q = 0" using sh by (auto simp: sem_heap_def)
  with True have "locate_semaphore_by_name nm t = Ret (null, t)" "named s q nm = None"
    using t by (simp_all add: locate_semaphore_by_name_def get_registry_def run_simps queueSize_def named_def vals_def)
  moreover have "t\<lparr>registry := Some (r\<lparr>r_sems := Some (q\<lparr>cyclicIter := cyclicIter q\<rparr>)\<rparr>)\<rparr> = t" using t by simp
  ultimately show ?thesis by (intro exI [of _ "cyclicIter q"]) simp
next
  case False
  then obtain n ns where n: "q_nodes q = n # ns" by (cases "q_nodes q") auto
  have size: "elemCount q = length (q_nodes q)" using sh by (simp add: sem_heap_def)
  let ?q0 = "q\<lparr>cyclicIter := n_addr n\<rparr>"
  have q0: "queueBeginCyclicIter (Some q) = Some ?q0" using n size by (simp add: queueBeginCyclicIter_def head_addr_def)
  have "\<exists>i. locate_scan t nm (length (n # ns)) null ?q0 =
    Inr (case find (\<lambda>a. s_name (the (sems t a)) = nm) (map n_val (n # ns)) of None \<Rightarrow> null | Some a \<Rightarrow> a, ?q0\<lparr>cyclicIter := i\<rparr>)"
    by (rule locate_scan_finds [where dn = "[]"])
       (use sem_heap_nodes [OF sh] n t(3) sh in \<open>auto simp: sem_heap_def sem_ok_def vals_def\<close>)
  then obtain i where "locate_scan t nm (elemCount q) null ?q0 =
      Inr (case named s q nm of None \<Rightarrow> null | Some a \<Rightarrow> a, q\<lparr>cyclicIter := i\<rparr>)"
    using n t(3) size by (auto simp: named_def vals_def)
  with q0 t n size have "locate_semaphore_by_name nm t =
      Ret (case named s q nm of None \<Rightarrow> null | Some a \<Rightarrow> a, t\<lparr>registry := Some (r\<lparr>r_sems := Some (q\<lparr>cyclicIter := i\<rparr>)\<rparr>)\<rparr>)"
    by (simp add: locate_semaphore_by_name_def get_registry_def upd_registry_def run_simps queueSize_def Let_def)
  then show ?thesis by blast
qed

text \<open>A change of one semaphore's counter of users, with the iterator of the registry moved.\<close>

lemma sem_heap_users:
  assumes sh: "sem_heap s R q" and a: "a \<in> set (vals q)" "sems s a = Some sm"
    and t: "sems t = (sems s)(a \<mapsto> sm\<lparr>s_users := n\<rparr>)" "registry t = Some (r\<lparr>r_sems := Some (q\<lparr>cyclicIter := i\<rparr>), r_lock := False\<rparr>)"
  shows "sem_heap t R (q\<lparr>cyclicIter := i\<rparr>)"
proof -
  from sem_heap_sem [OF sh a(1)] a(2) obtain b where b: "\<not> s_lock sm" "s_blocked sm = Some b" "elemCount b = length (q_nodes b)"
    "blk s a = b" "queue_owns R b" by (metis option.inject)
  let ?u = "s\<lparr>sems := (sems s)(a \<mapsto> sm\<lparr>s_users := n\<rparr>)\<rparr>"
  have "sem_heap ?u R q"
    by (rule sem_heap_update [OF sh a(1), where b' = b and sm = "sm\<lparr>s_users := n\<rparr>"]) (use b frame_refl in auto)
  then have u: "dataSize q = 8" "elemCount q = length (q_nodes q)" "distinct (vals q)" "\<forall>x\<in>set (vals q). sem_ok ?u x"
    "own_cells R (sem_cells ?u q)" by (auto simp: sem_heap_def)
  have "sem_ok t x = sem_ok ?u x" "blk t x = blk ?u x" for x using t(1) by (simp_all add: sem_ok_def blk_def)
  with u t(2) show ?thesis by (simp add: sem_heap_def vals_def sem_cells_def cells_def)
qed

lemma sem_users_unlocked: "\<not> s_lock sm \<Longrightarrow> sm\<lparr>s_users := n, s_lock := False\<rparr> = sm\<lparr>s_users := n\<rparr>"
  by (cases sm) simp

lemma registry_sems_swap: "s\<lparr>sems := x, registry := y\<rparr> = s\<lparr>registry := y, sems := x\<rparr>"
  by simp

lemma semOpen_existing_run:
  assumes sh: "sem_heap s R q" and a: "named s q nm = Some a" "sems s a = Some sm" and nm: "length nm < MAX_SEM_LENGTH"
  shows "\<exists>q' g. semOpen M (Some nm) val s = Ret (a, s\<lparr>registry := g, sems := (sems s)(a \<mapsto> sm\<lparr>s_users := s_users sm + 1\<rparr>)\<rparr>) \<and>
    sem_heap (s\<lparr>registry := g, sems := (sems s)(a \<mapsto> sm\<lparr>s_users := s_users sm + 1\<rparr>)\<rparr>) R q' \<and> vals q' = vals q \<and>
    cells q' = cells q"
proof -
  note mem = named_in [OF a(1)]
  from sem_heap_sem [OF sh mem] a(2) have sm: "\<not> s_lock sm" "a \<noteq> null" by (metis option.inject)+
  from sh obtain r where r: "registry s = Some r" "\<not> r_lock r" "r_sems r = Some q" "elemCount q = length (q_nodes q)"
    by (auto simp: sem_heap_def)
  have ne: "\<not> queueIsEmpty (Some q)" using mem r(4) by (auto simp: queueIsEmpty_def queueSize_def vals_def intro: length_pos_if_in_set)
  let ?l = "s\<lparr>registry := Some (r\<lparr>r_lock := True\<rparr>)\<rparr>"
  from locate_run [OF sh, of ?l "r\<lparr>r_lock := True\<rparr>" nm] r a(1) obtain i where
    i: "locate_semaphore_by_name nm ?l = Ret (a, s\<lparr>registry := Some (r\<lparr>r_lock := True, r_sems := Some (q\<lparr>cyclicIter := i\<rparr>)\<rparr>)\<rparr>)"
    by auto
  let ?g = "Some (r\<lparr>r_sems := Some (q\<lparr>cyclicIter := i\<rparr>), r_lock := False\<rparr>)"
  let ?t = "s\<lparr>registry := ?g, sems := (sems s)(a \<mapsto> sm\<lparr>s_users := s_users sm + 1\<rparr>)\<rparr>"
  have "semOpen M (Some nm) val s = Ret (a, ?t)"
    using r nm i ne sm a(2)
    by (simp add: semOpen_def lock_registry_def unlock_registry_def get_registry_def upd_registry_def semLock_def semUnlock_def
        upd_sem_def get_sem_def run_simps sem_users_unlocked registry_sems_swap)
  moreover have "sem_heap ?t R (q\<lparr>cyclicIter := i\<rparr>)" by (rule sem_heap_users [OF sh mem a(2)]) auto
  ultimately show ?thesis by (intro exI [of _ "q\<lparr>cyclicIter := i\<rparr>"] exI [of _ ?g]) (simp add: vals_def cells_def)
qed

context memory_room
begin

text \<open>Closing a handle that others still use only lowers the number of users.\<close>

lemma semClose_shared_run:
  assumes h: "heap rk (Suc k) s R" and sh: "sem_heap s R q" and small: "16 \<le> small"
    and a: "a \<in> set (vals q)" "sems s a = Some sm" "s_users sm \<noteq> 1"
  shows "\<exists>q' g m. semClose M a s = Ret (0, s\<lparr>mem := m, registry := g, sems := (sems s)(a \<mapsto> sm\<lparr>s_users := s_users sm - 1\<rparr>)\<rparr>) \<and>
    heap rk k (s\<lparr>mem := m\<rparr>) R \<and> vals q' = vals q \<and> cells q' = cells q \<and>
    sem_heap (s\<lparr>mem := m, registry := g, sems := (sems s)(a \<mapsto> sm\<lparr>s_users := s_users sm - 1\<rparr>)\<rparr>) R q'"
proof -
  from is_semaphore_valid_run [OF h sh small, of a] a(1) obtain t q' where
    t: "is_semaphore_valid M a s = Ret (True, t)" "heap rk k t R" "sem_heap t R q'" "vals q' = vals q" "sems t = sems s"
      "t = s\<lparr>mem := mem t, registry := registry t\<rparr>" "cells q' = cells q" by auto
  have a': "a \<in> set (vals q')" "sems t a = Some sm" using a t(4,5) by auto
  from t(3) obtain r where r: "registry t = Some r" "\<not> r_lock r" "r_sems r = Some q'" by (auto simp: sem_heap_def)
  from sem_heap_sem [OF t(3) a'(1)] a'(2) have sm: "\<not> s_lock sm" by (metis option.inject)
  let ?sm = "sm\<lparr>s_users := s_users sm - 1\<rparr>" and ?g = "Some (r\<lparr>r_sems := Some (q'\<lparr>cyclicIter := cyclicIter q'\<rparr>), r_lock := False\<rparr>)"
  let ?u = "t\<lparr>registry := ?g, sems := (sems t)(a \<mapsto> ?sm)\<rparr>"
  have "registry s \<noteq> None" using sh by (auto simp: sem_heap_def)
  moreover have "s_users sm - 1 \<noteq> 0" using a(3) by simp
  ultimately have "semClose M a s = Ret (0, ?u)"
    using t(1) r a'(2) sm
    by (simp add: semClose_def run_simps,
        simp add: lock_registry_def get_registry_def upd_registry_def semLock_def upd_sem_def get_sem_def run_simps,
        simp add: unlock_registry_def get_registry_def upd_registry_def semUnlock_def upd_sem_def get_sem_def run_simps
          sem_users_unlocked)
  moreover have "sem_heap ?u R (q'\<lparr>cyclicIter := cyclicIter q'\<rparr>)" by (rule sem_heap_users [OF t(3) a']) auto
  moreover have u: "?u = s\<lparr>mem := mem t, registry := ?g, sems := (sems s)(a \<mapsto> ?sm)\<rparr>" using t(5,6) by (cases s, cases t) simp
  moreover have "heap rk k (s\<lparr>mem := mem t\<rparr>) R"
  proof -
    have "t = (s\<lparr>mem := mem t\<rparr>)\<lparr>registry := registry t\<rparr>" using t(6) by (cases s, cases t) simp
    with t(2) show ?thesis by (metis heap_other_cong(1))
  qed
  ultimately show ?thesis using t(4,7) by (intro exI [of _ "q'\<lparr>cyclicIter := cyclicIter q'\<rparr>"] exI [of _ ?g] exI [of _ "mem t"]) (simp add: u)
qed

end

section \<open>Posting a semaphore\<close>

text \<open>The process at the head of the queue can be woken: it is in the table and blocked.\<close>

definition waiter_ok :: "'m kst \<Rightarrow> int \<Rightarrow> bool" where
  "waiter_ok s w \<longleftrightarrow> 0 \<le> w \<and> w < int MAX_PROCESSES \<and> process_table s ! nat w \<noteq> null \<and> process_table s ! nat w \<noteq> idle_proc s \<and>
     (\<exists>pc. procs s (process_table s ! nat w) = Some pc \<and> p_pid pc \<noteq> 1 \<and> p_state pc = BLOCKED \<and> is_prio (p_priority pc))"

text \<open>What a post does to the ready lists and the control blocks.\<close>

definition notified :: "'m kst \<Rightarrow> addr \<Rightarrow> sched_view" where
  "notified s a =
     (case sem_blocked s a of [] \<Rightarrow> (rlists s, procs s)
      | w # _ \<Rightarrow> let p = process_table s ! nat w; pc = the (procs s p) in
          ((rlists s)(p_priority pc := rlists s (p_priority pc) @ [p]), (procs s)(p \<mapsto> pc\<lparr>p_state := READY\<rparr>)))"

lemma notified_cong:
  "sems t = sems s \<Longrightarrow> rlists t = rlists s \<Longrightarrow> procs t = procs s \<Longrightarrow> process_table t = process_table s \<Longrightarrow>
    notified t a = notified s a"
  by (simp add: notified_def sem_blocked_def blk_def cong: list.case_cong)

text \<open>Blocks of other owners, \<open>css\<close>, stay apart from the queue that changes.\<close>

lemma sem_cells_frame:
  assumes o: "own_cells R (sem_cells s q @ css)" and d: "distinct (vals q)" and a: "a \<in> set (vals q)"
    and f: "frame R (blk s a) R' (blk t a)" and others: "\<And>b. b \<noteq> a \<Longrightarrow> sems t b = sems s b"
  shows "own_cells R' (sem_cells t q @ css)"
proof -
  from a obtain pre post where split: "vals q = pre @ a # post" by (auto dest: split_list)
  then have na: "a \<notin> set pre" "a \<notin> set post" using d by auto
  have "own_cells R ((cells q # map (\<lambda>x. cells (blk s x)) pre) @ cells (blk s a) # (map (\<lambda>x. cells (blk s x)) post @ css))"
    using o split by (simp add: sem_cells_def)
  from own_cells_frame [OF this f]
  have "own_cells R' ((cells q # map (\<lambda>x. cells (blk s x)) pre) @ cells (blk t a) # (map (\<lambda>x. cells (blk s x)) post @ css))" .
  moreover have "map (\<lambda>x. cells (blk t x)) xs = map (\<lambda>x. cells (blk s x)) xs" if "a \<notin> set xs" for xs
    using that others by (intro map_cong refl) (metis blk_def)
  ultimately show ?thesis using split na by (simp add: sem_cells_def del: map_eq_conv)
qed

lemma sem_cells_same:
  assumes "vals q' = vals q" and "cells q' = cells q" and "\<And>b. b \<in> set (vals q) \<Longrightarrow> blk t b = blk s b"
  shows "sem_cells t q' = sem_cells s q"
  using assms by (simp add: sem_cells_def)

context memory_room
begin

lemma semPost_locked_run:
  assumes h: "heap rk (Suc (Suc k)) s R" and sh: "sem_heap s R q" and small: "16 \<le> small" and a: "a \<in> set (vals q)"
    and w: "\<forall>w\<in>set (take 1 (sem_blocked s a)). waiter_ok s w" and o: "own_cells R (sem_cells s q @ css)"
  shows "\<exists>t R'. semPost_locked M a s = Ret (0, t) \<and> heap rk k t R' \<and> sem_heap t R' q \<and> own_cells R' (sem_cells t q @ css) \<and>
    (rlists t, procs t) = notified s a \<and> sem_blocked t a = tl (sem_blocked s a) \<and>
    sem_value t a = (if sem_blocked s a = [] then sem_value s a + 1 else sem_value s a) \<and>
    s_name (the (sems t a)) = s_name (the (sems s a)) \<and> s_users (the (sems t a)) = s_users (the (sems s a)) \<and>
    (\<forall>b. b \<noteq> a \<longrightarrow> sems t b = sems s b) \<and> running_process t = running_process s \<and> same s (t\<lparr>sems := sems s\<rparr>)"
proof (cases "sem_blocked s a")
  case Nil
  from semPost_free_run [OF h sh a Nil] obtain t where
    t: "semPost_locked M a s = Ret (0, t)" "heap rk (Suc (Suc k)) t R" "sem_heap t R q" "sem_value t a = sem_value s a + 1"
      "sem_blocked t a = []" "\<forall>b. b \<noteq> a \<longrightarrow> sems t b = sems s b" "t = s\<lparr>sems := sems t\<rparr>" "blk t a = blk s a"
      "s_name (the (sems t a)) = s_name (the (sems s a))" "s_users (the (sems t a)) = s_users (the (sems s a))" by blast
  have f: "rlists t = rlists s" "procs t = procs s" "running_process t = running_process s" by (subst t(7), simp)+
  have "sem_cells t q = sem_cells s q" using t(6,8) by (intro sem_cells_same refl) (metis blk_def)
  with o have "own_cells R (sem_cells t q @ css)" by simp
  moreover have "heap rk k t R" by (rule heap_le [OF t(2)]) simp
  moreover have "same s (t\<lparr>sems := sems s\<rparr>)" using t(7) by (cases s, cases t) (simp add: same_def)
  ultimately show ?thesis using t f Nil by (intro exI [of _ t] exI [of _ R]) (simp add: notified_def)
next
  case (Cons pid pids)
  define p where "p = process_table s ! nat pid"
  from w Cons have "waiter_ok s pid" by simp
  then obtain pc where p: "0 \<le> pid" "pid < int MAX_PROCESSES" "p \<noteq> null" "p \<noteq> idle_proc s" "procs s p = Some pc"
    "p_pid pc \<noteq> 1" "p_state pc = BLOCKED" "is_prio (p_priority pc)" by (auto simp: waiter_ok_def p_def)
  from semPost_wake_run [OF h sh small a Cons p(1,2) p_def [symmetric] p(3-8)] obtain t R' where
    t: "semPost_locked M a s = Ret (0, t)" "heap rk k t R'" "sem_heap t R' q" "sem_value t a = sem_value s a"
      "sem_blocked t a = pids" "\<forall>b. b \<noteq> a \<longrightarrow> sems t b = sems s b"
      "rlists t = (rlists s)(p_priority pc := rlists s (p_priority pc) @ [p])" "running_process t = running_process s"
      "procs t = (procs s)(p \<mapsto> pc\<lparr>p_state := READY\<rparr>)" "same s (t\<lparr>sems := sems s\<rparr>)" "frame R (blk s a) R' (blk t a)"
      "s_name (the (sems t a)) = s_name (the (sems s a))" "s_users (the (sems t a)) = s_users (the (sems s a))" by blast
  have "own_cells R' (sem_cells t q @ css)"
    by (rule sem_cells_frame [OF o _ a t(11)]) (use sh t(6) in \<open>auto simp: sem_heap_def\<close>)
  moreover have "(rlists t, procs t) = notified s a" using Cons t(7,9) p(5) by (simp add: notified_def p_def [symmetric] Let_def)
  ultimately show ?thesis using t Cons by (intro exI [of _ t] exI [of _ R']) simp
qed

text \<open>The same through the check of the handle, which moves the iterator of the registry.\<close>

lemma semPost_run:
  assumes h: "heap rk (k + 3) s R" and sh: "sem_heap s R q" and small: "16 \<le> small" and a: "a \<in> set (vals q)"
    and w: "\<forall>w\<in>set (take 1 (sem_blocked s a)). waiter_ok s w" and o: "own_cells R (sem_cells s q @ css)"
  shows "\<exists>t R' q'. semPost M a s = Ret (0, t) \<and> heap rk k t R' \<and> sem_heap t R' q' \<and> vals q' = vals q \<and>
    own_cells R' (sem_cells t q' @ css) \<and> (rlists t, procs t) = notified s a \<and> sem_blocked t a = tl (sem_blocked s a) \<and>
    sem_value t a = (if sem_blocked s a = [] then sem_value s a + 1 else sem_value s a) \<and>
    s_name (the (sems t a)) = s_name (the (sems s a)) \<and> s_users (the (sems t a)) = s_users (the (sems s a)) \<and>
    (\<forall>b. b \<noteq> a \<longrightarrow> sems t b = sems s b) \<and> running_process t = running_process s \<and>
    same s (t\<lparr>sems := sems s, registry := registry s\<rparr>)"
proof -
  have "heap rk (Suc (Suc (Suc k))) s R" using h by (simp add: numeral_3_eq_3)
  from valid_then_run [OF this sh small, of a] a obtain u q' where
    u: "heap rk (Suc (Suc k)) u R" "sem_heap u R q'" "vals q' = vals q" "sems u = sems s"
      "u = s\<lparr>mem := mem u, registry := registry u\<rparr>" "semPost M a s = semPost_locked M a u"
      "cells q' = cells q" by metis
  have f: "procs u = procs s" "rlists u = rlists s" "running_process u = running_process s" "process_table u = process_table s"
    "idle_proc u = idle_proc s" by (subst u(5), simp)+
  have v: "sem_value u a = sem_value s a" "sem_blocked u a = sem_blocked s a"
    using u(4) by (simp_all add: sem_value_def sem_blocked_def blk_def)
  have o': "own_cells R (sem_cells u q' @ css)"
    using o u(3,4,7) by (subst sem_cells_same [of q' q u s]) (auto simp: blk_def)
  have "\<forall>w\<in>set (take 1 (sem_blocked u a)). waiter_ok u w" using w v f by (simp add: waiter_ok_def)
  from semPost_locked_run [OF u(1,2) small _ this o'] a u(3) obtain t R' where
    t: "semPost_locked M a u = Ret (0, t)" "heap rk k t R'" "sem_heap t R' q'" "own_cells R' (sem_cells t q' @ css)"
      "(rlists t, procs t) = notified u a" "sem_blocked t a = tl (sem_blocked u a)"
      "sem_value t a = (if sem_blocked u a = [] then sem_value u a + 1 else sem_value u a)"
      "s_name (the (sems t a)) = s_name (the (sems u a))" "s_users (the (sems t a)) = s_users (the (sems u a))"
      "\<forall>b. b \<noteq> a \<longrightarrow> sems t b = sems u b" "running_process t = running_process u" "same u (t\<lparr>sems := sems u\<rparr>)" by auto
  have "same s (t\<lparr>sems := sems s, registry := registry s\<rparr>)"
    using t(12) u(4,5) by (cases s, cases t, cases u) (simp add: same_def)
  moreover have "notified u a = notified s a" by (rule notified_cong) (use u(4) f in auto)
  ultimately show ?thesis using t u f v by (intro exI [of _ t] exI [of _ R'] exI [of _ q']) simp
qed

text \<open>Opening the wait semaphore of a pid: the name \<open>x\<close> is a new block, and the semaphore has a user more.\<close>

lemma open_wait_run:
  assumes h: "heap rk (k + 2) s R" and sh: "sem_heap s R q" and small: "16 \<le> small" and pid: "0 \<le> pid" "pid < int MAX_PROCESSES"
    and a: "named s q (wait_name pid) = Some a" "sems s a = Some sm" and o: "own_cells R (sem_cells s q @ css)"
  obtains u x n q' where "build_wait_semaphore_name M pid s = Ret (Some (x, wait_name pid), s\<lparr>mem := mem u\<rparr>)"
    "semOpen M (Some (wait_name pid)) val (s\<lparr>mem := mem u\<rparr>) = Ret (a, u)" "x \<noteq> null" "x \<notin> dom R"
    "u = s\<lparr>mem := mem u, registry := registry u, sems := (sems s)(a \<mapsto> sm\<lparr>s_users := s_users sm + 1\<rparr>)\<rparr>"
    "heap rk k u (R(x \<mapsto> n))" "sem_heap u (R(x \<mapsto> n)) q'" "vals q' = vals q" "own_cells (R(x \<mapsto> n)) (sem_cells u q' @ [x] # css)"
proof -
  have "heap rk (Suc (Suc k)) s R" using h by simp
  from build_name_run [OF this small pid] obtain x m n where
    x: "build_wait_semaphore_name M pid s = Ret (Some (x, wait_name pid), s\<lparr>mem := m\<rparr>)" "x \<noteq> null" "x \<notin> dom R"
      "heap rk k (s\<lparr>mem := m\<rparr>) (R(x \<mapsto> n))" by blast
  let ?s = "s\<lparr>mem := m\<rparr>"
  have "own_cells (R(x \<mapsto> n)) (sem_cells s q)"
    by (rule own_cells_update) (use sh x(2,3) in \<open>auto simp: sem_heap_def\<close>)
  then have sh1: "sem_heap ?s (R(x \<mapsto> n)) q" using sh by (simp add: sem_heap_def sem_ok_def sem_cells_def blk_def)
  have "named ?s q (wait_name pid) = Some a" "sems ?s a = Some sm" using a by (simp_all add: named_def)
  from semOpen_existing_run [OF sh1 this wait_name_short [OF pid(2)], of M val] obtain q' g where
    g: "semOpen M (Some (wait_name pid)) val ?s = Ret (a, ?s\<lparr>registry := g, sems := (sems s)(a \<mapsto> sm\<lparr>s_users := s_users sm + 1\<rparr>)\<rparr>)"
      "sem_heap (?s\<lparr>registry := g, sems := (sems s)(a \<mapsto> sm\<lparr>s_users := s_users sm + 1\<rparr>)\<rparr>) (R(x \<mapsto> n)) q'"
      "vals q' = vals q" "cells q' = cells q" by auto
  let ?t = "?s\<lparr>registry := g, sems := (sems s)(a \<mapsto> sm\<lparr>s_users := s_users sm + 1\<rparr>)\<rparr>"
  have "sem_cells ?t q' = sem_cells s q" using g(3,4) a(2) by (intro sem_cells_same) (auto simp: blk_def)
  moreover have "own_cells (R(x \<mapsto> n)) (sem_cells s q @ [x] # css)" using o x(2,3) by (auto simp: own_cells_def)
  moreover have "heap rk k ?t (R(x \<mapsto> n))" using x(4) by simp
  ultimately show thesis using x g by (intro that [of x ?t n q']) simp_all
qed

text \<open>Giving up the handle and the name again.\<close>

lemma close_wait_run:
  assumes h: "heap rk (Suc k) s R" and sh: "sem_heap s R q" and small: "16 \<le> small"
    and a: "a \<in> set (vals q)" "sems s a = Some sm" "s_users sm \<noteq> 1" and o: "own_cells R (sem_cells s q @ [x] # css)"
  obtains u q' where "u = s\<lparr>mem := mem u, registry := registry u, sems := (sems s)(a \<mapsto> sm\<lparr>s_users := s_users sm - 1\<rparr>)\<rparr>"
    "sq (semClose M a) (mm_free M x) s = Ret ((), u)" "heap rk k u (R(x := None))"
    "sem_heap u (R(x := None)) q'" "vals q' = vals q" "own_cells (R(x := None)) (sem_cells u q' @ css)"
proof -
  from semClose_shared_run [OF h sh small a] obtain q' g m where
    c: "semClose M a s = Ret (0, s\<lparr>mem := m, registry := g, sems := (sems s)(a \<mapsto> sm\<lparr>s_users := s_users sm - 1\<rparr>)\<rparr>)"
      "heap rk k (s\<lparr>mem := m\<rparr>) R" "vals q' = vals q" "cells q' = cells q"
      "sem_heap (s\<lparr>mem := m, registry := g, sems := (sems s)(a \<mapsto> sm\<lparr>s_users := s_users sm - 1\<rparr>)\<rparr>) R q'" by blast
  have "x \<in> dom R" using o by (auto simp: own_cells_def)
  from heap_free [OF c(2) this] obtain m' where
    f: "mm_free_op M x m = Ret ((), m')" "heap rk k (s\<lparr>mem := m'\<rparr>) (R(x := None))" by auto
  let ?t = "s\<lparr>mem := m', registry := g, sems := (sems s)(a \<mapsto> sm\<lparr>s_users := s_users sm - 1\<rparr>)\<rparr>"
  have cells: "sem_cells ?t q' = sem_cells s q" using c(3,4) a(2) by (intro sem_cells_same) (auto simp: blk_def)
  have own: "own_cells (R(x := None)) (sem_cells ?t q' @ css)" unfolding cells using o by (auto simp: own_cells_def)
  then have "own_cells (R(x := None)) (sem_cells ?t q')" by (auto simp: own_cells_def)
  then have "sem_heap ?t (R(x := None)) q'" using c(5) by (simp add: sem_heap_def sem_ok_def)
  moreover have "sq (semClose M a) (mm_free M x) s = Ret ((), ?t)" using c(1) f(1) by (simp add: run_simps mm_free_def)
  ultimately show thesis using f(2) c(3) own by (intro that [of ?t q']) simp_all
qed

lemma post_wait_run:
  assumes h: "heap rk (k + 6) s R" and sh: "sem_heap s R q" and small: "16 \<le> small" and pid: "0 \<le> pid" "pid < int MAX_PROCESSES"
    and a: "named s q (wait_name pid) = Some a" "s_users (the (sems s a)) \<noteq> 0"
    and w: "\<forall>w\<in>set (take 1 (sem_blocked s a)). waiter_ok s w" and o: "own_cells R (sem_cells s q @ css)"
  shows "\<exists>t R' q'. post_wait_semaphore M pid s = Ret ((), t) \<and> heap rk k t R' \<and> sem_heap t R' q' \<and> vals q' = vals q \<and>
    own_cells R' (sem_cells t q' @ css) \<and> (rlists t, procs t) = notified s a \<and> sem_blocked t a = tl (sem_blocked s a) \<and>
    sem_value t a = (if sem_blocked s a = [] then sem_value s a + 1 else sem_value s a) \<and>
    (\<forall>b. b \<noteq> a \<longrightarrow> sems t b = sems s b) \<and> running_process t = running_process s \<and>
    same s (t\<lparr>sems := sems s, registry := registry s\<rparr>)"
proof -
  from sem_heap_sem [OF sh named_in [OF a(1)]] obtain sm where sm: "sems s a = Some sm" "a \<noteq> null" by metis
  have "heap rk (k + 4 + 2) s R" by (rule heap_le [OF h]) simp
  then obtain u x n q1 where
    x: "build_wait_semaphore_name M pid s = Ret (Some (x, wait_name pid), s\<lparr>mem := mem u\<rparr>)" and
    u: "semOpen M (Some (wait_name pid)) 0 (s\<lparr>mem := mem u\<rparr>) = Ret (a, u)" and nx: "x \<noteq> null" "x \<notin> dom R" and
    u': "u = s\<lparr>mem := mem u, registry := registry u, sems := (sems s)(a \<mapsto> sm\<lparr>s_users := s_users sm + 1\<rparr>)\<rparr>"
      "heap rk (k + 4) u (R(x \<mapsto> n))" "sem_heap u (R(x \<mapsto> n)) q1" "vals q1 = vals q"
      "own_cells (R(x \<mapsto> n)) (sem_cells u q1 @ [x] # css)"
    by (rule open_wait_run [OF _ sh small pid a(1) sm(1) o])
  note u = u u'
  have su: "sems u = (sems s)(a \<mapsto> sm\<lparr>s_users := s_users sm + 1\<rparr>)" by (subst u(2), simp)
  have f: "procs u = procs s" "rlists u = rlists s" "running_process u = running_process s" "process_table u = process_table s"
    "idle_proc u = idle_proc s" by (subst u(2), simp)+
  have v: "sem_value u a = sem_value s a" "sem_blocked u a = sem_blocked s a" "s_users (the (sems u a)) = s_users sm + 1"
    "\<And>b. b \<noteq> a \<Longrightarrow> sems u b = sems s b" using sm(1) by (simp_all add: su sem_value_def sem_blocked_def blk_def)
  have n: "notified u a = notified s a" using f v by (simp add: notified_def cong: list.case_cong)
  have "heap rk (Suc k + 3) u (R(x \<mapsto> n))" by (rule heap_le [of "k + 4"]) (use u in simp_all)
  moreover have "\<forall>w\<in>set (take 1 (sem_blocked u a)). waiter_ok u w" using w v f by (simp add: waiter_ok_def)
  ultimately obtain t R' q' where
    t: "semPost M a u = Ret (0, t)" "heap rk (Suc k) t R'" "sem_heap t R' q'" "vals q' = vals q1"
      "own_cells R' (sem_cells t q' @ [x] # css)" "(rlists t, procs t) = notified u a" "sem_blocked t a = tl (sem_blocked u a)"
      "sem_value t a = (if sem_blocked u a = [] then sem_value u a + 1 else sem_value u a)"
      "s_users (the (sems t a)) = s_users (the (sems u a))"
      "\<forall>b. b \<noteq> a \<longrightarrow> sems t b = sems u b" "running_process t = running_process u"
      "same u (t\<lparr>sems := sems u, registry := registry u\<rparr>)"
    using semPost_run [of "Suc k" u "R(x \<mapsto> n)" q1 a "[x] # css"] u small named_in [OF a(1)] by metis
  have at: "a \<in> set (vals q')" using t(4) u named_in [OF a(1)] by simp
  from sem_heap_sem [OF t(3) at] obtain sm' where sm': "sems t a = Some sm'" by metis
  have "s_users sm' \<noteq> 1" using t(9) v(3) a(2) sm(1) sm' by simp
  from close_wait_run [OF t(2,3) small at sm' this t(5)] obtain c q2 where
    c: "c = t\<lparr>mem := mem c, registry := registry c, sems := (sems t)(a \<mapsto> sm'\<lparr>s_users := s_users sm' - 1\<rparr>)\<rparr>"
      "sq (semClose M a) (mm_free M x) t = Ret ((), c)" "heap rk k c (R'(x := None))" "sem_heap c (R'(x := None)) q2"
      "vals q2 = vals q'" "own_cells (R'(x := None)) (sem_cells c q2 @ css)" by blast
  have "post_wait_semaphore M pid s = Ret ((), c)"
    using x u(1) t(1) c(2) sm(2) by (auto simp: post_wait_semaphore_def run_simps split: outcome.splits)
  moreover have sc: "sems c = (sems t)(a \<mapsto> sm'\<lparr>s_users := s_users sm' - 1\<rparr>)" and
    "rlists c = rlists t" "procs c = procs t" "running_process c = running_process t" by (subst c(1), simp)+
  moreover have "sem_blocked c a = sem_blocked t a" "sem_value c a = sem_value t a" "\<forall>b. b \<noteq> a \<longrightarrow> sems c b = sems t b"
    using sm' by (simp_all add: sc sem_value_def sem_blocked_def blk_def)
  moreover have "same s (c\<lparr>sems := sems s, registry := registry s\<rparr>)"
    using t(12) by (subst c(1), subst (asm) u(2), cases s, cases t) (simp add: same_def)
  ultimately show ?thesis using c t u f v n by (intro exI [of _ c] exI [of _ "R'(x := None)"] exI [of _ q2]) simp
qed

end

section \<open>Children\<close>

text \<open>The children a control block lists, and the control block behind a pid.\<close>

definition kids :: "process \<Rightarrow> int list" where
  "kids pc = take (nat (p_child_count pc)) (p_children pc)"

definition kids_ok :: "process \<Rightarrow> bool" where
  "kids_ok pc \<longleftrightarrow> 0 \<le> p_child_count pc \<and> p_child_count pc \<le> int MAX_CHILDREN \<and> length (p_children pc) = MAX_CHILDREN"

definition at_pid :: "'m kst \<Rightarrow> int \<Rightarrow> addr" where
  "at_pid s pid = (if pid < 0 \<or> pid \<ge> int MAX_PROCESSES then null else process_table s ! nat pid)"

definition alive :: "'m kst \<Rightarrow> int \<Rightarrow> bool" where
  "alive s pid \<longleftrightarrow> at_pid s pid \<noteq> null \<and> p_state (the (procs s (at_pid s pid))) \<noteq> TERMINATED"

lemma get_process_run [run_simps]: "get_process pid s = Ret (at_pid s pid, s)"
  by (simp add: get_process_def at_pid_def run_simps)

text \<open>The table: 64 entries, each null or the control block with that pid.\<close>

definition table_ok :: "'m kst \<Rightarrow> bool" where
  "table_ok s \<longleftrightarrow> length (process_table s) = MAX_PROCESSES \<and>
     (\<forall>pid. at_pid s pid \<noteq> null \<longrightarrow> (\<exists>pc. procs s (at_pid s pid) = Some pc \<and> p_pid pc = pid \<and> kids_ok pc))"

lemma table_ok_pid: "table_ok s \<Longrightarrow> at_pid s i = at_pid s j \<Longrightarrow> at_pid s i \<noteq> null \<Longrightarrow> i = j"
  by (metis table_ok_def option.inject)

text \<open>Handing over one child: its parent becomes init, which lists it if there is room.\<close>

definition with_kid :: "int \<Rightarrow> process \<Rightarrow> process" where
  "with_kid c pc = (if p_child_count pc < int MAX_CHILDREN
     then pc\<lparr>p_children := (p_children pc)[nat (p_child_count pc) := c], p_child_count := p_child_count pc + 1\<rparr> else pc)"

lemma with_kid: "kids_ok pc \<Longrightarrow> kids_ok (with_kid c pc) \<and> kids (with_kid c pc) = take MAX_CHILDREN (kids pc @ [c])"
  by (auto simp: kids_ok_def with_kid_def kids_def nat_add_distrib take_Suc_conv_app_nth min_def take_update_cancel)

lemma with_kid_fields [simp]:
  "p_pid (with_kid c pc) = p_pid pc" "p_ppid (with_kid c pc) = p_ppid pc" "p_state (with_kid c pc) = p_state pc"
  "p_priority (with_kid c pc) = p_priority pc" "p_argv (with_kid c pc) = p_argv pc" "p_argc (with_kid c pc) = p_argc pc"
  "p_stackBase (with_kid c pc) = p_stackBase pc" "p_targetByFd (with_kid c pc) = p_targetByFd pc"
  by (simp_all add: with_kid_def)

text \<open>The control blocks after the children \<open>cs\<close> of a dying process are handed over to \<open>ini\<close>.\<close>

definition adopted :: "'m kst \<Rightarrow> addr \<Rightarrow> int list \<Rightarrow> addr \<Rightarrow> process \<Rightarrow> process" where
  "adopted s ini cs a pc =
     (let pc' = (if a \<in> at_pid s ` {c \<in> set cs. alive s c} then pc\<lparr>p_ppid := 1\<rparr> else pc)
      in if a = ini then fold with_kid (filter (alive s) cs) pc' else pc')"

lemma fold_with_kid_fields [simp]:
  "p_pid (fold with_kid cs pc) = p_pid pc" "p_state (fold with_kid cs pc) = p_state pc" "p_ppid (fold with_kid cs pc) = p_ppid pc"
  "p_priority (fold with_kid cs pc) = p_priority pc" "p_argv (fold with_kid cs pc) = p_argv pc"
  "p_argc (fold with_kid cs pc) = p_argc pc" "p_stackBase (fold with_kid cs pc) = p_stackBase pc"
  "p_targetByFd (fold with_kid cs pc) = p_targetByFd pc"
  by (induction cs arbitrary: pc) simp_all

lemma take_take_append: "take n (take n xs @ ys) = take n (xs @ ys)"
  by (cases "length xs \<le> n") simp_all

lemma fold_with_kid:
  "kids_ok pc \<Longrightarrow> kids_ok (fold with_kid cs pc) \<and> kids (fold with_kid cs pc) = take MAX_CHILDREN (kids pc @ cs)"
proof (induction cs arbitrary: pc)
  case Nil
  then show ?case by (simp add: kids_def kids_ok_def min_def)
next
  case (Cons c cs)
  from with_kid [OF Cons.prems, of c] Cons.IH [of "with_kid c pc"] show ?case
    by (simp add: take_take_append del: take_append)
qed

lemma adopted_fields [simp]:
  "p_pid (adopted s ini cs a pc) = p_pid pc" "p_state (adopted s ini cs a pc) = p_state pc"
  "p_priority (adopted s ini cs a pc) = p_priority pc" "p_argv (adopted s ini cs a pc) = p_argv pc"
  "p_argc (adopted s ini cs a pc) = p_argc pc" "p_stackBase (adopted s ini cs a pc) = p_stackBase pc"
  "p_targetByFd (adopted s ini cs a pc) = p_targetByFd pc"
  by (simp_all add: adopted_def Let_def)

lemma with_kid_ppid: "with_kid c (pc\<lparr>p_ppid := i\<rparr>) = (with_kid c pc)\<lparr>p_ppid := i\<rparr>"
  by (simp add: with_kid_def)

lemma fold_with_kid_ppid: "fold with_kid cs (pc\<lparr>p_ppid := i\<rparr>) = (fold with_kid cs pc)\<lparr>p_ppid := i\<rparr>"
  by (induction cs arbitrary: pc) (simp_all add: with_kid_ppid)

definition adopt :: "'m kst \<Rightarrow> addr \<Rightarrow> int list \<Rightarrow> (addr \<Rightarrow> process option) \<Rightarrow> (addr \<Rightarrow> process option)" where
  "adopt s ini cs pm = (\<lambda>a. map_option (adopted s ini cs a) (pm a))"

lemma adopt_none: "filter (alive s) cs = [] \<Longrightarrow> adopt s ini cs pm = pm"
proof -
  assume "filter (alive s) cs = []"
  then have "adopted s ini cs a = id" for a by (auto simp: adopted_def filter_empty_conv fun_eq_iff)
  then show ?thesis by (simp add: adopt_def option.map_id)
qed

lemma adopt_Nil [simp]: "adopt s ini [] pm = pm"
  by (simp add: adopt_none)

lemma adopt_Cons: "adopt s ini (c # cs) pm = adopt s ini cs (adopt s ini [c] pm)"
  by (auto simp: adopt_def adopted_def fun_eq_iff option.map_comp Let_def with_kid_ppid fold_with_kid_ppid intro!: option.map_cong)

lemma alive_adopt: "alive (s\<lparr>procs := adopt s ini cs (procs s)\<rparr>) = alive s"
  "at_pid (s\<lparr>procs := pm\<rparr>) = at_pid s"
proof -
  show ap: "at_pid (s\<lparr>procs := pm\<rparr>) = at_pid s" for pm by (simp add: at_pid_def fun_eq_iff)
  have "p_state (the (adopt s ini cs (procs s) a)) = p_state (the (procs s a))" for a
    by (cases "procs s a") (simp_all add: adopt_def)
  then show "alive (s\<lparr>procs := adopt s ini cs (procs s)\<rparr>) = alive s" by (simp add: alive_def ap fun_eq_iff)
qed

lemma reparent_one_run:
  assumes d: "procs s d = Some dc" "i < length (p_children dc)" and ini: "procs s ini = Some ic" "kids_ok ic"
    and tab: "\<And>c. at_pid s c \<noteq> null \<Longrightarrow> procs s (at_pid s c) \<noteq> None"
  shows "reparent_one d ini i s = Ret ((), s\<lparr>procs := adopt s ini [p_children dc ! i] (procs s)\<rparr>)"
proof (cases "alive s (p_children dc ! i)")
  case False
  let ?c = "p_children dc ! i"
  from False have "adopt s ini [?c] (procs s) = procs s" by (simp add: adopt_none)
  with False d tab [of ?c] show ?thesis by (auto simp: reparent_one_def get_child_def run_simps alive_def)
next
  case True
  let ?c = "p_children dc ! i"
  from True tab [of ?c] obtain cc where cc: "at_pid s ?c \<noteq> null" "procs s (at_pid s ?c) = Some cc" "p_state cc \<noteq> TERMINATED"
    by (auto simp: alive_def)
  let ?pm = "(procs s)(at_pid s ?c \<mapsto> cc\<lparr>p_ppid := 1\<rparr>)"
  from ini cc obtain ic' where ic': "?pm ini = Some ic'" "kids_ok ic'"
    by (cases "ini = at_pid s ?c") (auto simp: kids_ok_def)
  have "adopt s ini [?c] (procs s) = ?pm(ini \<mapsto> with_kid ?c ic')"
  proof
    fix x
    show "adopt s ini [?c] (procs s) x = (?pm(ini \<mapsto> with_kid ?c ic')) x"
      using True cc ini(1) ic'(1)
      by (cases "procs s x") (auto simp: adopt_def adopted_def with_kid_ppid split: if_splits)
  qed
  moreover have "add_child ini ?c (s\<lparr>procs := ?pm\<rparr>) = Ret ((), s\<lparr>procs := ?pm(ini \<mapsto> with_kid ?c ic')\<rparr>)"
    using ic' by (auto simp: add_child_def run_simps with_kid_def kids_ok_def fun_upd_idem)
  ultimately show ?thesis using d cc by (simp add: reparent_one_def get_child_def run_simps)
qed

lemma reparent_loop_run:
  assumes "procs s d = Some dc" and "\<forall>i\<in>set is. i < length (p_children dc)" and "procs s ini = Some ic" and "kids_ok ic"
    and "\<And>c. at_pid s c \<noteq> null \<Longrightarrow> procs s (at_pid s c) \<noteq> None" and "d \<noteq> ini"
  shows "for_each is (reparent_one d ini) s = Ret ((), s\<lparr>procs := adopt s ini (map ((!) (p_children dc)) is) (procs s)\<rparr>)"
  using assms
proof (induction "is" arbitrary: s dc ic)
  case (Cons i js)
  let ?c = "p_children dc ! i"
  let ?s = "s\<lparr>procs := adopt s ini [?c] (procs s)\<rparr>"
  have step: "reparent_one d ini i s = Ret ((), ?s)"
    by (rule reparent_one_run [OF Cons.prems(1) _ Cons.prems(3,4,5)]) (use Cons.prems(2) in simp)
  have d: "procs ?s d = Some (adopted s ini [?c] d dc)" and kids: "p_children (adopted s ini [?c] d dc) = p_children dc"
    and i: "procs ?s ini = Some (adopted s ini [?c] ini ic)"
    using Cons.prems by (auto simp: adopt_def adopted_def Let_def)
  have ok: "kids_ok (adopted s ini [?c] ini ic)"
    using with_kid [OF Cons.prems(4), of ?c] Cons.prems(4) by (auto simp: adopted_def with_kid_ppid kids_ok_def)
  have "for_each js (reparent_one d ini) ?s =
      Ret ((), ?s\<lparr>procs := adopt ?s ini (map ((!) (p_children (adopted s ini [?c] d dc))) js) (procs ?s)\<rparr>)"
    by (rule Cons.IH [OF d _ i ok]) (use Cons.prems kids in \<open>auto simp: alive_adopt adopt_def\<close>)
  moreover have "adopted ?s = adopted s" by (intro ext) (simp add: adopted_def alive_adopt)
  then have "adopt ?s ini cs pm = adopt s ini cs pm" for cs pm by (simp add: adopt_def)
  ultimately show ?case using step kids by (simp add: run_simps adopt_Cons [of s ini ?c "map ((!) (p_children dc)) js"])
qed (simp add: run_simps)

text \<open>What \<open>reparent_children\<close> does to the control blocks.\<close>

definition orphaned :: "'m kst \<Rightarrow> addr \<Rightarrow> process \<Rightarrow> (addr \<Rightarrow> process option)" where
  "orphaned s d dc =
     (if at_pid s INIT_PID = null then procs s
      else (adopt s (at_pid s INIT_PID) (kids dc) (procs s))
        (d \<mapsto> adopted s (at_pid s INIT_PID) (kids dc) d dc\<lparr>p_child_count := 0\<rparr>))"

lemma reparent_children_run:
  assumes t: "table_ok s" and d: "at_pid s pid = d" "d \<noteq> null" "procs s d = Some dc" "pid \<noteq> INIT_PID"
  shows "reparent_children pid s = Ret ((), s\<lparr>procs := orphaned s d dc\<rparr>)"
proof (cases "at_pid s INIT_PID = null")
  case True
  then show ?thesis using d by (simp add: reparent_children_def run_simps orphaned_def)
next
  case False
  let ?ini = "at_pid s INIT_PID"
  from t False obtain ic where ic: "procs s ?ini = Some ic" "kids_ok ic" by (auto simp: table_ok_def)
  from t d have dc: "kids_ok dc" by (metis table_ok_def option.inject)
  have ne: "d \<noteq> ?ini" using table_ok_pid [OF t, of pid INIT_PID] d by auto
  have "map ((!) (p_children dc)) [0..<nat (p_child_count dc)] = kids dc"
    using dc by (intro nth_equalityI) (auto simp: kids_def kids_ok_def)
  moreover have "for_each [0..<nat (p_child_count dc)] (reparent_one d ?ini) s =
      Ret ((), s\<lparr>procs := adopt s ?ini (map ((!) (p_children dc)) [0..<nat (p_child_count dc)]) (procs s)\<rparr>)"
    by (rule reparent_loop_run [OF d(3) _ ic]) (use dc t ne in \<open>auto simp: kids_ok_def table_ok_def\<close>)
  ultimately show ?thesis using d False
    by (simp add: reparent_children_def run_simps orphaned_def adopt_def)
qed

section \<open>Leaving the ready queues\<close>

lemma heap_proc_cong [simp]:
  "heap rk k (argvs_update f s) R = heap rk k s R" "heap rk k (strs_update g s) R = heap rk k s R"
  "heap rk k (shell_proc_update h s) R = heap rk k s R"
  by (simp_all add: heap_def queues_def rq_def table_wf_def)

lemma rlists_proc_cong [simp]:
  "rlists (argvs_update f s) = rlists s" "rlists (strs_update g s) = rlists s" "rlists (shell_proc_update h s) = rlists s"
  "rlists (process_table_update h' s) = rlists s" "rlists (running_process_update h'' s) = rlists s"
  by (simp_all add: rlists_def ready_def rq_def fun_eq_iff)

lemma ready_in_all: "is_prio pr \<Longrightarrow> set (ready s pr) \<subseteq> set (all_ready (rlists s))"
  by (auto simp: all_ready_def dest!: is_prio_cases)

lemma ready_distinct: "is_prio pr \<Longrightarrow> distinct (all_ready (rlists s)) \<Longrightarrow> distinct (ready s pr)"
  by (auto simp: all_ready_def dest!: is_prio_cases)

lemma rlists_not_prio: "\<not> is_prio pr \<Longrightarrow> rlists s pr = []"
  by (auto simp: rlists_def)

context memory_room
begin

text \<open>A process that is queued where its priority says, or nowhere, is in no queue afterwards.\<close>

lemma remove_from_ready_run:
  assumes h: "heap rk k s R" and p: "p \<noteq> null" "procs s p = Some pc" "is_prio (p_priority pc)"
    and q: "distinct (all_ready (rlists s))" "\<forall>a\<in>set (all_ready (rlists s)). procs s a \<noteq> None \<and> (a \<noteq> p \<longrightarrow> pid_at s a \<noteq> p_pid pc)"
    and home: "\<forall>pr. p \<in> set (rlists s pr) \<longrightarrow> pr = p_priority pc"
  shows "\<exists>t. remove_from_all_priority_queues M p s = Ret ((), t) \<and> heap rk k t R \<and> rlists t = (\<lambda>pr. removeAll p (rlists s pr)) \<and>
    procs t = procs s \<and> same s t \<and> running_process t = running_process s"
proof (cases "p \<in> set (ready s (p_priority pc))")
  case False
  have "\<forall>a\<in>set (ready s (p_priority pc)). \<exists>qc. procs s a = Some qc \<and> p_pid qc \<noteq> p_pid pc"
    using q(2) ready_in_all [OF p(3), of s] False by (fastforce simp: pid_at_def)
  from remove_absent_run [OF h p this] have "remove_from_all_priority_queues M p s = Ret ((), s)" .
  moreover have "removeAll p (rlists s pr) = rlists s pr" for pr
    using home False p(3) by (intro removeAll_id) (metis lists_prio)
  ultimately show ?thesis using h by (intro exI [of _ s]) (simp add: same_refl)
next
  case True
  let ?pr = "p_priority pc"
  from heap_rq [OF h p(3)] obtain qu where qu: "rq s ?pr = Some qu" "ready s ?pr = vals qu" by blast
  from True qu(2) obtain dn n rs where n: "q_nodes qu = dn @ n # rs" "n_val n = p"
    by (auto simp: vals_def dest!: split_list)
  have d: "p \<notin> set (map n_val dn)" "p \<notin> set (map n_val rs)"
    using ready_distinct [OF p(3) q(1)] n by (auto simp: qu(2) vals_def)
  have sub: "set (vals qu) \<subseteq> set (all_ready (rlists s))" using ready_in_all [OF p(3), of s] qu(2) by simp
  have live: "\<forall>a\<in>set (vals qu). procs s a \<noteq> None" using q(2) sub by auto
  have pids: "\<forall>m\<in>set dn. pid_at s (n_val m) \<noteq> pid_at s (n_val n)"
  proof
    fix m assume m: "m \<in> set dn"
    then have "n_val m \<in> set (all_ready (rlists s))" using sub n(1) by (auto simp: vals_def)
    moreover have "n_val m \<noteq> p" using m d by auto
    ultimately show "pid_at s (n_val m) \<noteq> pid_at s (n_val n)" using q(2) p(2) n(2) by (simp add: pid_at_def)
  qed
  from remove_from_queue_run [OF h p(3) qu(1) n(1) live pids] obtain q' m where
    r: "remove_from_queue M ?pr p s = Ret ((), put_rq ?pr (Some q') (s\<lparr>mem := m\<rparr>))"
      "heap rk k (put_rq ?pr (Some q') (s\<lparr>mem := m\<rparr>)) R" "q_nodes q' = dn @ rs" using n(2) by auto
  let ?t = "put_rq ?pr (Some q') (s\<lparr>mem := m\<rparr>)"
  have wf: "table_wf s" using h by simp
  have "vals q' = removeAll p (ready s ?pr)" using r(3) n d by (simp add: qu(2) vals_def removeAll_id)
  moreover have "removeAll p (ready s pr) = ready s pr" if "is_prio pr" "pr \<noteq> ?pr" for pr
    using home that by (intro removeAll_id) (metis lists_prio)
  ultimately have "rlists ?t = (\<lambda>pr. removeAll p (rlists s pr))"
    by (intro lists_eqI) (use wf p(3) in \<open>auto simp: ready_put rlists_not_prio\<close>)
  moreover have "remove_from_all_priority_queues M p s = Ret ((), ?t)"
    using p r(1) qu(1) wf by (simp add: remove_from_all_priority_queues_def run_simps)
  moreover have "same s ?t" by (simp add: same_def put_rq_def)
  ultimately show ?thesis using r(2) by (intro exI [of _ ?t]) simp
qed

end

section \<open>The blocks of a process\<close>

text \<open>The blocks that \<open>free_process_resources\<close> gives back, in its order: the arguments, their vector,
  the stack, the control block.\<close>

definition arg_blocks :: "addr list \<Rightarrow> nat list \<Rightarrow> addr list" where
  "arg_blocks v is = filter (\<lambda>x. x \<noteq> null) (map ((!) v) is)"

definition args_of :: "'m kst \<Rightarrow> process \<Rightarrow> addr list" where
  "args_of s pc = (if p_argv pc = null then []
     else arg_blocks (the (argvs s (p_argv pc))) [0..<nat (p_argc pc)] @ [p_argv pc])"

definition proc_blocks :: "'m kst \<Rightarrow> addr \<Rightarrow> process \<Rightarrow> addr list" where
  "proc_blocks s p pc = args_of s pc @ (if p_stackBase pc = null then [] else [p_stackBase pc]) @ [p]"

definition argv_ok :: "'m kst \<Rightarrow> process \<Rightarrow> bool" where
  "argv_ok s pc \<longleftrightarrow> p_argv pc \<noteq> null \<longrightarrow> (\<exists>v. argvs s (p_argv pc) = Some v \<and> nat (p_argc pc) \<le> length v)"

lemma restrict_UNIV [simp]: "R |` UNIV = R"
  by (simp add: restrict_map_def)

lemma restrict_remove: "R |` (- set (xs @ [x])) = (R |` (- set xs))(x := None)"
  by (auto simp: restrict_map_def fun_eq_iff)

lemma restrict_remove_first: "R |` (- set (x # xs)) = (R(x := None)) |` (- set xs)"
  by (auto simp: restrict_map_def fun_eq_iff)

context memory_room
begin

lemma heap_mm_free:
  assumes "heap rk k s R" and "a \<in> dom R"
  shows "\<exists>m. mm_free M a s = Ret ((), s\<lparr>mem := m\<rparr>) \<and> heap rk k (s\<lparr>mem := m\<rparr>) (R(a := None))"
  using heap_free [OF assms] by (auto simp: mm_free_def run_simps)

lemma free_args_run:
  assumes "heap rk k s R" and "argvs s argv = Some v" and "\<forall>i\<in>set is. i < length v"
    and "distinct (arg_blocks v is)" and "set (arg_blocks v is) \<subseteq> dom R"
  shows "\<exists>m st. for_each is (free_arg M argv) s = Ret ((), s\<lparr>mem := m, strs := st\<rparr>) \<and>
    heap rk k (s\<lparr>mem := m, strs := st\<rparr>) (R |` (- set (arg_blocks v is)))"
  using assms
proof (induction "is" arbitrary: s R)
  case Nil
  then show ?case by (intro exI [of _ "mem s"] exI [of _ "strs s"]) (simp add: run_simps arg_blocks_def)
next
  case (Cons i js)
  show ?case
  proof (cases "v ! i = null")
    case True
    with Cons.prems have "free_arg M argv i s = Ret ((), s)" by (simp add: free_arg_def run_simps)
    moreover have "arg_blocks v (i # js) = arg_blocks v js" using True by (simp add: arg_blocks_def)
    ultimately show ?thesis using Cons.IH [OF Cons.prems(1,2)] Cons.prems(3-5) by (simp add: run_simps)
  next
    case False
    then have b: "arg_blocks v (i # js) = v ! i # arg_blocks v js" by (simp add: arg_blocks_def)
    with Cons.prems(5) have "v ! i \<in> dom R" by auto
    from heap_mm_free [OF Cons.prems(1) this] obtain m where
      m: "mm_free M (v ! i) s = Ret ((), s\<lparr>mem := m\<rparr>)" "heap rk k (s\<lparr>mem := m\<rparr>) (R(v ! i := None))" by blast
    let ?s = "s\<lparr>mem := m, strs := (strs s)(v ! i := None)\<rparr>"
    have step: "free_arg M argv i s = Ret ((), ?s)" using Cons.prems m(1) False by (simp add: free_arg_def run_simps)
    have h: "heap rk k ?s (R(v ! i := None))" using m(2) by simp
    have "\<exists>m st. for_each js (free_arg M argv) ?s = Ret ((), ?s\<lparr>mem := m, strs := st\<rparr>) \<and>
        heap rk k (?s\<lparr>mem := m, strs := st\<rparr>) ((R(v ! i := None)) |` (- set (arg_blocks v js)))"
      by (rule Cons.IH [OF h]) (use Cons.prems b in auto)
    then obtain m' st where r: "for_each js (free_arg M argv) ?s = Ret ((), s\<lparr>mem := m', strs := st\<rparr>)"
      "heap rk k (s\<lparr>mem := m', strs := st\<rparr>) ((R(v ! i := None)) |` (- set (arg_blocks v js)))" by auto
    then show ?thesis using step
      by (intro exI [of _ m'] exI [of _ st]) (simp add: run_simps b restrict_remove_first del: set_simps)
  qed
qed

text \<open>The first part of \<open>free_process_resources\<close>: the arguments and the stack.\<close>

lemma free_args_stack_run:
  assumes h: "heap rk k s R" and a: "argv_ok s pc" and d: "distinct (proc_blocks s p pc)" "set (proc_blocks s p pc) \<subseteq> dom R"
  shows "\<exists>m av st. free_args_stack M pc s = Ret ((), s\<lparr>mem := m, argvs := av, strs := st\<rparr>) \<and>
    heap rk k (s\<lparr>mem := m\<rparr>) (R |` (- set (args_of s pc @ (if p_stackBase pc = null then [] else [p_stackBase pc]))))"
proof -
  let ?A = "if p_argv pc = null then ret ()
            else sq (for_each [0..<nat (p_argc pc)] (free_arg M (p_argv pc)))
              (sq (mm_free M (p_argv pc)) (upd (\<lambda>s. s\<lparr>argvs := (argvs s)(p_argv pc := None)\<rparr>)))"
  have "\<exists>m av st. ?A s = Ret ((), s\<lparr>mem := m, argvs := av, strs := st\<rparr>) \<and> heap rk k (s\<lparr>mem := m\<rparr>) (R |` (- set (args_of s pc)))"
  proof (cases "p_argv pc = null")
    case True
    then show ?thesis using h by (intro exI [of _ "mem s"] exI [of _ "argvs s"] exI [of _ "strs s"]) (simp add: run_simps args_of_def)
  next
    case False
    with a obtain v where v: "argvs s (p_argv pc) = Some v" "nat (p_argc pc) \<le> length v" by (auto simp: argv_ok_def)
    let ?b = "arg_blocks v [0..<nat (p_argc pc)]"
    have b: "args_of s pc = ?b @ [p_argv pc]" using False v(1) by (simp add: args_of_def)
    from free_args_run [OF h v(1), of "[0..<nat (p_argc pc)]"] v(2) d b obtain m st where
      m: "for_each [0..<nat (p_argc pc)] (free_arg M (p_argv pc)) s = Ret ((), s\<lparr>mem := m, strs := st\<rparr>)"
        "heap rk k (s\<lparr>mem := m\<rparr>) (R |` (- set ?b))" by (auto simp: proc_blocks_def)
    have "p_argv pc \<in> dom (R |` (- set ?b))" using d b by (auto simp: proc_blocks_def)
    from heap_free [OF m(2) this] obtain m' where
      m': "mm_free_op M (p_argv pc) m = Ret ((), m')" "heap rk k (s\<lparr>mem := m'\<rparr>) ((R |` (- set ?b))(p_argv pc := None))" by auto
    with m False show ?thesis
      by (intro exI [of _ m'] exI [of _ "(argvs s)(p_argv pc := None)"] exI [of _ st])
         (simp add: run_simps mm_free_def b restrict_remove del: set_append)
  qed
  then obtain m av st where A: "?A s = Ret ((), s\<lparr>mem := m, argvs := av, strs := st\<rparr>)"
    "heap rk k (s\<lparr>mem := m\<rparr>) (R |` (- set (args_of s pc)))" by blast
  show ?thesis
  proof (cases "p_stackBase pc = null")
    case True
    with A show ?thesis by (intro exI [of _ m] exI [of _ av] exI [of _ st]) (simp add: free_args_stack_def run_simps)
  next
    case False
    have "p_stackBase pc \<in> dom (R |` (- set (args_of s pc)))" using d False by (auto simp: proc_blocks_def)
    from heap_free [OF A(2) this] obtain m' where m': "mm_free_op M (p_stackBase pc) m = Ret ((), m')"
      "heap rk k (s\<lparr>mem := m'\<rparr>) ((R |` (- set (args_of s pc)))(p_stackBase pc := None))" by auto
    with A False show ?thesis
      by (intro exI [of _ m'] exI [of _ av] exI [of _ st]) (simp add: free_args_stack_def run_simps mm_free_def restrict_remove del: set_append)
  qed
qed

lemma free_process_run:
  assumes h: "heap rk k s R" and a: "argv_ok s pc" and d: "distinct (proc_blocks s p pc)" "set (proc_blocks s p pc) \<subseteq> dom R"
    and p: "p \<noteq> null" "p \<noteq> idle_proc s" "procs s p = Some pc" "is_prio (p_priority pc)"
    and q: "distinct (all_ready (rlists s))" "\<forall>a\<in>set (all_ready (rlists s)). procs s a \<noteq> None \<and> (a \<noteq> p \<longrightarrow> pid_at s a \<noteq> p_pid pc)"
    and home: "\<forall>pr. p \<in> set (rlists s pr) \<longrightarrow> pr = p_priority pc"
  shows "\<exists>t. free_process_resources M p True s = Ret ((), t) \<and> heap rk k t (R |` (- set (proc_blocks s p pc))) \<and>
    rlists t = (\<lambda>pr. removeAll p (rlists s pr)) \<and> procs t = (procs s)(p := None) \<and>
    running_process t = (if running_process s = p then null else running_process s) \<and>
    same s (t\<lparr>argvs := argvs s, strs := strs s\<rparr>)"
proof -
  let ?R = "R |` (- set (args_of s pc @ (if p_stackBase pc = null then [] else [p_stackBase pc])))"
  from free_args_stack_run [OF h a d] obtain m av st where
    m: "free_args_stack M pc s = Ret ((), s\<lparr>mem := m, argvs := av, strs := st\<rparr>)" "heap rk k (s\<lparr>mem := m\<rparr>) ?R" by blast
  let ?s = "s\<lparr>mem := m, argvs := av, strs := st\<rparr>"
  have "heap rk k ?s ?R" using m(2) by simp
  from remove_from_ready_run [OF this, of p pc] p q home obtain t where
    t: "remove_from_all_priority_queues M p ?s = Ret ((), t)" "heap rk k t ?R" "rlists t = (\<lambda>pr. removeAll p (rlists s pr))"
      "procs t = procs s" "same ?s t" "running_process t = running_process s" by (auto simp: pid_at_def)
  let ?t = "if running_process t = p then t\<lparr>running_process := null\<rparr> else t"
  have rem: "remove_process_from_scheduler M p ?s = Ret ((), ?t)"
    using p t(1) by (simp add: remove_process_from_scheduler_def run_simps)
  have "heap rk k ?t ?R" using t(2) by simp
  moreover have "p \<in> dom ?R" using d by (auto simp: proc_blocks_def)
  ultimately obtain m' where f: "mm_free M p ?t = Ret ((), ?t\<lparr>mem := m'\<rparr>)" "heap rk k (?t\<lparr>mem := m'\<rparr>) (?R(p := None))"
    using heap_mm_free by blast
  let ?u = "?t\<lparr>mem := m', procs := (procs s)(p := None)\<rparr>"
  have "proc_blocks s p pc = (args_of s pc @ (if p_stackBase pc = null then [] else [p_stackBase pc])) @ [p]"
    by (simp add: proc_blocks_def)
  then have "?R(p := None) = R |` (- set (proc_blocks s p pc))" by (metis restrict_remove)
  then have "heap rk k ?u (R |` (- set (proc_blocks s p pc)))" using f(2) by simp
  moreover have "free_process_resources M p True s = Ret ((), ?u)"
    using p(1,3) m(1) rem f(1) t(4) by (simp add: free_process_resources_def run_simps del: if_split)
  moreover have "same s (?u\<lparr>argvs := argvs s, strs := strs s\<rparr>)" using t(5) by (cases s, cases t) (simp add: same_def)
  ultimately show ?thesis using t(3,6) by (intro exI [of _ ?u]) simp
qed

end

section \<open>The invariant of the process table\<close>

text \<open>Every process that is queued or runs is in the table, and the scheduler's invariant holds.\<close>

definition listed :: "'m kst \<Rightarrow> addr \<Rightarrow> bool" where
  "listed s a \<longleftrightarrow> (\<exists>i. at_pid s i = a)"

definition proc_inv :: "'m kst \<Rightarrow> bool" where
  "proc_inv s \<longleftrightarrow> table_ok s \<and> sched_ok s \<and> (\<forall>a\<in>set (all_ready (rlists s)). listed s a) \<and>
     (running_process s \<noteq> null \<longrightarrow> listed s (running_process s) \<and> p_state (the (procs s (running_process s))) = RUNNING)"

lemma listed_pid:
  assumes "table_ok s" and "listed s a" and "a \<noteq> null"
  obtains pc where "procs s a = Some pc" and "at_pid s (p_pid pc) = a" and "kids_ok pc"
  using assms by (auto simp: table_ok_def listed_def)

lemma listed_pid_inj:
  assumes "table_ok s" and "listed s a" and "a \<noteq> null" and "listed s b" and "b \<noteq> null" and "pid_at s a = pid_at s b"
  shows "a = b"
  using listed_pid [OF assms(1,2,3)] listed_pid [OF assms(1,4,5)] assms(6) by (metis option.sel pid_at_def)

lemma proc_invI:
  assumes t: "table_ok s" and i: "idle_proc s \<noteq> null" "procs s (idle_proc s) \<noteq> None" and d: "distinct (all_ready (rlists s))"
    and w: "\<And>a. a \<in> set (all_ready (rlists s)) \<Longrightarrow> wait_ok (idle_proc s) (procs s) a \<and> listed s a"
    and r: "running_process s \<noteq> null \<Longrightarrow> running_process s \<notin> set (all_ready (rlists s)) \<and> listed s (running_process s) \<and>
      p_state (the (procs s (running_process s))) = RUNNING \<and> (running_process s \<noteq> idle_proc s \<longrightarrow> is_prio (p_priority (the (procs s (running_process s)))))"
  shows "proc_inv s"
proof -
  have nn: "a \<noteq> null \<and> listed s a" if "a \<in> set (all_ready (rlists s))" for a using w [OF that] by (simp add: wait_ok_def)
  have "inj_on (\<lambda>a. p_pid (the (procs s a))) (set (all_ready (rlists s)))"
    by (rule inj_onI) (use listed_pid_inj [OF t] nn in \<open>auto simp: pid_at_def\<close>)
  then have "queued_ok (idle_proc s) (view s)" using i d w by (simp add: queued_ok_def)
  moreover have "running_ok (idle_proc s) (running_process s) (view s)"
  proof (cases "running_process s = null")
    case False
    let ?r = "running_process s"
    from r [OF False] listed_pid [OF t _ False] obtain pc where pc: "procs s ?r = Some pc" by blast
    have "p_pid (the (procs s a)) \<noteq> p_pid pc" if "a \<in> set (all_ready (rlists s))" for a
      using listed_pid_inj [OF t _ _ _ False, of a] nn [OF that] r [OF False] that pc by (auto simp: pid_at_def)
    with r [OF False] pc show ?thesis by (auto simp: running_ok_def)
  qed (simp add: running_ok_def)
  ultimately show ?thesis using t w r by (auto simp: proc_inv_def sched_ok_def)
qed

text \<open>Handing over the children keeps what the scheduler and the table look at.\<close>

lemma kids_ok_adopted: "kids_ok pc \<Longrightarrow> kids_ok (adopted s ini cs a pc)"
  using fold_with_kid [of pc "filter (alive s) cs"] by (auto simp: adopted_def fold_with_kid_ppid kids_ok_def)

lemma orphaned_None: "procs s d = Some dc \<Longrightarrow> orphaned s d dc b = None \<longleftrightarrow> procs s b = None"
  by (auto simp: orphaned_def adopt_def)

lemma orphaned_Some:
  assumes "procs s d = Some dc" and "procs s b = Some bc"
  obtains bc' where "orphaned s d dc b = Some bc'" "p_pid bc' = p_pid bc" "p_state bc' = p_state bc" "p_priority bc' = p_priority bc"
    "p_argv bc' = p_argv bc" "p_argc bc' = p_argc bc" "p_stackBase bc' = p_stackBase bc" "kids_ok bc \<Longrightarrow> kids_ok bc'"
proof (cases "at_pid s INIT_PID = null")
  case True
  with assms that show thesis by (simp add: orphaned_def)
next
  case False
  let ?f = "adopted s (at_pid s INIT_PID) (kids dc) b bc"
  have "orphaned s d dc b = Some (if b = d then ?f\<lparr>p_child_count := 0\<rparr> else ?f)"
    using assms False by (auto simp: orphaned_def adopt_def)
  moreover have "kids_ok (?f\<lparr>p_child_count := 0\<rparr>)" if "kids_ok bc"
    using kids_ok_adopted [OF that, of s "at_pid s INIT_PID" "kids dc" b] by (simp add: kids_ok_def)
  ultimately show thesis
    by (intro that [of "if b = d then ?f\<lparr>p_child_count := 0\<rparr> else ?f"]) (auto simp: kids_ok_adopted)
qed

text \<open>A process that may be killed by another: in the table, not idle and not init, on the standard
  descriptors, queued where its priority says or nowhere, and owner of its blocks.\<close>

definition victim_ok :: "'m kst \<Rightarrow> (addr \<rightharpoonup> nat) \<Rightarrow> addr queue \<Rightarrow> int \<Rightarrow> addr \<Rightarrow> process \<Rightarrow> bool" where
  "victim_ok s R q pid p pc \<longleftrightarrow> 1 < pid \<and> at_pid s pid = p \<and> p \<noteq> null \<and> p \<noteq> idle_proc s \<and> procs s p = Some pc \<and>
     p_targetByFd pc ! 0 \<in> {STDIN, STDOUT} \<and> p_targetByFd pc ! 1 \<in> {STDIN, STDOUT} \<and> is_prio (p_priority pc) \<and> argv_ok s pc \<and>
     (\<forall>pr. p \<in> set (rlists s pr) \<longrightarrow> pr = p_priority pc) \<and> own_cells R (sem_cells s q @ [proc_blocks s p pc])"

lemma victim_pid: "victim_ok s R q pid p pc \<Longrightarrow> 0 \<le> pid \<and> pid < int MAX_PROCESSES \<and> pid \<noteq> INIT_PID"
  by (auto simp: victim_ok_def at_pid_def INIT_PID_def split: if_splits)

text \<open>The lists and control blocks after a kill: the children are handed over, the waiting process is
  woken, and the control block is gone.\<close>

definition killed :: "'m kst \<Rightarrow> addr \<Rightarrow> addr \<Rightarrow> process \<Rightarrow> sched_view" where
  "killed s a p pc =
     (let st = notified (s\<lparr>procs := orphaned s p pc\<rparr>) a in (\<lambda>pr. removeAll p (fst st pr), (snd st)(p := None)))"

lemma notified_view:
  assumes w: "\<forall>w\<in>set (take 1 (sem_blocked s a)). waiter_ok s w"
  shows "set (all_ready (fst (notified s a))) = set (all_ready (rlists s)) \<union> at_pid s ` set (take 1 (sem_blocked s a))"
    and "distinct (all_ready (rlists s)) \<Longrightarrow> at_pid s ` set (take 1 (sem_blocked s a)) \<inter> set (all_ready (rlists s)) = {} \<Longrightarrow>
      distinct (all_ready (fst (notified s a)))"
    and "snd (notified s a) = (\<lambda>b. if b \<in> at_pid s ` set (take 1 (sem_blocked s a))
      then map_option (\<lambda>pc. pc\<lparr>p_state := READY\<rparr>) (procs s b) else procs s b)"
proof (atomize (full), cases "sem_blocked s a")
  case Nil
  then show "set (all_ready (fst (notified s a))) = set (all_ready (rlists s)) \<union> at_pid s ` set (take 1 (sem_blocked s a)) \<and>
    (distinct (all_ready (rlists s)) \<longrightarrow> at_pid s ` set (take 1 (sem_blocked s a)) \<inter> set (all_ready (rlists s)) = {} \<longrightarrow>
      distinct (all_ready (fst (notified s a)))) \<and>
    snd (notified s a) = (\<lambda>b. if b \<in> at_pid s ` set (take 1 (sem_blocked s a))
      then map_option (\<lambda>pc. pc\<lparr>p_state := READY\<rparr>) (procs s b) else procs s b)"
    by (simp add: notified_def)
next
  case (Cons pid pids)
  with w obtain pc where pc: "procs s (at_pid s pid) = Some pc" "is_prio (p_priority pc)" "at_pid s pid = process_table s ! nat pid"
    by (auto simp: waiter_ok_def at_pid_def)
  have n: "notified s a = ((rlists s)(p_priority pc := rlists s (p_priority pc) @ [at_pid s pid]),
      (procs s)(at_pid s pid \<mapsto> pc\<lparr>p_state := READY\<rparr>))" using Cons pc by (simp add: notified_def Let_def)
  have m: "mset (all_ready (fst (notified s a))) = mset (at_pid s pid # all_ready (rlists s))"
    using mset_add_last [OF pc(2)] n by simp
  from mset_eq_setD [OF m] mset_eq_imp_distinct_iff [OF m] Cons pc(1) n
  show "set (all_ready (fst (notified s a))) = set (all_ready (rlists s)) \<union> at_pid s ` set (take 1 (sem_blocked s a)) \<and>
    (distinct (all_ready (rlists s)) \<longrightarrow> at_pid s ` set (take 1 (sem_blocked s a)) \<inter> set (all_ready (rlists s)) = {} \<longrightarrow>
      distinct (all_ready (fst (notified s a)))) \<and>
    snd (notified s a) = (\<lambda>b. if b \<in> at_pid s ` set (take 1 (sem_blocked s a))
      then map_option (\<lambda>pc. pc\<lparr>p_state := READY\<rparr>) (procs s b) else procs s b)"
    by (auto simp: fun_eq_iff)
qed

lemma notified_in:
  assumes "\<forall>w\<in>set (take 1 (sem_blocked s a)). waiter_ok s w" and "b \<in> set (fst (notified s a) pr)"
  shows "b \<in> set (rlists s pr) \<or> b \<in> at_pid s ` set (take 1 (sem_blocked s a))"
  using assms by (cases "sem_blocked s a") (auto simp: notified_def at_pid_def waiter_ok_def Let_def split: if_splits)

lemma all_ready_removeAll: "all_ready (\<lambda>pr. removeAll p (rd pr)) = removeAll p (all_ready rd)"
  by (simp add: all_ready_def)

text \<open>Handing over children does not change who waits or who may be woken.\<close>

lemma orphaned_sems:
  "sem_blocked (s\<lparr>procs := pm\<rparr>) = sem_blocked s" "sem_value (s\<lparr>procs := pm\<rparr>) = sem_value s" "named (s\<lparr>procs := pm\<rparr>) = named s"
  "sem_cells (s\<lparr>procs := pm\<rparr>) = sem_cells s"
  by (simp_all add: fun_eq_iff sem_blocked_def sem_value_def blk_def named_def sem_cells_def)

lemma waiter_ok_orphaned:
  assumes "procs s d = Some dc" and "waiter_ok s w"
  shows "waiter_ok (s\<lparr>procs := orphaned s d dc\<rparr>) w"
proof -
  from assms(2) obtain pc where pc: "procs s (process_table s ! nat w) = Some pc" "p_pid pc \<noteq> 1" "p_state pc = BLOCKED"
    "is_prio (p_priority pc)" by (auto simp: waiter_ok_def)
  from orphaned_Some [OF assms(1) pc(1)] pc assms(2) show ?thesis unfolding waiter_ok_def by fastforce
qed

text \<open>A process that waits on a semaphore is in no ready queue, and differs from the process that is killed.\<close>

lemma waiter_listed: "waiter_ok s w \<Longrightarrow> listed s (at_pid s w) \<and> at_pid s w \<noteq> null"
  by (auto simp: waiter_ok_def at_pid_def listed_def) (metis linorder_not_less)

lemma waiter_not_ready:
  assumes "proc_inv s" and "waiter_ok s w"
  shows "at_pid s w \<notin> set (all_ready (rlists s))"
  using assms by (auto simp: proc_inv_def sched_ok_def queued_ok_def wait_ok_def waiter_ok_def at_pid_def)

lemma killed_procs:
  assumes v: "procs s p = Some pc" and w: "\<forall>w\<in>set (take 1 (sem_blocked s a)). waiter_ok s w"
    and b: "procs s b = Some bc" "b \<noteq> p"
  obtains bc' where "snd (killed s a p pc) b = Some bc'" "p_pid bc' = p_pid bc" "p_priority bc' = p_priority bc"
    "p_state bc' = (if b \<in> at_pid s ` set (take 1 (sem_blocked s a)) then READY else p_state bc)" "kids_ok bc \<Longrightarrow> kids_ok bc'"
proof -
  let ?s = "s\<lparr>procs := orphaned s p pc\<rparr>"
  from orphaned_Some [OF v b(1)] obtain c where c: "orphaned s p pc b = Some c" "p_pid c = p_pid bc" "p_state c = p_state bc"
    "p_priority c = p_priority bc" "kids_ok bc \<Longrightarrow> kids_ok c" by metis
  have "\<forall>w\<in>set (take 1 (sem_blocked ?s a)). waiter_ok ?s w" using w waiter_ok_orphaned [OF v] by (simp add: orphaned_sems)
  from notified_view(3) [OF this] c(1)
  have "snd (notified ?s a) b = Some (if b \<in> at_pid s ` set (take 1 (sem_blocked s a)) then c\<lparr>p_state := READY\<rparr> else c)"
    by (simp add: orphaned_sems alive_adopt)
  with b(2) c(2-) show thesis
    by (intro that [of "if b \<in> at_pid s ` set (take 1 (sem_blocked s a)) then c\<lparr>p_state := READY\<rparr> else c"])
       (auto simp: killed_def Let_def kids_ok_def)
qed

lemma killed_ready:
  assumes v: "procs s p = Some pc" and w: "\<forall>w\<in>set (take 1 (sem_blocked s a)). waiter_ok s w"
  shows "set (all_ready (fst (killed s a p pc))) = set (all_ready (rlists s)) \<union> at_pid s ` set (take 1 (sem_blocked s a)) - {p}"
    and "proc_inv s \<Longrightarrow> distinct (all_ready (fst (killed s a p pc)))"
proof -
  let ?s = "s\<lparr>procs := orphaned s p pc\<rparr>"
  have "\<forall>w\<in>set (take 1 (sem_blocked ?s a)). waiter_ok ?s w" using w waiter_ok_orphaned [OF v] by (simp add: orphaned_sems)
  note n = notified_view(1,2) [OF this]
  show "set (all_ready (fst (killed s a p pc))) = set (all_ready (rlists s)) \<union> at_pid s ` set (take 1 (sem_blocked s a)) - {p}"
    using n(1) by (simp add: killed_def Let_def all_ready_removeAll orphaned_sems alive_adopt)
  assume inv: "proc_inv s"
  have "at_pid s ` set (take 1 (sem_blocked s a)) \<inter> set (all_ready (rlists s)) = {}"
    using waiter_not_ready [OF inv] w by auto
  then have "distinct (all_ready (fst (notified ?s a)))"
    using n(2) inv by (simp add: orphaned_sems alive_adopt proc_inv_def sched_ok_def queued_ok_def)
  then show "distinct (all_ready (fst (killed s a p pc)))"
    by (simp add: killed_def Let_def all_ready_removeAll distinct_removeAll)
qed

lemma at_pid_removed:
  assumes "process_table t = (process_table s)[nat pid := null]" and "0 \<le> pid" and "length (process_table s) = MAX_PROCESSES"
  shows "at_pid t i = (if i = pid then null else at_pid s i)"
  using assms by (auto simp: at_pid_def nth_list_update nat_eq_iff)

lemma kill_inv:
  assumes inv: "proc_inv s" and v: "victim_ok s R q pid p pc" and w: "\<forall>w\<in>set (take 1 (sem_blocked s a)). waiter_ok s w \<and> w \<noteq> pid"
    and t: "view t = killed s a p pc" "process_table t = (process_table s)[nat pid := null]" "idle_proc t = idle_proc s"
      "running_process t = running_process s" and run: "running_process s \<noteq> p"
  shows "proc_inv t"
proof (rule proc_invI)
  have tab: "table_ok s" and sched: "queued_ok (idle_proc s) (view s)" "running_ok (idle_proc s) (running_process s) (view s)"
    and lst: "\<forall>a\<in>set (all_ready (rlists s)). listed s a" "running_process s \<noteq> null \<Longrightarrow> listed s (running_process s)"
      "running_process s \<noteq> null \<Longrightarrow> p_state (the (procs s (running_process s))) = RUNNING"
    using inv by (auto simp: proc_inv_def sched_ok_def)
  have p: "procs s p = Some pc" "at_pid s pid = p" "p \<noteq> null" "p \<noteq> idle_proc s" using v by (auto simp: victim_ok_def)
  have w': "\<forall>w\<in>set (take 1 (sem_blocked s a)). waiter_ok s w" using w by blast
  have pm: "procs t = snd (killed s a p pc)" and rd: "rlists t = fst (killed s a p pc)" using t(1) by (metis snd_conv, metis fst_conv)
  note kp = killed_procs [OF p(1) w', folded pm]
  note kr = killed_ready [OF p(1) w', folded rd]
  have at: "at_pid t i = (if i = pid then null else at_pid s i)" for i
    by (rule at_pid_removed [OF t(2)]) (use victim_pid [OF v] tab in \<open>auto simp: table_ok_def\<close>)
  have keep: "listed t b" if "listed s b" "b \<noteq> null" "b \<noteq> p" for b using that p(2) unfolding listed_def at by metis
  show "table_ok t"
    unfolding table_ok_def
  proof (intro conjI allI impI)
    show "length (process_table t) = MAX_PROCESSES" using tab t(2) by (simp add: table_ok_def)
    fix i assume i: "at_pid t i \<noteq> null"
    then have "at_pid s i \<noteq> null" "i \<noteq> pid" by (auto simp: at split: if_splits)
    then obtain bc where "procs s (at_pid s i) = Some bc" "p_pid bc = i" "kids_ok bc" "at_pid s i \<noteq> p"
      using tab p(2) table_ok_pid [OF tab, of i pid] by (auto simp: table_ok_def)
    with kp [of "at_pid s i" bc] \<open>i \<noteq> pid\<close> show "\<exists>pc. procs t (at_pid t i) = Some pc \<and> p_pid pc = i \<and> kids_ok pc"
      by (metis at)
  qed
  show "idle_proc t \<noteq> null" using sched(1) t(3) by (simp add: queued_ok_def)
  show "procs t (idle_proc t) \<noteq> None"
  proof -
    from sched(1) obtain bc where "procs s (idle_proc s) = Some bc" by (auto simp: queued_ok_def)
    with kp [of "idle_proc s" bc] p(4) t(3) show ?thesis by fastforce
  qed
  show "distinct (all_ready (rlists t))" by (rule kr(2) [OF inv])
  show "wait_ok (idle_proc t) (procs t) b \<and> listed t b" if b: "b \<in> set (all_ready (rlists t))" for b
  proof -
    have "\<exists>bc. procs s b = Some bc \<and> b \<noteq> null \<and> b \<noteq> idle_proc s \<and> is_prio (p_priority bc) \<and> listed s b \<and>
        (p_state bc = READY \<or> b \<in> at_pid s ` set (take 1 (sem_blocked s a)))"
    proof (cases "b \<in> set (all_ready (rlists s))")
      case True
      with sched(1) lst(1) show ?thesis by (auto simp: queued_ok_def wait_ok_def)
    next
      case False
      with b kr(1) obtain u where u: "u \<in> set (take 1 (sem_blocked s a))" "b = at_pid s u" by auto
      with w' have "waiter_ok s u" by blast
      moreover have "listed s b" using u(2) by (auto simp: listed_def)
      ultimately show ?thesis using u by (auto simp: waiter_ok_def at_pid_def)
    qed
    moreover have "b \<noteq> p" using b unfolding kr(1) by auto
    ultimately obtain bc where bc: "procs s b = Some bc" "b \<noteq> null" "b \<noteq> idle_proc s" "is_prio (p_priority bc)" "listed s b" "b \<noteq> p"
      "p_state bc = READY \<or> b \<in> at_pid s ` set (take 1 (sem_blocked s a))" by blast
    from kp [OF bc(1,6)] obtain bc' where "procs t b = Some bc'" "p_priority bc' = p_priority bc" "p_state bc' = READY"
      using bc(7) by metis
    with bc keep [OF bc(5,2,6)] t(3) show ?thesis by (simp add: wait_ok_def)
  qed
  assume nz: "running_process t \<noteq> null"
  let ?r = "running_process s"
  have r: "?r \<noteq> null" "?r \<notin> set (all_ready (rlists s))" using nz t(4) sched(2) by (auto simp: running_ok_def)
  from sched(2) r(1) obtain bc where bc: "procs s ?r = Some bc" "?r \<noteq> idle_proc s \<longrightarrow> is_prio (p_priority bc)"
    by (auto simp: running_ok_def)
  have nw: "?r \<notin> at_pid s ` set (take 1 (sem_blocked s a))"
    using lst(3) [OF r(1)] w' bc(1) by (auto simp: waiter_ok_def at_pid_def)
  then obtain bc' where bc': "procs t ?r = Some bc'" "p_priority bc' = p_priority bc" "p_state bc' = RUNNING"
    using kp [OF bc(1) run] lst(3) [OF r(1)] bc(1) by (metis option.sel)
  from nw show "running_process t \<notin> set (all_ready (rlists t)) \<and> listed t (running_process t) \<and>
      p_state (the (procs t (running_process t))) = RUNNING \<and> (running_process t \<noteq> idle_proc t \<longrightarrow> is_prio (p_priority (the (procs t (running_process t)))))"
    using r bc(2) bc' t(3,4) keep [OF lst(2)] run unfolding kr(1) by auto
qed

text \<open>Running the first parts of a sequence.\<close>

lemma sq_three: "sq A (sq B C) s = Ret ((), t) \<Longrightarrow> sq A (sq B (sq C D)) s = D t"
  by (auto simp: sq_def bnd_def split: outcome.splits)

lemma sq_four: "sq A (sq B (sq C D)) s = Ret ((), t) \<Longrightarrow> sq A (sq B (sq C (sq D E))) s = E t"
  by (auto simp: sq_def bnd_def split: outcome.splits)

text \<open>Between the post and the removal the dying process is still as it was, and nobody else has its pid.\<close>

lemma kill_mid:
  assumes inv: "proc_inv s" and v: "victim_ok s R q pid p pc" and w: "\<forall>w\<in>set (take 1 (sem_blocked s a)). waiter_ok s w \<and> w \<noteq> pid"
    and t: "view t = notified (s\<lparr>procs := orphaned s p pc\<rparr>) a" "argvs t = argvs s"
  obtains pc' where "procs t p = Some pc'" "p_priority pc' = p_priority pc" "argv_ok t pc'" "proc_blocks t p pc' = proc_blocks s p pc"
    "distinct (all_ready (rlists t))" "\<forall>a\<in>set (all_ready (rlists t)). procs t a \<noteq> None \<and> (a \<noteq> p \<longrightarrow> pid_at t a \<noteq> p_pid pc')"
    "\<forall>pr. p \<in> set (rlists t pr) \<longrightarrow> pr = p_priority pc"
proof -
  let ?s = "s\<lparr>procs := orphaned s p pc\<rparr>" and ?W = "at_pid s ` set (take 1 (sem_blocked s a))"
  have tab: "table_ok s" and lst: "\<forall>a\<in>set (all_ready (rlists s)). listed s a \<and> a \<noteq> null"
    and dist: "distinct (all_ready (rlists s))"
    using inv by (auto simp: proc_inv_def sched_ok_def queued_ok_def wait_ok_def)
  have p: "procs s p = Some pc" "at_pid s pid = p" "p \<noteq> null" "argv_ok s pc"
    "\<forall>pr. p \<in> set (rlists s pr) \<longrightarrow> pr = p_priority pc" using v by (auto simp: victim_ok_def)
  have w': "\<forall>w\<in>set (take 1 (sem_blocked s a)). waiter_ok s w" using w by blast
  have ws: "\<forall>w\<in>set (take 1 (sem_blocked ?s a)). waiter_ok ?s w" using w' waiter_ok_orphaned [OF p(1)] by (simp add: orphaned_sems)
  have pm: "procs t = snd (notified ?s a)" and rd: "rlists t = fst (notified ?s a)" using t(1) by (metis snd_conv, metis fst_conv)
  note n = notified_view [OF ws, folded pm rd, unfolded orphaned_sems alive_adopt]
  have pW: "p \<notin> ?W"
  proof
    assume "p \<in> ?W"
    then obtain u where "u \<in> set (take 1 (sem_blocked s a))" "at_pid s u = at_pid s pid" using p(2) by auto
    with w table_ok_pid [OF tab, of u pid] p(2,3) show False by auto
  qed
  obtain pc' where pc': "orphaned s p pc p = Some pc'" "p_pid pc' = p_pid pc" "p_priority pc' = p_priority pc"
    "p_argv pc' = p_argv pc" "p_argc pc' = p_argc pc" "p_stackBase pc' = p_stackBase pc"
    using orphaned_Some [OF p(1) p(1)] by metis
  have tp: "procs t p = Some pc'" using n(3) pW pc'(1) by simp
  have all: "listed s b \<and> b \<noteq> null" if "b \<in> set (all_ready (rlists t))" for b
    using that lst w' waiter_listed [of s] unfolding n(1) by auto
  have "procs t b \<noteq> None \<and> (b \<noteq> p \<longrightarrow> pid_at t b \<noteq> p_pid pc')" if b: "b \<in> set (all_ready (rlists t))" for b
  proof (cases "b = p")
    case True
    with tp show ?thesis by simp
  next
    case False
    from listed_pid [OF tab] all [OF b] obtain bc where bc: "procs s b = Some bc" by blast
    from killed_procs [OF p(1) w' bc False] obtain bc' where "snd (killed s a p pc) b = Some bc'" "p_pid bc' = p_pid bc" by blast
    then have "procs t b = Some bc'" "pid_at t b = pid_at s b" using False bc by (simp_all add: killed_def Let_def pm [symmetric] pid_at_def)
    moreover have "pid_at s b \<noteq> pid_at s p"
      using listed_pid_inj [OF tab, of b p] all [OF b] False p(2,3) by (auto simp: listed_def)
    ultimately show ?thesis using pc'(2) p(1) by (simp add: pid_at_def)
  qed
  moreover have "distinct (all_ready (rlists t))"
    by (rule n(2)) (use dist waiter_not_ready [OF inv] w' in auto)
  moreover have "\<forall>pr. p \<in> set (rlists t pr) \<longrightarrow> pr = p_priority pc"
    using notified_in [OF ws] p(5) pW unfolding rd by (auto simp: orphaned_sems alive_adopt)
  ultimately show thesis using that [OF tp pc'(3)] p(4) pc' t(2) by (auto simp: argv_ok_def proc_blocks_def args_of_def)
qed

context memory_room
begin

text \<open>The last part of \<open>kill_process\<close>: the control block leaves the table, the queues and the memory.\<close>

lemma kill_end_run:
  assumes h: "heap rk k s R" and sh: "sem_heap s R q" and o: "own_cells R (sem_cells s q @ [proc_blocks s p pc])"
    and a: "argv_ok s pc" and p: "p \<noteq> null" "p \<noteq> idle_proc s" "procs s p = Some pc" "is_prio (p_priority pc)"
    and pid: "0 \<le> pid" "pid < int MAX_PROCESSES"
    and q: "distinct (all_ready (rlists s))" "\<forall>a\<in>set (all_ready (rlists s)). procs s a \<noteq> None \<and> (a \<noteq> p \<longrightarrow> pid_at s a \<noteq> p_pid pc)"
    and home: "\<forall>pr. p \<in> set (rlists s pr) \<longrightarrow> pr = p_priority pc" and run: "running_process s \<noteq> p"
  shows "\<exists>t. sq (upd_proc p (\<lambda>pc. pc\<lparr>p_state := TERMINATED\<rparr>)) (sq (remove_from_process_table pid)
      (sq (upd (\<lambda>s. if shell_proc s = p then s\<lparr>shell_proc := null\<rparr> else s)) (free_process_resources M p True))) s = Ret ((), t) \<and>
    heap rk k t (R |` (- set (proc_blocks s p pc))) \<and> sem_heap t (R |` (- set (proc_blocks s p pc))) q \<and>
    rlists t = (\<lambda>pr. removeAll p (rlists s pr)) \<and> procs t = (procs s)(p := None) \<and>
    process_table t = (process_table s)[nat pid := null] \<and> running_process t = running_process s \<and> idle_proc t = idle_proc s \<and>
    sems t = sems s"
proof -
  let ?pc = "pc\<lparr>p_state := TERMINATED\<rparr>"
  let ?s = "s\<lparr>procs := (procs s)(p \<mapsto> ?pc), process_table := (process_table s)[nat pid := null],
    shell_proc := (if shell_proc s = p then null else shell_proc s)\<rparr>"
  have b: "proc_blocks ?s p ?pc = proc_blocks s p pc" by (simp add: proc_blocks_def args_of_def)
  have d: "distinct (proc_blocks s p pc)" "set (proc_blocks s p pc) \<subseteq> dom R" using o by (auto simp: own_cells_def)
  have pre: "sq (upd_proc p (\<lambda>pc. pc\<lparr>p_state := TERMINATED\<rparr>)) (sq (remove_from_process_table pid)
      (sq (upd (\<lambda>s. if shell_proc s = p then s\<lparr>shell_proc := null\<rparr> else s)) (free_process_resources M p True))) s =
      free_process_resources M p True ?s"
    using p(3) pid by (simp add: run_simps remove_from_process_table_def)
  have "\<exists>t. free_process_resources M p True ?s = Ret ((), t) \<and> heap rk k t (R |` (- set (proc_blocks ?s p ?pc))) \<and>
      rlists t = (\<lambda>pr. removeAll p (rlists ?s pr)) \<and> procs t = (procs ?s)(p := None) \<and>
      running_process t = (if running_process ?s = p then null else running_process ?s) \<and>
      same ?s (t\<lparr>argvs := argvs ?s, strs := strs ?s\<rparr>)"
  proof (rule free_process_run)
    show "heap rk k ?s R" using h by simp
    show "argv_ok ?s ?pc" using a by (simp add: argv_ok_def)
    show "distinct (proc_blocks ?s p ?pc)" "set (proc_blocks ?s p ?pc) \<subseteq> dom R" using d b by simp_all
    show "\<forall>a\<in>set (all_ready (rlists ?s)). procs ?s a \<noteq> None \<and> (a \<noteq> p \<longrightarrow> pid_at ?s a \<noteq> p_pid ?pc)"
      using q(2) by (auto simp: pid_at_def)
  qed (use p q(1) home in simp_all)
  then obtain t where
    t: "free_process_resources M p True ?s = Ret ((), t)" "heap rk k t (R |` (- set (proc_blocks s p pc)))"
      "rlists t = (\<lambda>pr. removeAll p (rlists s pr))" "procs t = (procs s)(p := None)"
      "running_process t = (if running_process s = p then null else running_process s)"
      "same ?s (t\<lparr>argvs := argvs s, strs := strs s\<rparr>)" unfolding b by auto
  have f: "sems t = sems s" "registry t = registry s" "idle_proc t = idle_proc s" "process_table t = (process_table s)[nat pid := null]"
    using same_fields(1-4) [OF t(6)] by simp_all
  have cells: "sem_cells t q = sem_cells s q" using f(1) by (simp add: sem_cells_def blk_def)
  have "own_cells (R |` (- set (proc_blocks s p pc))) (sem_cells t q)"
    unfolding cells using o by (auto simp: own_cells_def)
  then have "sem_heap t (R |` (- set (proc_blocks s p pc))) q" using sh f by (simp add: sem_heap_def sem_ok_def)
  with t f run pre show ?thesis by (intro exI [of _ t]) simp
qed

text \<open>The first part: the children and the wait semaphore.\<close>

lemma kill_start_run:
  assumes h: "heap rk (k + 6) s R" and sh: "sem_heap s R q" and small: "16 \<le> small" and tab: "table_ok s"
    and v: "victim_ok s R q pid p pc" and a: "named s q (wait_name pid) = Some a" "s_users (the (sems s a)) \<noteq> 0"
    and w: "\<forall>w\<in>set (take 1 (sem_blocked s a)). waiter_ok s w"
  shows "\<exists>t R' q'. sq (leave_pipes M pid pc) (sq (reparent_children pid) (post_wait_semaphore M pid)) s = Ret ((), t) \<and>
    heap rk k t R' \<and> sem_heap t R' q' \<and> own_cells R' (sem_cells t q' @ [proc_blocks s p pc]) \<and>
    view t = notified (s\<lparr>procs := orphaned s p pc\<rparr>) a \<and> sem_blocked t a = tl (sem_blocked s a) \<and>
    sem_value t a = (if sem_blocked s a = [] then sem_value s a + 1 else sem_value s a) \<and> vals q' = vals q \<and>
    (\<forall>b. b \<noteq> a \<longrightarrow> sems t b = sems s b) \<and> running_process t = running_process s \<and>
    same s (t\<lparr>sems := sems s, registry := registry s\<rparr>)"
proof -
  let ?s = "s\<lparr>procs := orphaned s p pc\<rparr>"
  have p: "procs s p = Some pc" "at_pid s pid = p" "p \<noteq> null" "own_cells R (sem_cells s q @ [proc_blocks s p pc])"
    and std: "p_targetByFd pc ! 0 \<in> {STDIN, STDOUT}" "p_targetByFd pc ! 1 \<in> {STDIN, STDOUT}" using v by (auto simp: victim_ok_def)
  have pid: "0 \<le> pid" "pid < int MAX_PROCESSES" "pid \<noteq> INIT_PID" using victim_pid [OF v] by auto
  have leave: "leave_pipes M pid pc s = Ret ((), s)" using std by (auto simp: leave_pipes_def run_simps Let_def)
  have re: "reparent_children pid s = Ret ((), ?s)" by (rule reparent_children_run [OF tab p(2,3,1) pid(3)])
  have "\<exists>t R' q'. post_wait_semaphore M pid ?s = Ret ((), t) \<and> heap rk k t R' \<and> sem_heap t R' q' \<and> vals q' = vals q \<and>
    own_cells R' (sem_cells t q' @ [proc_blocks s p pc]) \<and> (rlists t, procs t) = notified ?s a \<and>
    sem_blocked t a = tl (sem_blocked ?s a) \<and>
    sem_value t a = (if sem_blocked ?s a = [] then sem_value ?s a + 1 else sem_value ?s a) \<and>
    (\<forall>b. b \<noteq> a \<longrightarrow> sems t b = sems ?s b) \<and> running_process t = running_process ?s \<and>
    same ?s (t\<lparr>sems := sems ?s, registry := registry ?s\<rparr>)"
  proof (rule post_wait_run)
    show "heap rk (k + 6) ?s R" using h by simp
    show "sem_heap ?s R q" by (rule sem_heap_cong [OF sh]) simp_all
    show "\<forall>w\<in>set (take 1 (sem_blocked ?s a)). waiter_ok ?s w"
      using w waiter_ok_orphaned [OF p(1)] by (simp add: orphaned_sems)
  qed (use small pid a p(4) in \<open>simp_all add: orphaned_sems\<close>)
  then obtain t R' q' where t: "post_wait_semaphore M pid ?s = Ret ((), t)" "heap rk k t R'" "sem_heap t R' q'" "vals q' = vals q"
    "own_cells R' (sem_cells t q' @ [proc_blocks s p pc])" "view t = notified ?s a" "sem_blocked t a = tl (sem_blocked s a)"
    "sem_value t a = (if sem_blocked s a = [] then sem_value s a + 1 else sem_value s a)"
    "\<forall>b. b \<noteq> a \<longrightarrow> sems t b = sems s b" "running_process t = running_process s"
    "same ?s (t\<lparr>sems := sems s, registry := registry s\<rparr>)" by (auto simp: orphaned_sems)
  have "same s (t\<lparr>sems := sems s, registry := registry s\<rparr>)" using t(11) by (cases s, cases t) (simp add: same_def)
  with t leave re show ?thesis by (intro exI [of _ t] exI [of _ R'] exI [of _ q']) (simp add: run_simps)
qed

lemma kill_process_run:
  assumes h: "heap rk (k + 6) s R" and sh: "sem_heap s R q" and small: "16 \<le> small" and inv: "proc_inv s"
    and v: "victim_ok s R q pid p pc" and a: "named s q (wait_name pid) = Some a" "s_users (the (sems s a)) \<noteq> 0"
    and w: "\<forall>w\<in>set (take 1 (sem_blocked s a)). waiter_ok s w \<and> w \<noteq> pid" and run: "running_process s \<noteq> p"
  shows "\<exists>t R' q'. kill_process M pid s = Ret (Done 0, t) \<and> heap rk k t R' \<and> sem_heap t R' q' \<and> proc_inv t \<and>
    view t = killed s a p pc \<and> process_table t = (process_table s)[nat pid := null] \<and>
    sem_blocked t a = tl (sem_blocked s a) \<and>
    sem_value t a = (if sem_blocked s a = [] then sem_value s a + 1 else sem_value s a) \<and> vals q' = vals q \<and>
    (\<forall>b. b \<noteq> a \<longrightarrow> sems t b = sems s b) \<and> running_process t = running_process s \<and>
    (\<forall>x\<in>set (proc_blocks s p pc). R' x = None)"
proof -
  let ?s = "s\<lparr>procs := orphaned s p pc\<rparr>"
  have w': "\<forall>w\<in>set (take 1 (sem_blocked s a)). waiter_ok s w" using w by blast
  have tab: "table_ok s" and lst: "\<forall>a\<in>set (all_ready (rlists s)). listed s a" using inv by (auto simp: proc_inv_def)
  have p: "procs s p = Some pc" "at_pid s pid = p" "p \<noteq> null" "p \<noteq> idle_proc s" "is_prio (p_priority pc)" "argv_ok s pc"
    "\<forall>pr. p \<in> set (rlists s pr) \<longrightarrow> pr = p_priority pc" using v by (auto simp: victim_ok_def)
  have pid: "0 \<le> pid" "pid < int MAX_PROCESSES" "pid \<noteq> 0" "pid \<noteq> 1" using v victim_pid [OF v] by (auto simp: victim_ok_def)
  from kill_start_run [OF h sh small tab v a w'] obtain t R' q' where
    t: "sq (leave_pipes M pid pc) (sq (reparent_children pid) (post_wait_semaphore M pid)) s = Ret ((), t)"
      "heap rk k t R'" "sem_heap t R' q'" "own_cells R' (sem_cells t q' @ [proc_blocks s p pc])" "view t = notified ?s a"
      "sem_blocked t a = tl (sem_blocked s a)" "sem_value t a = (if sem_blocked s a = [] then sem_value s a + 1 else sem_value s a)"
      "vals q' = vals q" "\<forall>b. b \<noteq> a \<longrightarrow> sems t b = sems s b" "running_process t = running_process s"
      "same s (t\<lparr>sems := sems s, registry := registry s\<rparr>)" by blast
  have f: "argvs t = argvs s" "process_table t = process_table s" "idle_proc t = idle_proc s"
    using t(11) by (cases s, cases t, simp add: same_def)+
  from kill_mid [OF inv v w t(5) f(1)] obtain pc' where
    m: "procs t p = Some pc'" "p_priority pc' = p_priority pc" "argv_ok t pc'" "proc_blocks t p pc' = proc_blocks s p pc"
      "distinct (all_ready (rlists t))" "\<forall>a\<in>set (all_ready (rlists t)). procs t a \<noteq> None \<and> (a \<noteq> p \<longrightarrow> pid_at t a \<noteq> p_pid pc')"
      "\<forall>pr. p \<in> set (rlists t pr) \<longrightarrow> pr = p_priority pc" by blast
  let ?R = "R' |` (- set (proc_blocks s p pc))"
  from kill_end_run [OF t(2,3) _ m(3) p(3) _ m(1) _ pid(1,2) m(5,6)] t(4,10) m(2,4,7) f(3) p(4,5) run obtain u where
    u: "sq (upd_proc p (\<lambda>pc. pc\<lparr>p_state := TERMINATED\<rparr>)) (sq (remove_from_process_table pid)
      (sq (upd (\<lambda>s. if shell_proc s = p then s\<lparr>shell_proc := null\<rparr> else s)) (free_process_resources M p True))) t = Ret ((), u)"
      "heap rk k u ?R" "sem_heap u ?R q'" "rlists u = (\<lambda>pr. removeAll p (rlists t pr))" "procs u = (procs t)(p := None)"
      "process_table u = (process_table s)[nat pid := null]" "running_process u = running_process s" "idle_proc u = idle_proc s"
      "sems u = sems t" by (auto simp: f(2))
  have view: "view u = killed s a p pc" using u(4,5) t(5) [symmetric] by (simp add: killed_def Let_def)
  have "proc_inv u" by (rule kill_inv [OF inv v w view u(6,8,7) run])
  moreover have "kill_process M pid s = Ret (Done 0, u)"
    using pid(3,4) p(1-3) run
    by (simp add: kill_process_def run_bnd run_gets run_ret run_get_proc get_process_run sq_three [OF t(1)] sq_four [OF u(1)])
  ultimately show ?thesis using u t view
    by (intro exI [of _ u] exI [of _ ?R] exI [of _ q']) (auto simp: sem_blocked_def sem_value_def blk_def)
qed

end

section \<open>Waiting for a child\<close>

lemma drop_child: "drop_child cs pid = remove1 pid cs"
  by (induction cs) auto

text \<open>Forgetting a child removes its first entry from the list of children.\<close>

lemma forget_child:
  assumes "kids_ok pc"
  shows "kids_ok (forget_child c pc) \<and> kids (forget_child c pc) = remove1 c (kids pc)"
proof (cases "c \<in> set (kids pc)")
  case False
  then show ?thesis using assms by (simp add: forget_child_def Let_def remove1_idem kids_def [symmetric])
next
  case True
  let ?n = "nat (p_child_count pc)"
  have len: "length (kids pc) = ?n" using assms by (auto simp: kids_def kids_ok_def)
  with True have n: "length (kids pc) = ?n" "0 < ?n" by (auto intro: length_pos_if_in_set simp flip: len)
  then have "length (remove1 c (kids pc)) = ?n - 1" using True by (simp add: length_remove1)
  moreover have "forget_child c pc = pc\<lparr>p_children := remove1 c (kids pc) @ drop (?n - 1) (p_children pc), p_child_count := p_child_count pc - 1\<rparr>"
    using True by (simp add: forget_child_def Let_def kids_def drop_child)
  moreover have "nat (p_child_count pc - 1) = ?n - 1" by auto
  ultimately show ?thesis using assms n(2) by (auto simp: kids_ok_def kids_def)
qed

lemma forget_child_fields [simp]:
  "p_pid (forget_child c pc) = p_pid pc" "p_state (forget_child c pc) = p_state pc" "p_priority (forget_child c pc) = p_priority pc"
  by (simp_all add: forget_child_def Let_def)

lemma for_each_none: "(\<And>x. x \<in> set xs \<Longrightarrow> f x s = Ret ((), s)) \<Longrightarrow> for_each xs f s = Ret ((), s)"
  by (induction xs) (simp_all add: run_simps)

lemma reap_none_run:
  assumes "table_ok s" and "\<And>i. at_pid s i \<noteq> null \<Longrightarrow> alive s i"
  shows "reap_terminated_processes M s = Ret ((), s)"
  unfolding reap_terminated_processes_def
proof (rule for_each_none)
  fix i assume "i \<in> set [0..<MAX_PROCESSES]"
  show "reap_one M i s = Ret ((), s)"
  proof (cases "at_pid s (int i) = null")
    case True
    then show ?thesis by (simp add: reap_one_def run_simps)
  next
    case False
    then obtain pc where "procs s (at_pid s (int i)) = Some pc" "p_state pc \<noteq> TERMINATED"
      using assms(1) assms(2) [OF False] unfolding table_ok_def alive_def by (metis option.sel)
    with False show ?thesis by (simp add: reap_one_def run_simps)
  qed
qed

context memory_room
begin

text \<open>The code after the wait: the handle and the name are given back and the child is forgotten.\<close>

lemma wait_child_rest_run:
  assumes h: "heap rk (Suc k) s R" and sh: "sem_heap s R q" and small: "16 \<le> small"
    and a: "a \<in> set (vals q)" "s_users (the (sems s a)) \<noteq> 1" and o: "own_cells R (sem_cells s q @ [x] # css)"
    and tab: "table_ok s" "\<And>i. at_pid s i \<noteq> null \<Longrightarrow> alive s i"
    and cur: "running_process s = p" "p \<noteq> null" "procs s p = Some pc" "kids_ok pc"
  shows "\<exists>t q'. wait_child_rest M c a x 0 s = Ret (0, t) \<and> heap rk k t (R(x := None)) \<and> sem_heap t (R(x := None)) q' \<and>
    vals q' = vals q \<and> own_cells (R(x := None)) (sem_cells t q' @ css) \<and> procs t = (procs s)(p \<mapsto> forget_child c pc) \<and>
    rlists t = rlists s \<and> running_process t = p \<and> process_table t = process_table s \<and> idle_proc t = idle_proc s \<and>
    sem_value t a = sem_value s a \<and> sem_blocked t a = sem_blocked s a \<and> s_users (the (sems t a)) = s_users (the (sems s a)) - 1 \<and>
    (\<forall>b. b \<noteq> a \<longrightarrow> sems t b = sems s b)"
proof -
  from sem_heap_sem [OF sh a(1)] obtain sm where sm: "sems s a = Some sm" by metis
  then have "s_users sm \<noteq> 1" using a(2) by simp
  from close_wait_run [OF h sh small a(1) sm this o] obtain u q' where
    u: "u = s\<lparr>mem := mem u, registry := registry u, sems := (sems s)(a \<mapsto> sm\<lparr>s_users := s_users sm - 1\<rparr>)\<rparr>"
      "sq (semClose M a) (mm_free M x) s = Ret ((), u)" "heap rk k u (R(x := None))" "sem_heap u (R(x := None)) q'"
      "vals q' = vals q" "own_cells (R(x := None)) (sem_cells u q' @ css)" by blast
  have pt: "process_table u = process_table s" and pm: "procs u = procs s" and f: "rlists u = rlists s" "idle_proc u = idle_proc s"
    "running_process u = p" "sems u = (sems s)(a \<mapsto> sm\<lparr>s_users := s_users sm - 1\<rparr>)" using cur(1) by (subst u(1), simp)+
  from pt pm have at: "at_pid u = at_pid s" "alive u = alive s" by (simp_all add: at_pid_def alive_def fun_eq_iff)
  have "reap_terminated_processes M u = Ret ((), u)"
    by (rule reap_none_run) (use tab pm pt in \<open>auto simp: table_ok_def at\<close>)
  moreover have "sq (semClose M a) (sq (mm_free M x) D) s = D u" for D :: "('m kst, int) kernel"
    using u(2) by (auto simp: sq_def bnd_def split: outcome.splits)
  ultimately have "wait_child_rest M c a x 0 s = Ret (0, u\<lparr>procs := (procs s)(p \<mapsto> forget_child c pc)\<rparr>)"
    using cur pm f(3)
    by (simp add: wait_child_rest_def get_current_process_def run_bnd run_gets run_ret run_get_proc run_upd_proc kids_ok_def)
       (simp add: run_simps)
  moreover have "sem_heap (u\<lparr>procs := (procs s)(p \<mapsto> forget_child c pc)\<rparr>) (R(x := None)) q'"
    by (rule sem_heap_cong) (use u in auto)
  ultimately show ?thesis using u f pt sm
    by (intro exI [of _ "u\<lparr>procs := (procs s)(p \<mapsto> forget_child c pc)\<rparr>"] exI [of _ q'])
       (simp add: orphaned_sems, simp add: sem_value_def sem_blocked_def blk_def)
qed

text \<open>Up to the wait: the semaphore is open and the handle valid.\<close>

lemma wait_child_open_run:
  assumes h: "heap rk (k + 3) s R" and sh: "sem_heap s R q" and small: "16 \<le> small" and o: "own_cells R (sem_cells s q @ css)"
    and c: "0 \<le> c" "c < int MAX_PROCESSES" "at_pid s c \<noteq> null" and a: "named s q (wait_name c) = Some a"
  obtains u x n q' where "heap rk k u (R(x \<mapsto> n))" "sem_heap u (R(x \<mapsto> n)) q'" "vals q' = vals q"
    "own_cells (R(x \<mapsto> n)) (sem_cells u q' @ [x] # css)" "x \<noteq> null" "x \<notin> dom R"
    "u = s\<lparr>mem := mem u, registry := registry u, sems := sems u\<rparr>" "\<forall>b. b \<noteq> a \<longrightarrow> sems u b = sems s b"
    "sem_value u a = sem_value s a" "sem_blocked u a = sem_blocked s a" "s_users (the (sems u a)) = s_users (the (sems s a)) + 1"
    "wait_child M c s = bnd (semWait_locked M a) (\<lambda>w. case w of Suspended \<Rightarrow> ret (Suspended, a, x)
       | Done result \<Rightarrow> bnd (wait_child_rest M c a x result) (\<lambda>r. ret (Done r, a, x))) u"
proof -
  from sem_heap_sem [OF sh named_in [OF a]] obtain sm where sm: "sems s a = Some sm" "a \<noteq> null" by metis
  have "heap rk (Suc k + 2) s R" by (rule heap_le [OF h]) simp
  then obtain v x n q1 where
    x: "build_wait_semaphore_name M c s = Ret (Some (x, wait_name c), s\<lparr>mem := mem v\<rparr>)"
      "semOpen M (Some (wait_name c)) 0 (s\<lparr>mem := mem v\<rparr>) = Ret (a, v)" "x \<noteq> null" "x \<notin> dom R"
    and v: "v = s\<lparr>mem := mem v, registry := registry v, sems := (sems s)(a \<mapsto> sm\<lparr>s_users := s_users sm + 1\<rparr>)\<rparr>"
      "heap rk (Suc k) v (R(x \<mapsto> n))" "sem_heap v (R(x \<mapsto> n)) q1" "vals q1 = vals q"
      "own_cells (R(x \<mapsto> n)) (sem_cells v q1 @ [x] # css)"
    by (rule open_wait_run [OF _ sh small c(1,2) a sm(1) o])
  have sv: "sems v = (sems s)(a \<mapsto> sm\<lparr>s_users := s_users sm + 1\<rparr>)" by (subst v(1), simp)
  have av: "a \<in> set (vals q1)" using named_in [OF a] v(4) by simp
  from valid_then_run [OF v(2,3) small, of a] av obtain u q' where
    u: "heap rk k u (R(x \<mapsto> n))" "sem_heap u (R(x \<mapsto> n)) q'" "vals q' = vals q1" "cells q' = cells q1" "sems u = sems v"
      "u = v\<lparr>mem := mem u, registry := registry u\<rparr>" "semWait M a v = semWait_locked M a u" by metis
  have "sem_cells u q' = sem_cells v q1" using u(3,4,5) by (intro sem_cells_same) (auto simp: blk_def)
  then have "own_cells (R(x \<mapsto> n)) (sem_cells u q' @ [x] # css)" using v(5) by simp
  moreover have "wait_child M c s = bnd (semWait_locked M a) (\<lambda>w. case w of Suspended \<Rightarrow> ret (Suspended, a, x)
       | Done result \<Rightarrow> bnd (wait_child_rest M c a x result) (\<lambda>r. ret (Done r, a, x))) u"
    using c(3) x sm(2) u(7) by (simp add: wait_child_def run_bnd get_process_run)
  moreover have "u = s\<lparr>mem := mem u, registry := registry u, sems := sems u\<rparr>"
    using u(5,6) v(1) by (cases s, cases u, cases v) simp
  ultimately show thesis using u v(4) x(3,4) sm(1)
    by (intro that [of u x n q']) (simp_all add: sv sem_value_def sem_blocked_def blk_def)
qed

lemma wait_child_block_run:
  assumes h: "heap rk (k + 7 + 2 * length (all_ready (rlists s))) s R" and sh: "sem_heap s R q" and small: "16 \<le> small"
    and o: "own_cells R (sem_cells s q @ css)" and c: "0 \<le> c" "c < int MAX_PROCESSES" "at_pid s c \<noteq> null"
    and a: "named s q (wait_name c) = Some a" "sem_value s a = 0" and ok: "sched_ok s" "scheduler_online s"
    and p: "running_process s = p" "p \<noteq> null" "p \<noteq> idle_proc s" "procs s p = Some pc" "p_pid pc \<noteq> 1" "p_state pc = RUNNING"
  shows "\<exists>t R' q' x. wait_child M c s = Ret ((Suspended, a, x), t) \<and> heap rk k t R' \<and> sem_heap t R' q' \<and> sched_ok t \<and>
    vals q' = vals q \<and> sem_value t a = 0 \<and> sem_blocked t a = sem_blocked s a @ [p_pid pc] \<and>
    s_users (the (sems t a)) = s_users (the (sems s a)) + 1 \<and> (\<forall>b. b \<noteq> a \<longrightarrow> sems t b = sems s b) \<and>
    (cpu_rsp t, running_process t, rlists t, procs t) =
      schedule_spec (idle_proc s) (cpu_rsp s) p (rlists s, (procs s)(p \<mapsto> blocked_pcb pc)) \<and>
    process_table t = process_table s \<and> own_cells R' (sem_cells t q' @ [x] # css)"
proof -
  let ?l = "2 * length (all_ready (rlists s))"
  have "heap rk ((k + 4 + ?l) + 3) s R" by (rule heap_le [OF h]) simp
  then obtain u x n q' where
    u: "heap rk (k + 4 + ?l) u (R(x \<mapsto> n))" "sem_heap u (R(x \<mapsto> n)) q'" "vals q' = vals q"
      "own_cells (R(x \<mapsto> n)) (sem_cells u q' @ [x] # css)" and nx: "x \<noteq> null" "x \<notin> dom R" and
    u': "u = s\<lparr>mem := mem u, registry := registry u, sems := sems u\<rparr>"
      "\<forall>b. b \<noteq> a \<longrightarrow> sems u b = sems s b" "sem_value u a = sem_value s a" "sem_blocked u a = sem_blocked s a"
      "s_users (the (sems u a)) = s_users (the (sems s a)) + 1"
      "wait_child M c s = bnd (semWait_locked M a) (\<lambda>w. case w of Suspended \<Rightarrow> ret (Suspended, a, x)
         | Done result \<Rightarrow> bnd (wait_child_rest M c a x result) (\<lambda>r. ret (Done r, a, x))) u"
    by (rule wait_child_open_run [OF _ sh small o c a(1)])
  note u = u u'
  have f: "procs u = procs s" "rlists u = rlists s" "running_process u = running_process s" "idle_proc u = idle_proc s"
    "scheduler_online u = scheduler_online s" "cpu_rsp u = cpu_rsp s" "process_table u = process_table s" by (subst u(5), simp)+
  have au: "a \<in> set (vals q')" using named_in [OF a(1)] u(3) by simp
  have ok': "sched_ok u" using ok(1) f by (simp add: sched_ok_def)
  have "heap rk (k + 4 + 2 * length (all_ready (rlists u))) u (R(x \<mapsto> n))" using u(1) f by simp
  from semWait_block_run [OF this u(2) small au _ ok', of p pc] a(2) ok(2) p f u(7) obtain t R' where
    t: "semWait_locked M a u = Ret (Suspended, t)" "heap rk k t R'" "sem_heap t R' q'" "sched_ok t" "sem_value t a = 0"
      "sem_blocked t a = sem_blocked u a @ [p_pid pc]" "\<forall>b. b \<noteq> a \<longrightarrow> sems t b = sems u b"
      "(cpu_rsp t, running_process t, rlists t, procs t) =
        schedule_spec (idle_proc u) (cpu_rsp u) p (rlists u, (procs u)(p \<mapsto> blocked_pcb pc))"
      "frame (R(x \<mapsto> n)) (blk u a) R' (blk t a)" "same u (t\<lparr>sems := sems u, cpu_rsp := cpu_rsp u\<rparr>)"
      "s_users (the (sems t a)) = s_users (the (sems u a))" by auto
  have "own_cells R' (sem_cells t q' @ [x] # css)"
    by (rule sem_cells_frame [OF u(4) _ au t(9)]) (use u(2) t(7) in \<open>auto simp: sem_heap_def\<close>)
  moreover have "process_table t = process_table u" using t(10) by (cases u, cases t) (simp add: same_def)
  moreover have "wait_child M c s = Ret ((Suspended, a, x), t)" using u(10) t(1) by (simp add: run_simps)
  ultimately show ?thesis using t u f by (intro exI [of _ t] exI [of _ R'] exI [of _ q'] exI [of _ x]) simp
qed

text \<open>A semaphore with units left lets the caller through at once.\<close>

lemma wait_child_early_run:
  assumes h: "heap rk (k + 4) s R" and sh: "sem_heap s R q" and small: "16 \<le> small" and o: "own_cells R (sem_cells s q @ css)"
    and c: "0 \<le> c" "c < int MAX_PROCESSES" "at_pid s c \<noteq> null"
    and a: "named s q (wait_name c) = Some a" "sem_value s a \<noteq> 0" "s_users (the (sems s a)) \<noteq> 0"
    and tab: "table_ok s" "\<And>i. at_pid s i \<noteq> null \<Longrightarrow> alive s i"
    and p: "running_process s = p" "p \<noteq> null" "procs s p = Some pc" "kids_ok pc"
  shows "\<exists>t q' x. wait_child M c s = Ret ((Done 0, a, x), t) \<and> heap rk k t R \<and> sem_heap t R q' \<and> vals q' = vals q \<and>
    sem_value t a = sem_value s a - 1 \<and> sem_blocked t a = sem_blocked s a \<and> (\<forall>b. b \<noteq> a \<longrightarrow> sems t b = sems s b) \<and>
    procs t = (procs s)(p \<mapsto> forget_child c pc) \<and> rlists t = rlists s \<and> running_process t = p \<and> process_table t = process_table s"
proof -
  have "heap rk (Suc k + 3) s R" by (rule heap_le [OF h]) simp
  then obtain u x n q' where
    u: "heap rk (Suc k) u (R(x \<mapsto> n))" "sem_heap u (R(x \<mapsto> n)) q'" "vals q' = vals q"
      "own_cells (R(x \<mapsto> n)) (sem_cells u q' @ [x] # css)" and nx: "x \<noteq> null" and
    u': "x \<notin> dom R" "u = s\<lparr>mem := mem u, registry := registry u, sems := sems u\<rparr>"
      "\<forall>b. b \<noteq> a \<longrightarrow> sems u b = sems s b" "sem_value u a = sem_value s a" "sem_blocked u a = sem_blocked s a"
      "s_users (the (sems u a)) = s_users (the (sems s a)) + 1"
      "wait_child M c s = bnd (semWait_locked M a) (\<lambda>w. case w of Suspended \<Rightarrow> ret (Suspended, a, x)
         | Done result \<Rightarrow> bnd (wait_child_rest M c a x result) (\<lambda>r. ret (Done r, a, x))) u"
    by (rule wait_child_open_run [OF _ sh small o c a(1)])
  note u = u u'
  have f: "procs u = procs s" "rlists u = rlists s" "running_process u = running_process s" "process_table u = process_table s"
    by (subst u(6), simp)+
  have au: "a \<in> set (vals q')" using named_in [OF a(1)] u(3) by simp
  from semWait_take_run [OF u(1,2) au] a(2) u(8) obtain v where
    v: "semWait_locked M a u = Ret (Done 0, v)" "heap rk (Suc k) v (R(x \<mapsto> n))" "sem_heap v (R(x \<mapsto> n)) q'"
      "sem_value v a = sem_value u a - 1" "sem_blocked v a = sem_blocked u a" "\<forall>b. b \<noteq> a \<longrightarrow> sems v b = sems u b"
      "v = u\<lparr>sems := sems v\<rparr>" "blk v a = blk u a" "s_users (the (sems v a)) = s_users (the (sems u a))" by auto
  have g: "procs v = procs s" "rlists v = rlists s" "running_process v = p" "process_table v = process_table s"
    using f p(1) by (subst v(7), simp)+
  then have at: "at_pid v = at_pid s" "alive v = alive s" by (simp_all add: at_pid_def alive_def fun_eq_iff)
  have "sem_cells v q' = sem_cells u q'" using v(6,8) by (intro sem_cells_same refl) (metis blk_def)
  then have ov: "own_cells (R(x \<mapsto> n)) (sem_cells v q' @ [x] # css)" using u(4) by simp
  have us: "s_users (the (sems v a)) \<noteq> 1" using v(9) u(10) a(3) by simp
  have tv: "table_ok v" using tab(1) g by (simp add: table_ok_def at)
  have R: "(R(x \<mapsto> n))(x := None) = R" using u(5) by (auto simp: fun_eq_iff domIff)
  from wait_child_rest_run [OF v(2,3) small au us ov tv, of p pc c] tab(2) p(2-4) g at obtain t q2 where
    t: "wait_child_rest M c a x 0 v = Ret (0, t)" "heap rk k t R" "sem_heap t R q2" "vals q2 = vals q'"
      "procs t = (procs v)(p \<mapsto> forget_child c pc)" "rlists t = rlists v" "running_process t = p" "process_table t = process_table v"
      "sem_value t a = sem_value v a" "sem_blocked t a = sem_blocked v a" "\<forall>b. b \<noteq> a \<longrightarrow> sems t b = sems v b"
    unfolding R by auto
  have "wait_child M c s = Ret ((Done 0, a, x), t)" using u(11) v(1) t(1) by (simp add: run_simps)
  with t u v g show ?thesis by (intro exI [of _ t] exI [of _ q2] exI [of _ x]) simp
qed

end

end
