(* ===== verification/Process_Properties.thy ===== *)
theory Process_Properties
  imports Sem_Properties Process_Correct
begin

text \<open>
  The properties of process management for a kernel linked with the first-fit manager: a parent that
  waits for a child is blocked until the child ends, the end of a process wakes it, and the children of
  a process that ends go to init.
\<close>

section \<open>A kernel with a parent and a child\<close>

text \<open>The memory: the blocks of theory \<open>Sem_Properties\<close> and, above them, the control block, the stack, the
  argument vector and the argument of process 3.\<close>

definition ff_family :: ff_state where
  "ff_family = \<lparr>hdr = (\<lambda>_. \<lparr>h_ptr = 0, h_size = 4\<rparr>)(16 := \<lparr>h_ptr = 4096, h_size = 0\<rparr>, 4096 := \<lparr>h_ptr = 16, h_size = 32\<rparr>,
       4704 := \<lparr>h_ptr = 0, h_size = 2\<rparr>, 4672 := \<lparr>h_ptr = 0, h_size = 2\<rparr>, 4640 := \<lparr>h_ptr = 0, h_size = 2\<rparr>,
       4608 := \<lparr>h_ptr = 0, h_size = 2\<rparr>, 5120 := \<lparr>h_ptr = 0, h_size = 15\<rparr>, 5360 := \<lparr>h_ptr = 0, h_size = 513\<rparr>,
       13568 := \<lparr>h_ptr = 0, h_size = 2\<rparr>, 13600 := \<lparr>h_ptr = 0, h_size = 2\<rparr>),
     ff_base = 16, freep = 16, total_mem_size = 9536, free_mem_size = 512\<rparr>"

definition rest_family :: "addr \<rightharpoonup> nat" where
  "rest_family = rest_ten ++ [5136 \<mapsto> 216, 5376 \<mapsto> 8192, 13584 \<mapsto> 8, 13616 \<mapsto> 5]"

lemma ff_family_inv:
  "ff_inv {16, 4096} {5056, 4992, 4928, 4864, 4800, 4736, 4704, 4672, 4640, 4608, 5120, 5360, 13568, 13600} ff_family"
  by (auto simp: ff_inv_def ff_ring_def ring_next_def ff_blocks_def ff_merged_def ff_counts_def ff_family_def UNIT_SIZE_def)

lemma ff_family_room: "ff_room 16 ff_family (rest_family ++ [5072 \<mapsto> 48, 5008 \<mapsto> 48, 4944 \<mapsto> 48, 4880 \<mapsto> 48])"
proof -
  let ?L = "rest_family ++ [5072 \<mapsto> 48, 5008 \<mapsto> 48, 4944 \<mapsto> 48, 4880 \<mapsto> 48] :: addr \<rightharpoonup> nat"
  have A: "(\<lambda>a. a - UNIT_SIZE) ` dom ?L =
      {5056, 4992, 4928, 4864, 4800, 4736, 4704, 4672, 4640, 4608, 5120, 5360, 13568, 13600}"
    by (auto simp: UNIT_SIZE_def rest_family_def rest_ten_def)
  have "UNIT_SIZE \<le> a \<and> n + UNIT_SIZE \<le> UNIT_SIZE * h_size (hdr ff_family (a - UNIT_SIZE))" if "?L a = Some n" for a n
    using that by (auto simp: ff_family_def rest_family_def rest_ten_def UNIT_SIZE_def split: if_splits)
  then have "ff_rep ff_family ?L" using ff_family_inv unfolding ff_rep_def A by blast
  moreover have "2 * 16 \<le> h_size (hdr ff_family 4096)" by (simp add: ff_family_def)
  ultimately show ?thesis using ff_family_inv unfolding ff_room_def A by blast
qed

text \<open>Process 2 is the parent of process 3 and waits for it on the semaphore 940 if \<open>w\<close>; process 4, of
  which the control block is 930, is a child of process 3.\<close>

definition pcb1 :: process where
  "pcb1 = pcb0\<lparr>p_pid := 1, p_state := BLOCKED\<rparr>"

definition parent :: process where
  "parent = pcb2\<lparr>p_children := 3 # replicate 31 0, p_child_count := 1\<rparr>"

definition child :: process where
  "child = pcb0\<lparr>p_pid := 3, p_ppid := 2, p_state := BLOCKED, p_argc := 1, p_argv := 13584, p_stackBase := 5376, p_rsp := 13400,
     p_children := 4 # replicate 31 0, p_child_count := 1\<rparr>"

definition grandchild :: process where
  "grandchild = pcb0\<lparr>p_pid := 4, p_ppid := 3, p_state := BLOCKED\<rparr>"

definition k_family :: "u16 \<Rightarrow> bool \<Rightarrow> ff_state kst" where
  "k_family v w = (k_sem v w)\<lparr>mem := ff_family,
     sems := [940 \<mapsto> \<lparr>s_name = ''wait_3'', s_value = v, s_lock = False, s_users = 2, s_blocked = Some (pid_queue w)\<rparr>],
     procs := [900 \<mapsto> pcb0, 910 \<mapsto> pcb1, 920 \<mapsto> parent, 930 \<mapsto> grandchild, 5136 \<mapsto> child],
     argvs := [13584 \<mapsto> [13616]], strs := [13616 \<mapsto> ''loop''], process_table := [900, 910, 920, 5136, 930] @ replicate 59 0\<rparr>"

lemma k_family_queues: "queues (k_family v w) = queues k_idle" "table_wf (k_family v w) = table_wf k_idle" "rq (k_family v w) = rq k_idle"
  by (simp_all add: k_family_def k_sem_def queues_def rq_def table_wf_def fun_eq_iff)

lemma k_family_heap: "heap ff_room 16 (k_family v w) rest_family"
proof -
  let ?L = "rest_family ++ [5072 \<mapsto> 48, 5008 \<mapsto> 48, 4944 \<mapsto> 48, 4880 \<mapsto> 48] :: addr \<rightharpoonup> nat"
  have "owned ?L (queues k_idle)" "rest_of ?L (queues k_idle) = rest_family"
    by (auto simp: queues_def k_idle_rq owned_def rest_of_def cells_def empty_queue_def restrict_map_def fun_eq_iff
        rest_family_def rest_ten_def)
  moreover have "mem (k_family v w) = ff_family" by (simp add: k_family_def)
  ultimately show ?thesis using ff_family_room k_idle_heap unfolding heap_def k_family_queues by auto
qed

lemma k_family_view:
  "rlists (k_family v w) = (\<lambda>_. [])" "idle_proc (k_family v w) = 900" "running_process (k_family v w) = 900"
  "scheduler_online (k_family v w)"
  using k_sem_view(1,3,4,5) [of v w] by (simp_all add: k_family_def)

lemma k_family_sem: "sem_heap (k_family v w) rest_family reg_queue"
  by (auto simp: sem_heap_def sem_ok_def own_cells_def sem_cells_def cells_def blk_def vals_def k_family_def k_sem_def reg_queue_def
      pid_queue_def rest_family_def rest_ten_def)

lemma k_family_values:
  "sem_value (k_family v w) 940 = v" "sem_blocked (k_family v w) 940 = (if w then [2] else [])" "s_users (the (sems (k_family v w) 940)) = 2"
  by (simp_all add: sem_value_def sem_blocked_def blk_def vals_def k_family_def pid_queue_def)

lemma wait_name_3: "wait_name 3 = ''wait_3''"
  by (simp add: wait_name_def dec_def digits.simps) code_simp

lemma k_family_named: "named (k_family v w) reg_queue (wait_name 3) = Some 940"
  by (simp add: named_def vals_def reg_queue_def k_family_def wait_name_3)

lemma k_family_at:
  "at_pid (k_family v w) i = (if i = 0 then 900 else if i = 1 then 910 else if i = 2 then 920 else if i = 3 then 5136
     else if i = 4 then 930 else 0)"
proof (cases "0 \<le> i \<and> i < 5")
  case True
  then have "i \<in> {0, 1, 2, 3, 4}" by auto
  then show ?thesis by (auto simp: at_pid_def k_family_def MAX_PROCESSES_def)
next
  case False
  then show ?thesis by (auto simp: at_pid_def k_family_def MAX_PROCESSES_def nth_append)
qed

lemmas family_pcbs = pcb0_def pcb1_def pcb2_def parent_def child_def grandchild_def

lemma k_family_table: "table_ok (k_family v w)"
  unfolding table_ok_def k_family_at
  by (auto simp: k_family_def family_pcbs kids_ok_def MAX_CHILDREN_def MAX_PROCESSES_def)

lemma k_family_procs:
  "procs (k_family v w) = [900 \<mapsto> pcb0, 910 \<mapsto> pcb1, 920 \<mapsto> parent, 930 \<mapsto> grandchild, 5136 \<mapsto> child]"
  by (simp add: k_family_def)

lemma k_family_inv: "proc_inv (k_family v w)"
proof (rule proc_invI)
  show "table_ok (k_family v w)" by (rule k_family_table)
  have "listed (k_family v w) 900" unfolding listed_def by (rule exI [of _ 0]) (simp add: k_family_at)
  then show "running_process (k_family v w) \<notin> set (all_ready (rlists (k_family v w))) \<and> listed (k_family v w) (running_process (k_family v w)) \<and>
    p_state (the (procs (k_family v w) (running_process (k_family v w)))) = RUNNING \<and>
    (running_process (k_family v w) \<noteq> idle_proc (k_family v w) \<longrightarrow>
      is_prio (p_priority (the (procs (k_family v w) (running_process (k_family v w))))))"
    by (simp add: k_family_view all_ready_def k_family_procs pcb0_def)
qed (simp_all add: k_family_view k_family_procs all_ready_def)

section \<open>Children\<close>

text \<open>
  C19. When a process ends, each of its children that is still alive gets init as its parent, and init
  lists them after its own children as far as its 32 entries allow; the dying process lists none.
\<close>

theorem reparent_children_adopts:
  assumes "table_ok s" and "at_pid s pid = d" and "d \<noteq> null" and "procs s d = Some dc" and "pid \<noteq> INIT_PID"
    and "at_pid s INIT_PID = i" and "i \<noteq> null" and "procs s i = Some ic"
  shows "\<exists>t ic' dc'. reparent_children pid s = Ret ((), t) \<and> procs t i = Some ic' \<and> procs t d = Some dc' \<and> kids dc' = [] \<and>
    kids ic' = take MAX_CHILDREN (kids ic @ filter (alive s) (kids dc)) \<and>
    (\<forall>c\<in>set (kids dc). alive s c \<longrightarrow> p_ppid (the (procs t (at_pid s c))) = 1) \<and>
    (\<forall>a pc. procs s a = Some pc \<longrightarrow> p_state (the (procs t a)) = p_state pc \<and> p_pid (the (procs t a)) = p_pid pc) \<and>
    t = s\<lparr>procs := procs t\<rparr>"
proof -
  let ?t = "s\<lparr>procs := orphaned s d dc\<rparr>" and ?f = "adopted s i (kids dc)"
  have run: "reparent_children pid s = Ret ((), ?t)" by (rule reparent_children_run [OF assms(1-5)])
  have di: "d \<noteq> i" using table_ok_pid [OF assms(1), of pid INIT_PID] assms by auto
  have pm: "orphaned s d dc a = (if a = d then Some (?f d dc\<lparr>p_child_count := 0\<rparr>) else map_option (?f a) (procs s a))" for a
    using assms by (simp add: orphaned_def adopt_def)
  have "kids_ok ic" using assms(1,6,7,8) by (metis option.inject table_ok_def)
  then have "kids_ok (if i \<in> at_pid s ` {c \<in> set (kids dc). alive s c} then ic\<lparr>p_ppid := 1\<rparr> else ic)" by (simp add: kids_ok_def)
  then have "kids (?f i ic) = take MAX_CHILDREN (kids ic @ filter (alive s) (kids dc))"
    using fold_with_kid by (simp add: adopted_def Let_def kids_def split: if_splits)
  moreover have "p_ppid (the (procs ?t (at_pid s c))) = 1" if "c \<in> set (kids dc)" "alive s c" for c
  proof -
    have "at_pid s c \<noteq> null" using that(2) by (simp add: alive_def)
    then obtain cc where "procs s (at_pid s c) = Some cc" using assms(1) by (auto simp: table_ok_def)
    with that assms(4) show ?thesis by (auto simp: pm adopted_def Let_def)
  qed
  moreover have "kids (?f d dc\<lparr>p_child_count := 0\<rparr>) = []" by (simp add: kids_def)
  moreover have "p_state (the (procs ?t a)) = p_state pc \<and> p_pid (the (procs ?t a)) = p_pid pc" if "procs s a = Some pc" for a pc
    using orphaned_Some [OF assms(4) that] by (metis kst.select_convs(2) kst.update_convs(2) kst.surjective option.sel)
  ultimately show ?thesis using run di assms(4,8)
    by (intro exI [of _ ?t] exI [of _ "?f i ic"] exI [of _ "?f d dc\<lparr>p_child_count := 0\<rparr>"]) (simp add: pm)
qed

theorem reparent_children_adopts_witness:
  "\<exists>t ic' dc'. reparent_children 3 (k_family 0 True) = Ret ((), t) \<and> procs t 910 = Some ic' \<and> procs t 5136 = Some dc' \<and> kids dc' = [] \<and>
    kids ic' = [4] \<and> p_ppid (the (procs t 930)) = 1"
proof -
  let ?s = "k_family 0 True"
  have k: "kids child = [4]" "kids pcb1 = []" by (simp_all add: kids_def family_pcbs)
  have a: "alive ?s 4" by (simp add: alive_def k_family_at k_family_procs grandchild_def)
  from reparent_children_adopts [OF k_family_table, of 0 True 3 5136 child 910 pcb1] obtain t ic' dc' where
    "reparent_children 3 ?s = Ret ((), t)" "procs t 910 = Some ic'" "procs t 5136 = Some dc'" "kids dc' = []"
    "kids ic' = take MAX_CHILDREN (kids pcb1 @ filter (alive ?s) (kids child))"
    "\<forall>c\<in>set (kids child). alive ?s c \<longrightarrow> p_ppid (the (procs t (at_pid ?s c))) = 1"
    by (auto simp: k_family_at k_family_procs INIT_PID_def)
  with k a show ?thesis by (intro exI [of _ t] exI [of _ ic'] exI [of _ dc']) (simp add: k_family_at MAX_CHILDREN_def)
qed

section \<open>Ending a process\<close>

text \<open>
  C8. Killing another process ends it completely: it leaves the table and the ready queues, its control
  block, stack and arguments go back to the memory manager, its children are handed over, and the
  process that waits for it is made ready. The invariants of the memory, the semaphores, the
  scheduler and the process table hold afterwards.
\<close>

theorem kill_process_wakes:
  assumes "heap ff_room (k + 6) s R" and "sem_heap s R q" and "proc_inv s" and "victim_ok s R q pid p pc"
    and "named s q (wait_name pid) = Some a" and "s_users (the (sems s a)) \<noteq> 0"
    and "\<forall>w\<in>set (take 1 (sem_blocked s a)). waiter_ok s w \<and> w \<noteq> pid" and "running_process s \<noteq> p"
  shows "\<exists>t R' q'. kill_process first_fit_mm pid s = Ret (Done 0, t) \<and> heap ff_room k t R' \<and> sem_heap t R' q' \<and> proc_inv t \<and>
    process_table t = (process_table s)[nat pid := null] \<and> procs t p = None \<and> p \<notin> set (all_ready (rlists t)) \<and>
    (\<forall>x\<in>set (proc_blocks s p pc). R' x = None) \<and>
    (\<forall>w\<in>set (take 1 (sem_blocked s a)). at_pid s w \<in> set (all_ready (rlists t)) \<and> p_state (the (procs t (at_pid s w))) = READY) \<and>
    sem_blocked t a = tl (sem_blocked s a) \<and> (rlists t, procs t) = killed s a p pc \<and> running_process t = running_process s"
proof -
  from memory_room.kill_process_run [OF ffr.memory_room_axioms assms(1,2) _ assms(3-8)] obtain t R' q' where
    t: "kill_process first_fit_mm pid s = Ret (Done 0, t)" "heap ff_room k t R'" "sem_heap t R' q'" "proc_inv t"
      "view t = killed s a p pc" "process_table t = (process_table s)[nat pid := null]" "sem_blocked t a = tl (sem_blocked s a)"
      "running_process t = running_process s" "\<forall>x\<in>set (proc_blocks s p pc). R' x = None" by auto
  have p: "procs s p = Some pc" "at_pid s pid = p" "p \<noteq> null" using assms(4) by (auto simp: victim_ok_def)
  have w: "\<forall>w\<in>set (take 1 (sem_blocked s a)). waiter_ok s w" using assms(7) by blast
  have rd: "rlists t = fst (killed s a p pc)" and pm: "procs t = snd (killed s a p pc)" using t(5) by (metis fst_conv, metis snd_conv)
  note ready = killed_ready(1) [OF p(1) w, folded rd]
  have "at_pid s u \<in> set (all_ready (rlists t)) \<and> p_state (the (procs t (at_pid s u))) = READY"
    if u: "u \<in> set (take 1 (sem_blocked s a))" for u
  proof -
    have "table_ok s" using assms(3) by (simp add: proc_inv_def)
    moreover have "waiter_ok s u" "u \<noteq> pid" using assms(7) u by auto
    ultimately have ne: "at_pid s u \<noteq> p" using table_ok_pid [of s u pid] waiter_listed [of s u] p by auto
    from \<open>waiter_ok s u\<close> obtain bc where bc: "procs s (at_pid s u) = Some bc" by (auto simp: waiter_ok_def at_pid_def)
    from killed_procs [OF p(1) w bc ne] u have "p_state (the (procs t (at_pid s u))) = READY" unfolding pm by (metis image_eqI option.sel)
    with ready ne u show ?thesis by auto
  qed
  moreover have "p \<notin> set (all_ready (rlists t))" using ready by auto
  moreover have "procs t p = None" by (simp add: pm killed_def Let_def)
  ultimately show ?thesis using t by (intro exI [of _ t] exI [of _ R'] exI [of _ q']) simp
qed

lemma k_family_victim: "victim_ok (k_family v w) rest_family reg_queue 3 5136 child"
proof -
  have "own_cells rest_family (sem_cells (k_family v w) reg_queue @ [proc_blocks (k_family v w) 5136 child])"
    by (auto simp: own_cells_def sem_cells_def cells_def blk_def vals_def k_family_def reg_queue_def pid_queue_def rest_family_def
        rest_ten_def proc_blocks_def args_of_def arg_blocks_def child_def pcb0_def)
  then show ?thesis
    by (simp add: victim_ok_def k_family_at k_family_view k_family_procs STDIN_def STDOUT_def argv_ok_def)
       (simp add: child_def pcb0_def k_family_def)
qed

lemma k_family_waiter: "waiter_ok (k_family v w) 2"
  by (simp add: waiter_ok_def k_family_view MAX_PROCESSES_def) (simp add: k_family_def parent_def pcb2_def pcb0_def)

theorem kill_process_wakes_witness:
  "\<exists>t R' q'. kill_process first_fit_mm 3 (k_family 0 True) = Ret (Done 0, t) \<and> heap ff_room 10 t R' \<and> sem_heap t R' q' \<and> proc_inv t \<and>
    procs t 5136 = None \<and> R' 5136 = None \<and> R' 5376 = None \<and> p_state (the (procs t 920)) = READY"
proof -
  let ?s = "k_family 0 True"
  have "heap ff_room (10 + 6) ?s rest_family" using k_family_heap by simp
  from kill_process_wakes [OF this k_family_sem k_family_inv k_family_victim k_family_named] obtain t R' q' where
    "kill_process first_fit_mm 3 ?s = Ret (Done 0, t)" "heap ff_room 10 t R'" "sem_heap t R' q'" "proc_inv t"
    "procs t 5136 = None" "\<forall>x\<in>set (proc_blocks ?s 5136 child). R' x = None"
    "\<forall>w\<in>set (take 1 (sem_blocked ?s 940)). p_state (the (procs t (at_pid ?s w))) = READY"
    by (auto simp: k_family_values k_family_view k_family_waiter)
  then show ?thesis
    by (intro exI [of _ t] exI [of _ R'] exI [of _ q'])
       (simp add: k_family_values k_family_at proc_blocks_def args_of_def arg_blocks_def child_def pcb0_def)
qed

section \<open>Waiting for a child\<close>










section \<open>Snapshots\<close>

text \<open>The name of a process fits the field of the snapshot.\<close>

definition name_ok :: "'m kst \<Rightarrow> process \<Rightarrow> bool" where
  "name_ok s pc \<longleftrightarrow> (p_argc pc > 0 \<and> p_argv pc \<noteq> null \<longrightarrow>
     (\<exists>a v. argvs s (p_argv pc) = Some (a # v) \<and> (a \<noteq> null \<longrightarrow> (\<exists>nm. strs s a = Some nm \<and> length nm < MAX_PROCESS_NAME))))"

definition info_of :: "process \<Rightarrow> string \<Rightarrow> process_info" where
  "info_of pc nm = \<lparr>i_pid = p_pid pc, i_ppid = p_ppid pc, i_name = nm, i_state = p_state pc, i_rsp = p_rsp pc,
     i_stackBase = p_stackBase pc, i_priority = p_priority pc, i_ground = p_ground pc\<rparr>"

lemma name_of_run: "name_ok s pc \<Longrightarrow> \<exists>nm. name_of pc s = Ret (nm, s)"
  by (auto simp: name_ok_def name_of_def run_simps not_le)

lemma table_entry: "table_ok s \<Longrightarrow> at_pid s i \<noteq> null \<Longrightarrow> \<exists>pc. procs s (at_pid s i) = Some pc \<and> p_pid pc = i"
  by (auto simp: table_ok_def)

text \<open>Entry \<open>i\<close> of the snapshot shows the process with that pid.\<close>

definition shown :: "'m kst \<Rightarrow> nat \<Rightarrow> process_info \<Rightarrow> bool" where
  "shown s i e \<longleftrightarrow> (let pc = the (procs s (at_pid s (int i))) in \<exists>nm. name_of pc s = Ret (nm, s) \<and> e = info_of pc nm)"

lemma ps_scan_run:
  assumes tab: "table_ok s" and nm: "\<And>i pc. alive s i \<Longrightarrow> procs s (at_pid s i) = Some pc \<Longrightarrow> name_ok s pc"
    and "j + k \<le> MAX_PROCESSES" and "length info = MAX_PROCESSES"
  shows "\<exists>info'. ps_scan info j k s = Ret (info', s) \<and> length info' = MAX_PROCESSES \<and>
    (\<forall>i<MAX_PROCESSES. if i \<in> {j..<j + k} \<and> alive s (int i) then shown s i (info' ! i) else info' ! i = info ! i)"
  using assms(3,4)
proof (induction k arbitrary: j info)
  case 0
  then show ?case by (auto simp: run_simps)
next
  case (Suc k)
  have at: "process_table s ! j = at_pid s (int j)" using Suc.prems by (simp add: at_pid_def)
  have "\<exists>info1. ps_scan info j (Suc k) s = ps_scan info1 (j + 1) k s \<and> length info1 = MAX_PROCESSES \<and>
      (\<forall>i. i \<noteq> j \<longrightarrow> info1 ! i = info ! i) \<and> (if alive s (int j) then shown s j (info1 ! j) else info1 = info)"
  proof (cases "alive s (int j)")
    case True
    then have nn: "at_pid s (int j) \<noteq> null" by (simp add: alive_def)
    with tab obtain pc where pc: "procs s (at_pid s (int j)) = Some pc" by (auto simp: table_ok_def)
    from name_of_run [OF nm [OF True pc]] obtain n where n: "name_of pc s = Ret (n, s)" by blast
    then show ?thesis using True pc nn Suc.prems
      by (intro exI [of _ "info[j := info_of pc n]"]) (simp add: run_simps at alive_def shown_def Let_def info_of_def)
  next
    case False
    then have "ps_scan info j (Suc k) s = ps_scan info (j + 1) k s"
      using table_entry [OF tab, of "int j"] by (cases "at_pid s (int j) = null") (auto simp: run_simps at alive_def)
    with False Suc.prems show ?thesis by (intro exI [of _ info]) simp
  qed
  then obtain info1 where 1: "ps_scan info j (Suc k) s = ps_scan info1 (j + 1) k s" "length info1 = MAX_PROCESSES"
    "\<forall>i. i \<noteq> j \<longrightarrow> info1 ! i = info ! i" "if alive s (int j) then shown s j (info1 ! j) else info1 = info" by blast
  from Suc.IH [of "j + 1" info1] 1(2) Suc.prems obtain info' where 2: "ps_scan info1 (j + 1) k s = Ret (info', s)"
    "length info' = MAX_PROCESSES"
    "\<And>i. i < MAX_PROCESSES \<Longrightarrow> if i \<in> {j + 1..<j + 1 + k} \<and> alive s (int i) then shown s i (info' ! i) else info' ! i = info1 ! i"
    by auto
  have "if i \<in> {j..<j + Suc k} \<and> alive s (int i) then shown s i (info' ! i) else info' ! i = info ! i" if "i < MAX_PROCESSES" for i
    using 2(3) [OF that] 1(3,4) by (cases "i = j") (auto split: if_splits)
  with 1(1) 2(1,2) show ?case by (intro exI [of _ info']) simp
qed

text \<open>
  C20. \<open>ps\<close> reports exactly the processes that are alive: entry \<open>i\<close> of the snapshot has pid -1 unless
  the process with pid \<open>i\<close> is alive, and then it holds that process's fields. Nothing changes.
\<close>

theorem ps_snapshot:
  assumes "table_ok s" and "\<forall>i pc. alive s i \<longrightarrow> procs s (at_pid s i) = Some pc \<longrightarrow> name_ok s pc" and "length info = MAX_PROCESSES"
  shows "\<exists>info'. ps (Some info) s = Ret ((0, info'), s) \<and> length info' = MAX_PROCESSES \<and>
    (\<forall>i<MAX_PROCESSES. if alive s (int i) then \<exists>nm. name_of (the (procs s (at_pid s (int i)))) s = Ret (nm, s) \<and>
         info' ! i = info_of (the (procs s (at_pid s (int i)))) nm \<and> i_pid (info' ! i) = int i
       else i_pid (info' ! i) = - 1)"
proof -
  have "\<And>i pc. alive s i \<Longrightarrow> procs s (at_pid s i) = Some pc \<Longrightarrow> name_ok s pc" using assms(2) by blast
  then obtain info' where i: "ps_scan (map (\<lambda>i. i\<lparr>i_pid := - 1\<rparr>) info) 0 MAX_PROCESSES s = Ret (info', s)" "length info' = MAX_PROCESSES"
    "\<And>i. i < MAX_PROCESSES \<Longrightarrow> if alive s (int i) then shown s i (info' ! i) else info' ! i = map (\<lambda>i. i\<lparr>i_pid := - 1\<rparr>) info ! i"
    using ps_scan_run [OF assms(1), where j = 0 and k = MAX_PROCESSES and info = "map (\<lambda>i. i\<lparr>i_pid := - 1\<rparr>) info"] assms(3) by auto
  have "if alive s (int i) then \<exists>nm. name_of (the (procs s (at_pid s (int i)))) s = Ret (nm, s) \<and>
         info' ! i = info_of (the (procs s (at_pid s (int i)))) nm \<and> i_pid (info' ! i) = int i
       else i_pid (info' ! i) = - 1" if "i < MAX_PROCESSES" for i
  proof (cases "alive s (int i)")
    case True
    with table_entry [OF assms(1), of "int i"] have "p_pid (the (procs s (at_pid s (int i)))) = int i" by (auto simp: alive_def)
    with i(3) [OF that] True show ?thesis by (auto simp: shown_def Let_def info_of_def)
  qed (use i(3) [OF that] that assms(3) in simp)
  moreover have "ps (Some info) s = Ret ((0, info'), s)" using i(1) by (simp add: ps_def run_simps)
  ultimately show ?thesis using i(2) by blast
qed

theorem ps_snapshot_witness:
  "\<exists>info'. ps (Some (replicate 64 (info_of pcb0 ''x''))) (k_family 0 True) = Ret ((0, info'), k_family 0 True) \<and>
    i_pid (info' ! 3) = 3 \<and> i_pid (info' ! 7) = - 1"
proof -
  let ?s = "k_family 0 True" and ?i = "replicate 64 (info_of pcb0 ''x'')"
  have nm: "\<forall>i pc. alive ?s i \<longrightarrow> procs ?s (at_pid ?s i) = Some pc \<longrightarrow> name_ok ?s pc"
    by (auto simp: alive_def k_family_at k_family_procs name_ok_def split: if_splits)
       (auto simp: family_pcbs k_family_def MAX_PROCESS_NAME_def)
  have a: "alive ?s (int 3)" "\<not> alive ?s (int 7)" by (simp_all add: alive_def k_family_at k_family_procs child_def)
  have len: "length ?i = MAX_PROCESSES" "3 < MAX_PROCESSES" "7 < MAX_PROCESSES" by (simp_all add: MAX_PROCESSES_def)
  from ps_snapshot [OF k_family_table nm len(1)] obtain info' where i: "ps (Some ?i) ?s = Ret ((0, info'), ?s)"
    "\<And>i. i < MAX_PROCESSES \<Longrightarrow> if alive ?s (int i) then \<exists>nm. name_of (the (procs ?s (at_pid ?s (int i)))) ?s = Ret (nm, ?s) \<and>
         info' ! i = info_of (the (procs ?s (at_pid ?s (int i)))) nm \<and> i_pid (info' ! i) = int i
       else i_pid (info' ! i) = - 1" by blast
  from i(2) [OF len(2)] i(2) [OF len(3)] a have "i_pid (info' ! 3) = 3" "i_pid (info' ! 7) = - 1" by auto
  with i(1) show ?thesis by (intro exI [of _ info']) simp
qed

end
