(* ===== verification/Buddy.thy ===== *)
theory Buddy
  imports Memory_Manager
begin

text \<open>
  The buddy memory manager, src/TP2-SO-2025/Kernel/memory/buddy_system_mm.c: one list of free
  blocks for each order, and the order of a live block in the byte before the address handed
  out. A chain of \<open>next\<close> pointers is the list of the blocks on it. The representation
  invariant \<open>bd_rep\<close> says that the free and the live blocks tile the managed region.
\<close>

section \<open>State and operations\<close>

definition MIN_BLOCK_SIZE :: nat where "MIN_BLOCK_SIZE = 4096"
definition MAX_ORDER :: nat where "MAX_ORDER = 16"

record bd_state =
  buddy_lists :: "nat \<Rightarrow> addr list"
  meta_order :: "addr \<Rightarrow> u8"
  start_addr :: addr
  total_managed_bytes :: nat

definition bd_size :: "nat \<Rightarrow> nat" where
  "bd_size k = MIN_BLOCK_SIZE * 2 ^ k"

text \<open>The loop of \<open>mm_init\<close>: the first order, up to \<open>MAX_ORDER + 1\<close>, that does not fit.\<close>

function init_order :: "nat \<Rightarrow> nat \<Rightarrow> nat" where
  "init_order total_size k = (if bd_size k \<le> total_size \<and> k \<le> MAX_ORDER then init_order total_size (k + 1) else k)"
  by auto
termination by (relation "measure (\<lambda>(_, k). Suc MAX_ORDER - k)") auto

definition bd_mm_init :: "addr \<Rightarrow> nat \<Rightarrow> (bd_state, unit) kernel" where
  "bd_mm_init base_address total_size =
     upd (\<lambda>s.
       let s1 = s\<lparr>buddy_lists := (\<lambda>_. [])\<rparr>; k = init_order total_size 0
       in if k = 0 then s1\<lparr>total_managed_bytes := 0\<rparr>
          else s1\<lparr>start_addr := base_address,
                  buddy_lists := (buddy_lists s1)(k - 1 := (if base_address = null then [] else [base_address])),
                  total_managed_bytes := bd_size (k - 1)\<rparr>)"

text \<open>The loop that doubles \<open>block_size\<close>, an unsigned 64-bit word, and counts the order.\<close>

definition order_step :: "nat \<Rightarrow> nat \<times> nat \<Rightarrow> (bd_state, nat \<times> nat + nat) kernel" where
  "order_step required_space = (\<lambda>(block_size, target_order).
     ret (if block_size < required_space then Inl ((2 * block_size) mod 2 ^ 64, target_order + 1)
          else Inr target_order))"

function find_order :: "(nat \<Rightarrow> addr list) \<Rightarrow> nat \<Rightarrow> nat option" where
  "find_order ls current_order =
     (if current_order \<le> MAX_ORDER then
        if ls current_order \<noteq> [] then Some current_order else find_order ls (current_order + 1)
      else None)"
  by auto
termination by (relation "measure (\<lambda>(_, k). Suc MAX_ORDER - k)") auto

function split_block :: "addr \<Rightarrow> nat \<Rightarrow> nat \<Rightarrow> (nat \<Rightarrow> addr list) \<Rightarrow> (nat \<Rightarrow> addr list)" where
  "split_block block current_order target_order ls =
     (if current_order > target_order then
        let c = current_order - 1; buddy = add64 block (bd_size c)
        in split_block block c target_order (ls(c := buddy # ls c))
      else ls)"
  by auto
termination by (relation "measure (\<lambda>(_, k, _, _). k)") auto

declare init_order.simps [simp del] find_order.simps [simp del] split_block.simps [simp del]

definition bd_mm_alloc :: "nat \<Rightarrow> (bd_state, addr) kernel" where
  "bd_mm_alloc nbytes =
     (if nbytes = 0 then ret null
      else let required_space = (if add64 nbytes 8 < 8 then 8 else add64 nbytes 8) in
        bnd (loop (order_step required_space) (MIN_BLOCK_SIZE, 0)) (\<lambda>target_order.
        if target_order > MAX_ORDER then ret null
        else bnd (gets buddy_lists) (\<lambda>ls.
          case find_order ls target_order of
            None \<Rightarrow> ret null
          | Some current_order \<Rightarrow>
              let block = hd (ls current_order);
                  ls' = split_block block current_order target_order (ls(current_order := tl (ls current_order)))
              in sq (upd (\<lambda>s. s\<lparr>buddy_lists := ls', meta_order := (meta_order s)(block := of_nat target_order)\<rparr>))
                 (ret (add64 block 8)))))"

text \<open>The two walks along a chain.\<close>

fun is_buddy_free :: "addr list \<Rightarrow> addr \<Rightarrow> bool" where
  "is_buddy_free [] buddy = False"
| "is_buddy_free (current # rest) buddy = (if current = buddy then True else is_buddy_free rest buddy)"

fun remove_from_list :: "addr list \<Rightarrow> addr \<Rightarrow> addr list" where
  "remove_from_list [] block = []"
| "remove_from_list (current # rest) block =
     (if current = block then rest else current # remove_from_list rest block)"

definition buddy_of :: "addr \<Rightarrow> addr \<Rightarrow> nat \<Rightarrow> addr" where
  "buddy_of start block order = add64 ((sub64 block start) XOR (bd_size order)) start"

function merge_loop :: "addr \<Rightarrow> addr \<Rightarrow> nat \<Rightarrow> (nat \<Rightarrow> addr list) \<Rightarrow> addr \<times> nat \<times> (nat \<Rightarrow> addr list)" where
  "merge_loop start block current_order ls =
     (if current_order < MAX_ORDER then
        let buddy = buddy_of start block current_order in
        if is_buddy_free (ls current_order) buddy then
          merge_loop start (if buddy < block then buddy else block) (current_order + 1)
            (ls(current_order := remove_from_list (ls current_order) buddy))
        else (block, current_order, ls)
      else (block, current_order, ls))"
  by auto
termination by (relation "measure (\<lambda>(_, _, k, _). MAX_ORDER - k)") auto

declare merge_loop.simps [simp del]

definition bd_mm_free :: "addr \<Rightarrow> (bd_state, unit) kernel" where
  "bd_mm_free ptr =
     (if ptr = null then ret ()
      else upd (\<lambda>s.
        let block_to_free = sub64 ptr 8;
            (block, order, ls) = merge_loop (start_addr s) block_to_free (unat (meta_order s block_to_free)) (buddy_lists s)
        in s\<lparr>buddy_lists := ls(order := block # ls order)\<rparr>))"

definition bd_free_bytes :: "(nat \<Rightarrow> addr list) \<Rightarrow> nat" where
  "bd_free_bytes ls = (\<Sum>order\<leftarrow>[0..<Suc MAX_ORDER]. length (ls order) * bd_size order)"

definition bd_mm_get_stats :: "(bd_state, mem_stats) kernel" where
  "bd_mm_get_stats =
     gets (\<lambda>s.
       let total = total_managed_bytes s; free = bd_free_bytes (buddy_lists s) mod 2 ^ 64
       in \<lparr>total_memory = total, free_memory = free,
           occupied_memory = (if total \<ge> free then total - free else 0)\<rparr>)"

definition buddy_mm :: "bd_state mm" where
  "buddy_mm = \<lparr>mm_alloc_op = bd_mm_alloc, mm_free_op = bd_mm_free\<rparr>"

section \<open>Tilings\<close>

text \<open>
  A block is an address and an order. \<open>tiling start room B\<close>: the blocks of \<open>B\<close> are aligned
  relative to the start, lie in the region, do not overlap and fill it.
\<close>

type_synonym block = "addr \<times> nat"

definition bsize :: "block \<Rightarrow> nat" where
  "bsize b = bd_size (snd b)"

definition fits :: "addr \<Rightarrow> nat \<Rightarrow> block \<Rightarrow> bool" where
  "fits start room b \<longleftrightarrow> snd b \<le> MAX_ORDER \<and> start \<le> fst b \<and> bsize b dvd fst b - start \<and> fst b + bsize b \<le> start + room"

definition sep :: "block \<Rightarrow> block \<Rightarrow> bool" where
  "sep b c \<longleftrightarrow> apart (fst b) (bsize b) (fst c) (bsize c)"

definition tiling :: "addr \<Rightarrow> nat \<Rightarrow> block set \<Rightarrow> bool" where
  "tiling start room B \<longleftrightarrow> finite B \<and> (\<forall>b\<in>B. fits start room b) \<and>
     (\<forall>b\<in>B. \<forall>c\<in>B. b \<noteq> c \<longrightarrow> sep b c) \<and> sum bsize B = room"

lemma bd_size_pos [simp]: "0 < bd_size k"
  by (simp add: bd_size_def MIN_BLOCK_SIZE_def)

lemma bd_size_nz [simp]: "bd_size k \<noteq> 0"
  using bd_size_pos [of k] by linarith

lemma bd_size_Suc: "bd_size (Suc k) = 2 * bd_size k"
  by (simp add: bd_size_def)

lemma bd_size_mono: "j \<le> k \<Longrightarrow> bd_size j \<le> bd_size k"
  by (simp add: bd_size_def)

lemma bd_size_max: "k \<le> MAX_ORDER \<Longrightarrow> bd_size k \<le> 2 ^ 28"
  using bd_size_mono [of k MAX_ORDER] by (simp add: bd_size_def MAX_ORDER_def MIN_BLOCK_SIZE_def)

lemma bsize_pair [simp]: "bsize (a, k) = bd_size k"
  by (simp add: bsize_def)

lemma sep_sym: "sep b c \<Longrightarrow> sep c b"
  by (auto simp: sep_def apart_def)

lemma sep_neq: "sep b c \<Longrightarrow> fst b \<noteq> fst c"
  by (auto simp: sep_def apart_def bsize_def)

lemma tilingD:
  assumes "tiling start room B"
  shows "finite B" and "b \<in> B \<Longrightarrow> fits start room b"
    and "b \<in> B \<Longrightarrow> c \<in> B \<Longrightarrow> b \<noteq> c \<Longrightarrow> sep b c"
    and "sum bsize B = room"
  using assms by (auto simp: tiling_def)

lemma tiling_fst_inj: "tiling start room B \<Longrightarrow> b \<in> B \<Longrightarrow> c \<in> B \<Longrightarrow> fst b = fst c \<Longrightarrow> b = c"
  using tilingD(3) sep_neq by blast

text \<open>Replacing blocks by others that cover the same bytes.\<close>

lemma tiling_replace:
  assumes t: "tiling start room B" and C: "C \<subseteq> B" and D: "finite D" "\<And>d. d \<in> D \<Longrightarrow> fits start room d"
    and sum: "sum bsize D = sum bsize C" and new: "D \<inter> (B - C) = {}"
    and inner: "\<And>d e. d \<in> D \<Longrightarrow> e \<in> D \<Longrightarrow> d \<noteq> e \<Longrightarrow> sep d e"
    and outer: "\<And>d b. d \<in> D \<Longrightarrow> b \<in> B - C \<Longrightarrow> sep d b"
  shows "tiling start room ((B - C) \<union> D)"
proof -
  note d = tilingD [OF t]
  have "sum bsize ((B - C) \<union> D) = sum bsize (B - C) + sum bsize D"
    by (rule sum.union_disjoint) (use d(1) D new in auto)
  also have "\<dots> = sum bsize B"
    using sum.subset_diff [OF C d(1), of bsize] sum by simp
  finally have s: "sum bsize ((B - C) \<union> D) = room" using d(4) by simp
  have ap: "sep b c" if "b \<in> (B - C) \<union> D" "c \<in> (B - C) \<union> D" "b \<noteq> c" for b c
    using that
  proof (elim UnE)
    assume "b \<in> B - C" "c \<in> D"
    then show "sep b c" by (intro sep_sym [OF outer])
  qed (use that d(3) inner outer in auto)
  show ?thesis unfolding tiling_def using d D(1,2) s ap by auto
qed

lemma tiling_split:
  assumes t: "tiling start room B" and b: "(a, Suc k) \<in> B"
  shows "tiling start room ((B - {(a, Suc k)}) \<union> {(a, k), (a + bd_size k, k)})"
proof (rule tiling_replace [OF t])
  note f = tilingD(2) [OF t b]
  have "bd_size k dvd bd_size (Suc k)" by (simp add: bd_size_Suc)
  also have "bd_size (Suc k) dvd a - start" using f by (simp add: fits_def)
  finally have al: "bd_size k dvd a - start" .
  have le: "start \<le> a" "Suc k \<le> MAX_ORDER" "a + 2 * bd_size k \<le> start + room" using f by (auto simp: fits_def bd_size_Suc)
  then have "a + bd_size k - start = (a - start) + bd_size k" by simp
  with al have al2: "bd_size k dvd a + bd_size k - start" by simp
  show "fits start room d" if "d \<in> {(a, k), (a + bd_size k, k)}" for d
    using that al al2 le by (elim insertE) (simp_all add: fits_def)
  have other: "sep (a, Suc k) c" if "c \<in> B - {(a, Suc k)}" for c
    using tilingD(3) [OF t b, of c] that by auto
  show "{(a, k), (a + bd_size k, k)} \<inter> (B - {(a, Suc k)}) = {}"
    using other [of "(a, k)"] other [of "(a + bd_size k, k)"] by (auto simp: sep_def apart_def bd_size_Suc)
  show "sep d c" if "d \<in> {(a, k), (a + bd_size k, k)}" "c \<in> B - {(a, Suc k)}" for d c
    using that(1) other [OF that(2)] by (auto simp: sep_def apart_def bd_size_Suc)
qed (use b in \<open>auto simp: sep_def apart_def bd_size_Suc\<close>)

lemma tiling_merge:
  assumes t: "tiling start room B" and b: "(a, k) \<in> B" "(a + bd_size k, k) \<in> B" and k: "k < MAX_ORDER"
    and al: "bd_size (Suc k) dvd a - start"
  shows "tiling start room ((B - {(a, k), (a + bd_size k, k)}) \<union> {(a, Suc k)})"
proof (rule tiling_replace [OF t])
  note f = tilingD(2) [OF t b(1)] tilingD(2) [OF t b(2)]
  show "fits start room d" if "d \<in> {(a, Suc k)}" for d
    using that f k al by (auto simp: fits_def bd_size_Suc)
  have other: "sep (a, k) c \<and> sep (a + bd_size k, k) c"
    if "c \<in> B - {(a, k), (a + bd_size k, k)}" for c
    using tilingD(3) [OF t b(1), of c] tilingD(3) [OF t b(2), of c] that by auto
  show "{(a, Suc k)} \<inter> (B - {(a, k), (a + bd_size k, k)}) = {}"
    using other [of "(a, Suc k)"] by (auto simp: sep_def apart_def)
  show "sep d c" if "d \<in> {(a, Suc k)}" "c \<in> B - {(a, k), (a + bd_size k, k)}" for d c
  proof -
    have "0 < bsize c" by (simp add: bsize_def)
    with other [OF that(2)] that(1) show ?thesis by (auto simp: sep_def apart_def bd_size_Suc)
  qed
qed (use b in \<open>auto simp: sep_def apart_def bd_size_Suc\<close>)

lemma tiling_split_new:
  assumes "tiling start room B" and "(a, Suc k) \<in> B"
  shows "(a, k) \<notin> B" and "(a + bd_size k, k) \<notin> B"
  using tilingD(3) [OF assms, of "(a, k)"] tilingD(3) [OF assms, of "(a + bd_size k, k)"]
  by (auto simp: sep_def apart_def bd_size_Suc)

section \<open>The free lists\<close>

definition free_blocks :: "(nat \<Rightarrow> addr list) \<Rightarrow> block set" where
  "free_blocks ls = {(a, k). k \<le> MAX_ORDER \<and> a \<in> set (ls k)}"

text \<open>\<open>bd_heap start room ls A\<close>: the blocks on the lists and the blocks of \<open>A\<close> tile the region.\<close>

definition bd_heap :: "addr \<Rightarrow> nat \<Rightarrow> (nat \<Rightarrow> addr list) \<Rightarrow> block set \<Rightarrow> bool" where
  "bd_heap start room ls A \<longleftrightarrow> tiling start room (free_blocks ls \<union> A) \<and> free_blocks ls \<inter> A = {} \<and>
     (\<forall>k\<le>MAX_ORDER. distinct (ls k)) \<and> 0 < start \<and> start + room < 2 ^ 64"

lemma is_buddy_free_iff [simp]: "is_buddy_free xs b \<longleftrightarrow> b \<in> set xs"
  by (induction xs) auto

lemma remove_from_list_remove1 [simp]: "remove_from_list xs b = remove1 b xs"
  by (induction xs) auto

lemma free_blocks_push: "k \<le> MAX_ORDER \<Longrightarrow> free_blocks (ls(k := a # ls k)) = insert (a, k) (free_blocks ls)"
  by (auto simp: free_blocks_def split: if_splits)

lemma free_blocks_remove:
  "distinct (ls k) \<Longrightarrow> free_blocks (ls(k := remove1 a (ls k))) = free_blocks ls - {(a, k)}"
  by (auto simp: free_blocks_def split: if_splits)

lemma free_blocks_tl:
  "distinct (ls k) \<Longrightarrow> ls k \<noteq> [] \<Longrightarrow> free_blocks (ls(k := tl (ls k))) = free_blocks ls - {(hd (ls k), k)}"
  by (cases "ls k") (auto simp: free_blocks_def split: if_splits)

text \<open>Taking a block off its list, and putting one on.\<close>

lemma bd_heap_take:
  assumes "bd_heap start room ls A" and "(a, k) \<in> free_blocks ls" and "free_blocks ls' = free_blocks ls - {(a, k)}"
    and "\<forall>k\<le>MAX_ORDER. distinct (ls' k)"
  shows "bd_heap start room ls' (insert (a, k) A) \<and> (a, k) \<notin> A"
proof -
  have "free_blocks ls' \<union> insert (a, k) A = free_blocks ls \<union> A" using assms by auto
  with assms show ?thesis unfolding bd_heap_def by auto
qed

lemma bd_heap_push:
  assumes "bd_heap start room ls (insert (a, k) A)" and "(a, k) \<notin> A"
  shows "bd_heap start room (ls(k := a # ls k)) A"
proof -
  have k: "k \<le> MAX_ORDER" using assms(1) tilingD(2) by (fastforce simp: bd_heap_def fits_def)
  have new: "(a, k) \<notin> free_blocks ls" using assms(1) by (auto simp: bd_heap_def)
  then have "a \<notin> set (ls k)" using k by (simp add: free_blocks_def)
  moreover have "insert (a, k) (free_blocks ls) \<union> A = free_blocks ls \<union> insert (a, k) A" by auto
  ultimately show ?thesis using assms k by (auto simp: bd_heap_def free_blocks_push)
qed

lemma bd_heap_fits: "bd_heap start room ls A \<Longrightarrow> b \<in> free_blocks ls \<union> A \<Longrightarrow> fits start room b"
  unfolding bd_heap_def using tilingD(2) by blast

lemma bd_heap_listed: "bd_heap start room ls A \<Longrightarrow> k \<le> MAX_ORDER \<Longrightarrow> x \<in> set (ls k) \<Longrightarrow> fits start room (x, k)"
  by (erule bd_heap_fits) (simp add: free_blocks_def)

section \<open>Buddies\<close>

lemma xor_block:
  assumes "bd_size k dvd r"
  shows "r XOR bd_size k = (if bd_size (Suc k) dvd r then r + bd_size k else r - bd_size k)"
proof -
  let ?n = "12 + k"
  have s: "bd_size k = 2 ^ ?n" by (simp add: bd_size_def MIN_BLOCK_SIZE_def power_add)
  from assms obtain q where q: "r = q * 2 ^ ?n" by (auto simp: s dvd_def mult.commute)
  have "r XOR bd_size k = push_bit ?n q XOR push_bit ?n 1" by (simp add: q s push_bit_eq_mult)
  also have "\<dots> = push_bit ?n (q XOR 1)" by (simp only: push_bit_xor)
  also have "\<dots> = (q XOR 1) * 2 ^ ?n" by (simp add: push_bit_eq_mult)
  finally have x: "r XOR bd_size k = (q XOR 1) * 2 ^ ?n" .
  have "bd_size (Suc k) dvd r \<longleftrightarrow> even q" by (simp add: bd_size_Suc s q)
  moreover have "q XOR 1 = (if even q then q + 1 else q - 1)" using xor_one_eq [of q] by (simp only: One_nat_def [symmetric]) auto
  ultimately show ?thesis unfolding x by (auto simp: q s diff_mult_distrib)
qed

text \<open>The buddy of a block of the tiling: the other half of the block of the next order.\<close>

lemma buddy_of_fits:
  assumes "fits start room (a, k)" and "start + room < 2 ^ 64" and "fits start room (buddy_of start a k, k)"
  shows "buddy_of start a k = (if bd_size (Suc k) dvd a - start then a + bd_size k else a - bd_size k) \<and>
    (\<not> bd_size (Suc k) dvd a - start \<longrightarrow> bd_size k \<le> a - start \<and> bd_size (Suc k) dvd a - bd_size k - start)"
proof -
  let ?r = "a - start"
  have f: "start \<le> a" "bd_size k dvd ?r" "a + bd_size k \<le> start + room" using assms(1) by (auto simp: fits_def)
  have sub: "sub64 a start = ?r" using f(1,3) assms(2) by (intro sub64_small) auto
  show ?thesis
  proof (cases "bd_size (Suc k) dvd ?r")
    case True
    then have "buddy_of start a k = add64 (?r + bd_size k) start" using sub xor_block [OF f(2)] by (simp add: buddy_of_def)
    also have "\<dots> = a + bd_size k" using f assms(2) by (subst add64_small) auto
    finally show ?thesis using True by simp
  next
    case False
    from f(2) obtain q where q: "?r = bd_size k * q" by (auto simp: dvd_def)
    with False have "odd q" by (auto simp: bd_size_Suc)
    then obtain p where "q = Suc (2 * p)" by (auto elim: oddE)
    with q have p: "?r = bd_size k + 2 * bd_size k * p" by simp
    then have "bd_size k \<le> ?r" "bd_size (Suc k) dvd ?r - bd_size k" by (simp_all add: bd_size_Suc)
    moreover have "buddy_of start a k = add64 (?r - bd_size k) start" using False sub xor_block [OF f(2)] by (simp add: buddy_of_def)
    moreover have "add64 (?r - bd_size k) start = a - bd_size k" using f calculation(1) assms(2) by (subst add64_small) auto
    moreover have "?r - bd_size k = a - bd_size k - start" by simp
    ultimately show ?thesis using False by simp
  qed
qed

lemma buddy_sym:
  assumes x: "fits start room (x, k)" and a: "fits start room (a, k)" and w: "start + room < 2 ^ 64" and eq: "buddy_of start x k = a"
  shows "buddy_of start a k = x \<and> a \<noteq> x"
proof -
  let ?d = "\<lambda>y. bd_size (Suc k) dvd y - start"
  have r: "start \<le> x" "bd_size k dvd x - start" "start \<le> a" "bd_size k dvd a - start" "a + bd_size k < 2 ^ 64" "x + bd_size k < 2 ^ 64"
    using x a w by (auto simp: fits_def)
  have bx: "a = (if ?d x then x + bd_size k else x - bd_size k)" "\<not> ?d x \<longrightarrow> bd_size k \<le> x - start \<and> ?d (x - bd_size k)"
    using buddy_of_fits [OF x w] a eq by auto
  have flip: "?d a \<longleftrightarrow> \<not> ?d x"
  proof (cases "?d x")
    case True
    then have "a - start = (x - start) + bd_size k" using bx(1) r(1) by simp
    moreover have "\<not> bd_size (Suc k) dvd bd_size k" by (simp add: bd_size_Suc dvd_imp_le nat_dvd_not_less)
    ultimately show ?thesis using True by (simp add: dvd_add_right_iff)
  qed (use bx in auto)
  have "sub64 a start = a - start" using r by (intro sub64_small) auto
  then have "buddy_of start a k = add64 (if ?d a then a - start + bd_size k else a - start - bd_size k) start"
    using xor_block [OF r(4)] by (simp add: buddy_of_def)
  also have "\<dots> = x"
  proof (cases "?d x")
    case True
    with flip bx r show ?thesis by (simp add: add64_small)
  next
    case False
    then have "a = x - bd_size k" "bd_size k \<le> x - start" using bx by auto
    then have "a - start + bd_size k = x - start" using r(1) by simp
    with False flip r show ?thesis by (simp add: add64_small)
  qed
  finally have "buddy_of start a k = x" .
  moreover have "a \<noteq> x" using flip by auto
  ultimately show ?thesis by simp
qed

text \<open>No two buddies are free at the same order.\<close>

definition merged :: "addr \<Rightarrow> (nat \<Rightarrow> addr list) \<Rightarrow> bool" where
  "merged start ls \<longleftrightarrow> (\<forall>k<MAX_ORDER. \<forall>a\<in>set (ls k). buddy_of start a k \<notin> set (ls k))"

lemma merged_sub: "merged start ls \<Longrightarrow> (\<And>k. set (ls' k) \<subseteq> set (ls k)) \<Longrightarrow> merged start ls'"
  unfolding merged_def by blast

lemma merged_single:
  assumes "fits start (bd_size k) (start, k)" and "start + bd_size k < 2 ^ 64" and "0 < start"
  shows "merged start ((\<lambda>_. [])(k := [start]))"
proof -
  have "buddy_of start start k \<noteq> start" using buddy_sym [OF assms(1) assms(1) assms(2)] by blast
  then show ?thesis by (simp add: merged_def)
qed

lemma merged_push:
  assumes m: "merged start ls" and fit: "\<And>x. x \<in> insert a (set (ls k)) \<Longrightarrow> fits start room (x, k)" and w: "start + room < 2 ^ 64"
    and b: "k < MAX_ORDER \<longrightarrow> buddy_of start a k \<notin> set (ls k)"
  shows "merged start (ls(k := a # ls k))"
proof -
  have "buddy_of start x k \<noteq> a" if "x \<in> insert a (set (ls k))" "k < MAX_ORDER" for x
  proof
    assume "buddy_of start x k = a"
    from buddy_sym [OF fit [OF that(1)] fit w this] that b show False by auto
  qed
  with m b show ?thesis by (auto simp: merged_def)
qed

section \<open>Splitting and merging\<close>

lemma split_block_heap:
  assumes "bd_heap start room ls (insert (a, c) A)" and "(a, c) \<notin> A" and "t \<le> c"
  shows "bd_heap start room (split_block a c t ls) (insert (a, t) A) \<and> (a, t) \<notin> A \<and>
    (merged start ls \<longrightarrow> merged start (split_block a c t ls))"
  using assms
proof (induction a c t ls rule: split_block.induct)
  case (1 a c t ls)
  show ?case
  proof (cases "t < c")
    case False
    then have "split_block a c t ls = ls" by (subst split_block.simps) simp
    with False "1.prems" show ?thesis by simp
  next
    case True
    then obtain d where d: "c = Suc d" by (cases c) auto
    let ?B = "free_blocks ls \<union> insert (a, c) A" and ?ls = "ls(d := (a + bd_size d) # ls d)"
    have h: "tiling start room ?B" "free_blocks ls \<inter> insert (a, c) A = {}" "start + room < 2 ^ 64"
      "\<forall>k\<le>MAX_ORDER. distinct (ls k)" using "1.prems"(1) by (auto simp: bd_heap_def)
    have f: "fits start room (a, Suc d)" using tilingD(2) [OF h(1), of "(a, Suc d)"] d by simp
    then have dm: "d \<le> MAX_ORDER" and small: "a + bd_size d < 2 ^ 64" using h(3) by (auto simp: fits_def bd_size_Suc)
    note new = tiling_split_new [OF h(1) [unfolded d], of a d, simplified]
    have "tiling start room ((?B - {(a, Suc d)}) \<union> {(a, d), (a + bd_size d, d)})"
      by (rule tiling_split [OF h(1)]) (simp add: d)
    moreover have "(?B - {(a, Suc d)}) \<union> {(a, d), (a + bd_size d, d)} = free_blocks ?ls \<union> insert (a, d) A"
      using h(2) "1.prems"(2) d dm by (auto simp: free_blocks_push)
    moreover have "free_blocks ?ls \<inter> insert (a, d) A = {}" using h(2) new dm by (auto simp: free_blocks_push)
    moreover have "a + bd_size d \<notin> set (ls d)" using new dm by (auto simp: free_blocks_def)
    ultimately have h': "bd_heap start room ?ls (insert (a, d) A)" using "1.prems"(1) h(4) by (auto simp: bd_heap_def)
    have fit: "fits start room (a, d)" "\<And>x. x \<in> insert (a + bd_size d) (set (ls d)) \<Longrightarrow> fits start room (x, d)"
      using bd_heap_fits [OF h', of "(a, d)"] bd_heap_listed [OF h' dm] by auto
    have "buddy_of start a d = a + bd_size d"
      using f h(3) fit(1) xor_block [of d "a - start"] by (simp add: buddy_of_def sub64_small add64_small fits_def bd_size_Suc)
    with buddy_sym [OF fit(1) fit(2) h(3)] have "buddy_of start (a + bd_size d) d = a" by simp
    moreover have "a \<notin> set (ls d)" using new dm by (auto simp: free_blocks_def)
    ultimately have mg: "merged start ls \<longrightarrow> merged start ?ls" using merged_push [OF _ fit(2) h(3)] by simp
    note h'
    moreover have "(a, d) \<notin> A" using new by auto
    moreover have "split_block a c t ls = split_block a d t ?ls"
      using True d small by (subst split_block.simps) (simp add: add64_small)
    moreover have "d = c - 1" "add64 a (bd_size d) = a + bd_size d" "t \<le> d" using True d small by (simp_all add: add64_small)
    ultimately show ?thesis using "1.IH" [OF True, of d "a + bd_size d"] mg by metis
  qed
qed

lemma merge_step_heap:
  assumes h: "bd_heap start room ls (insert (a, k) A)" and a: "(a, k) \<notin> A" and k: "k < MAX_ORDER"
    and b: "buddy_of start a k \<in> set (ls k)"
  defines "b \<equiv> buddy_of start a k"
  shows "bd_heap start room (ls(k := remove1 b (ls k))) (insert (if b < a then b else a, Suc k) A) \<and>
    (if b < a then b else a, Suc k) \<notin> A"
proof -
  let ?B = "free_blocks ls \<union> insert (a, k) A" and ?ls = "ls(k := remove1 b (ls k))" and ?c = "if b < a then b else a"
  have t: "tiling start room ?B" and d: "free_blocks ls \<inter> insert (a, k) A = {}" "\<forall>k\<le>MAX_ORDER. distinct (ls k)"
    and wrap: "start + room < 2 ^ 64" using h by (auto simp: bd_heap_def)
  have bF: "(b, k) \<in> free_blocks ls" using assms(4) k by (simp add: b_def free_blocks_def)
  have fit: "fits start room (a, k)" "fits start room (b, k)" using tilingD(2) [OF t] bF by auto
  note bud = buddy_of_fits [OF fit(1) wrap fit(2) [unfolded b_def], folded b_def]
  let ?e = "if bd_size (Suc k) dvd a - start then a else a - bd_size k"
  have lower: "a - bd_size k < a \<and> bd_size k \<le> a" if "bd_size k \<le> a - start"
    using that bd_size_pos [of k] by linarith
  have e: "?c = ?e" "{(a, k), (b, k)} = {(?c, k), (?c + bd_size k, k)}" "bd_size (Suc k) dvd ?c - start"
    using bud lower by (auto split: if_splits)
  have "tiling start room ((?B - {(?c, k), (?c + bd_size k, k)}) \<union> {(?c, Suc k)})"
  proof (rule tiling_merge [OF t _ _ k e(3)])
    have "{(a, k), (b, k)} \<subseteq> ?B" using bF by auto
    then show "(?c, k) \<in> ?B" "(?c + bd_size k, k) \<in> ?B" unfolding e(2) by simp_all
  qed
  then have t': "tiling start room ((?B - {(a, k), (b, k)}) \<union> {(?c, Suc k)})" unfolding e(2) .
  have fb: "free_blocks ?ls = free_blocks ls - {(b, k)}" using d(2) k by (intro free_blocks_remove) simp
  have "(?B - {(a, k), (b, k)}) \<union> {(?c, Suc k)} = free_blocks ?ls \<union> insert (?c, Suc k) A"
    unfolding fb using d(1) a bF by blast
  with t' have 1: "tiling start room (free_blocks ?ls \<union> insert (?c, Suc k) A)" by (simp only:)
  have new: "(?c, Suc k) \<notin> ?B"
  proof
    assume m: "(?c, Suc k) \<in> ?B"
    have c: "(?c, k) \<in> ?B" using bF by auto
    from tiling_fst_inj [OF t m c] show False by simp
  qed
  have "free_blocks ?ls \<inter> insert (?c, Suc k) A = {}" "(?c, Suc k) \<notin> A" using d(1) fb new by blast+
  with 1 show ?thesis using h by (simp add: bd_heap_def)
qed

lemma merge_loop_heap:
  assumes "bd_heap start room ls (insert (a, k) A)" and "(a, k) \<notin> A"
  shows "\<exists>b c ls'. merge_loop start a k ls = (b, c, ls') \<and> bd_heap start room ls' (insert (b, c) A) \<and> (b, c) \<notin> A \<and>
    (c < MAX_ORDER \<longrightarrow> buddy_of start b c \<notin> set (ls' c)) \<and> (\<forall>j. set (ls' j) \<subseteq> set (ls j))"
  using assms
proof (induction start a k ls rule: merge_loop.induct)
  case (1 start a k ls)
  let ?b = "buddy_of start a k"
  show ?case
  proof (cases "k < MAX_ORDER \<and> ?b \<in> set (ls k)")
    case True
    let ?c = "if ?b < a then ?b else a" and ?ls = "ls(k := remove_from_list (ls k) ?b)"
    have eq: "merge_loop start a k ls = merge_loop start ?c (k + 1) ?ls"
      using True by (subst merge_loop.simps) (simp add: Let_def)
    have "bd_heap start room ?ls (insert (?c, k + 1) A)" "(?c, k + 1) \<notin> A"
      using merge_step_heap [OF "1.prems" conjunct1 [OF True] conjunct2 [OF True]]
      by (simp_all only: remove_from_list_remove1 Suc_eq_plus1 simp_thms)
    then have "\<exists>b c ls'. merge_loop start ?c (k + 1) ?ls = (b, c, ls') \<and> bd_heap start room ls' (insert (b, c) A) \<and> (b, c) \<notin> A \<and>
        (c < MAX_ORDER \<longrightarrow> buddy_of start b c \<notin> set (ls' c)) \<and> (\<forall>j. set (ls' j) \<subseteq> set (?ls j))"
      by (intro "1.IH" [OF _ refl]) (use True in \<open>simp_all only: is_buddy_free_iff simp_thms\<close>)
    moreover have "set (?ls j) \<subseteq> set (ls j)" for j using set_remove1_subset [of ?b "ls k"] by auto
    ultimately show ?thesis unfolding eq by blast
  next
    case False
    then have "merge_loop start a k ls = (a, k, ls)" by (subst merge_loop.simps) (auto simp: Let_def)
    with False "1.prems" show ?thesis by simp
  qed
qed

section \<open>The representation\<close>

definition live_block :: "bd_state \<Rightarrow> addr \<Rightarrow> block" where
  "live_block m p = (p - 8, unat (meta_order m (p - 8)))"

definition bd_rep :: "bd_state \<Rightarrow> (addr \<rightharpoonup> nat) \<Rightarrow> bool" where
  "bd_rep m L \<longleftrightarrow> bd_heap (start_addr m) (total_managed_bytes m) (buddy_lists m) (live_block m ` dom L) \<and>
     merged (start_addr m) (buddy_lists m) \<and> (\<forall>p n. L p = Some n \<longrightarrow> 8 \<le> p \<and> n + 8 \<le> bsize (live_block m p))"

lemma bd_rep_fit:
  assumes "bd_rep m L" and "p \<in> dom L"
  shows "fits (start_addr m) (total_managed_bytes m) (live_block m p)"
proof (rule tilingD(2))
  show "tiling (start_addr m) (total_managed_bytes m) (free_blocks (buddy_lists m) \<union> live_block m ` dom L)"
    using assms(1) by (simp add: bd_rep_def bd_heap_def)
qed (use assms(2) in simp)

lemma bd_rep_inj:
  assumes "bd_rep m L" and "p \<in> dom L" and "q \<in> dom L" and "p - 8 = q - 8"
  shows "p = q"
proof -
  have "8 \<le> p" "8 \<le> q" using assms(1-3) by (auto simp: bd_rep_def)
  with assms(4) show ?thesis by simp
qed

lemma bd_free_run:
  assumes rep: "bd_rep m L" and p: "p \<in> dom L"
  shows "\<exists>t. bd_mm_free p m = Ret ((), t) \<and> bd_rep t (L(p := None)) \<and> t = m\<lparr>buddy_lists := buddy_lists t\<rparr>"
proof -
  obtain a k where ak: "live_block m p = (a, k)" by (cases "live_block m p")
  let ?A = "live_block m ` (dom L - {p})"
  have p8: "8 \<le> p" "p - 8 = a" "k = unat (meta_order m a)" and wrap: "start_addr m + total_managed_bytes m < 2 ^ 64"
    using rep p ak by (auto simp: bd_rep_def live_block_def bd_heap_def)
  have "8 \<le> bd_size k" by (simp add: bd_size_def MIN_BLOCK_SIZE_def)
  moreover have "a + bd_size k \<le> start_addr m + total_managed_bytes m" using bd_rep_fit [OF rep p] ak by (simp add: fits_def)
  ultimately have "p < 2 ^ 64" using wrap p8 by linarith
  have new: "(a, k) \<notin> ?A"
  proof
    assume "(a, k) \<in> ?A"
    then obtain q where q: "q \<in> dom L" "q \<noteq> p" "live_block m q = (a, k)" by fastforce
    with bd_rep_inj [OF rep p q(1)] p8(2) show False by (simp add: live_block_def)
  qed
  have "dom L = insert p (dom L - {p})" using p by blast
  then have "live_block m ` dom L = insert (a, k) ?A" using ak image_insert [of "live_block m" p "dom L - {p}"] by simp
  with rep have h: "bd_heap (start_addr m) (total_managed_bytes m) (buddy_lists m) (insert (a, k) ?A)" by (simp add: bd_rep_def)
  from merge_loop_heap [OF h new] obtain b c ls where
    mg: "merge_loop (start_addr m) a k (buddy_lists m) = (b, c, ls)"
      "bd_heap (start_addr m) (total_managed_bytes m) ls (insert (b, c) ?A)" "(b, c) \<notin> ?A" "c < MAX_ORDER \<longrightarrow> buddy_of (start_addr m) b c \<notin> set (ls c)"
      "\<forall>j. set (ls j) \<subseteq> set (buddy_lists m j)" by blast
  have fit: "fits (start_addr m) (total_managed_bytes m) (b, c)" by (rule bd_heap_fits [OF mg(2)]) simp
  have "merged (start_addr m) (ls(c := b # ls c))"
  proof (rule merged_push [where room = "total_managed_bytes m"])
    show "merged (start_addr m) ls" by (rule merged_sub [of _ "buddy_lists m"]) (use rep mg(5) in \<open>auto simp: bd_rep_def\<close>)
    show "fits (start_addr m) (total_managed_bytes m) (x, c)" if "x \<in> insert b (set (ls c))" for x
      using that fit bd_heap_listed [OF mg(2), of c x] by (auto simp: fits_def)
  qed (use wrap mg(4) in simp_all)
  let ?t = "m\<lparr>buddy_lists := ls(c := b # ls c)\<rparr>"
  have "sub64 p 8 = a" using p8 \<open>p < 2 ^ 64\<close> by (subst sub64_small) auto
  then have "bd_mm_free p m = Ret ((), ?t)" using mg(1) p8 by (simp add: bd_mm_free_def run_simps)
  moreover have "live_block ?t = live_block m" by (simp add: live_block_def fun_eq_iff)
  then have "bd_rep ?t (L(p := None))" using bd_heap_push [OF mg(2,3)] rep \<open>merged _ _\<close> by (simp add: bd_rep_def)
  ultimately show ?thesis by (intro exI [of _ ?t]) simp
qed

section \<open>Allocation\<close>

text \<open>The doubling loop ends for requests that do not reach the top bit, with the least order that fits.\<close>

lemma order_loop:
  assumes "r \<le> 2 ^ 63"
  shows "wp no_stop (loop (order_step r) (MIN_BLOCK_SIZE, 0))
    (\<lambda>t s'. s' = s \<and> r \<le> bd_size t \<and> (t = 0 \<or> bd_size (t - 1) < r)) s"
proof (rule wp_loop [where I = "\<lambda>x s'. s' = s \<and> fst x = bd_size (snd x) \<and> (snd x = 0 \<or> bd_size (snd x - 1) < r)"
      and \<mu> = "\<lambda>x _. r - fst x"])
  fix x s' assume I: "s' = s \<and> fst x = bd_size (snd x) \<and> (snd x = 0 \<or> bd_size (snd x - 1) < r)"
  obtain b k where x: "x = (b, k)" by (cases x)
  have dec: "r - 2 * bd_size j < r - bd_size j" if "bd_size j < r" for j
    using that bd_size_pos [of j] by linarith
  from I x assms show "wp no_stop (order_step r x) (\<lambda>y t. case y of
      Inl a' \<Rightarrow> (t = s \<and> fst a' = bd_size (snd a') \<and> (snd a' = 0 \<or> bd_size (snd a' - 1) < r)) \<and> r - fst a' < r - fst x
    | Inr t' \<Rightarrow> t = s \<and> r \<le> bd_size t' \<and> (t' = 0 \<or> bd_size (t' - 1) < r)) s'"
    by (auto simp: order_step_def bd_size_Suc intro: dec)
qed (simp add: bd_size_def)

lemma find_order_Some: "find_order ls t = Some c \<Longrightarrow> t \<le> c \<and> c \<le> MAX_ORDER \<and> ls c \<noteq> []"
  by (induction ls t rule: find_order.induct) (subst (asm) (2) find_order.simps, auto split: if_splits)

lemma find_order_None: "find_order ls t = None \<Longrightarrow> t \<le> c \<Longrightarrow> c \<le> MAX_ORDER \<Longrightarrow> ls c = []"
proof (induction ls t rule: find_order.induct)
  case (1 ls t)
  have t: "t \<le> MAX_ORDER" using "1.prems" by simp
  with "1.prems"(1) have n: "ls t = []" "find_order ls (t + 1) = None"
    by (subst (asm) find_order.simps, auto split: if_splits)+
  then show ?case using "1.IH" [OF t] "1.prems"(2,3) by (cases "t = c") auto
qed

text \<open>Serving a request of order \<open>t\<close> from the list of order \<open>c\<close>.\<close>

lemma take_and_split:
  assumes h: "bd_heap start room ls A" and c: "t \<le> c" "c \<le> MAX_ORDER" "ls c \<noteq> []"
  shows "bd_heap start room (split_block (hd (ls c)) c t (ls(c := tl (ls c)))) (insert (hd (ls c), t) A) \<and>
    (hd (ls c), t) \<notin> A \<and> hd (ls c) \<notin> fst ` A \<and>
    (merged start ls \<longrightarrow> merged start (split_block (hd (ls c)) c t (ls(c := tl (ls c)))))"
proof -
  let ?a = "hd (ls c)" and ?ls = "ls(c := tl (ls c))"
  have dist: "\<forall>k\<le>MAX_ORDER. distinct (ls k)" using h by (simp add: bd_heap_def)
  have F: "(?a, c) \<in> free_blocks ls" using c by (simp add: free_blocks_def)
  have "free_blocks ?ls = free_blocks ls - {(?a, c)}" by (rule free_blocks_tl) (use dist c in auto)
  moreover have "\<forall>k\<le>MAX_ORDER. distinct (?ls k)" using dist by (simp add: distinct_tl)
  ultimately have taken: "bd_heap start room ?ls (insert (?a, c) A)" "(?a, c) \<notin> A"
    using bd_heap_take [OF h F] by auto
  have t: "tiling start room (free_blocks ls \<union> A)" using h by (simp add: bd_heap_def)
  have "?a \<notin> fst ` A"
  proof
    assume "?a \<in> fst ` A"
    then obtain x where x: "x \<in> A" "fst x = ?a" by auto
    with tiling_fst_inj [OF t, of x "(?a, c)"] F taken(2) show False by auto
  qed
  moreover have "set (?ls k) \<subseteq> set (ls k)" for k using c(3) by (auto dest: list.set_sel(2))
  then have "merged start ls \<longrightarrow> merged start ?ls" using merged_sub [of start ls ?ls] by blast
  ultimately show ?thesis using split_block_heap [OF taken c(1)] by blast
qed

definition served :: "bd_state \<Rightarrow> (addr \<rightharpoonup> nat) \<Rightarrow> nat \<Rightarrow> nat \<Rightarrow> addr \<Rightarrow> bd_state \<Rightarrow> bool" where
  "served m L n t a m' \<longleftrightarrow> bd_mm_alloc n m = Ret (a + 8, m') \<and> a + 8 \<notin> dom L \<and> bd_rep m' (L(a + 8 \<mapsto> n)) \<and>
     live_block m' ` dom (L(a + 8 \<mapsto> n)) = insert (a, t) (live_block m ` dom L) \<and> (a, t) \<notin> live_block m ` dom L \<and>
     total_managed_bytes m' = total_managed_bytes m"

lemma bd_alloc_run:
  assumes rep: "bd_rep m L" and n: "0 < n" "n \<le> 2 ^ 62"
  shows "\<exists>t. n + 8 \<le> bd_size t \<and> (t = 0 \<or> bd_size (t - 1) < n + 8) \<and>
    (if t > MAX_ORDER \<or> find_order (buddy_lists m) t = None then bd_mm_alloc n m = Ret (null, m)
     else \<exists>a m'. served m L n t a m')"
proof -
  have r: "(if add64 n 8 < 8 then 8 else add64 n 8) = n + 8" using n by (subst add64_small, simp)+ simp
  from order_loop [of "n + 8" m] n obtain t where
    t: "loop (order_step (n + 8)) (MIN_BLOCK_SIZE, 0) m = Ret (t, m)" "n + 8 \<le> bd_size t" "t = 0 \<or> bd_size (t - 1) < n + 8"
    by (auto elim!: wp_no_stopE)
  show ?thesis
  proof (intro exI [of _ t] conjI t(2,3))
    show "if t > MAX_ORDER \<or> find_order (buddy_lists m) t = None then bd_mm_alloc n m = Ret (null, m)
     else \<exists>a m'. served m L n t a m'"
    proof (cases "t > MAX_ORDER \<or> find_order (buddy_lists m) t = None")
      case True
      then have "bd_mm_alloc n m = Ret (null, m)"
        using n(1) t(1) r by (auto simp: bd_mm_alloc_def Let_def run_simps)
      with True show ?thesis by simp
    next
      case False
      then obtain c where c: "find_order (buddy_lists m) t = Some c" "t \<le> MAX_ORDER" by auto
      let ?ls = "buddy_lists m" and ?A = "live_block m ` dom L"
      let ?a = "hd (?ls c)"
      let ?m = "m\<lparr>buddy_lists := split_block ?a c t (?ls(c := tl (?ls c))), meta_order := (meta_order m)(?a := of_nat t)\<rparr>"
      have h: "bd_heap (start_addr m) (total_managed_bytes m) ?ls ?A" using rep by (simp add: bd_rep_def)
      note fo = find_order_Some [OF c(1)]
      from take_and_split [OF h, of t c] fo have
        ts: "bd_heap (start_addr m) (total_managed_bytes m) (buddy_lists ?m) (insert (?a, t) ?A)" "(?a, t) \<notin> ?A" "?a \<notin> fst ` ?A"
        "merged (start_addr m) (buddy_lists ?m)" using rep by (auto simp: bd_rep_def)
      have fit: "fits (start_addr m) (total_managed_bytes m) (?a, t)"
        by (rule tilingD(2) [where B = "free_blocks (buddy_lists ?m) \<union> insert (?a, t) ?A"]) (use ts(1) in \<open>auto simp: bd_heap_def\<close>)
      have "?a + 8 < 2 ^ 64" using fit h t(2) by (auto simp: fits_def bd_heap_def)
      then have run: "bd_mm_alloc n m = Ret (?a + 8, ?m)"
        using n(1) t(1) r c by (simp add: bd_mm_alloc_def Let_def run_simps add64_small)
      have other: "p - 8 \<noteq> ?a" if "p \<in> dom L" for p using ts(3) that by (force simp: live_block_def)
      then have fresh: "?a + 8 \<notin> dom L" by force
      have same: "live_block ?m p = live_block m p" if "p \<in> dom L" for p using other [OF that] by (simp add: live_block_def)
      have "unat (of_nat t :: u8) = t" using c(2) by (simp add: MAX_ORDER_def unat_of_nat)
      then have new: "live_block ?m (?a + 8) = (?a, t)" by (simp add: live_block_def)
      have img: "live_block ?m ` dom (L(?a + 8 \<mapsto> n)) = insert (?a, t) ?A"
        using same new by simp
      have "8 \<le> p \<and> k + 8 \<le> bsize (live_block ?m p)" if "(L(?a + 8 \<mapsto> n)) p = Some k" for p k
      proof (cases "p = ?a + 8")
        case True
        with that new t(2) show ?thesis by simp
      next
        case False
        with that have L: "L p = Some k" by simp
        then have "live_block ?m p = live_block m p" by (intro same) auto
        with L rep show ?thesis unfolding bd_rep_def by metis
      qed
      then have "bd_rep ?m (L(?a + 8 \<mapsto> n))" unfolding bd_rep_def img using ts(1,4) by simp
      then have "served m L n t ?a ?m" unfolding served_def using run fresh img ts(2) by simp
      with c show ?thesis by auto
    qed
  qed
qed

section \<open>Complete merging\<close>

lemma tiling_covers:
  assumes t: "tiling start room B" and x: "start \<le> x" "x < start + room"
  shows "\<exists>b\<in>B. fst b \<le> x \<and> x < fst b + bsize b"
proof -
  let ?I = "\<lambda>b. {fst b..<fst b + bsize b}"
  have "card (\<Union>b\<in>B. ?I b) = (\<Sum>b\<in>B. card (?I b))"
  proof (rule card_UN_disjoint [OF tilingD(1) [OF t]])
    show "\<forall>b\<in>B. \<forall>c\<in>B. b \<noteq> c \<longrightarrow> ?I b \<inter> ?I c = {}"
      using tilingD(3) [OF t] by (fastforce simp: sep_def apart_def)
  qed simp
  then have "card (\<Union>b\<in>B. ?I b) = card {start..<start + room}" using tilingD(4) [OF t] by simp
  moreover have "(\<Union>b\<in>B. ?I b) \<subseteq> {start..<start + room}"
    using tilingD(2) [OF t] by (fastforce simp: fits_def)
  ultimately have "(\<Union>b\<in>B. ?I b) = {start..<start + room}" by (intro card_subset_eq) auto
  with x have "x \<in> (\<Union>b\<in>B. ?I b)" by auto
  then show ?thesis by auto
qed

text \<open>Two multiples of \<open>s\<close>, one inside the block of size \<open>s\<close> of the other, are equal.\<close>

lemma aligned_eq:
  assumes "s dvd c" and "s dvd b" and "c \<le> b" and "b < c + (s::nat)"
  shows "c = b"
proof -
  have "s dvd b - c" using assms by (simp add: dvd_diff_nat)
  with assms(3,4) show ?thesis by (cases "b = c") (auto dest: dvd_imp_le)
qed

lemma bd_size_dvd: "j \<le> k \<Longrightarrow> bd_size j dvd bd_size k"
  by (simp add: bd_size_def le_imp_power_dvd)

text \<open>A block that covers one half of a larger aligned block covers all of it.\<close>

lemma aligned_cover:
  assumes "S dvd c" and "s dvd p" and "s dvd S" and "c \<le> x" and "x < c + S" and "p \<le> x" and "x < p + (s::nat)"
  shows "c \<le> p \<and> p + s \<le> c + S"
proof -
  obtain i j where ij: "c = s * i" "p = s * j" using assms(1-3) by (meson dvdE dvd_trans)
  obtain n where n: "S = s * n" using assms(3) by (auto simp: dvd_def)
  have "0 < s" using assms(6,7) by simp
  have "s * i < s * Suc j" using assms(4,7) ij by simp
  then have "i \<le> j" using \<open>0 < s\<close> nat_mult_less_cancel1 [of s i "Suc j"] by simp
  moreover have "s * j < s * (i + n)" using assms(5,6) ij n by (simp add: algebra_simps)
  then have "Suc j \<le> i + n" using \<open>0 < s\<close> nat_mult_less_cancel1 [of s j "i + n"] by simp
  then have "s * Suc j \<le> s * (i + n)" by (rule mult_le_mono2)
  ultimately show ?thesis using ij n by (simp add: algebra_simps)
qed

lemma lone_minimal_block:
  assumes t: "tiling start (bd_size K) F" and K: "K \<le> MAX_ORDER" and a: "(a, k) \<in> F" and low: "\<forall>b\<in>F. k \<le> snd b" and less: "k < K"
    and w: "start + bd_size K < 2 ^ 64"
  shows "(buddy_of start a k, k) \<in> F"
proof -
  let ?s = "bd_size k" and ?b = "buddy_of start a k"
  let ?p = "if bd_size (Suc k) dvd a - start then a - start else a - start - ?s"
  have f: "start \<le> a" "?s dvd a - start" "a + ?s \<le> start + bd_size K" using tilingD(2) [OF t a] by (auto simp: fits_def)
  have sub: "sub64 a start = a - start" using f w by (intro sub64_small) auto
  have p: "bd_size (Suc k) dvd ?p" "?p \<le> a - start" "a - start + ?s \<le> ?p + bd_size (Suc k)"
    "(a - start) XOR ?s = (if bd_size (Suc k) dvd a - start then ?p + ?s else ?p)" "?s \<le> a - start \<or> bd_size (Suc k) dvd a - start"
  proof -
    obtain q where q: "a - start = ?s * q" using f(2) by (auto simp: dvd_def)
    have "?s \<le> a - start \<and> bd_size (Suc k) dvd a - start - ?s" if "\<not> bd_size (Suc k) dvd a - start"
    proof -
      have "odd q" using that q by (auto simp: bd_size_Suc)
      then obtain i where "q = Suc (2 * i)" by (auto elim: oddE)
      then have "a - start = ?s + 2 * ?s * i" using q by simp
      then show ?thesis by (simp add: bd_size_Suc)
    qed
    then show "bd_size (Suc k) dvd ?p" "?p \<le> a - start" "a - start + ?s \<le> ?p + bd_size (Suc k)"
      "(a - start) XOR ?s = (if bd_size (Suc k) dvd a - start then ?p + ?s else ?p)" "?s \<le> a - start \<or> bd_size (Suc k) dvd a - start"
      using xor_block [OF f(2)] by (auto simp: bd_size_Suc)
  qed
  have lt: "a - start < bd_size K" using f bd_size_pos [of k] by linarith
  have inK: "?p + bd_size (Suc k) \<le> bd_size K"
    using aligned_cover [of "bd_size K" 0 "bd_size (Suc k)" ?p "a - start"] p(1-3) f bd_size_dvd [of "Suc k" K] less bd_size_pos [of k]
    lt by auto
  let ?r = "(a - start) XOR ?s"
  have r: "?p \<le> ?r" "?r + ?s \<le> ?p + bd_size (Suc k)" "?s dvd ?r"
    using p(4) p(1) f(2) bd_size_dvd [of k "Suc k"] by (auto simp: bd_size_Suc dvd_diff_nat)
  have b: "?b = ?r + start" using sub r inK w by (simp add: buddy_of_def add64_small)
  have "?r < bd_size K" using r inK bd_size_pos [of k] by linarith
  then have "start \<le> ?b" "?b < start + bd_size K" using b by auto
  from tiling_covers [OF t this] obtain c j where c: "(c, j) \<in> F" "c \<le> ?b" "?b < c + bd_size j" by auto
  have fc: "start \<le> c" "bd_size j dvd c - start" using tilingD(2) [OF t c(1)] by (auto simp: fits_def)
  have "k \<le> j" using low c(1) by force
  show ?thesis
  proof (cases "j = k")
    case True
    have "c - start = ?r" by (rule aligned_eq [of ?s]) (use True fc c b r(3) in auto)
    then have "c = ?b" using b fc(1) by linarith
    with c(1) True show ?thesis by simp
  next
    case False
    with \<open>k \<le> j\<close> have "Suc k \<le> j" by simp
    have "c - start \<le> ?p \<and> ?p + bd_size (Suc k) \<le> c - start + bd_size j"
      by (rule aligned_cover [OF fc(2) p(1) bd_size_dvd [OF \<open>Suc k \<le> j\<close>], of ?r])
         (use c(2,3) b r(1,2) fc(1) bd_size_pos [of k] in linarith)+
    with p(2,3) fc(1) f(1) have "c \<le> a" "a + ?s \<le> c + bd_size j" by linarith+
    moreover have "sep (a, k) (c, j)" by (rule tilingD(3) [OF t a c(1)]) (use False in auto)
    ultimately show ?thesis using bd_size_pos [of k] bd_size_pos [of j] by (auto simp: sep_def apart_def)
  qed
qed

lemma tiling_one:
  assumes t: "tiling start room F" and b: "b \<in> F" "bsize b = room"
  shows "F = {b}"
proof -
  have "sum bsize F = bsize b + sum bsize (F - {b})" using sum.remove [OF tilingD(1) [OF t] b(1), of bsize] .
  then have "sum bsize (F - {b}) = 0" using tilingD(4) [OF t] b(2) by simp
  then have "\<forall>c\<in>F - {b}. bsize c = 0" using tilingD(1) [OF t] by (simp add: sum_eq_0_iff)
  then show ?thesis using b(1) by (auto simp: bsize_def)
qed

section \<open>The interface\<close>

lemma bd_alloc_spec:
  assumes rep: "bd_rep m L" and n: "n \<le> 2 ^ 62"
  shows "wp no_stop (bd_mm_alloc n) (\<lambda>a t. (a = null \<and> bd_rep t L) \<or>
    (a \<noteq> null \<and> a \<notin> dom L \<and> (\<forall>b k. L b = Some k \<longrightarrow> apart a n b k) \<and> bd_rep t (L(a \<mapsto> n)))) m"
proof (cases "n = 0")
  case True
  then show ?thesis using rep by (simp add: bd_mm_alloc_def)
next
  case False
  then have n0: "0 < n" by simp
  from bd_alloc_run [OF rep n0 n] obtain t where
    t: "if t > MAX_ORDER \<or> find_order (buddy_lists m) t = None then bd_mm_alloc n m = Ret (null, m) else \<exists>a m'. served m L n t a m'"
    by blast
  show ?thesis
  proof (cases "t > MAX_ORDER \<or> find_order (buddy_lists m) t = None")
    case True
    with t have "bd_mm_alloc n m = Ret (null, m)" by simp
    with rep show ?thesis by (simp add: wp_of_Ret)
  next
    case False
    with t obtain a m' where a: "bd_mm_alloc n m = Ret (a + 8, m')" "a + 8 \<notin> dom L" "bd_rep m' (L(a + 8 \<mapsto> n))"
      unfolding served_def by (metis (no_types, lifting))
    let ?L = "L(a + 8 \<mapsto> n)"
    have "apart (a + 8) n b k" if b: "L b = Some k" for b k
    proof -
      have tl: "tiling (start_addr m') (total_managed_bytes m') (free_blocks (buddy_lists m') \<union> live_block m' ` dom ?L)"
        using a(3) unfolding bd_rep_def bd_heap_def by blast
      have ne: "b \<noteq> a + 8" using a(2) b by auto
      then have "?L (a + 8) = Some n" "?L b = Some k" using b by simp_all
      with a(3) have sz: "n + 8 \<le> bsize (live_block m' (a + 8))" "k + 8 \<le> bsize (live_block m' b)" "8 \<le> b"
        unfolding bd_rep_def by blast+
      have "sep (live_block m' (a + 8)) (live_block m' b)"
      proof (rule tilingD(3) [OF tl])
        show "live_block m' (a + 8) \<noteq> live_block m' b"
        proof
          assume "live_block m' (a + 8) = live_block m' b"
          then have "a + 8 - 8 = b - 8" by (simp add: live_block_def)
          from bd_rep_inj [OF a(3) _ _ this] b ne show False by auto
        qed
      qed (use b in \<open>auto simp: domI\<close>)
      with sz show ?thesis by (auto simp: sep_def apart_def live_block_def)
    qed
    with a show ?thesis by (simp add: wp_of_Ret)
  qed
qed

interpretation bd: memory_manager buddy_mm bd_rep "2 ^ 62"
proof
  fix m L a assume "bd_rep m L" "a \<in> dom L"
  from bd_free_run [OF this] show "wp no_stop (mm_free_op buddy_mm a) (\<lambda>_ t. bd_rep t (L(a := None))) m"
    by (auto simp: buddy_mm_def wp_of_Ret)
next
  fix m L n assume "bd_rep m L" "n \<le> (2::nat) ^ 62"
  from bd_alloc_spec [OF this] show "wp no_stop (mm_alloc_op buddy_mm n) (\<lambda>a t. (a = null \<and> bd_rep t L) \<or>
    (a \<noteq> null \<and> a \<notin> dom L \<and> (\<forall>b k. L b = Some k \<longrightarrow> apart a n b k) \<and> bd_rep t (L(a \<mapsto> n)))) m"
    by (simp add: buddy_mm_def)
qed (simp_all add: buddy_mm_def bd_mm_alloc_def bd_mm_free_def run_simps)

section \<open>Free memory\<close>

lemma free_blocks_upto:
  "{(a, k). k < j \<and> a \<in> set (ls k)} = (\<Union>k<j. (\<lambda>a. (a, k)) ` set (ls k))"
  by auto

lemma bd_free_bytes_sum:
  assumes "\<forall>k\<le>MAX_ORDER. distinct (ls k)"
  shows "bd_free_bytes ls = sum bsize (free_blocks ls)"
proof -
  have "sum bsize (free_blocks ls) = sum bsize (\<Union>k<Suc MAX_ORDER. (\<lambda>a. (a, k)) ` set (ls k))"
    using free_blocks_upto [of "Suc MAX_ORDER" ls] by (simp add: free_blocks_def less_Suc_eq_le)
  also have "\<dots> = (\<Sum>k<Suc MAX_ORDER. sum bsize ((\<lambda>a. (a, k)) ` set (ls k)))"
    by (rule sum.UNION_disjoint) auto
  also have "\<dots> = (\<Sum>k<Suc MAX_ORDER. length (ls k) * bd_size k)"
  proof (rule sum.cong [OF refl])
    fix k assume "k \<in> {..<Suc MAX_ORDER}"
    then have "distinct (ls k)" using assms by simp
    then show "sum bsize ((\<lambda>a. (a, k)) ` set (ls k)) = length (ls k) * bd_size k"
      by (simp add: sum.reindex inj_on_def distinct_card)
  qed
  finally show ?thesis by (simp add: bd_free_bytes_def sum_list_sum_nth atLeast0LessThan del: upt_Suc sum.lessThan_Suc)
qed

lemma bd_free_total:
  assumes "bd_rep m L"
  shows "bd_free_bytes (buddy_lists m) + sum bsize (live_block m ` dom L) = total_managed_bytes m" and "finite (live_block m ` dom L)"
proof -
  have h: "bd_heap (start_addr m) (total_managed_bytes m) (buddy_lists m) (live_block m ` dom L)" using assms by (simp add: bd_rep_def)
  then have t: "tiling (start_addr m) (total_managed_bytes m) (free_blocks (buddy_lists m) \<union> live_block m ` dom L)"
    and d: "free_blocks (buddy_lists m) \<inter> live_block m ` dom L = {}" by (simp_all add: bd_heap_def)
  have f: "finite (free_blocks (buddy_lists m))" "finite (live_block m ` dom L)" using tilingD(1) [OF t] by simp_all
  show "finite (live_block m ` dom L)" by (rule f(2))
  have "bd_free_bytes (buddy_lists m) = sum bsize (free_blocks (buddy_lists m))"
    using h by (intro bd_free_bytes_sum) (simp add: bd_heap_def)
  with sum.union_disjoint [OF f d, of bsize] tilingD(4) [OF t]
  show "bd_free_bytes (buddy_lists m) + sum bsize (live_block m ` dom L) = total_managed_bytes m" by simp
qed

text \<open>Requests of at most 4088 bytes take one block of the least order, so every such request is
  served as long as 4096 bytes are free.\<close>

definition bd_room :: "nat \<Rightarrow> bd_state \<Rightarrow> (addr \<rightharpoonup> nat) \<Rightarrow> bool" where
  "bd_room k m L \<longleftrightarrow> bd_rep m L \<and> k * MIN_BLOCK_SIZE \<le> bd_free_bytes (buddy_lists m)"

lemma bd_size_0: "bd_size 0 = MIN_BLOCK_SIZE"
  by (simp add: bd_size_def)

lemma bd_free_bytes_None:
  assumes "find_order ls 0 = None"
  shows "bd_free_bytes ls = 0"
proof -
  have "length (ls k) * bd_size k = 0" if "k \<in> set [0..<Suc MAX_ORDER]" for k
    using find_order_None [OF assms, of k] that by (simp add: less_Suc_eq_le del: upt_Suc)
  then show ?thesis by (auto simp: bd_free_bytes_def sum_list_eq_0_iff simp del: upt_Suc)
qed

lemma bd_alloc_room:
  assumes r: "bd_room (Suc k) m L" and n: "0 < n" "n \<le> 4088"
  shows "wp no_stop (bd_mm_alloc n) (\<lambda>a t. a \<noteq> null \<and> a \<notin> dom L \<and> bd_room k t (L(a \<mapsto> n))) m"
proof -
  have rep: "bd_rep m L" and free: "Suc k * MIN_BLOCK_SIZE \<le> bd_free_bytes (buddy_lists m)" using r by (simp_all add: bd_room_def)
  have "n \<le> 2 ^ 62" using n(2) by simp
  from bd_alloc_run [OF rep n(1) this] obtain t where t: "t = 0 \<or> bd_size (t - 1) < n + 8" and
    run: "if t > MAX_ORDER \<or> find_order (buddy_lists m) t = None then bd_mm_alloc n m = Ret (null, m) else \<exists>a m'. served m L n t a m'" by blast
  have t0: "t = 0"
  proof (rule ccontr)
    assume "t \<noteq> 0"
    with t n(2) have "bd_size (t - 1) < MIN_BLOCK_SIZE" by (simp add: MIN_BLOCK_SIZE_def)
    with bd_size_mono [of 0 "t - 1"] show False by (simp add: bd_size_0)
  qed
  have "find_order (buddy_lists m) 0 \<noteq> None"
  proof
    assume "find_order (buddy_lists m) 0 = None"
    with bd_free_bytes_None free show False by (simp add: MIN_BLOCK_SIZE_def)
  qed
  with run t0 obtain a m' where "served m L n 0 a m'" by auto
  then have a: "bd_mm_alloc n m = Ret (a + 8, m')" "a + 8 \<notin> dom L" "bd_rep m' (L(a + 8 \<mapsto> n))"
    "live_block m' ` dom (L(a + 8 \<mapsto> n)) = insert (a, 0) (live_block m ` dom L)" "(a, 0) \<notin> live_block m ` dom L"
    "total_managed_bytes m' = total_managed_bytes m" by (simp_all add: served_def)
  have "sum bsize (insert (a, 0) (live_block m ` dom L)) = MIN_BLOCK_SIZE + sum bsize (live_block m ` dom L)"
    using a(5) bd_free_total(2) [OF rep] by (simp add: bd_size_0)
  with bd_free_total(1) [OF rep] bd_free_total(1) [OF a(3), unfolded a(4)] a(6) free
  have "k * MIN_BLOCK_SIZE \<le> bd_free_bytes (buddy_lists m')" by simp
  with a show ?thesis by (simp add: wp_of_Ret bd_room_def)
qed

lemma bd_free_room:
  assumes r: "bd_room k m L" and a: "a \<in> dom L"
  shows "wp no_stop (bd_mm_free a) (\<lambda>_ t. bd_room k t (L(a := None))) m"
proof -
  have rep: "bd_rep m L" using r by (simp add: bd_room_def)
  from bd_free_run [OF rep a] obtain t where t: "bd_mm_free a m = Ret ((), t)" "bd_rep t (L(a := None))"
    "t = m\<lparr>buddy_lists := buddy_lists t\<rparr>" by blast
  have m: "total_managed_bytes t = total_managed_bytes m" "meta_order t = meta_order m" by (subst t(3), simp)+
  then have "live_block t ` dom (L(a := None)) \<subseteq> live_block m ` dom L" by (auto simp: live_block_def)
  with bd_free_total(2) [OF rep] have "sum bsize (live_block t ` dom (L(a := None))) \<le> sum bsize (live_block m ` dom L)"
    by (intro sum_mono2) auto
  with bd_free_total(1) [OF rep] bd_free_total(1) [OF t(2)] m(1)
  have "bd_free_bytes (buddy_lists m) \<le> bd_free_bytes (buddy_lists t)" by linarith
  with r t show ?thesis by (simp add: wp_of_Ret bd_room_def)
qed

interpretation bdr: memory_room buddy_mm bd_room 4088
proof
  fix k m L n assume "bd_room (Suc k) m L" "0 < n" "n \<le> (4088::nat)"
  from bd_alloc_room [OF this] show "wp no_stop (mm_alloc_op buddy_mm n) (\<lambda>a t. a \<noteq> null \<and> a \<notin> dom L \<and> bd_room k t (L(a \<mapsto> n))) m"
    by (simp add: buddy_mm_def)
next
  fix k m L a assume "bd_room k m L" "a \<in> dom L"
  from bd_free_room [OF this] show "wp no_stop (mm_free_op buddy_mm a) (\<lambda>_ t. bd_room k t (L(a := None))) m"
    by (simp add: buddy_mm_def)
next
  fix k m L assume "bd_room (Suc k) m L"
  then show "bd_room k m L" by (simp add: bd_room_def)
qed

section \<open>Properties\<close>

lemma init_order_spec:
  "j \<le> Suc MAX_ORDER \<Longrightarrow> (\<forall>i<j. bd_size i \<le> n) \<Longrightarrow>
     init_order n j \<le> Suc MAX_ORDER \<and> j \<le> init_order n j \<and> (\<forall>i<init_order n j. bd_size i \<le> n)"
proof (induction n j rule: init_order.induct)
  case (1 n j)
  show ?case
  proof (cases "bd_size j \<le> n \<and> j \<le> MAX_ORDER")
    case True
    have "init_order n (j + 1) \<le> Suc MAX_ORDER \<and> j + 1 \<le> init_order n (j + 1) \<and> (\<forall>i<init_order n (j + 1). bd_size i \<le> n)"
      by (rule "1.IH" [OF True]) (use True "1.prems"(2) in \<open>auto simp: less_Suc_eq\<close>)
    moreover have "init_order n j = init_order n (j + 1)" using True by (subst init_order.simps) simp
    ultimately show ?thesis by simp
  next
    case False
    then have "init_order n j = j" by (subst init_order.simps) auto
    with "1.prems" show ?thesis by simp
  qed
qed

lemma init_order_stop: "\<not> (bd_size (init_order n j) \<le> n \<and> init_order n j \<le> MAX_ORDER)"
proof (induction n j rule: init_order.induct)
  case (1 n j)
  then show ?case by (subst (1 2) init_order.simps) auto
qed

text \<open>
  Initialisation puts the whole managed region, the largest power-of-two multiple of 4096
  bytes that fits, on one list: the invariant holds with no live block and the region lies
  within the memory handed over.
\<close>

theorem bd_init_establishes:
  assumes "0 < base" and "MIN_BLOCK_SIZE \<le> n" and "base + n < 2 ^ 64"
  shows "\<exists>t. bd_mm_init base n m = Ret ((), t) \<and> bd_rep t Map.empty \<and> start_addr t = base \<and>
    total_managed_bytes t \<le> n \<and> (n < 2 ^ 29 \<longrightarrow> n < 2 * total_managed_bytes t)"
proof -
  let ?k = "init_order n 0"
  note k = init_order_spec [of 0 n, simplified]
  have k1: "init_order n 1 \<ge> 1" using init_order_spec [of 1 n] assms(2) by (simp add: bd_size_0 MAX_ORDER_def)
  have "?k = init_order n 1" using assms(2) by (subst init_order.simps) (simp add: bd_size_0)
  with k1 obtain j where j: "?k = Suc j" by (metis One_nat_def Suc_le_D)
  let ?t = "m\<lparr>buddy_lists := (\<lambda>_. [])(j := [base]), start_addr := base, total_managed_bytes := bd_size j\<rparr>"
  have run: "bd_mm_init base n m = Ret ((), ?t)" using j assms(1) by (simp add: bd_mm_init_def Let_def run_simps)
  have jm: "j \<le> MAX_ORDER" "bd_size j \<le> n" using k j by auto
  then have fb: "free_blocks (buddy_lists ?t) = {(base, j)}" by (auto simp: free_blocks_def split: if_splits)
  have "tiling base (bd_size j) {(base, j)}" using jm by (simp add: tiling_def fits_def)
  then have "bd_rep ?t Map.empty" unfolding bd_rep_def bd_heap_def fb using assms jm merged_single [of base j]
    by (simp add: tiling_def)
  moreover have "n < 2 * bd_size j" if "n < 2 ^ 29"
  proof (rule ccontr)
    assume "\<not> n < 2 * bd_size j"
    then have big: "bd_size (Suc j) \<le> n" by (simp add: bd_size_Suc)
    have "Suc j \<le> MAX_ORDER"
    proof (rule ccontr)
      assume "\<not> Suc j \<le> MAX_ORDER"
      then have "MAX_ORDER < Suc j" by simp
      with bd_size_mono [of "Suc MAX_ORDER" "Suc j"] big that show False by (simp add: bd_size_def MIN_BLOCK_SIZE_def MAX_ORDER_def)
    qed
    with big init_order_stop [of n 0] j show False by simp
  qed
  ultimately show ?thesis using run jm by (intro exI [of _ ?t]) simp
qed

definition bd_boot :: bd_state where
  "bd_boot = \<lparr>buddy_lists = (\<lambda>_. []), meta_order = (\<lambda>_. 0), start_addr = 0, total_managed_bytes = 0\<rparr>"

definition bd_ready :: bd_state where
  "bd_ready = bd_boot\<lparr>buddy_lists := (\<lambda>_. [])(2 := [4096]), start_addr := 4096, total_managed_bytes := 16384\<rparr>"

lemma bd_ready_init: "bd_mm_init 4096 20000 bd_boot = Ret ((), bd_ready)"
proof -
  have "init_order 20000 0 = 3"
    by (simp add: init_order.simps bd_size_def MIN_BLOCK_SIZE_def MAX_ORDER_def numeral_3_eq_3)
  then show ?thesis by (simp add: bd_mm_init_def bd_ready_def bd_boot_def run_simps bd_size_def MIN_BLOCK_SIZE_def)
qed

theorem bd_init_establishes_witness:
  "\<exists>t. bd_mm_init 4096 20000 bd_boot = Ret ((), t) \<and> bd_rep t Map.empty \<and> start_addr t = 4096 \<and>
    total_managed_bytes t \<le> 20000 \<and> 20000 < 2 * total_managed_bytes t"
proof -
  from bd_init_establishes [of 4096 20000 bd_boot] obtain t where
    "bd_mm_init 4096 20000 bd_boot = Ret ((), t)" "bd_rep t Map.empty" "start_addr t = 4096" "total_managed_bytes t \<le> 20000"
    "20000 < (2::nat) ^ 29 \<longrightarrow> 20000 < 2 * total_managed_bytes t" by (auto simp: MIN_BLOCK_SIZE_def)
  then show ?thesis by (intro exI [of _ t]) simp
qed

lemma bd_ready_rep: "bd_rep bd_ready Map.empty"
proof -
  have "free_blocks (buddy_lists bd_ready) = {(4096, 2)}" by (auto simp: free_blocks_def bd_ready_def MAX_ORDER_def split: if_splits)
  moreover have "tiling 4096 16384 {(4096, 2)}" by (simp add: tiling_def fits_def MAX_ORDER_def bd_size_def MIN_BLOCK_SIZE_def)
  moreover have "merged 4096 ((\<lambda>_. [])(2 := [4096]))"
    by (rule merged_single) (simp_all add: fits_def MAX_ORDER_def bd_size_def MIN_BLOCK_SIZE_def)
  ultimately show ?thesis unfolding bd_rep_def bd_heap_def by (simp add: bd_ready_def)
qed



text \<open>
  C5. Freeing a live block terminates, keeps the tiling, removes exactly that block, and leaves
  the heap fully merged: no two buddies are free at the same order.
\<close>

theorem bd_free_correct:
  assumes "bd_rep m L" and "p \<in> dom L"
  shows "\<exists>t. bd_mm_free p m = Ret ((), t) \<and> bd_rep t (L(p := None)) \<and>
    (\<forall>k<MAX_ORDER. \<forall>a\<in>set (buddy_lists t k). buddy_of (start_addr t) a k \<notin> set (buddy_lists t k))"
  using bd_free_run [OF assms] by (auto simp: bd_rep_def merged_def)

definition bd_one :: bd_state where
  "bd_one = (case bd_mm_alloc 100 bd_ready of Ret (_, t) \<Rightarrow> t | Stop _ \<Rightarrow> bd_ready)"

lemma bd_one_rep: "bd_rep bd_one [4104 \<mapsto> 100]"
proof -
  have "bd_mm_alloc 100 bd_ready = Ret (4104, bd_one)"
    unfolding bd_one_def
    by (simp add: bd_mm_alloc_def order_step_def bd_ready_def bd_boot_def loop_unfold run_simps add64_def MIN_BLOCK_SIZE_def
        MAX_ORDER_def find_order.simps)
  with bd_alloc_spec [OF bd_ready_rep, of 100] show ?thesis by (simp add: wp_of_Ret)
qed

theorem bd_free_correct_witness:
  "\<exists>t. bd_mm_free 4104 bd_one = Ret ((), t) \<and> bd_rep t ([4104 \<mapsto> 100](4104 := None)) \<and>
    (\<forall>k<MAX_ORDER. \<forall>a\<in>set (buddy_lists t k). buddy_of (start_addr t) a k \<notin> set (buddy_lists t k))"
  by (rule bd_free_correct [OF bd_one_rep]) simp

text \<open>
  Nothing is lost to fragmentation: once every block has been freed, the whole region is one
  free block again, as after initialisation.
\<close>

theorem bd_all_freed:
  assumes "bd_rep m Map.empty" and "total_managed_bytes m = bd_size K" and "K \<le> MAX_ORDER"
  shows "free_blocks (buddy_lists m) = {(start_addr m, K)}"
proof -
  let ?F = "free_blocks (buddy_lists m)"
  have t: "tiling (start_addr m) (bd_size K) ?F" and w: "start_addr m + bd_size K < 2 ^ 64" and mg: "merged (start_addr m) (buddy_lists m)"
    using assms by (auto simp: bd_rep_def bd_heap_def)
  have "?F \<noteq> {}" using tilingD(4) [OF t] by auto
  then obtain b where b: "b \<in> ?F" "\<forall>c\<in>?F. snd b \<le> snd c" using ex_has_least_nat [of "\<lambda>b. b \<in> ?F" _ snd] unfolding ex_in_conv [symmetric] by blast
  obtain a k where ak: "b = (a, k)" by (cases b)
  have f: "start_addr m \<le> a" "k \<le> MAX_ORDER" "a + bd_size k \<le> start_addr m + bd_size K" using tilingD(2) [OF t b(1)] ak by (auto simp: fits_def)
  have "\<not> k < K"
  proof
    assume "k < K"
    then have "(buddy_of (start_addr m) a k, k) \<in> ?F" using lone_minimal_block [OF t assms(3) _ _ _ w] b ak by auto
    with mg b(1) ak \<open>k < K\<close> assms(3) show False by (auto simp: merged_def free_blocks_def)
  qed
  moreover have "\<not> K < k"
  proof
    assume "K < k"
    then have "bd_size (Suc K) \<le> bd_size k" by (intro bd_size_mono) simp
    with f bd_size_pos [of K] bd_size_Suc [of K] show False by linarith
  qed
  ultimately have "k = K" by simp
  then have "?F = {b}" "a = start_addr m" using tiling_one [OF t b(1)] ak f by auto
  with ak \<open>k = K\<close> show ?thesis by simp
qed

theorem bd_all_freed_witness: "free_blocks (buddy_lists bd_ready) = {(4096, 2)}"
proof -
  have "free_blocks (buddy_lists bd_ready) = {(start_addr bd_ready, 2)}"
    by (rule bd_all_freed [OF bd_ready_rep]) (simp_all add: bd_ready_def bd_size_def MIN_BLOCK_SIZE_def MAX_ORDER_def)
  then show ?thesis by (simp add: bd_ready_def)
qed

text \<open>
  The statistics are exact: the free bytes are those of the blocks on the lists, the occupied
  bytes those of the live blocks, and they add up to the managed total.
\<close>

theorem bd_stats_exact:
  assumes "bd_rep m L"
  shows "wp no_stop bd_mm_get_stats (\<lambda>st t. t = m \<and> occupied_memory st = sum bsize (live_block m ` dom L) \<and>
    free_memory st = sum bsize (free_blocks (buddy_lists m)) \<and> free_memory st + occupied_memory st = total_memory st) m"
proof -
  have h: "bd_heap (start_addr m) (total_managed_bytes m) (buddy_lists m) (live_block m ` dom L)" using assms by (simp add: bd_rep_def)
  then have "bd_free_bytes (buddy_lists m) = sum bsize (free_blocks (buddy_lists m))"
    by (intro bd_free_bytes_sum) (simp add: bd_heap_def)
  moreover have "total_managed_bytes m < 2 ^ 64" using h by (simp add: bd_heap_def)
  ultimately show ?thesis using bd_free_total(1) [OF assms] by (simp add: bd_mm_get_stats_def Let_def)
qed

theorem bd_stats_exact_witness:
  "wp no_stop bd_mm_get_stats (\<lambda>st t. t = bd_one \<and> occupied_memory st = sum bsize (live_block bd_one ` dom [4104 \<mapsto> 100::nat]) \<and>
    free_memory st = sum bsize (free_blocks (buddy_lists bd_one)) \<and> free_memory st + occupied_memory st = total_memory st) bd_one"
  by (rule bd_stats_exact [OF bd_one_rep])

text \<open>
  A request above \<open>2 ^ 63 - 8\<close> bytes that does not wrap never returns: the doubled block size
  overflows to 0 before it reaches the request and stays 0.
\<close>

theorem bd_alloc_hangs:
  assumes "2 ^ 63 < n + 8" and "n + 8 < 2 ^ 64"
  shows "bd_mm_alloc n m = Stop Diverge"
proof -
  let ?I = "\<lambda>x s. (snd x \<le> 51 \<and> fst x = bd_size (snd x)) \<or> fst x = (0::nat)"
  have "loop (order_step (n + 8)) (MIN_BLOCK_SIZE, 0) m = Stop Diverge"
  proof (rule loop_diverges [where I = ?I])
    fix x and s :: bd_state assume I: "?I x s"
    obtain b k where x: "x = (b, k)" by (cases x)
    have "bd_size k \<le> 2 ^ 63" if "k \<le> 51" using bd_size_mono [OF that] by (simp add: bd_size_def MIN_BLOCK_SIZE_def)
    with I x assms(1) have "order_step (n + 8) x s = Ret (Inl ((2 * b) mod 2 ^ 64, k + 1), s)"
      by (auto simp: order_step_def run_simps)
    moreover have "?I ((2 * b) mod 2 ^ 64, k + 1) s"
    proof (cases "k = 51 \<or> b = 0")
      case True
      with I x show ?thesis by (auto simp: bd_size_def MIN_BLOCK_SIZE_def)
    next
      case False
      with I x have "k < 51" "b = bd_size k" by auto
      moreover have "bd_size (Suc k) \<le> 2 ^ 63" using bd_size_mono [of "Suc k" 51] \<open>k < 51\<close> by (simp add: bd_size_def MIN_BLOCK_SIZE_def)
      ultimately show ?thesis by (simp add: bd_size_Suc)
    qed
    ultimately show "\<exists>a' s'. order_step (n + 8) x s = Ret (Inl a', s') \<and> ?I a' s'" by blast
  qed (simp add: bd_size_def)
  with assms show ?thesis by (simp add: bd_mm_alloc_def Let_def run_simps add64_small)
qed

theorem bd_alloc_hangs_witness: "bd_mm_alloc (2 ^ 63) bd_ready = Stop Diverge"
  by (rule bd_alloc_hangs) simp_all

end
