(* ===== verification/Sorted_List.thy ===== *)
theory Sorted_List
  imports First_Fit Queue
begin

text \<open>
  The ordered list of src/TP2-SO-2025/Kernel/datastructures/list.c: a chain of nodes in the
  order of a comparison function, without duplicates. Nodes are those of theory Queue; the
  iterator is the chain of nodes still to be visited.
\<close>

section \<open>Data\<close>

record 'a slist =
  l_addr :: addr
  l_nodes :: "'a node list"
  l_iter :: "'a node list"
  l_size :: nat
  l_cmp :: "'a \<Rightarrow> 'a \<Rightarrow> int"
  sizeOfElem :: nat

definition sizeof_List :: nat where
  "sizeof_List = 40"

section \<open>Operations\<close>

text \<open>\<open>listCreate\<close> leaves the iterator as the allocation found it: \<open>junk_iter\<close>.\<close>

definition listCreate :: "'m mm \<Rightarrow> 'a node list \<Rightarrow> ('a \<Rightarrow> 'a \<Rightarrow> int) \<Rightarrow> nat \<Rightarrow> ('m, 'a slist option) kernel" where
  "listCreate M junk_iter cmp elemSize =
     bnd (mm_alloc_op M sizeof_List) (\<lambda>a.
     if a = null then ret None
     else ret (Some \<lparr>l_addr = a, l_nodes = [], l_iter = junk_iter, l_size = 0, l_cmp = cmp, sizeOfElem = elemSize\<rparr>))"

definition before :: "'a slist \<Rightarrow> 'a \<Rightarrow> 'a node list" where
  "before l data = takeWhile (\<lambda>n. l_cmp l (n_val n) data < 0) (l_nodes l)"

definition after :: "'a slist \<Rightarrow> 'a \<Rightarrow> 'a node list" where
  "after l data = dropWhile (\<lambda>n. l_cmp l (n_val n) data < 0) (l_nodes l)"

definition listAdd :: "'m mm \<Rightarrow> 'a slist \<Rightarrow> 'a \<Rightarrow> ('m, 'a slist option) kernel" where
  "listAdd M l data =
     (if after l data \<noteq> [] \<and> l_cmp l (n_val (hd (after l data))) data = 0 then ret (Some l)
      else bnd (mm_alloc_op M sizeof_Node) (\<lambda>aux.
        if aux = null then ret None
        else bnd (mm_alloc_op M (sizeOfElem l)) (\<lambda>cell.
          if cell = null then sq (mm_free_op M aux) (ret None)
          else ret (Some (l\<lparr>l_nodes := before l data @ \<lparr>n_addr = aux, n_data = cell, n_val = data\<rparr> # after l data,
                            l_size := l_size l + 1\<rparr>)))))"

fun remove_scan :: "('a \<Rightarrow> 'a \<Rightarrow> int) \<Rightarrow> 'a node list \<Rightarrow> 'a \<Rightarrow> ('a node \<times> 'a node list) option" where
  "remove_scan cmp [] data = None"
| "remove_scan cmp (tmp # rest) data =
     (if cmp (n_val tmp) data = 0 then Some (tmp, rest)
      else map_option (apsnd (\<lambda>ns. tmp # ns)) (remove_scan cmp rest data))"

definition listRemove :: "'m mm \<Rightarrow> 'a slist option \<Rightarrow> 'a \<Rightarrow> ('m, 'a slist option) kernel" where
  "listRemove M lst data =
     (case lst of None \<Rightarrow> ret None
      | Some l \<Rightarrow>
          if l_nodes l = [] then ret None
          else (case remove_scan (l_cmp l) (l_nodes l) data of
            None \<Rightarrow> ret (Some l)
          | Some (tmp, rest) \<Rightarrow>
              sq (mm_free_op M (n_data tmp))
              (sq (mm_free_op M (n_addr tmp))
              (ret (Some (l\<lparr>l_nodes := rest, l_size := l_size l - 1\<rparr>))))))"

definition listFree :: "'m mm \<Rightarrow> 'a slist option \<Rightarrow> ('m, unit) kernel" where
  "listFree M lst =
     (case lst of None \<Rightarrow> ret () | Some l \<Rightarrow> sq (free_nodes M (l_nodes l)) (mm_free_op M (l_addr l)))"

definition listBeginIter :: "'a slist option \<Rightarrow> 'a slist option" where
  "listBeginIter lst = map_option (\<lambda>l. l\<lparr>l_iter := l_nodes l\<rparr>) lst"

definition listHasNext :: "'a slist option \<Rightarrow> bool" where
  "listHasNext lst = (case lst of None \<Rightarrow> False | Some l \<Rightarrow> l_iter l \<noteq> [])"

definition listGetNext :: "'a slist \<Rightarrow> ('a \<times> 'a slist) option" where
  "listGetNext l = (case l_iter l of [] \<Rightarrow> None | n # ns \<Rightarrow> Some (n_val n, l\<lparr>l_iter := ns\<rparr>))"

definition listGetSize :: "'a slist \<Rightarrow> nat" where
  "listGetSize l = l_size l"

section \<open>An ordered set\<close>

text \<open>A comparison function that is a linear order, and the list invariant.\<close>

definition compares :: "('a \<Rightarrow> 'a \<Rightarrow> int) \<Rightarrow> bool" where
  "compares cmp \<longleftrightarrow> (\<forall>x y. cmp x y = 0 \<longleftrightarrow> x = y) \<and> (\<forall>x y. cmp x y < 0 \<longleftrightarrow> cmp y x > 0) \<and>
     (\<forall>x y z. cmp x y < 0 \<longrightarrow> cmp y z < 0 \<longrightarrow> cmp x z < 0)"

definition keys :: "'a slist \<Rightarrow> 'a list" where
  "keys l = map n_val (l_nodes l)"

definition slist_ok :: "'a slist \<Rightarrow> bool" where
  "slist_ok l \<longleftrightarrow> compares (l_cmp l) \<and> sorted_wrt (\<lambda>x y. l_cmp l x y < 0) (keys l) \<and> l_size l = length (l_nodes l)"

lemma comparesD:
  assumes "compares cmp"
  shows "cmp x y = 0 \<longleftrightarrow> x = y" and "\<not> cmp x y < 0 \<Longrightarrow> cmp x y \<noteq> 0 \<Longrightarrow> cmp y x < 0"
    and "cmp x y < 0 \<Longrightarrow> cmp y z < 0 \<Longrightarrow> cmp x z < 0"
proof -
  show "cmp x y = 0 \<longleftrightarrow> x = y" using assms unfolding compares_def by blast
  show "\<not> cmp x y < 0 \<Longrightarrow> cmp x y \<noteq> 0 \<Longrightarrow> cmp y x < 0"
    using assms unfolding compares_def by (metis linorder_neqE)
  show "cmp x y < 0 \<Longrightarrow> cmp y z < 0 \<Longrightarrow> cmp x z < 0" using assms unfolding compares_def by blast
qed

lemma keys_split: "keys l = map n_val (before l v) @ map n_val (after l v)"
  by (simp add: keys_def before_def after_def flip: map_append)

lemma before_less: "x \<in> set (map n_val (before l v)) \<Longrightarrow> l_cmp l x v < 0"
  by (auto simp: before_def dest: set_takeWhileD)

text \<open>Where the scan stops at a node with another key, every node from there on is greater.\<close>

lemma after_greater:
  assumes "slist_ok l" and "\<not> (after l v \<noteq> [] \<and> l_cmp l (n_val (hd (after l v))) v = 0)" and "x \<in> set (map n_val (after l v))"
  shows "l_cmp l v x < 0"
proof (cases "after l v")
  case (Cons n ns)
  have c: "compares (l_cmp l)" using assms(1) by (simp add: slist_ok_def)
  have "sorted_wrt (\<lambda>x y. l_cmp l x y < 0) (n_val n # map n_val ns)"
    using assms(1) Cons unfolding slist_ok_def keys_split [of l v] sorted_wrt_append by simp
  moreover have "\<not> l_cmp l (n_val n) v < 0" using Cons unfolding after_def dropWhile_eq_Cons_conv by blast
  then have "l_cmp l v (n_val n) < 0" using comparesD(2) [OF c] assms(2) Cons by simp
  ultimately show ?thesis using assms(3) Cons comparesD(3) [OF c] by auto
qed (use assms in simp)

text \<open>What \<open>listAdd\<close> does to the list: a sorted insertion of an element that was not there.\<close>

lemma insert_ok:
  assumes "slist_ok l" and "\<not> (after l v \<noteq> [] \<and> l_cmp l (n_val (hd (after l v))) v = 0)"
    and l'_def: "l' = l\<lparr>l_nodes := before l v @ \<lparr>n_addr = a, n_data = d, n_val = v\<rparr> # after l v, l_size := l_size l + 1\<rparr>"
  shows "slist_ok l'" and "set (keys l') = insert v (set (keys l))" and "v \<notin> set (keys l)"
proof -
  have k: "keys l' = map n_val (before l v) @ v # map n_val (after l v)" by (simp add: l'_def keys_def)
  have s: "sorted_wrt (\<lambda>x y. l_cmp l x y < 0) (map n_val (before l v) @ map n_val (after l v))"
    using assms(1) by (simp add: slist_ok_def flip: keys_split)
  have c: "compares (l_cmp l)" using assms(1) by (simp add: slist_ok_def)
  have "sorted_wrt (\<lambda>x y. l_cmp l x y < 0) (keys l')"
    using s before_less [of _ l v] after_greater [OF assms(1,2)] unfolding k sorted_wrt_append list.set sorted_wrt.simps by blast
  moreover have "length (l_nodes l) = length (before l v) + length (after l v)"
    using arg_cong [OF keys_split [of l v], of length] by (simp add: keys_def)
  ultimately show "slist_ok l'" using assms(1) by (simp add: slist_ok_def l'_def)
  show "set (keys l') = insert v (set (keys l))" unfolding k keys_split [of l v] by auto
  have "l_cmp l v v = 0" using comparesD(1) [OF c] by blast
  then show "v \<notin> set (keys l)"
    using before_less [of v l v] after_greater [OF assms(1,2), of v] unfolding keys_split [of l v] set_append by auto
qed

text \<open>An element the scan finds is there already.\<close>

lemma found_in:
  assumes "slist_ok l" and "after l v \<noteq> []" and "l_cmp l (n_val (hd (after l v))) v = 0"
  shows "v \<in> set (keys l)"
proof -
  have "n_val (hd (after l v)) = v" using comparesD(1) [of "l_cmp l"] assms(1,3) by (simp add: slist_ok_def)
  then have "v \<in> set (map n_val (after l v))" using assms(2) by (metis hd_in_set image_eqI set_map)
  then show ?thesis unfolding keys_split [of l v] by simp
qed

lemma remove_scan_keys:
  assumes "compares cmp" and "sorted_wrt (\<lambda>x y. cmp x y < 0) (map n_val ns)"
  shows "case remove_scan cmp ns v of None \<Rightarrow> v \<notin> set (map n_val ns)
    | Some (tmp, rest) \<Rightarrow> tmp \<in> set ns \<and> sorted_wrt (\<lambda>x y. cmp x y < 0) (map n_val rest) \<and>
        set (map n_val rest) = set (map n_val ns) - {v} \<and> v \<in> set (map n_val ns) \<and> Suc (length rest) = length ns"
  using assms(2)
proof (induction ns)
  case (Cons n ns)
  have irr: "\<not> cmp x x < 0" for x using comparesD(1) [OF assms(1), of x x] by simp
  show ?case
  proof (cases "cmp (n_val n) v = 0")
    case True
    then have "n_val n = v" using comparesD(1) [OF assms(1)] by blast
    moreover have "v \<notin> set (map n_val ns)" using Cons.prems irr \<open>n_val n = v\<close> by auto
    ultimately show ?thesis using Cons.prems True by auto
  next
    case False
    then have "n_val n \<noteq> v" using comparesD(1) [OF assms(1)] by blast
    with False Cons show ?thesis by (cases "remove_scan cmp ns v") (auto simp: insert_Diff_if split: prod.splits)
  qed
qed simp

section \<open>The list over a memory manager\<close>

context memory_manager
begin

text \<open>Adding to the list gives an ordered set with the element, or fails with the memory as it was.\<close>

lemma listAdd_spec:
  assumes "rep m L" and "slist_ok l" and "sizeof_Node \<le> max_request" and "sizeOfElem l \<le> max_request"
  shows "wp no_stop (listAdd M l v) (\<lambda>r t. case r of
      None \<Rightarrow> rep t L \<and> v \<notin> set (keys l)
    | Some l' \<Rightarrow> slist_ok l' \<and> set (keys l') = insert v (set (keys l)) \<and> (\<exists>L'. rep t L' \<and> L \<subseteq>\<^sub>m L')) m"
proof (cases "after l v \<noteq> [] \<and> l_cmp l (n_val (hd (after l v))) v = 0")
  case True
  then have "v \<in> set (keys l)" using found_in [OF assms(2)] by blast
  then show ?thesis using True assms(1,2) by (auto simp: listAdd_def insert_absorb intro!: exI [of _ L])
next
  case False
  note ins = insert_ok [OF assms(2) False]
  have undo: "wp no_stop (mm_free_op M aux) (\<lambda>_ t. rep t L) t" if "rep t (L(aux \<mapsto> n))" "aux \<notin> dom L" for aux n t
  proof -
    have "wp no_stop (mm_free_op M aux) (\<lambda>_ t. rep t ((L(aux \<mapsto> n))(aux := None))) t" using that(1) by (rule free_spec) simp
    moreover have "(L(aux \<mapsto> n))(aux := None) = L" using that(2) by (auto simp: fun_eq_iff domIff)
    ultimately show ?thesis by simp
  qed
  have cell: "wp no_stop (mm_alloc_op M (sizeOfElem l)) (\<lambda>cell u.
      if cell = null then wp no_stop (mm_free_op M aux) (\<lambda>_ t. rep t L) u
      else (\<exists>L'. rep u L' \<and> L \<subseteq>\<^sub>m L')) t" if "rep t (L(aux \<mapsto> sizeof_Node))" "aux \<notin> dom L" for aux t
  proof (rule wp_mono [OF alloc_spec [OF that(1) assms(4)]])
    fix c u assume "(c = null \<and> rep u (L(aux \<mapsto> sizeof_Node))) \<or> (c \<noteq> null \<and> c \<notin> dom (L(aux \<mapsto> sizeof_Node)) \<and>
      (\<forall>b k. (L(aux \<mapsto> sizeof_Node)) b = Some k \<longrightarrow> apart c (sizeOfElem l) b k) \<and> rep u ((L(aux \<mapsto> sizeof_Node))(c \<mapsto> sizeOfElem l)))"
    then show "if c = null then wp no_stop (mm_free_op M aux) (\<lambda>_ t. rep t L) u else (\<exists>L'. rep u L' \<and> L \<subseteq>\<^sub>m L')"
      using undo [OF _ that(2)] that(2) by (auto simp: map_le_def domIff intro!: exI [of _ "(L(aux \<mapsto> sizeof_Node))(c \<mapsto> sizeOfElem l)"])
  qed
  show ?thesis
    unfolding listAdd_def if_not_P [OF False] wp_bnd
  proof (rule wp_mono [OF alloc_spec [OF assms(1,3)]])
    fix aux t assume "(aux = null \<and> rep t L) \<or> (aux \<noteq> null \<and> aux \<notin> dom L \<and> (\<forall>b k. L b = Some k \<longrightarrow> apart aux sizeof_Node b k) \<and>
      rep t (L(aux \<mapsto> sizeof_Node)))"
    then consider "aux = null" "rep t L" | "aux \<noteq> null" "aux \<notin> dom L" "rep t (L(aux \<mapsto> sizeof_Node))" by blast
    then show "wp no_stop (if aux = null then ret None
        else bnd (mm_alloc_op M (sizeOfElem l)) (\<lambda>cell.
          if cell = null then sq (mm_free_op M aux) (ret None)
          else ret (Some (l\<lparr>l_nodes := before l v @ \<lparr>n_addr = aux, n_data = cell, n_val = v\<rparr> # after l v, l_size := l_size l + 1\<rparr>))))
      (\<lambda>r t. case r of None \<Rightarrow> rep t L \<and> v \<notin> set (keys l)
        | Some l' \<Rightarrow> slist_ok l' \<and> set (keys l') = insert v (set (keys l)) \<and> (\<exists>L'. rep t L' \<and> L \<subseteq>\<^sub>m L')) t"
    proof cases
      case 1
      then show ?thesis using ins(3) [OF refl] by simp
    next
      case 2
      have "wp no_stop (mm_alloc_op M (sizeOfElem l)) (\<lambda>cell. wp no_stop
          (if cell = null then sq (mm_free_op M aux) (ret None)
           else ret (Some (l\<lparr>l_nodes := before l v @ \<lparr>n_addr = aux, n_data = cell, n_val = v\<rparr> # after l v, l_size := l_size l + 1\<rparr>)))
          (\<lambda>r t. case r of None \<Rightarrow> rep t L \<and> v \<notin> set (keys l)
            | Some l' \<Rightarrow> slist_ok l' \<and> set (keys l') = insert v (set (keys l)) \<and> (\<exists>L'. rep t L' \<and> L \<subseteq>\<^sub>m L'))) t"
        by (rule wp_mono [OF cell [OF 2(3,2)]]) (use ins [OF refl] in \<open>auto elim: wp_mono\<close>)
      then show ?thesis using 2(1) by simp
    qed
  qed
qed

end

text \<open>
  C26. \<open>listAdd\<close> over the first-fit manager keeps the list an ordered set: it returns, and the
  result is sorted without duplicates and holds the old elements and the new one, or it is
  \<open>NULL\<close>, the element was not there and the live blocks are unchanged.
\<close>

theorem listAdd_ordered_set:
  assumes "ff_rep m L" and "slist_ok l" and "sizeOfElem l \<le> 2 ^ 63"
  shows "wp no_stop (listAdd first_fit_mm l v) (\<lambda>r t. case r of
      None \<Rightarrow> ff_rep t L \<and> v \<notin> set (keys l)
    | Some l' \<Rightarrow> slist_ok l' \<and> set (keys l') = insert v (set (keys l)) \<and> (\<exists>L'. ff_rep t L' \<and> L \<subseteq>\<^sub>m L')) m"
  by (rule ff.listAdd_spec [OF assms(1,2)]) (use assms(3) in \<open>simp_all add: sizeof_Node_def UNIT_SIZE_def\<close>)

definition demo_list :: "int slist" where
  "demo_list = \<lparr>l_addr = 64, l_nodes = [\<lparr>n_addr = 128, n_data = 160, n_val = 5\<rparr>, \<lparr>n_addr = 192, n_data = 224, n_val = 9\<rparr>],
     l_iter = [], l_size = 2, l_cmp = (-), sizeOfElem = 4\<rparr>"

lemma demo_list_ok: "slist_ok demo_list"
  by (simp add: slist_ok_def demo_list_def compares_def keys_def)

theorem listAdd_ordered_set_witness:
  "wp no_stop (listAdd first_fit_mm demo_list 7) (\<lambda>r t. case r of
      None \<Rightarrow> ff_rep t Map.empty \<and> 7 \<notin> set (keys demo_list)
    | Some l' \<Rightarrow> slist_ok l' \<and> set (keys l') = insert 7 (set (keys demo_list)) \<and> (\<exists>L'. ff_rep t L' \<and> Map.empty \<subseteq>\<^sub>m L')) ff_ready"
  by (rule listAdd_ordered_set [OF ff_ready_rep demo_list_ok]) (simp add: demo_list_def)

text \<open>Removing takes exactly the element out; a list that does not hold it, or is empty, keeps its elements.\<close>

lemma listRemove_keys:
  assumes "slist_ok l" and "l_nodes l \<noteq> []" and "listRemove M (Some l) v m = Ret (Some l', t)"
  shows "slist_ok l' \<and> set (keys l') = set (keys l) - {v}"
proof -
  have c: "compares (l_cmp l)" and s: "sorted_wrt (\<lambda>x y. l_cmp l x y < 0) (map n_val (l_nodes l))"
    using assms(1) by (auto simp: slist_ok_def keys_def)
  note r = remove_scan_keys [OF c s, of v]
  show ?thesis
  proof (cases "remove_scan (l_cmp l) (l_nodes l) v")
    case None
    with r assms show ?thesis by (simp add: listRemove_def run_simps keys_def)
  next
    case (Some p)
    obtain tmp rest where p: "p = (tmp, rest)" by (cases p)
    have "l' = l\<lparr>l_nodes := rest, l_size := l_size l - 1\<rparr>"
      using assms(2,3) Some p by (auto simp: listRemove_def run_simps split: outcome.splits)
    moreover have "Suc (length rest) = length (l_nodes l)" using r Some p by simp
    then have "length (l_nodes l) - 1 = length rest" by linarith
    ultimately show ?thesis using r Some p assms(1) by (simp add: slist_ok_def keys_def)
  qed
qed

text \<open>Iterating from \<open>listBeginIter\<close> yields the keys in ascending order and stops after the last.\<close>

fun iterate :: "nat \<Rightarrow> 'a slist \<Rightarrow> 'a list" where
  "iterate 0 l = []"
| "iterate (Suc k) l = (case listGetNext l of None \<Rightarrow> [] | Some (x, l') \<Rightarrow> x # iterate k l')"

lemma iterate_nodes: "length (l_iter l) \<le> k \<Longrightarrow> iterate k l = map n_val (l_iter l)"
  by (induction k arbitrary: l) (auto simp: listGetNext_def split: list.splits)

lemma iterate_keys:
  assumes "slist_ok l" and "listBeginIter (Some l) = Some l'"
  shows "iterate (listGetSize l) l' = keys l"
  using assms by (auto simp: listBeginIter_def iterate_nodes keys_def slist_ok_def listGetSize_def)

end
