(* ===== verification/Video.thy ===== *)
theory Video
  imports Prelude
begin

text \<open>
  The frame buffer driver, src/TP2-SO-2025/Kernel/drivers/video.c. The frame buffer is the
  memory seen from the address in the VBE mode block, a function from byte offsets to bytes;
  offsets are 64-bit and wrap, so an offset near \<open>2 ^ 64\<close> lies before the buffer. A routine is a
  function on that memory.
\<close>

section \<open>The mode block and pixels\<close>

text \<open>The fields of \<open>vbe_mode_info_structure\<close> the kernel reads.\<close>

record vbe_mode_info =
  v_pitch :: nat
  v_width :: nat
  v_height :: nat
  v_bpp :: nat

type_synonym framebuffer = "nat \<Rightarrow> u8"

definition u64_of :: "int \<Rightarrow> nat" where
  "u64_of i = nat (i mod 2 ^ 64)"

text \<open>\<open>framebuffer[offset + i]\<close> for the three channels of a colour: blue, green, red.\<close>

definition store_rgb :: "nat \<Rightarrow> u32 \<Rightarrow> framebuffer \<Rightarrow> framebuffer" where
  "store_rgb offset c m =
     m(offset := ucast (c AND 0xFF),
       (offset + 1) mod 2 ^ 64 := ucast (drop_bit 8 c AND 0xFF),
       (offset + 2) mod 2 ^ 64 := ucast (drop_bit 16 c AND 0xFF))"

definition putPixel :: "vbe_mode_info \<Rightarrow> u32 \<Rightarrow> nat \<Rightarrow> nat \<Rightarrow> framebuffer \<Rightarrow> framebuffer" where
  "putPixel v hexColor x y = store_rgb ((x * (v_bpp v div 8) + y * v_pitch v) mod 2 ^ 64) hexColor"

definition getWindowHeight :: "vbe_mode_info \<Rightarrow> nat" where
  "getWindowHeight v = v_height v"

definition getWindowWidth :: "vbe_mode_info \<Rightarrow> nat" where
  "getWindowWidth v = v_width v"

section \<open>Shapes\<close>

definition drawRectangle ::
  "vbe_mode_info \<Rightarrow> u32 \<Rightarrow> nat \<Rightarrow> nat \<Rightarrow> nat \<Rightarrow> nat \<Rightarrow> framebuffer \<Rightarrow> framebuffer" where
  "drawRectangle v hexColor width height initial_pos_x initial_pos_y =
     fold (\<lambda>j. fold (\<lambda>i. putPixel v hexColor ((initial_pos_x + i) mod 2 ^ 64) ((initial_pos_y + j) mod 2 ^ 64))
                 [0..<width]) [0..<height]"

text \<open>Squares are taken in \<open>int64_t\<close>.\<close>

definition s64_of :: "int \<Rightarrow> int" where
  "s64_of i = sint (word_of_int i :: u64)"

definition drawCircle :: "vbe_mode_info \<Rightarrow> u32 \<Rightarrow> nat \<Rightarrow> nat \<Rightarrow> nat \<Rightarrow> framebuffer \<Rightarrow> framebuffer" where
  "drawCircle v hexColor topLeftX topLeftY diameter =
     (let radius = int (diameter div 2);
          centerX = s64_of (int topLeftX + radius);
          centerY = s64_of (int topLeftY + radius)
      in fold (\<lambda>y. fold (\<lambda>x m.
            if s64_of (x * x + y * y) \<le> s64_of (radius * radius)
            then putPixel v hexColor (u64_of (centerX + x)) (u64_of (centerY + y)) m else m)
          [- radius..radius - 1]) [- radius..radius - 1])"

section \<open>Filling and scrolling\<close>

definition fill_row :: "vbe_mode_info \<Rightarrow> u32 \<Rightarrow> nat \<Rightarrow> framebuffer \<Rightarrow> framebuffer" where
  "fill_row v c yoffset = fold (\<lambda>x. store_rgb (x * (v_bpp v div 8) + yoffset) c) [0..<getWindowWidth v]"

definition fillVideoMemory :: "vbe_mode_info \<Rightarrow> u32 \<Rightarrow> framebuffer \<Rightarrow> framebuffer" where
  "fillVideoMemory v hexColor = fold (\<lambda>y. fill_row v hexColor (y * v_pitch v)) [0..<getWindowHeight v]"

definition copy_pixel :: "nat \<Rightarrow> nat \<Rightarrow> framebuffer \<Rightarrow> framebuffer" where
  "copy_pixel offset new_offset m =
     (let m1 = m(offset := m new_offset);
          m2 = m1(offset + 1 := m1 (new_offset + 1))
      in m2(offset + 2 := m2 (new_offset + 2)))"

definition copy_row :: "vbe_mode_info \<Rightarrow> nat \<Rightarrow> nat \<Rightarrow> framebuffer \<Rightarrow> framebuffer" where
  "copy_row v yoffset ynoffset =
     fold (\<lambda>x. copy_pixel (x * (v_bpp v div 8) + yoffset) (x * (v_bpp v div 8) + ynoffset)) [0..<getWindowWidth v]"

text \<open>
  The first loop compares with the \<open>int\<close> \<open>height - scroll\<close>, the second starts from it cut to 16
  bits. The interrupt flag that \<open>_cli\<close> and \<open>_sti\<close> set is not part of the state.
\<close>

definition scrollVideoMemoryUp :: "vbe_mode_info \<Rightarrow> nat \<Rightarrow> u32 \<Rightarrow> framebuffer \<Rightarrow> framebuffer" where
  "scrollVideoMemoryUp v scroll fillColor m =
     (let height = getWindowHeight v;
          m1 = fold (\<lambda>y. copy_row v (y * v_pitch v) ((y + scroll) * v_pitch v)) [0..<nat (int height - int scroll)] m
      in fold (\<lambda>y. fill_row v fillColor (y * v_pitch v)) [nat ((int height - int scroll) mod 2 ^ 16)..<height] m1)"

section \<open>Pictures\<close>

text \<open>
  The colour bytes of a pixel, and the modes in which pixels do not overlap: at least three bytes
  per pixel, lines long enough for the width, and a buffer of less than \<open>2 ^ 31\<close> bytes.
\<close>

definition pixel :: "vbe_mode_info \<Rightarrow> framebuffer \<Rightarrow> nat \<Rightarrow> nat \<Rightarrow> u8 \<times> u8 \<times> u8" where
  "pixel v m x y =
     (let off = x * (v_bpp v div 8) + y * v_pitch v in (m off, m (off + 1), m (off + 2)))"

definition channels :: "u32 \<Rightarrow> u8 \<times> u8 \<times> u8" where
  "channels c = (ucast (c AND 0xFF), ucast (drop_bit 8 c AND 0xFF), ucast (drop_bit 16 c AND 0xFF))"

definition frame_ok :: "vbe_mode_info \<Rightarrow> bool" where
  "frame_ok v \<longleftrightarrow> 3 \<le> v_bpp v div 8 \<and> v_width v * (v_bpp v div 8) \<le> v_pitch v \<and>
     v_height v * v_pitch v < 2 ^ 31 \<and> v_height v < 2 ^ 16"

text \<open>Bytes of different pixels are different.\<close>

lemma frame_line:
  assumes "frame_ok v" and "x < v_width v" and "i < 3"
  shows "x * (v_bpp v div 8) + i < v_pitch v"
proof -
  let ?B = "v_bpp v div 8"
  have "x * ?B + i < Suc x * ?B" using assms by (auto simp: frame_ok_def)
  also have "\<dots> \<le> v_width v * ?B" using assms(2) by (intro mult_le_mono1) simp
  finally show ?thesis using assms(1) by (simp add: frame_ok_def)
qed

lemma frame_offset:
  assumes "frame_ok v" and "x < v_width v" and "y < v_height v" and "i < 3"
  shows "x * (v_bpp v div 8) + y * v_pitch v + i < v_height v * v_pitch v"
proof -
  have "x * (v_bpp v div 8) + y * v_pitch v + i < Suc y * v_pitch v" using frame_line [OF assms(1,2,4)] by simp
  also have "\<dots> \<le> v_height v * v_pitch v" using assms(3) by (intro mult_le_mono1) simp
  finally show ?thesis .
qed

lemma cell_unique:
  fixes B :: nat
  assumes "a * B + i = b * B + j" and "i < B" and "j < B"
  shows "a = b \<and> i = j"
proof -
  have "(a * B + i) div B = a" "(b * B + j) div B = b" using assms(2,3) by auto
  with assms(1) show ?thesis by auto
qed

lemma store_rgb_other:
  assumes "offset + 2 < 2 ^ 64" and "\<And>i. i < 3 \<Longrightarrow> a \<noteq> offset + i"
  shows "store_rgb offset c m a = m a"
  using assms(1) assms(2) [of 0] assms(2) [of 1] assms(2) [of 2] by (simp add: store_rgb_def)

lemma copy_pixel_other:
  assumes "\<And>i. i < 3 \<Longrightarrow> a \<noteq> offset + i"
  shows "copy_pixel offset new m a = m a"
  using assms [of 0] assms [of 1] assms [of 2] by (simp add: copy_pixel_def Let_def)

text \<open>A row of stores: the bytes of the row's pixels change, nothing else does.\<close>

definition row_bytes :: "nat \<Rightarrow> nat \<Rightarrow> nat \<Rightarrow> nat set" where
  "row_bytes B yo n = {x * B + yo + i |x i. x < n \<and> i < 3}"

lemma row_fold:
  assumes B: "3 \<le> B"
    and other: "\<And>x m a. x < n \<Longrightarrow> (\<forall>i<3. a \<noteq> x * B + yo + i) \<Longrightarrow> f x m a = m a"
  shows "a \<notin> row_bytes B yo n \<Longrightarrow> fold f [0..<n] m a = m a"
    and "\<And>x i. x < n \<Longrightarrow> i < 3 \<Longrightarrow>
      fold f [0..<n] m (x * B + yo + i) = f x (fold f [0..<x] m) (x * B + yo + i)"
proof -
  have A: "a \<notin> row_bytes B yo k \<Longrightarrow> k \<le> n \<Longrightarrow> fold f [0..<k] m a = m a" for a k
  proof (induction k)
    case (Suc k)
    have "f k (fold f [0..<k] m) a = fold f [0..<k] m a"
      by (rule other) (use Suc.prems in \<open>auto simp: row_bytes_def\<close>)
    moreover have "a \<notin> row_bytes B yo k" using Suc.prems(1) less_SucI unfolding row_bytes_def by blast
    ultimately show ?case using Suc by simp
  qed simp
  show "a \<notin> row_bytes B yo n \<Longrightarrow> fold f [0..<n] m a = m a" by (rule A) auto
  fix x i :: nat assume x: "x < n" and i: "i < 3"
  have "k \<le> n \<Longrightarrow> x < k \<Longrightarrow> fold f [0..<k] m (x * B + yo + i) = f x (fold f [0..<x] m) (x * B + yo + i)" for k
  proof (induction k)
    case (Suc k)
    show ?case
    proof (cases "x = k")
      case False
      have "\<forall>j<3. x * B + yo + i \<noteq> k * B + yo + j"
      proof (intro allI impI notI)
        fix j :: nat assume "j < 3" and "x * B + yo + i = k * B + yo + j"
        then have "x * B + i = k * B + j" by simp
        with cell_unique [OF this] B i \<open>j < 3\<close> False show False by simp
      qed
      then have "f k (fold f [0..<k] m) (x * B + yo + i) = fold f [0..<k] m (x * B + yo + i)"
        using Suc.prems by (intro other) auto
      then show ?thesis using Suc False by simp
    qed simp
  qed simp
  then show "fold f [0..<n] m (x * B + yo + i) = f x (fold f [0..<x] m) (x * B + yo + i)" using x by blast
qed

text \<open>A stack of such rows, one below the other.\<close>

definition window_bytes :: "vbe_mode_info \<Rightarrow> nat \<Rightarrow> nat \<Rightarrow> nat set" where
  "window_bytes v a b = {x * (v_bpp v div 8) + y * v_pitch v + i |x y i. x < v_width v \<and> a \<le> y \<and> y < b \<and> i < 3}"

lemma row_bytes_window:
  "p \<in> row_bytes (v_bpp v div 8) (y * v_pitch v) (v_width v) \<Longrightarrow> a \<le> y \<Longrightarrow> y < b \<Longrightarrow> p \<in> window_bytes v a b"
  unfolding row_bytes_def window_bytes_def by blast

lemma row_bytes_line:
  assumes "frame_ok v" and "x < v_width v" and "i < 3"
  shows "x * (v_bpp v div 8) + y * v_pitch v + i \<in> row_bytes (v_bpp v div 8) (y' * v_pitch v) (v_width v) \<longleftrightarrow> y = y'"
proof
  assume "x * (v_bpp v div 8) + y * v_pitch v + i \<in> row_bytes (v_bpp v div 8) (y' * v_pitch v) (v_width v)"
  then obtain x' i' where x': "x' < v_width v" "i' < 3"
    and eq: "y * v_pitch v + (x * (v_bpp v div 8) + i) = y' * v_pitch v + (x' * (v_bpp v div 8) + i')"
    by (auto simp: row_bytes_def algebra_simps)
  show "y = y'" using cell_unique [OF eq frame_line [OF assms] frame_line [OF assms(1) x']] by simp
next
  assume "y = y'"
  then show "x * (v_bpp v div 8) + y * v_pitch v + i \<in> row_bytes (v_bpp v div 8) (y' * v_pitch v) (v_width v)"
    using assms(2,3) unfolding row_bytes_def by blast
qed

lemma rows_fold:
  assumes v: "frame_ok v"
    and other: "\<And>y m p. y < b \<Longrightarrow> p \<notin> row_bytes (v_bpp v div 8) (y * v_pitch v) (v_width v) \<Longrightarrow> f y m p = m p"
  shows "p \<notin> window_bytes v a b \<Longrightarrow> fold f [a..<b] m p = m p"
    and "\<And>x y i. x < v_width v \<Longrightarrow> a \<le> y \<Longrightarrow> y < b \<Longrightarrow> i < 3 \<Longrightarrow>
      fold f [a..<b] m (x * (v_bpp v div 8) + y * v_pitch v + i) =
      f y (fold f [a..<y] m) (x * (v_bpp v div 8) + y * v_pitch v + i)"
proof -
  have A: "p \<notin> window_bytes v a k \<Longrightarrow> k \<le> b \<Longrightarrow> fold f [a..<k] m p = m p" for p k
  proof (induction k)
    case (Suc k)
    show ?case
    proof (cases "a \<le> k")
      case True
      have "f k (fold f [a..<k] m) p = fold f [a..<k] m p"
        by (rule other) (use Suc.prems True row_bytes_window [of p v k a "Suc k"] in auto)
      moreover have "p \<notin> window_bytes v a k" using Suc.prems(1) less_SucI unfolding window_bytes_def by blast
      ultimately show ?thesis using Suc True by simp
    qed simp
  qed simp
  show "p \<notin> window_bytes v a b \<Longrightarrow> fold f [a..<b] m p = m p" by (rule A) auto
  fix x y i :: nat assume x: "x < v_width v" "i < 3" and y: "a \<le> y" "y < b"
  let ?p = "x * (v_bpp v div 8) + y * v_pitch v + i"
  have "k \<le> b \<Longrightarrow> y < k \<Longrightarrow> fold f [a..<k] m ?p = f y (fold f [a..<y] m) ?p" for k
  proof (induction k)
    case (Suc k)
    show ?case
    proof (cases "y = k")
      case False
      have "f k (fold f [a..<k] m) ?p = fold f [a..<k] m ?p"
        by (rule other) (use Suc.prems False row_bytes_line [OF v x] in auto)
      then show ?thesis using Suc False y by simp
    qed (use y in simp)
  qed simp
  then show "fold f [a..<b] m ?p = f y (fold f [a..<y] m) ?p" using y by blast
qed

text \<open>The two rows the driver draws.\<close>

lemma fill_row_other:
  assumes "frame_ok v" and "y < v_height v" and "p \<notin> row_bytes (v_bpp v div 8) (y * v_pitch v) (v_width v)"
  shows "fill_row v c (y * v_pitch v) m p = m p"
  unfolding fill_row_def getWindowWidth_def
proof (rule row_fold(1) [OF _ _ assms(3)])
  fix x m a assume "x < v_width v" "\<forall>i<3. a \<noteq> x * (v_bpp v div 8) + y * v_pitch v + i"
  then show "store_rgb (x * (v_bpp v div 8) + y * v_pitch v) c m a = m a"
    using frame_offset [of v x y 2] assms(1,2) by (intro store_rgb_other) (auto simp: frame_ok_def)
qed (use assms in \<open>simp add: frame_ok_def\<close>)

definition chan :: "u32 \<Rightarrow> nat \<Rightarrow> u8" where
  "chan c i = ucast (drop_bit (8 * i) c AND 0xFF)"

lemma store_rgb_chan:
  assumes "offset + 2 < 2 ^ 64" and "i < 3"
  shows "store_rgb offset c m (offset + i) = chan c i"
proof -
  have "i = 0 \<or> i = 1 \<or> i = 2" using assms(2) by linarith
  then show ?thesis using assms(1) by (auto simp: store_rgb_def chan_def)
qed

lemma fill_row_pixel:
  assumes "frame_ok v" and "y < v_height v" and "x < v_width v" and "i < 3"
  shows "fill_row v c (y * v_pitch v) m (x * (v_bpp v div 8) + y * v_pitch v + i) = chan c i"
proof -
  have B: "3 \<le> v_bpp v div 8" using assms(1) by (simp add: frame_ok_def)
  have small: "x' * (v_bpp v div 8) + y * v_pitch v + 2 < 2 ^ 64" if "x' < v_width v" for x'
    using frame_offset [OF assms(1) that assms(2), of 2] assms(1) by (simp add: frame_ok_def)
  have "fill_row v c (y * v_pitch v) m (x * (v_bpp v div 8) + y * v_pitch v + i) =
      store_rgb (x * (v_bpp v div 8) + y * v_pitch v) c
        (fold (\<lambda>x. store_rgb (x * (v_bpp v div 8) + y * v_pitch v) c) [0..<x] m) (x * (v_bpp v div 8) + y * v_pitch v + i)"
    unfolding fill_row_def getWindowWidth_def
    by (rule row_fold(2) [OF B _ assms(3,4)]) (use small in \<open>auto intro!: store_rgb_other\<close>)
  then show ?thesis using store_rgb_chan [OF small [OF assms(3)] assms(4)] by simp
qed

lemma copy_row_other:
  assumes "frame_ok v" and "p \<notin> row_bytes (v_bpp v div 8) (y * v_pitch v) (v_width v)"
  shows "copy_row v (y * v_pitch v) q m p = m p"
  unfolding copy_row_def getWindowWidth_def
  by (rule row_fold(1) [OF _ _ assms(2)]) (use assms(1) in \<open>auto simp: frame_ok_def intro!: copy_pixel_other\<close>)

lemma copy_pixel_same:
  assumes "i < 3" and "\<And>j k. j < 3 \<Longrightarrow> k < 3 \<Longrightarrow> new + j \<noteq> offset + k"
  shows "copy_pixel offset new m (offset + i) = m (new + i)"
proof -
  have "i = 0 \<or> i = 1 \<or> i = 2" using assms(1) by linarith
  moreover have "new + 1 \<noteq> offset" "new + 2 \<noteq> offset" "new + 2 \<noteq> offset + 1" "new \<noteq> offset + 1" "new \<noteq> offset"
    using assms(2) [of 1 0] assms(2) [of 2 0] assms(2) [of 2 1] assms(2) [of 0 1] assms(2) [of 0 0] by auto
  ultimately show ?thesis by (auto simp: copy_pixel_def Let_def)
qed

lemma copy_row_pixel:
  assumes "frame_ok v" and "x < v_width v" and "i < 3" and "y \<noteq> y'"
  shows "copy_row v (y * v_pitch v) (y' * v_pitch v) m (x * (v_bpp v div 8) + y * v_pitch v + i) =
    m (x * (v_bpp v div 8) + y' * v_pitch v + i)"
proof -
  let ?B = "v_bpp v div 8"
  let ?f = "\<lambda>x. copy_pixel (x * ?B + y * v_pitch v) (x * ?B + y' * v_pitch v)"
  have B: "3 \<le> ?B" using assms(1) by (simp add: frame_ok_def)
  have "copy_row v (y * v_pitch v) (y' * v_pitch v) m (x * ?B + y * v_pitch v + i) =
      ?f x (fold ?f [0..<x] m) (x * ?B + y * v_pitch v + i)"
    unfolding copy_row_def getWindowWidth_def
    by (rule row_fold(2) [OF B _ assms(2,3)]) (auto intro!: copy_pixel_other)
  also have "\<dots> = fold ?f [0..<x] m (x * ?B + y' * v_pitch v + i)"
  proof (rule copy_pixel_same [OF assms(3)])
    fix j k :: nat assume j: "j < 3" "k < 3"
    have "x * ?B + y * v_pitch v + k \<in> row_bytes ?B (y * v_pitch v) (v_width v)"
      using row_bytes_line [OF assms(1,2) j(2)] by simp
    moreover have "x * ?B + y' * v_pitch v + j \<notin> row_bytes ?B (y * v_pitch v) (v_width v)"
      using row_bytes_line [OF assms(1,2) j(1)] assms(4) by simp
    ultimately show "x * ?B + y' * v_pitch v + j \<noteq> x * ?B + y * v_pitch v + k" by metis
  qed
  also have "\<dots> = m (x * ?B + y' * v_pitch v + i)"
  proof (rule row_fold(1) [OF B, where yo = "y * v_pitch v"])
    have "row_bytes ?B (y * v_pitch v) x \<subseteq> row_bytes ?B (y * v_pitch v) (v_width v)"
      using assms(2) less_trans unfolding row_bytes_def by blast
    moreover have "x * ?B + y' * v_pitch v + i \<notin> row_bytes ?B (y * v_pitch v) (v_width v)"
      using row_bytes_line [OF assms(1,2,3)] assms(4) by simp
    ultimately show "x * ?B + y' * v_pitch v + i \<notin> row_bytes ?B (y * v_pitch v) x" by (rule contra_subsetD)
  next
    fix x' m a assume "\<forall>i<3. a \<noteq> x' * ?B + y * v_pitch v + i"
    then show "?f x' m a = m a" by (intro copy_pixel_other) blast
  qed
  finally show ?thesis .
qed

lemma window_bytes_line:
  assumes "frame_ok v" and "x < v_width v" and "i < 3"
  shows "x * (v_bpp v div 8) + y * v_pitch v + i \<in> window_bytes v a b \<longleftrightarrow> a \<le> y \<and> y < b"
proof -
  have "window_bytes v a b = (\<Union>y\<in>{a..<b}. row_bytes (v_bpp v div 8) (y * v_pitch v) (v_width v))"
    by (fastforce simp: window_bytes_def row_bytes_def)
  then show ?thesis using row_bytes_line [OF assms] by auto
qed

lemma window_bytes_frame:
  assumes "frame_ok v" and "p \<in> window_bytes v a b" and "b \<le> v_height v"
  shows "p < v_height v * v_pitch v"
proof -
  obtain x y i where "p = x * (v_bpp v div 8) + y * v_pitch v + i" "x < v_width v" "y < b" "i < 3"
    using assms(2) unfolding window_bytes_def by blast
  with frame_offset [OF assms(1), of x y i] assms(3) show ?thesis by simp
qed

lemma fill_rows_byte:
  assumes "frame_ok v" and "b \<le> v_height v" and "x < v_width v" and "i < 3"
  shows "fold (\<lambda>y. fill_row v c (y * v_pitch v)) [a..<b] m (x * (v_bpp v div 8) + y * v_pitch v + i) =
    (if a \<le> y \<and> y < b then chan c i else m (x * (v_bpp v div 8) + y * v_pitch v + i))"
proof -
  have other: "fill_row v c (y * v_pitch v) m p = m p"
    if "y < b" "p \<notin> row_bytes (v_bpp v div 8) (y * v_pitch v) (v_width v)" for y m p
    using fill_row_other [OF assms(1) _ that(2)] that(1) assms(2) by simp
  show ?thesis
  proof (cases "a \<le> y \<and> y < b")
    case True
    then show ?thesis
      using rows_fold(2) [where f = "\<lambda>y. fill_row v c (y * v_pitch v)", OF assms(1) other assms(3) _ _ assms(4), of b a y m]
        fill_row_pixel [OF assms(1) _ assms(3,4), of y c] assms(2) by simp
  next
    case False
    then have "x * (v_bpp v div 8) + y * v_pitch v + i \<notin> window_bytes v a b" using window_bytes_line [OF assms(1,3,4)] by simp
    then show ?thesis
      using rows_fold(1) [where f = "\<lambda>y. fill_row v c (y * v_pitch v)" and b = b and a = a, OF assms(1) other] False by auto
  qed
qed

lemma copy_rows_byte:
  assumes "frame_ok v" and "0 < k" and "x < v_width v" and "i < 3"
  shows "fold (\<lambda>y. copy_row v (y * v_pitch v) ((y + k) * v_pitch v)) [0..<b] m (x * (v_bpp v div 8) + y * v_pitch v + i) =
    (if y < b then m (x * (v_bpp v div 8) + (y + k) * v_pitch v + i) else m (x * (v_bpp v div 8) + y * v_pitch v + i))"
proof -
  let ?f = "\<lambda>y. copy_row v (y * v_pitch v) ((y + k) * v_pitch v)"
  have keep: "fold ?f [0..<b] m (x * (v_bpp v div 8) + y * v_pitch v + i) = m (x * (v_bpp v div 8) + y * v_pitch v + i)" if "\<not> y < b" for b y
    by (rule rows_fold(1) [OF assms(1)]) (use that copy_row_other [OF assms(1)] window_bytes_line [OF assms(1,3,4)] in auto)
  show ?thesis
  proof (cases "y < b")
    case True
    have "fold ?f [0..<b] m (x * (v_bpp v div 8) + y * v_pitch v + i) = ?f y (fold ?f [0..<y] m) (x * (v_bpp v div 8) + y * v_pitch v + i)"
      by (rule rows_fold(2) [OF assms(1) _ assms(3)]) (use copy_row_other [OF assms(1)] True assms(4) in auto)
    also have "\<dots> = fold ?f [0..<y] m (x * (v_bpp v div 8) + (y + k) * v_pitch v + i)"
      using assms(2) by (intro copy_row_pixel [OF assms(1,3,4)]) simp
    also have "\<dots> = m (x * (v_bpp v div 8) + (y + k) * v_pitch v + i)" by (rule keep) simp
    finally show ?thesis using True by simp
  qed (use keep in simp)
qed

lemma scroll_byte:
  assumes "frame_ok v" and "0 < k" and "k \<le> v_height v" and "x < v_width v" and "y < v_height v" and "i < 3"
  shows "scrollVideoMemoryUp v k c m (x * (v_bpp v div 8) + y * v_pitch v + i) =
    (if y + k < v_height v then m (x * (v_bpp v div 8) + (y + k) * v_pitch v + i) else chan c i)"
proof -
  have e: "nat (int (v_height v) - int k) = v_height v - k" "nat ((int (v_height v) - int k) mod 2 ^ 16) = v_height v - k"
    using assms(1,3) by (auto simp: frame_ok_def)
  have *: "(v_height v - k \<le> y \<and> y < v_height v) \<longleftrightarrow> \<not> y + k < v_height v" "y < v_height v - k \<longleftrightarrow> y + k < v_height v"
    using assms(3,5) by linarith+
  show ?thesis
    unfolding scrollVideoMemoryUp_def Let_def getWindowHeight_def e
      fill_rows_byte [OF assms(1) order_refl assms(4,6)] copy_rows_byte [OF assms(1,2,4,6)] * by simp
qed

lemma scroll_outside:
  assumes "frame_ok v" and "v_height v * v_pitch v \<le> p"
  shows "scrollVideoMemoryUp v k c m p = m p"
proof -
  have out: "p \<notin> window_bytes v a b" if "b \<le> v_height v" for a b
    using window_bytes_frame [OF assms(1) _ that] assms(2) by (meson leD)
  let ?m1 = "fold (\<lambda>y. copy_row v (y * v_pitch v) ((y + k) * v_pitch v)) [0..<nat (int (v_height v) - int k)] m"
  have "scrollVideoMemoryUp v k c m p = ?m1 p"
    unfolding scrollVideoMemoryUp_def Let_def getWindowHeight_def
    by (rule rows_fold(1) [OF assms(1) _ out]) (use fill_row_other [OF assms(1)] in auto)
  also have "\<dots> = m p"
    by (rule rows_fold(1) [OF assms(1) _ out]) (use copy_row_other [OF assms(1)] in auto)
  finally show ?thesis .
qed

text \<open>
  C27. Scrolling moves the picture up: every pixel shows what was \<open>scroll\<close> lines below it, the
  last \<open>scroll\<close> lines show the fill colour, and no byte after the frame buffer changes.
\<close>

theorem scroll_picture:
  assumes "frame_ok v" and "0 < k" and "k \<le> v_height v" and "x < v_width v" and "y < v_height v"
  shows "pixel v (scrollVideoMemoryUp v k c m) x y =
      (if y + k < v_height v then pixel v m x (y + k) else channels c) \<and>
    (v_height v * v_pitch v \<le> p \<longrightarrow> scrollVideoMemoryUp v k c m p = m p)"
  using scroll_byte [OF assms, of 0 c m] scroll_byte [OF assms, of 1 c m] scroll_byte [OF assms, of 2 c m]
    scroll_outside [OF assms(1)]
  by (simp add: pixel_def channels_def chan_def Let_def)

definition small_mode :: vbe_mode_info where
  "small_mode = \<lparr>v_pitch = 12, v_width = 4, v_height = 3, v_bpp = 24\<rparr>"

theorem scroll_picture_witness:
  "pixel small_mode (scrollVideoMemoryUp small_mode 1 7 (\<lambda>n. of_nat n)) 2 0 = (18, 19, 20) \<and>
   pixel small_mode (scrollVideoMemoryUp small_mode 1 7 (\<lambda>n. of_nat n)) 2 2 = (7, 0, 0)"
  using scroll_picture [of small_mode 1 2 0 7 "\<lambda>n. of_nat n" 0] scroll_picture [of small_mode 1 2 2 7 "\<lambda>n. of_nat n" 0]
  by (simp add: small_mode_def frame_ok_def pixel_def channels_def)

section \<open>Painting points\<close>

text \<open>Points inside the window painted one after the other: what each pixel shows afterwards.\<close>

definition in_window :: "vbe_mode_info \<Rightarrow> nat \<times> nat \<Rightarrow> bool" where
  "in_window v p \<longleftrightarrow> fst p < v_width v \<and> snd p < v_height v"

definition paint :: "vbe_mode_info \<Rightarrow> (nat \<times> nat \<Rightarrow> u32) \<Rightarrow> (nat \<times> nat) list \<Rightarrow> framebuffer \<Rightarrow> framebuffer" where
  "paint v col = fold (\<lambda>p. putPixel v (col p) (fst p) (snd p))"

lemma fold_product:
  "fold (\<lambda>x. fold (\<lambda>y. f (x, y)) ys) xs m = fold f (List.product xs ys) m"
  by (induction xs arbitrary: m) (simp_all add: fold_map comp_def)

lemma putPixel_byte:
  assumes v: "frame_ok v" and p: "in_window v (x, y)" and q: "x' < v_width v" "i < 3"
  shows "putPixel v c x y m (x' * (v_bpp v div 8) + y' * v_pitch v + i) =
    (if (x', y') = (x, y) then chan c i else m (x' * (v_bpp v div 8) + y' * v_pitch v + i))"
proof -
  let ?B = "v_bpp v div 8"
  have xy: "x < v_width v" "y < v_height v" using p by (auto simp: in_window_def)
  have small: "x * ?B + y * v_pitch v + 2 < 2 ^ 64" using frame_offset [OF v xy, of 2] v by (simp add: frame_ok_def)
  then have e: "putPixel v c x y m = store_rgb (x * ?B + y * v_pitch v) c m" by (simp add: putPixel_def)
  show ?thesis
  proof (cases "(x', y') = (x, y)")
    case True
    then show ?thesis using store_rgb_chan [OF small q(2)] e by simp
  next
    case False
    have "x' * ?B + y' * v_pitch v + i \<noteq> x * ?B + y * v_pitch v + j" if "j < 3" for j
    proof
      assume "x' * ?B + y' * v_pitch v + i = x * ?B + y * v_pitch v + j"
      then have "y' * v_pitch v + (x' * ?B + i) = y * v_pitch v + (x * ?B + j)" by simp
      from cell_unique [OF this frame_line [OF v q] frame_line [OF v xy(1) that]] have "y' = y" "x' * ?B + i = x * ?B + j" by auto
      with cell_unique [OF this(2)] v q(2) that False show False by (auto simp: frame_ok_def)
    qed
    then show ?thesis using store_rgb_other [OF small] False e by auto
  qed
qed

lemma putPixel_outside:
  assumes "frame_ok v" and "in_window v p" and "v_height v * v_pitch v \<le> a"
  shows "putPixel v c (fst p) (snd p) m a = m a"
proof -
  have xy: "fst p < v_width v" "snd p < v_height v" using assms(2) by (auto simp: in_window_def)
  have b: "fst p * (v_bpp v div 8) + snd p * v_pitch v + i < v_height v * v_pitch v" if "i < 3" for i
    by (rule frame_offset [OF assms(1) xy that])
  have small: "fst p * (v_bpp v div 8) + snd p * v_pitch v + 2 < 2 ^ 64" using b [of 2] assms(1) by (simp add: frame_ok_def)
  have "a \<noteq> fst p * (v_bpp v div 8) + snd p * v_pitch v + i" if "i < 3" for i using b [OF that] assms(3) by linarith
  then show ?thesis using store_rgb_other [OF small] small by (simp add: putPixel_def)
qed

lemma paint_outside:
  assumes "frame_ok v" and "\<forall>p\<in>set ps. in_window v p" and "v_height v * v_pitch v \<le> a"
  shows "paint v col ps m a = m a"
  using assms(2)
proof (induction ps arbitrary: m)
  case (Cons p ps)
  then show ?case using putPixel_outside [OF assms(1) _ assms(3), of p] by (simp add: paint_def)
qed (simp add: paint_def)

lemma paint_pixel:
  assumes v: "frame_ok v" and "\<forall>p\<in>set ps. in_window v p" and "in_window v q"
  shows "pixel v (paint v col ps m) (fst q) (snd q) = (if q \<in> set ps then channels (col q) else pixel v m (fst q) (snd q))"
  using assms(2)
proof (induction ps arbitrary: m)
  case (Cons p ps)
  let ?m = "putPixel v (col p) (fst p) (snd p) m"
  have p: "in_window v (fst p, snd p)" using Cons.prems by simp
  have q: "fst q < v_width v" using assms(3) by (simp add: in_window_def)
  note b = putPixel_byte [OF v p q, of _ "col p" m "snd q", unfolded prod.collapse]
  have "pixel v ?m (fst q) (snd q) = (if q = p then channels (col q) else pixel v m (fst q) (snd q))"
    using b [of 0] b [of 1] b [of 2] by (cases "q = p") (simp_all add: pixel_def Let_def channels_def chan_def)
  then show ?case using Cons.IH [of ?m] Cons.prems by (auto simp: paint_def)
qed (simp add: paint_def)

text \<open>A rectangle inside the window is painted in its colour and nothing else changes.\<close>

lemma drawRectangle_paint:
  assumes "x0 + w \<le> v_width v" and "y0 + h \<le> v_height v" and "v_width v < 2 ^ 16" and "v_height v < 2 ^ 16"
  shows "drawRectangle v c w h x0 y0 m = paint v (\<lambda>_. c) (map prod.swap (List.product [y0..<y0 + h] [x0..<x0 + w])) m"
proof -
  have "fold (\<lambda>i. putPixel v c ((x0 + i) mod 2 ^ 64) ((y0 + j) mod 2 ^ 64)) [0..<w] =
      fold (\<lambda>x. putPixel v c x ((y0 + j) mod 2 ^ 64)) [x0..<x0 + w]" for j
  proof -
    have "[x0..<x0 + w] = map (\<lambda>i. (x0 + i) mod 2 ^ 64) [0..<w]"
      using assms(1,3) by (intro nth_equalityI) auto
    then show ?thesis by (simp add: fun_eq_iff fold_map comp_def)
  qed
  moreover have "[y0..<y0 + h] = map (\<lambda>j. (y0 + j) mod 2 ^ 64) [0..<h]"
    using assms(2,4) by (intro nth_equalityI) auto
  ultimately have "drawRectangle v c w h x0 y0 m = fold (\<lambda>y. fold (\<lambda>x. putPixel v c x y) [x0..<x0 + w]) [y0..<y0 + h] m"
    by (simp add: drawRectangle_def fold_map comp_def)
  then show ?thesis using fold_product [of "\<lambda>(y, x). putPixel v c x y"] by (simp add: paint_def fold_map comp_def case_prod_unfold)
qed

lemma drawRectangle_pixel:
  assumes "frame_ok v" and "x0 + w \<le> v_width v" and "y0 + h \<le> v_height v" and "v_width v < 2 ^ 16" and "in_window v (x, y)"
  shows "pixel v (drawRectangle v c w h x0 y0 m) x y =
    (if x0 \<le> x \<and> x < x0 + w \<and> y0 \<le> y \<and> y < y0 + h then channels c else pixel v m x y)"
proof -
  let ?ps = "map prod.swap (List.product [y0..<y0 + h] [x0..<x0 + w])"
  have win: "\<forall>p\<in>set ?ps. in_window v p" using assms(2,3) by (auto simp: in_window_def)
  have "(x, y) \<in> set ?ps \<longleftrightarrow> x0 \<le> x \<and> x < x0 + w \<and> y0 \<le> y \<and> y < y0 + h" by (auto simp: image_iff)
  then show ?thesis
    using paint_pixel [OF assms(1) win assms(5)] drawRectangle_paint [of x0 w v y0 h c m] assms by (simp add: frame_ok_def)
qed

end
