(* ===== verification/Fonts.thy ===== *)
theory Fonts
  imports Video
begin

text \<open>
  The text console, src/TP2-SO-2025/Kernel/fonts.c and cursor.c: glyphs drawn from a bitmap at
  a pixel position that advances, wraps at the right edge and scrolls at the bottom. Characters
  are signed bytes; the font is the table \<open>font8x8_basic\<close>, eight bytes for each of 128
  characters, and reading outside it is a fault.
\<close>

section \<open>State\<close>

definition DEFAULT_TEXT_COLOR :: u32 where "DEFAULT_TEXT_COLOR = 0x00FFFFFF"
definition DEFAULT_ERROR_COLOR :: u32 where "DEFAULT_ERROR_COLOR = 0x00DE382B"
definition DEFAULT_BACKGROUND_COLOR :: u32 where "DEFAULT_BACKGROUND_COLOR = 0"
definition glyphSizeX :: nat where "glyphSizeX = 8"
definition glyphSizeY :: nat where "glyphSizeY = 8"
definition NEW_LINE_CHAR :: u8 where "NEW_LINE_CHAR = 10"
definition TABULATOR_CHAR :: u8 where "TABULATOR_CHAR = 9"
definition CARRIAGE_RETURN_CHAR :: u8 where "CARRIAGE_RETURN_CHAR = 13"
definition TAB_SIZE :: nat where "TAB_SIZE = 4"

record console =
  vbe :: vbe_mode_info
  fb :: framebuffer
  bitmap :: "u8 list"
  fontSize :: nat
  xBufferPosition :: int
  yBufferPosition :: int
  maxGlyphSizeYOnLine :: nat
  dirty_line :: bool
  text_color :: u32
  background_color :: u32
  file_descriptor :: int
  IS_SHOWING :: bool

definition setTextColor :: "u32 \<Rightarrow> (console, unit) kernel" where
  "setTextColor color = upd (\<lambda>s. s\<lparr>text_color := color\<rparr>)"

definition setBackgroundColor :: "u32 \<Rightarrow> (console, unit) kernel" where
  "setBackgroundColor color = upd (\<lambda>s. s\<lparr>background_color := color\<rparr>)"

definition getTextColor :: "(console, u32) kernel" where
  "getTextColor = gets text_color"

definition getBackgroundColor :: "(console, u32) kernel" where
  "getBackgroundColor = gets background_color"

text \<open>The position is returned as 16 bits.\<close>

definition getXBufferPosition :: "(console, nat) kernel" where
  "getXBufferPosition = gets (\<lambda>s. nat (xBufferPosition s mod 2 ^ 16))"

section \<open>Drawing a glyph\<close>

text \<open>The size of a scaled glyph, \<open>glyphSizeX * fontSize\<close> and \<open>glyphSizeY * fontSize\<close>.\<close>

definition cell :: "console \<Rightarrow> nat" where
  "cell s = glyphSizeX * fontSize s"

definition line :: "console \<Rightarrow> nat" where
  "line s = glyphSizeY * fontSize s"

definition glyph_color :: "console \<Rightarrow> nat \<Rightarrow> nat \<Rightarrow> nat \<Rightarrow> u32" where
  "glyph_color s start x y =
     (if bit (bitmap s ! (start + y div fontSize s)) (x div fontSize s) then text_color s else background_color s)"

definition renderFromBitmap :: "nat \<Rightarrow> int \<Rightarrow> int \<Rightarrow> console \<Rightarrow> framebuffer" where
  "renderFromBitmap start xBase yBase s =
     fold (\<lambda>x. fold (\<lambda>y. putPixel (vbe s) (glyph_color s start x y) (u64_of (xBase + int x)) (u64_of (yBase + int y)))
                 [0..<line s]) [0..<cell s] (fb s)"

text \<open>The test \<open>ascii < 128\<close> is on a signed byte: a negative one passes it.\<close>

definition renderAscii :: "u8 \<Rightarrow> int \<Rightarrow> int \<Rightarrow> (console, unit) kernel" where
  "renderAscii ascii x y = (\<lambda>s.
     if sint ascii < 128 then
       if 0 \<le> sint ascii \<and> nat (sint ascii) * glyphSizeY + glyphSizeY \<le> length (bitmap s)
       then Ret ((), s\<lparr>fb := renderFromBitmap (nat (sint ascii) * glyphSizeY) x y s\<rparr>)
       else Stop Fault
     else Ret ((), s))"

definition scrollBufferPositionIfNeeded :: "(console, unit) kernel" where
  "scrollBufferPositionIfNeeded = upd (\<lambda>s.
     if yBufferPosition s + int (line s) > int (getWindowHeight (vbe s))
     then s\<lparr>fb := scrollVideoMemoryUp (vbe s) (line s) DEFAULT_BACKGROUND_COLOR (fb s),
            yBufferPosition := yBufferPosition s - int (line s)\<rparr>
     else s)"

definition newLine :: "(console, unit) kernel" where
  "newLine =
     sq (upd (\<lambda>s. s\<lparr>dirty_line := False\<rparr>))
     (sq (upd (\<lambda>s. s\<lparr>yBufferPosition := yBufferPosition s + int (maxGlyphSizeYOnLine s)\<rparr>))
     (sq (upd (\<lambda>s. s\<lparr>xBufferPosition := 0\<rparr>))
     (sq (upd (\<lambda>s. s\<lparr>maxGlyphSizeYOnLine := line s\<rparr>))
     scrollBufferPositionIfNeeded)))"

definition retractPosition :: "(console, unit) kernel" where
  "retractPosition = upd (\<lambda>s.
     let window_width = getWindowWidth (vbe s) in
     if xBufferPosition s = 0 then
       if yBufferPosition s - int (line s) < 0 then s\<lparr>yBufferPosition := 0\<rparr>
       else s\<lparr>yBufferPosition := yBufferPosition s - int (line s),
              xBufferPosition := int (window_width - window_width mod cell s) - int (cell s)\<rparr>
     else s\<lparr>xBufferPosition := xBufferPosition s - int (cell s)\<rparr>)"

section \<open>putChar\<close>

text \<open>The \<open>default\<close> branch of \<open>putChar\<close>, and \<open>putChar\<close> of a character that takes it.\<close>

definition put_glyph :: "u8 \<Rightarrow> (console, unit) kernel" where
  "put_glyph ascii =
     bnd (gets (\<lambda>s. xBufferPosition s + int (cell s) > int (getWindowWidth (vbe s)))) (\<lambda>wrap.
     sq (if wrap then newLine else ret ())
     (bnd (gets (\<lambda>s. (xBufferPosition s, yBufferPosition s))) (\<lambda>(x, y).
      sq (renderAscii ascii x y)
      (upd (\<lambda>s. s\<lparr>xBufferPosition := xBufferPosition s + int (cell s)\<rparr>)))))"

definition put_plain :: "u8 \<Rightarrow> (console, unit) kernel" where
  "put_plain ascii = sq (upd (\<lambda>s. s\<lparr>dirty_line := True\<rparr>)) (put_glyph ascii)"

definition showCursor :: "(console, unit) kernel" where
  "showCursor = sq (put_plain 124) retractPosition"

definition hideCursor :: "(console, unit) kernel" where
  "hideCursor = sq (put_plain 32) retractPosition"

definition retract_step :: "unit \<Rightarrow> (console, unit + unit) kernel" where
  "retract_step _ =
     bnd (gets xBufferPosition) (\<lambda>x. if x > 0 then sq retractPosition (ret (Inl ())) else ret (Inr ()))"

definition tab_step :: "unit \<Rightarrow> (console, unit + unit) kernel" where
  "tab_step _ =
     sq (put_plain 32)
     (bnd (gets (\<lambda>s. xBufferPosition s mod int (TAB_SIZE * cell s))) (\<lambda>r.
      ret (if r \<noteq> 0 then Inl () else Inr ())))"

definition putChar :: "u8 \<Rightarrow> (console, unit) kernel" where
  "putChar ascii =
     sq (upd (\<lambda>s. s\<lparr>dirty_line := True\<rparr>))
     (if ascii = NEW_LINE_CHAR then sq hideCursor newLine
      else if ascii = CARRIAGE_RETURN_CHAR then sq hideCursor (loop retract_step ())
      else if ascii = TABULATOR_CHAR then loop tab_step ()
      else put_glyph ascii)"

definition clearPreviousCharacter :: "(console, unit) kernel" where
  "clearPreviousCharacter = sq hideCursor (sq retractPosition showCursor)"

definition clear :: "(console, unit) kernel" where
  "clear =
     sq (upd (\<lambda>s. s\<lparr>fb := fillVideoMemory (vbe s) DEFAULT_BACKGROUND_COLOR (fb s)\<rparr>))
     (upd (\<lambda>s. s\<lparr>xBufferPosition := 0, yBufferPosition := 0\<rparr>))"

section \<open>Font size\<close>

definition adjust_line :: "(console, unit) kernel" where
  "adjust_line = upd (\<lambda>s. s\<lparr>maxGlyphSizeYOnLine := (if dirty_line s then max (maxGlyphSizeYOnLine s) (line s) else line s)\<rparr>)"

definition increaseFontSize :: "(console, nat) kernel" where
  "increaseFontSize =
     sq (upd (\<lambda>s. s\<lparr>fontSize := (if fontSize s > 9 then fontSize s else fontSize s + 1)\<rparr>))
     (sq adjust_line (sq scrollBufferPositionIfNeeded (gets fontSize)))"

definition decreaseFontSize :: "(console, nat) kernel" where
  "decreaseFontSize =
     sq (upd (\<lambda>s. s\<lparr>fontSize := (if fontSize s \<le> 1 then fontSize s else fontSize s - 1)\<rparr>))
     (sq adjust_line (gets fontSize))"

text \<open>The argument is an \<open>int8_t\<close>; \<open>setFontSize\<close> does not scroll.\<close>

definition setFontSize :: "u8 \<Rightarrow> (console, nat) kernel" where
  "setFontSize n =
     sq (upd (\<lambda>s. s\<lparr>fontSize := (if sint n < 1 then 1 else if sint n > 10 then 10 else nat (sint n))\<rparr>))
     (sq adjust_line (gets fontSize))"

definition getFontSize :: "(console, nat) kernel" where
  "getFontSize = gets fontSize"

section \<open>The cursor\<close>

definition TOGGLE_TICKS :: nat where "TOGGLE_TICKS = 9"

definition toggleSpeed :: "nat \<Rightarrow> nat" where
  "toggleSpeed ticks = ticks div TOGGLE_TICKS"

text \<open>\<open>idle\<close> is the test that \<open>keyboard_options\<close> is 0 or \<open>MODIFY_BUFFER\<close>.\<close>

definition toggleCursor :: "nat \<Rightarrow> bool \<Rightarrow> (console, unit) kernel" where
  "toggleCursor ticks idle =
     (let toggle = toggleSpeed ticks mod 2 in
      if idle then upd (\<lambda>s. s\<lparr>IS_SHOWING := False\<rparr>)
      else bnd (gets IS_SHOWING) (\<lambda>showing.
        if toggle = 1 \<and> \<not> showing then sq showCursor (upd (\<lambda>s. s\<lparr>IS_SHOWING := True\<rparr>))
        else if toggle = 0 \<and> showing then sq hideCursor (upd (\<lambda>s. s\<lparr>IS_SHOWING := False\<rparr>))
        else ret ()))"

section \<open>Numbers\<close>

text \<open>
  \<open>uintToBase\<close> produces the digits from the last one on and reverses them in place; \<open>room\<close> is the
  size of the buffer, and a store beyond it is a fault, the result \<open>None\<close>. The callers pass the
  bases 2, 10 and 16.
\<close>

definition base_digit :: "nat \<Rightarrow> char" where
  "base_digit remainder = char_of (if remainder < 10 then remainder + 48 else remainder + 65 - 10)"

function base_digits :: "nat \<Rightarrow> nat \<Rightarrow> char list" where
  "base_digits value b =
     base_digit (value mod b) # (if value div b = 0 \<or> b < 2 then [] else base_digits (value div b) b)"
  by auto

termination by (relation "measure fst") (auto simp: div_greater_zero_iff intro!: div_less_dividend)

declare base_digits.simps [simp del]

fun reverse_in_place :: "nat \<Rightarrow> nat \<Rightarrow> char list \<Rightarrow> char list" where
  "reverse_in_place p1 0 buffer = buffer"
| "reverse_in_place p1 (Suc p2) buffer =
     (if p1 < Suc p2
      then reverse_in_place (Suc p1) p2 (buffer[p1 := buffer ! Suc p2, Suc p2 := buffer ! p1])
      else buffer)"

definition uintToBase :: "nat \<Rightarrow> nat \<Rightarrow> nat \<Rightarrow> (char list \<times> nat) option" where
  "uintToBase room value b =
     (let ds = base_digits value b in
      if length ds + 1 \<le> room
      then Some (reverse_in_place 0 (length ds - 1) (ds @ [CHR 0x00]), length ds)
      else None)"

section \<open>The console invariant\<close>

text \<open>
  The cell at the current position lies inside the window, the position is a whole number of cells
  from the left edge, and the line is as high as its highest glyph. The window is at least one
  tabulator stop wide. \<open>con_frame\<close>: the mode, the font and every byte outside the window are kept.
\<close>

definition con_ok :: "console \<Rightarrow> bool" where
  "con_ok s \<longleftrightarrow> frame_ok (vbe s) \<and> v_width (vbe s) < 2 ^ 16 \<and> 1 \<le> fontSize s \<and> fontSize s \<le> 10 \<and>
     128 * glyphSizeY \<le> length (bitmap s) \<and> TAB_SIZE * cell s \<le> v_width (vbe s) \<and>
     0 \<le> xBufferPosition s \<and> xBufferPosition s \<le> int (v_width (vbe s)) \<and> int (cell s) dvd xBufferPosition s \<and>
     0 \<le> yBufferPosition s \<and> yBufferPosition s + int (line s) \<le> int (v_height (vbe s)) \<and>
     yBufferPosition s + int (maxGlyphSizeYOnLine s) \<le> int (v_height (vbe s)) \<and> line s \<le> maxGlyphSizeYOnLine s"

definition con_frame :: "console \<Rightarrow> console \<Rightarrow> bool" where
  "con_frame s t \<longleftrightarrow> vbe t = vbe s \<and> bitmap t = bitmap s \<and> fontSize t = fontSize s \<and>
     (\<forall>p \<ge> v_height (vbe s) * v_pitch (vbe s). fb t p = fb s p)"

lemma con_frame_refl [simp]: "con_frame s s"
  by (simp add: con_frame_def)

lemma con_frame_trans: "con_frame s t \<Longrightarrow> con_frame t u \<Longrightarrow> con_frame s u"
  by (simp add: con_frame_def)

lemma dirty_simps [simp]:
  "con_ok (s\<lparr>dirty_line := b\<rparr>) = con_ok s" "con_frame (s\<lparr>dirty_line := b\<rparr>) t = con_frame s t"
  "cell (s\<lparr>dirty_line := b\<rparr>) = cell s" "line (s\<lparr>dirty_line := b\<rparr>) = line s"
  by (simp_all add: con_ok_def con_frame_def cell_def line_def)

lemma cell_line: "line s = cell s"
  by (simp add: cell_def line_def glyphSizeX_def glyphSizeY_def)

lemma cell_upd [simp]:
  "cell (s\<lparr>xBufferPosition := x\<rparr>) = cell s" "line (s\<lparr>xBufferPosition := x\<rparr>) = line s"
  "cell (s\<lparr>yBufferPosition := y\<rparr>) = cell s" "line (s\<lparr>yBufferPosition := y\<rparr>) = line s"
  by (simp_all add: cell_def line_def)

lemma con_frame_cell: "con_frame s t \<Longrightarrow> cell t = cell s \<and> vbe t = vbe s"
  by (simp add: con_frame_def cell_def)

lemma newLine_ok:
  assumes "con_ok s"
  shows "wp no_stop newLine (\<lambda>_ t. con_ok t \<and> con_frame s t \<and> xBufferPosition t = 0) s"
  using assms scroll_outside [of "vbe s"]
  by (auto simp: newLine_def scrollBufferPositionIfNeeded_def con_ok_def con_frame_def cell_def line_def
      getWindowHeight_def getWindowWidth_def glyphSizeX_def glyphSizeY_def)

text \<open>A glyph inside the window is the painting of its square.\<close>

lemma u64_of_small: "0 \<le> a \<Longrightarrow> a + int k < 2 ^ 64 \<Longrightarrow> u64_of (a + int k) = nat a + k"
  by (simp add: u64_of_def nat_add_distrib)

lemma render_paint_at:
  assumes "0 \<le> x" and "0 \<le> y" and "x + int (cell s) < 2 ^ 64" and "y + int (line s) < 2 ^ 64"
  shows "renderFromBitmap start x y s =
    paint (vbe s) (\<lambda>p. glyph_color s start (fst p - nat x) (snd p - nat y))
      (map (\<lambda>p. (nat x + fst p, nat y + snd p)) (List.product [0..<cell s] [0..<line s])) (fb s)"
proof -
  have "renderFromBitmap start x y s =
      fold (\<lambda>i. fold (\<lambda>j. putPixel (vbe s) (glyph_color s start i j) (nat x + i) (nat y + j)) [0..<line s]) [0..<cell s] (fb s)"
    unfolding renderFromBitmap_def
    by (intro fold_cong ext refl) (use assms in \<open>auto simp: u64_of_small\<close>)
  then show ?thesis
    using fold_product [of "\<lambda>p. putPixel (vbe s) (glyph_color s start (fst p) (snd p)) (nat x + fst p) (nat y + snd p)"]
    by (simp add: paint_def fold_map comp_def)
qed

lemma render_paint:
  assumes "con_ok s" and "xBufferPosition s + int (cell s) \<le> int (v_width (vbe s))"
  shows "renderFromBitmap start (xBufferPosition s) (yBufferPosition s) s =
    paint (vbe s) (\<lambda>p. glyph_color s start (fst p - nat (xBufferPosition s)) (snd p - nat (yBufferPosition s)))
      (map (\<lambda>p. (nat (xBufferPosition s) + fst p, nat (yBufferPosition s) + snd p)) (List.product [0..<cell s] [0..<line s])) (fb s)"
  by (rule render_paint_at) (use assms in \<open>auto simp: con_ok_def frame_ok_def\<close>)

lemma grid_mem:
  "(x, y) \<in> set (map (\<lambda>p. (a + fst p, b + snd p)) (List.product [0..<m] [0..<n])) \<longleftrightarrow>
   a \<le> x \<and> x < a + m \<and> b \<le> y \<and> y < b + n"
proof
  assume "a \<le> x \<and> x < a + m \<and> b \<le> y \<and> y < b + n"
  then have "(x, y) = (a + fst (x - a, y - b), b + snd (x - a, y - b))" "(x - a, y - b) \<in> set (List.product [0..<m] [0..<n])" by auto
  then show "(x, y) \<in> set (map (\<lambda>p. (a + fst p, b + snd p)) (List.product [0..<m] [0..<n]))" by (metis (no_types, lifting) image_eqI set_map)
qed auto

lemma render_window:
  assumes "con_ok s" and "xBufferPosition s + int (cell s) \<le> int (v_width (vbe s))"
  shows "\<forall>q\<in>set (map (\<lambda>p. (nat (xBufferPosition s) + fst p, nat (yBufferPosition s) + snd p)) (List.product [0..<cell s] [0..<line s])).
    in_window (vbe s) q"
  using assms by (auto simp: con_ok_def in_window_def)

lemma renderAscii_ok:
  assumes "con_ok s" and "xBufferPosition s + int (cell s) \<le> int (v_width (vbe s))" and "0 \<le> sint c"
  shows "renderAscii c (xBufferPosition s) (yBufferPosition s) s =
    Ret ((), s\<lparr>fb := renderFromBitmap (nat (sint c) * glyphSizeY) (xBufferPosition s) (yBufferPosition s) s\<rparr>)"
proof -
  have "sint c < 128" using sint_lt [of c] by simp
  then have "nat (sint c) * glyphSizeY + glyphSizeY \<le> 128 * glyphSizeY" using assms(3) by (simp add: glyphSizeY_def nat_le_iff)
  also have "\<dots> \<le> length (bitmap s)" using assms(1) by (simp add: con_ok_def)
  finally show ?thesis using assms(3) \<open>sint c < 128\<close> by (simp add: renderAscii_def)
qed

lemma renderAscii_frame:
  assumes "con_ok s" and "xBufferPosition s + int (cell s) \<le> int (v_width (vbe s))" and "0 \<le> sint c"
  shows "wp no_stop (renderAscii c (xBufferPosition s) (yBufferPosition s))
    (\<lambda>_ t. con_frame s t \<and> (\<exists>m. t = s\<lparr>fb := m\<rparr>)) s"
proof -
  have "frame_ok (vbe s)" using assms(1) by (simp add: con_ok_def)
  from paint_outside [OF this render_window [OF assms(1,2)]] show ?thesis
    by (auto simp: wp_def renderAscii_ok [OF assms] con_frame_def render_paint [OF assms(1,2)])
qed

text \<open>One glyph: the position advances by a cell, on the next line when the line was full.\<close>

definition next_x :: "console \<Rightarrow> int" where
  "next_x s = (if xBufferPosition s + int (cell s) > int (v_width (vbe s)) then int (cell s)
               else xBufferPosition s + int (cell s))"

lemma next_x_dirty [simp]: "next_x (s\<lparr>dirty_line := b\<rparr>) = next_x s"
  by (simp add: next_x_def)

lemma advance_ok:
  assumes "con_ok s" and "xBufferPosition s + int (cell s) \<le> int (v_width (vbe s))" and "0 \<le> sint c"
  shows "wp no_stop (sq (renderAscii c (xBufferPosition s) (yBufferPosition s))
      (upd (\<lambda>s. s\<lparr>xBufferPosition := xBufferPosition s + int (cell s)\<rparr>)))
    (\<lambda>_ t. con_ok t \<and> con_frame s t \<and> xBufferPosition t = xBufferPosition s + int (cell s) \<and>
       yBufferPosition t = yBufferPosition s) s"
  unfolding wp_sq wp_upd
  by (rule wp_mono [OF renderAscii_frame [OF assms]])
     (use assms in \<open>auto simp: con_ok_def con_frame_def cell_def line_def\<close>)

lemma put_glyph_ok:
  assumes "con_ok s" and "0 \<le> sint c"
  shows "wp no_stop (put_glyph c) (\<lambda>_ t. con_ok t \<and> con_frame s t \<and> xBufferPosition t = next_x s) s"
proof (cases "xBufferPosition s + int (cell s) > int (v_width (vbe s))")
  case True
  have step: "wp no_stop (sq (renderAscii c (xBufferPosition u) (yBufferPosition u))
      (upd (\<lambda>s. s\<lparr>xBufferPosition := xBufferPosition s + int (cell s)\<rparr>)))
    (\<lambda>_ t. con_ok t \<and> con_frame s t \<and> xBufferPosition t = next_x s) u"
    if u: "con_ok u" "con_frame s u" "xBufferPosition u = 0" for u
  proof -
    have w: "xBufferPosition u + int (cell u) \<le> int (v_width (vbe u))" using u by (auto simp: con_ok_def TAB_SIZE_def)
    show ?thesis
      by (rule wp_mono [OF advance_ok [OF u(1) w assms(2)]])
         (use u True in \<open>auto simp: next_x_def con_frame_cell intro: con_frame_trans\<close>)
  qed
  have "wp no_stop newLine (\<lambda>_ u. wp no_stop (sq (renderAscii c (xBufferPosition u) (yBufferPosition u))
      (upd (\<lambda>s. s\<lparr>xBufferPosition := xBufferPosition s + int (cell s)\<rparr>)))
    (\<lambda>_ t. con_ok t \<and> con_frame s t \<and> xBufferPosition t = next_x s) u) s"
    by (rule wp_mono [OF newLine_ok [OF assms(1)]]) (intro step, auto)
  then show ?thesis using True by (simp add: put_glyph_def getWindowWidth_def)
next
  case False
  then show ?thesis
    using wp_mono [OF advance_ok [OF assms(1) _ assms(2)], of "\<lambda>_ t. con_ok t \<and> con_frame s t \<and> xBufferPosition t = next_x s"]
    by (simp add: put_glyph_def getWindowWidth_def next_x_def)
qed

lemma put_plain_ok:
  assumes "con_ok s" and "0 \<le> sint c"
  shows "wp no_stop (put_plain c) (\<lambda>_ t. con_ok t \<and> con_frame s t \<and> xBufferPosition t = next_x s) s"
  using put_glyph_ok [of "s\<lparr>dirty_line := True\<rparr>" c] assms by (simp add: put_plain_def)

lemma retract_ok:
  assumes "con_ok s"
  shows "wp no_stop retractPosition (\<lambda>_ t. con_ok t \<and> con_frame s t \<and>
    (xBufferPosition s > 0 \<longrightarrow> xBufferPosition t = xBufferPosition s - int (cell s))) s"
proof -
  let ?w = "v_width (vbe s)" and ?c = "cell s"
  have c: "0 < ?c" "4 * ?c \<le> ?w" using assms by (auto simp: con_ok_def TAB_SIZE_def cell_def glyphSizeX_def)
  have pos: "int ?c \<le> xBufferPosition s" if "xBufferPosition s > 0"
    using assms that zdvd_imp_le [of "int ?c" "xBufferPosition s"] by (simp add: con_ok_def)
  have full: "?w - ?w mod ?c = ?c * (?w div ?c)" by (simp add: minus_mod_eq_mult_div)
  have "1 \<le> ?w div ?c" using c by (simp add: Suc_le_eq div_greater_zero_iff)
  then have "?c \<le> ?w - ?w mod ?c" unfolding full by simp
  moreover have "int ?c dvd int (?w - ?w mod ?c)" unfolding full by simp
  moreover have "?w - ?w mod ?c \<le> ?w" by simp
  ultimately show ?thesis
    using assms pos
    by (auto simp: retractPosition_def Let_def con_ok_def con_frame_def getWindowWidth_def dvd_diff simp del: of_nat_diff)
qed

definition con_step :: "console \<Rightarrow> console \<Rightarrow> bool" where
  "con_step s t \<longleftrightarrow> con_ok t \<and> con_frame s t"

lemma con_step_trans: "con_step s t \<Longrightarrow> con_step t u \<Longrightarrow> con_step s u"
  by (auto simp: con_step_def intro: con_frame_trans)

lemma con_step_seq:
  assumes "wp no_stop m (\<lambda>_ t. con_step s t) s" and "\<And>t. con_ok t \<Longrightarrow> wp no_stop k (\<lambda>_ u. con_step t u) t"
  shows "wp no_stop (sq m k) (\<lambda>_ u. con_step s u) s"
  unfolding wp_sq
proof (rule wp_mono [OF assms(1)])
  fix t assume t: "con_step s t"
  show "wp no_stop k (\<lambda>_ u. con_step s u) t"
    by (rule wp_mono [OF assms(2)]) (use t in \<open>auto simp: con_step_def intro: con_frame_trans\<close>)
qed

lemma con_step_intro:
  assumes "wp no_stop m (\<lambda>_ t. con_ok t \<and> con_frame s t \<and> P t) s"
  shows "wp no_stop m (\<lambda>_ t. con_step s t) s"
  by (rule wp_mono [OF assms]) (simp add: con_step_def)

lemmas newLine_step = con_step_intro [OF newLine_ok]
lemmas put_glyph_step = con_step_intro [OF put_glyph_ok]
lemmas put_plain_step = con_step_intro [OF put_plain_ok]
lemmas retract_step_ok = con_step_intro [OF retract_ok]

lemma hideCursor_step: "con_ok s \<Longrightarrow> wp no_stop hideCursor (\<lambda>_ t. con_step s t) s"
  unfolding hideCursor_def by (intro con_step_seq put_plain_step retract_step_ok) simp_all

lemma showCursor_step: "con_ok s \<Longrightarrow> wp no_stop showCursor (\<lambda>_ t. con_step s t) s"
  unfolding showCursor_def by (intro con_step_seq put_plain_step retract_step_ok) simp_all

lemma clearPreviousCharacter_step: "con_ok s \<Longrightarrow> wp no_stop clearPreviousCharacter (\<lambda>_ t. con_step s t) s"
  unfolding clearPreviousCharacter_def by (intro con_step_seq hideCursor_step retract_step_ok showCursor_step)

text \<open>The carriage return loop walks back one cell at a time and stops at the left edge.\<close>

lemma carriage_return_step:
  assumes "con_ok s"
  shows "wp no_stop (loop retract_step ()) (\<lambda>_ t. con_step s t \<and> xBufferPosition t = 0) s"
proof (rule wp_loop [where I = "\<lambda>_. con_step s" and \<mu> = "\<lambda>_ t. nat (xBufferPosition t)"])
  show "con_step s s" using assms by (simp add: con_step_def)
  fix a t assume t: "con_step s t"
  then have ok: "con_ok t" and "0 < cell t" by (auto simp: con_step_def con_ok_def cell_def glyphSizeX_def)
  show "wp no_stop (retract_step a) (\<lambda>x u. case x of Inl a' \<Rightarrow> con_step s u \<and> nat (xBufferPosition u) < nat (xBufferPosition t)
      | Inr r \<Rightarrow> con_step s u \<and> xBufferPosition u = 0) t"
  proof (cases "xBufferPosition t > 0")
    case True
    then have "wp no_stop retractPosition (\<lambda>_ u. con_step s u \<and> nat (xBufferPosition u) < nat (xBufferPosition t)) t"
      by (intro wp_mono [OF retract_ok [OF ok]]) (use t \<open>0 < cell t\<close> con_frame_trans in \<open>auto simp: con_step_def\<close>)
    with True show ?thesis by (simp add: retract_step_def)
  next
    case False
    with t show ?thesis by (auto simp: retract_step_def con_step_def con_ok_def)
  qed
qed

text \<open>The tabulator loop ends at a multiple of four cells, on this line or on the next one.\<close>

definition tab_rank :: "nat \<Rightarrow> nat \<Rightarrow> nat" where
  "tab_rank n c = (if c mod 4 = 0 then n + 10 else if 4 * ((c + 3) div 4) \<le> n then 4 * ((c + 3) div 4) - c else n - c + 5)"

lemma tab_rank_next:
  assumes "4 \<le> n" and "c \<le> n" and "c' = (if c < n then c + 1 else 1)" and "c' mod 4 \<noteq> 0"
  shows "tab_rank n c' < tab_rank n c"
proof (cases "c < n")
  case True
  then have c': "c' = c + 1" using assms(3) by simp
  have "(c' + 3) div 4 = (c + 3) div 4" if "c mod 4 \<noteq> 0" using that c' assms(4) by presburger
  moreover have "tab_rank n c' \<le> n + 5" using assms(2,4) by (auto simp: tab_rank_def)
  moreover have "c < 4 * ((c + 3) div 4)" if "c mod 4 \<noteq> 0" using that by presburger
  ultimately show ?thesis using c' True assms(4) by (auto simp: tab_rank_def intro!: diff_less_mono2)
next
  case False
  with assms(2,3) have "c = n" "c' = 1" by auto
  moreover have "n mod 4 = 0" if "4 * ((n + 3) div 4) \<le> n" using that by presburger
  ultimately show ?thesis using assms(1) by (auto simp: tab_rank_def)
qed

definition column :: "console \<Rightarrow> nat" where
  "column s = nat (xBufferPosition s) div cell s"

lemma con_ok_column:
  assumes "con_ok s"
  shows "xBufferPosition s = int (column s * cell s)" and "column s \<le> v_width (vbe s) div cell s" and "0 < cell s" and "4 \<le> v_width (vbe s) div cell s"
proof -
  show c: "0 < cell s" using assms by (auto simp: con_ok_def cell_def glyphSizeX_def)
  have "cell s dvd nat (xBufferPosition s)" using assms by (auto simp: con_ok_def nat_dvd_iff int_dvd_int_iff [symmetric])
  then show "xBufferPosition s = int (column s * cell s)" using assms by (simp add: column_def con_ok_def)
  show "column s \<le> v_width (vbe s) div cell s" unfolding column_def using assms by (intro div_le_mono) (auto simp: con_ok_def)
  show "4 \<le> v_width (vbe s) div cell s" using assms c by (simp add: con_ok_def TAB_SIZE_def less_eq_div_iff_mult_less_eq)
qed

lemma next_column:
  assumes "con_ok s"
  shows "next_x s = int ((if column s < v_width (vbe s) div cell s then column s + 1 else 1) * cell s)"
proof -
  note c = con_ok_column [OF assms]
  have e: "xBufferPosition s + int (cell s) = int ((column s + 1) * cell s)" using c(1) by (simp add: algebra_simps)
  have w: "(column s + 1) * cell s \<le> v_width (vbe s) \<longleftrightarrow> column s < v_width (vbe s) div cell s"
    using less_eq_div_iff_mult_less_eq [OF c(3), of "column s + 1" "v_width (vbe s)"] by (simp add: Suc_le_eq)
  have "int (v_width (vbe s)) < xBufferPosition s + int (cell s) \<longleftrightarrow> \<not> column s < v_width (vbe s) div cell s"
    unfolding e w [symmetric] of_nat_less_iff by (simp only: not_le)
  then show ?thesis unfolding next_x_def e by (simp add: algebra_simps)
qed

lemma tab_loop_step:
  assumes "con_ok s"
  shows "wp no_stop (loop tab_step ()) (\<lambda>_ t. con_step s t) s"
proof (rule wp_loop [where I = "\<lambda>_. con_step s" and \<mu> = "\<lambda>_ t. tab_rank (v_width (vbe s) div cell s) (column t)"])
  show "con_step s s" using assms by (simp add: con_step_def)
  fix a t assume t: "con_step s t"
  then have ok: "con_ok t" and fr: "vbe t = vbe s" "cell t = cell s" by (auto simp: con_step_def con_frame_def cell_def)
  note c = con_ok_column [OF ok, unfolded fr] and nx = next_column [OF ok, unfolded fr]
  let ?n = "v_width (vbe s) div cell s"
  have "xBufferPosition u mod int (TAB_SIZE * cell u) \<noteq> 0 \<longrightarrow> tab_rank ?n (column u) < tab_rank ?n (column t)"
    if u: "con_ok u" "con_frame t u" "xBufferPosition u = next_x t" for u
  proof
    have cu: "cell u = cell s" using con_frame_cell [OF u(2)] fr by simp
    have "int (column u * cell s) = int ((if column t < ?n then column t + 1 else 1) * cell s)"
      using con_ok_column(1) [OF u(1), unfolded cu] u(3) nx by (rule trans [OF trans [OF sym]])
    then have "column u * cell s = (if column t < ?n then column t + 1 else 1) * cell s" unfolding of_nat_eq_iff .
    then have col: "column u = (if column t < ?n then column t + 1 else 1)" using c(3) by (subst (asm) mult_cancel2) simp
    assume ne: "xBufferPosition u mod int (TAB_SIZE * cell u) \<noteq> 0"
    have "column u mod 4 \<noteq> 0"
    proof
      assume "column u mod 4 = 0"
      then obtain k where "column u = 4 * k" by auto
      with ne con_ok_column(1) [OF u(1)] show False by (simp add: TAB_SIZE_def mult.assoc)
    qed
    with tab_rank_next [OF c(4,2) col] show "tab_rank ?n (column u) < tab_rank ?n (column t)" by simp
  qed
  then show "wp no_stop (tab_step a) (\<lambda>x u. case x of Inl a' \<Rightarrow> con_step s u \<and> tab_rank ?n (column u) < tab_rank ?n (column t)
      | Inr r \<Rightarrow> con_step s u) t"
    unfolding tab_step_def wp_sq wp_bnd wp_gets wp_ret
    by (intro wp_mono [OF put_plain_ok [OF ok]]) (use t con_frame_trans in \<open>auto simp: con_step_def\<close>)
qed

lemma putChar_step:
  assumes "con_ok s" and "0 \<le> sint c"
  shows "wp no_stop (putChar c) (\<lambda>_ t. con_step (s\<lparr>dirty_line := True\<rparr>) t) s"
proof -
  let ?s = "s\<lparr>dirty_line := True\<rparr>"
  have s: "con_ok ?s" using assms(1) by simp
  have "wp no_stop (if c = NEW_LINE_CHAR then sq hideCursor newLine
      else if c = CARRIAGE_RETURN_CHAR then sq hideCursor (loop retract_step ())
      else if c = TABULATOR_CHAR then loop tab_step () else put_glyph c) (\<lambda>_ t. con_step ?s t) ?s"
    using con_step_seq [OF hideCursor_step [OF s] newLine_step] put_glyph_step [OF s assms(2)] tab_loop_step [OF s]
      con_step_seq [OF hideCursor_step [OF s] wp_mono [OF carriage_return_step]] by simp
  then show ?thesis by (simp add: putChar_def)
qed

text \<open>
  C22. Printing any 7-bit character, the control characters included, terminates: the tabulator and
  carriage return loops end. It keeps the console invariant, so the next glyph lies inside the
  window, and it changes no byte of memory outside the frame buffer.
\<close>

theorem putChar_safe:
  assumes "con_ok s" and "0 \<le> sint c"
  shows "\<exists>t. putChar c s = Ret ((), t) \<and> con_ok t \<and>
    (\<forall>p \<ge> v_height (vbe s) * v_pitch (vbe s). fb t p = fb s p)"
  using putChar_step [OF assms] by (auto elim!: wp_no_stopE simp: con_step_def con_frame_def)

definition demo_console :: console where
  "demo_console = \<lparr>vbe = \<lparr>v_pitch = 96, v_width = 32, v_height = 16, v_bpp = 24\<rparr>, fb = (\<lambda>_. 0),
     bitmap = replicate 1024 255, fontSize = 1, xBufferPosition = 8, yBufferPosition = 8,
     maxGlyphSizeYOnLine = 8, dirty_line = True, text_color = DEFAULT_TEXT_COLOR,
     background_color = DEFAULT_BACKGROUND_COLOR, file_descriptor = 1, IS_SHOWING = False\<rparr>"

lemma demo_console_ok: "con_ok demo_console"
  by (simp add: con_ok_def demo_console_def frame_ok_def glyphSizeY_def glyphSizeX_def TAB_SIZE_def cell_def line_def)

theorem putChar_safe_witness:
  "\<exists>t. putChar TABULATOR_CHAR demo_console = Ret ((), t) \<and> con_ok t \<and> fb t 5000 = 0"
  using putChar_safe [of demo_console TABULATOR_CHAR, OF demo_console_ok]
  by (force simp: TABULATOR_CHAR_def demo_console_def)

text \<open>
  C28. A printable character shows its glyph: every pixel of the cell at the current position has
  the text colour where the font's bit is set and the background colour elsewhere, and every
  other pixel of the window is as it was.
\<close>

theorem putChar_draws:
  assumes "con_ok s" and "0 \<le> sint c" and "c \<notin> {NEW_LINE_CHAR, CARRIAGE_RETURN_CHAR, TABULATOR_CHAR}"
    and "xBufferPosition s + int (cell s) \<le> int (v_width (vbe s))" and "x < v_width (vbe s)" and "y < v_height (vbe s)"
  shows "\<exists>t. putChar c s = Ret ((), t) \<and> pixel (vbe s) (fb t) x y =
    (let i = int x - xBufferPosition s; j = int y - yBufferPosition s in
     if 0 \<le> i \<and> i < int (cell s) \<and> 0 \<le> j \<and> j < int (line s)
     then channels (if bit (bitmap s ! (nat (sint c) * glyphSizeY + nat j div fontSize s)) (nat i div fontSize s)
                    then text_color s else background_color s)
     else pixel (vbe s) (fb s) x y)"
proof -
  let ?s = "s\<lparr>dirty_line := True\<rparr>" and ?x = "nat (xBufferPosition s)" and ?y = "nat (yBufferPosition s)"
  let ?ps = "map (\<lambda>p. (?x + fst p, ?y + snd p)) (List.product [0..<cell s] [0..<line s])"
  have ok: "con_ok ?s" "xBufferPosition ?s + int (cell ?s) \<le> int (v_width (vbe ?s))" using assms by simp_all
  have v: "frame_ok (vbe s)" and pos: "0 \<le> xBufferPosition s" "0 \<le> yBufferPosition s" using assms(1) by (auto simp: con_ok_def)
  have run: "putChar c s = Ret ((), ?s\<lparr>fb := renderFromBitmap (nat (sint c) * glyphSizeY) (xBufferPosition s) (yBufferPosition s) ?s,
      xBufferPosition := xBufferPosition s + int (cell s)\<rparr>)"
    using assms(3,4) renderAscii_ok [OF ok assms(2)]
    by (auto simp: putChar_def put_glyph_def run_simps getWindowWidth_def cell_def)
  have mem: "(x, y) \<in> set ?ps \<longleftrightarrow> (let i = int x - xBufferPosition s; j = int y - yBufferPosition s in
      0 \<le> i \<and> i < int (cell s) \<and> 0 \<le> j \<and> j < int (line s))"
  proof -
    show ?thesis unfolding grid_mem using pos by (auto simp: Let_def)
  qed
  have "pixel (vbe s) (renderFromBitmap (nat (sint c) * glyphSizeY) (xBufferPosition s) (yBufferPosition s) ?s) x y =
      (if (x, y) \<in> set ?ps then channels (glyph_color s (nat (sint c) * glyphSizeY) (x - ?x) (y - ?y)) else pixel (vbe s) (fb s) x y)"
    using paint_pixel [OF v, of ?ps "(x, y)"] render_window [OF assms(1,4)] render_paint [OF ok] assms(5,6)
    by (simp add: in_window_def glyph_color_def)
  then show ?thesis unfolding mem using run pos
    by (auto simp: Let_def glyph_color_def nat_diff_distrib)
qed

theorem putChar_draws_witness:
  "\<exists>t. putChar 65 demo_console = Ret ((), t) \<and>
     pixel (vbe demo_console) (fb t) 9 10 = (255, 255, 255) \<and> pixel (vbe demo_console) (fb t) 17 10 = (0, 0, 0)"
  using putChar_draws [of demo_console 65 9 10, OF demo_console_ok] putChar_draws [of demo_console 65 17 10, OF demo_console_ok]
  by (auto simp: demo_console_def NEW_LINE_CHAR_def CARRIAGE_RETURN_CHAR_def TABULATOR_CHAR_def Let_def cell_def line_def
      glyphSizeX_def glyphSizeY_def channels_def DEFAULT_TEXT_COLOR_def pixel_def)

section \<open>Changing the font size\<close>

text \<open>Growing the font one step scrolls when the taller line does not fit; shrinking needs no room.\<close>

lemma putPixel_height [simp]: "putPixel (v\<lparr>v_height := k\<rparr>) = putPixel v"
  by (simp add: putPixel_def fun_eq_iff)

lemma paint_height: "paint (v\<lparr>v_height := k\<rparr>) = paint v"
  by (simp add: paint_def fun_eq_iff)

lemma render_below:
  assumes v: "frame_ok ((vbe r)\<lparr>v_height := v_height (vbe r) + 80\<rparr>)" and "0 \<le> x" and "0 \<le> y"
    and "x + int (cell r) \<le> int (v_width (vbe r))" and "v_width (vbe r) < 2 ^ 16" and "0 < cell r" and "line r \<le> 80"
    and "y \<le> int (v_height (vbe r))" and "int (v_height (vbe r)) < y + int (line r)"
  shows "renderFromBitmap k x y r (v_height (vbe r) * v_pitch (vbe r) + nat x * (v_bpp (vbe r) div 8))
    \<in> {chan (text_color r) 0, chan (background_color r) 0}"
proof -
  let ?v = "(vbe r)\<lparr>v_height := v_height (vbe r) + 80\<rparr>" and ?h = "v_height (vbe r)"
  let ?ps = "map (\<lambda>p. (nat x + fst p, nat y + snd p)) (List.product [0..<cell r] [0..<line r])"
  have win: "\<forall>q\<in>set ?ps. in_window ?v q" using assms(2-8) by (auto simp: in_window_def)
  have inp: "(nat x, ?h) \<in> set ?ps" unfolding grid_mem using assms(2,3,6,8,9) by auto
  have "?h < 2 ^ 16" using v by (simp add: frame_ok_def)
  then have m: "renderFromBitmap k x y r = paint ?v (\<lambda>p. glyph_color r k (fst p - nat x) (snd p - nat y)) ?ps (fb r)"
    using render_paint_at [of x y r k] assms(2-8) by (simp add: paint_height)
  have "pixel ?v (renderFromBitmap k x y r) (nat x) ?h = channels (glyph_color r k 0 (?h - nat y))"
    using paint_pixel [OF v win, of "(nat x, ?h)"] inp win unfolding m by auto
  then show ?thesis
    by (auto simp: pixel_def Let_def channels_def glyph_color_def chan_def add.commute split: if_splits)
qed

text \<open>
  Setting the size does not scroll. When the taller glyph reaches below the window, the next
  character is still drawn at the current line: it overwrites memory past the frame buffer, the
  first byte of which then holds the blue channel of one of the two colours.
\<close>

theorem setFontSize_overrun:
  assumes "con_ok s" and "1 \<le> sint n" and "sint n \<le> 10" and "0 \<le> sint c"
    and "c \<notin> {NEW_LINE_CHAR, CARRIAGE_RETURN_CHAR, TABULATOR_CHAR}"
    and "xBufferPosition s + 8 * sint n \<le> int (v_width (vbe s))"
    and "yBufferPosition s + 8 * sint n > int (v_height (vbe s))"
    and "(v_height (vbe s) + 80) * v_pitch (vbe s) < 2 ^ 31" and "v_height (vbe s) + 80 < 2 ^ 16"
  shows "\<exists>t u. setFontSize n s = Ret (nat (sint n), t) \<and> putChar c t = Ret ((), u) \<and>
    fb u (v_height (vbe s) * v_pitch (vbe s) + nat (xBufferPosition s) * (v_bpp (vbe s) div 8))
      \<in> {chan (text_color s) 0, chan (background_color s) 0}"
proof -
  obtain t where set: "setFontSize n s = Ret (nat (sint n), t)" and t: "fontSize t = nat (sint n)"
      "vbe t = vbe s" "xBufferPosition t = xBufferPosition s" "yBufferPosition t = yBufferPosition s"
      "bitmap t = bitmap s" "text_color t = text_color s" "background_color t = background_color s"
    using assms(2,3) by (simp add: setFontSize_def adjust_line_def run_simps)
  let ?r = "t\<lparr>dirty_line := True\<rparr>" and ?k = "nat (sint c) * glyphSizeY"
  let ?m = "renderFromBitmap ?k (xBufferPosition s) (yBufferPosition s) ?r"
  have c8: "cell ?r = 8 * nat (sint n)" "line ?r = 8 * nat (sint n)" using t by (simp_all add: cell_def line_def glyphSizeX_def glyphSizeY_def)
  have below: "?m (v_height (vbe s) * v_pitch (vbe s) + nat (xBufferPosition s) * (v_bpp (vbe s) div 8))
      \<in> {chan (text_color s) 0, chan (background_color s) 0}"
    using render_below [of ?r "xBufferPosition s" "yBufferPosition s" ?k] assms t c8 by (simp add: con_ok_def frame_ok_def)
  have "sint c < 128" using sint_lt [of c] by simp
  then have "?k + glyphSizeY \<le> 128 * glyphSizeY" using assms(4) by (simp add: glyphSizeY_def nat_le_iff)
  also have "\<dots> \<le> length (bitmap s)" using assms(1) by (simp add: con_ok_def)
  finally have "renderAscii c (xBufferPosition s) (yBufferPosition s) ?r = Ret ((), ?r\<lparr>fb := ?m\<rparr>)"
    using assms(4) t \<open>sint c < 128\<close> by (simp add: renderAscii_def)
  then have "putChar c t = Ret ((), ?r\<lparr>fb := ?m, xBufferPosition := xBufferPosition s + int (cell ?r)\<rparr>)"
    using assms(2,5,6) t by (auto simp: putChar_def put_glyph_def run_simps getWindowWidth_def cell_def glyphSizeX_def)
  with below set show ?thesis by auto
qed

theorem setFontSize_overrun_witness:
  "\<exists>t u. setFontSize 2 demo_console = Ret (2, t) \<and> putChar 65 t = Ret ((), u) \<and> fb u 1560 \<in> {255, 0}"
  using setFontSize_overrun [of demo_console 2 65, OF demo_console_ok]
  by (simp add: demo_console_def NEW_LINE_CHAR_def CARRIAGE_RETURN_CHAR_def TABULATOR_CHAR_def chan_def DEFAULT_TEXT_COLOR_def
      DEFAULT_BACKGROUND_COLOR_def)

text \<open>After the font has grown in the middle of a line, stepping back can leave the position negative.\<close>

theorem retract_negative:
  assumes "con_ok s" and "fontSize s \<le> 9" and "xBufferPosition s = int (cell s)"
    and "yBufferPosition s + 8 * int (fontSize s + 1) \<le> int (v_height (vbe s))"
  shows "\<exists>t u. increaseFontSize s = Ret (fontSize s + 1, t) \<and> retractPosition t = Ret ((), u) \<and> xBufferPosition u = - 8"
  using assms
  by (auto simp: increaseFontSize_def adjust_line_def scrollBufferPositionIfNeeded_def retractPosition_def run_simps
      con_ok_def cell_def line_def glyphSizeX_def glyphSizeY_def getWindowHeight_def Let_def)

text \<open>A byte with the top bit set passes the range test and indexes before the font table.\<close>

theorem putChar_negative_faults:
  assumes "con_ok s" and "sint c < 0"
  shows "putChar c s = Stop Fault"
proof -
  have c: "c \<notin> {NEW_LINE_CHAR, CARRIAGE_RETURN_CHAR, TABULATOR_CHAR}"
    using assms(2) by (auto simp: NEW_LINE_CHAR_def CARRIAGE_RETURN_CHAR_def TABULATOR_CHAR_def)
  have r: "renderAscii c x y u = Stop Fault" for x y u using assms(2) by (simp add: renderAscii_def)
  from newLine_ok [of "s\<lparr>dirty_line := True\<rparr>"] assms(1) obtain t where "newLine (s\<lparr>dirty_line := True\<rparr>) = Ret ((), t)"
    by (auto elim!: wp_no_stopE)
  with c r show ?thesis by (simp add: putChar_def put_glyph_def run_simps)
qed

section \<open>Printing numbers\<close>

lemma reverse_in_place_length [simp]: "length (reverse_in_place p q buf) = length buf"
  by (induction p q buf rule: reverse_in_place.induct) auto

lemma reverse_in_place_nth:
  assumes "q < length buf" and "i < length buf"
  shows "reverse_in_place p q buf ! i = (if p \<le> i \<and> i \<le> q then buf ! (p + q - i) else buf ! i)"
  using assms
proof (induction p q buf arbitrary: i rule: reverse_in_place.induct)
  case (2 p q buf)
  let ?b = "buf[p := buf ! Suc q, Suc q := buf ! p]"
  show ?case
  proof (cases "p < Suc q")
    case True
    then have "reverse_in_place (Suc p) q ?b ! i = (if Suc p \<le> i \<and> i \<le> q then ?b ! (Suc p + q - i) else ?b ! i)"
      using 2 by simp
    then show ?thesis using True 2(2,3) by (auto simp: nth_list_update le_Suc_eq)
  next
    case False
    then show ?thesis by (auto simp: le_Suc_eq)
  qed
qed auto

lemma reverse_in_place_rev:
  assumes "ds \<noteq> []"
  shows "reverse_in_place 0 (length ds - 1) (ds @ zs) = rev ds @ zs"
proof (rule nth_equalityI)
  fix i assume "i < length (reverse_in_place 0 (length ds - 1) (ds @ zs))"
  moreover have "i \<le> length ds - 1 \<longleftrightarrow> i < length ds" using assms by (cases ds) auto
  ultimately show "reverse_in_place 0 (length ds - 1) (ds @ zs) ! i = (rev ds @ zs) ! i"
    by (cases "i < length ds") (auto simp: reverse_in_place_nth nth_append rev_nth)
qed simp

definition digit_value :: "char \<Rightarrow> nat" where
  "digit_value ch = (if of_char ch < (58 :: nat) then of_char ch - 48 else of_char ch - 55)"

lemma digit_value_digit: "d < 16 \<Longrightarrow> digit_value (base_digit d) = d"
  by (auto simp: digit_value_def base_digit_def)

fun digits_value :: "nat \<Rightarrow> char list \<Rightarrow> nat" where
  "digits_value b [] = 0"
| "digits_value b (d # ds) = digit_value d + b * digits_value b ds"

lemma base_digits_value:
  "2 \<le> b \<Longrightarrow> b \<le> 16 \<Longrightarrow> digits_value b (base_digits v b) = v"
proof (induction v b rule: base_digits.induct)
  case (1 v b)
  then have d: "digit_value (base_digit (v mod b)) = v mod b" by (intro digit_value_digit) (auto intro: less_le_trans [OF mod_less_divisor])
  show ?case
  proof (cases "v div b = 0")
    case True
    then show ?thesis using d by (subst base_digits.simps) (auto simp: div_eq_0_iff)
  next
    case False
    then have "digits_value b (base_digits (v div b) b) = v div b" using 1 by simp
    then show ?thesis using d False 1(2) by (subst base_digits.simps) simp
  qed
qed

lemma base_digits_length: "2 \<le> b \<Longrightarrow> length (base_digits v b) \<le> Suc k \<longleftrightarrow> v < b ^ Suc k"
proof (induction k arbitrary: v)
  case 0
  then show ?case by (subst base_digits.simps) (auto simp: div_eq_0_iff base_digits.simps [of "v div b"])
next
  case (Suc k)
  have "v < b ^ Suc (Suc k) \<longleftrightarrow> v div b < b ^ Suc k" using Suc.prems by (simp add: div_less_iff_less_mult mult.commute)
  moreover have "v div b < b ^ Suc k" if "v div b = 0" using that Suc.prems by simp
  ultimately show ?case using Suc by (subst base_digits.simps) auto
qed

lemma base_digits_nonempty [simp]: "base_digits v b \<noteq> []"
  by (subst base_digits.simps) simp

text \<open>
  \<open>uintToBase\<close> writes the digits of its argument, most significant first and terminated: read
  back in the base they give the number. It overflows its buffer exactly when the number has as
  many digits as the buffer has bytes, so \<open>printBin\<close> of a number of 64 bits writes one byte past
  the 64 of the static buffer.
\<close>

theorem uintToBase_digits:
  assumes "2 \<le> b" and "b \<le> 16" and "2 \<le> room"
  shows "case uintToBase room v b of
      None \<Rightarrow> b ^ (room - 1) \<le> v
    | Some (str, n) \<Rightarrow> v < b ^ (room - 1) \<and> str = take n str @ [CHR 0x00] \<and> digits_value b (rev (take n str)) = v"
proof -
  let ?ds = "base_digits v b"
  obtain k where k: "room = Suc (Suc k)" using assms(3) by (metis add_2_eq_Suc le_Suc_ex)
  have "length ?ds + 1 \<le> room \<longleftrightarrow> v < b ^ (room - 1)" using base_digits_length [OF assms(1), of v k] k by simp
  then show ?thesis
    using reverse_in_place_rev [of ?ds "[CHR 0x00]"] base_digits_value [OF assms(1,2), of v]
    by (auto simp: uintToBase_def Let_def)
qed

theorem uintToBase_digits_witness:
  "uintToBase 64 (2 ^ 63) 2 = None \<and> (\<exists>str n. uintToBase 64 255 16 = Some (str, n) \<and> digits_value 16 (rev (take n str)) = 255)"
proof
  have "\<exists>x. uintToBase 64 255 16 = Some x" using base_digits_length [of 16 255 62] by (auto simp: uintToBase_def Let_def)
  then show "\<exists>str n. uintToBase 64 255 16 = Some (str, n) \<and> digits_value 16 (rev (take n str)) = 255"
    using uintToBase_digits [of 16 64 255] by auto
  show "uintToBase 64 (2 ^ 63) 2 = None" using uintToBase_digits [of 2 64 "2 ^ 63"] by (cases "uintToBase 64 (2 ^ 63) 2") auto
qed

end
