(* ===== verification/Keyboard.thy ===== *)
theory Keyboard
  imports Process Fonts
begin

text \<open>
  The keyboard driver, src/TP2-SO-2025/Kernel/drivers/keyboard.c: scancodes become characters in
  a ring buffer that \<open>getKeyboardCharacter\<close> reads, waking its reader through a semaphore. The
  state of the machine joins the kernel, the console and the driver's own variables. Handlers of
  special keys are code outside the kernel: they are an argument.
\<close>

section \<open>State\<close>

record registered_key =
  registered_from_kernel :: bool
  key_fn :: addr

record 'm machine =
  ker :: "'m kst"
  con :: console
  buffer_sem :: addr
  keyboard_mutex :: addr
  SHIFT_KEY_PRESSED :: bool
  CAPS_LOCK_KEY_PRESSED :: bool
  CONTROL_KEY_PRESSED :: bool
  kb_buffer :: "nat \<Rightarrow> u8"
  to_write :: nat
  to_read :: nat
  keyboard_options :: u8
  KeyFnMap :: "registered_key list"
  shared_mvar_value :: u8
  ticks :: nat
  soft_irq0 :: bool
  pit_divisor :: nat
  speaker_on :: bool
  register_snapshot :: "int list"
  register_snapshot_taken :: bool

definition in_kernel :: "('m kst, 'a) kernel \<Rightarrow> ('m machine, 'a) kernel" where
  "in_kernel = zoom ker (\<lambda>k s. s\<lparr>ker := k\<rparr>)"

definition in_console :: "(console, 'a) kernel \<Rightarrow> ('m machine, 'a) kernel" where
  "in_console = zoom con (\<lambda>c s. s\<lparr>con := c\<rparr>)"

lemma run_in_kernel [run_simps]:
  "in_kernel c s = (case c (ker s) of Ret p \<Rightarrow> Ret (fst p, s\<lparr>ker := snd p\<rparr>) | Stop e \<Rightarrow> Stop e)"
  by (simp add: in_kernel_def run_zoom)

lemma run_in_console [run_simps]:
  "in_console c s = (case c (con s) of Ret p \<Rightarrow> Ret (fst p, s\<lparr>con := snd p\<rparr>) | Stop e \<Rightarrow> Stop e)"
  by (simp add: in_console_def run_zoom)

section \<open>Constants\<close>

definition BUFFER_SIZE :: nat where "BUFFER_SIZE = 1024"
definition EOF :: u8 where "EOF = - 1"
definition ESCAPE_KEY :: u8 where "ESCAPE_KEY = 0x01"
definition BACKSPACE_KEY :: u8 where "BACKSPACE_KEY = 0x0E"
definition TABULATOR_KEY :: u8 where "TABULATOR_KEY = 0x0F"
definition RETURN_KEY :: u8 where "RETURN_KEY = 0x1C"
definition CONTROL_KEY_L :: u8 where "CONTROL_KEY_L = 0x1D"
definition D_KEY :: u8 where "D_KEY = 0x20"
definition SHIFT_KEY_L :: u8 where "SHIFT_KEY_L = 0x2A"
definition C_KEY :: u8 where "C_KEY = 0x2E"
definition SHIFT_KEY_R :: u8 where "SHIFT_KEY_R = 0x36"
definition CAPS_LOCK_KEY :: u8 where "CAPS_LOCK_KEY = 0x3A"
definition F12_KEY :: u8 where "F12_KEY = 0x58"
definition SHOW_BUFFER_WHILE_TYPING :: u8 where "SHOW_BUFFER_WHILE_TYPING = 1"
definition AWAIT_RETURN_KEY :: u8 where "AWAIT_RETURN_KEY = 2"
definition MODIFY_BUFFER :: u8 where "MODIFY_BUFFER = 4"

text \<open>\<open>scancodeMap\<close>: the byte of each key, plain and with shift.\<close>

definition scancodeMap :: "(u8 \<times> u8) list" where
  "scancodeMap =
    [(0, 0), (1, 1), (49, 33), (50, 64), (51, 35), (52, 36), (53, 37), (54, 94),
     (55, 38), (56, 42), (57, 40), (48, 41), (45, 95), (61, 43), (14, 14), (15, 15),
     (113, 81), (119, 87), (101, 69), (114, 82), (116, 84), (121, 89), (117, 85), (105, 73),
     (111, 79), (112, 80), (91, 123), (93, 125), (28, 28), (29, 29), (97, 65), (115, 83),
     (100, 68), (102, 70), (103, 71), (104, 72), (106, 74), (107, 75), (108, 76), (59, 58),
     (39, 34), (96, 126), (42, 42), (92, 124), (122, 90), (120, 88), (99, 67), (118, 86),
     (98, 66), (110, 78), (109, 77), (44, 60), (46, 62), (47, 63), (54, 54), (42, 42),
     (56, 184), (32, 32), (58, 58), (59, 59), (60, 60), (61, 61), (62, 62), (63, 63),
     (64, 64), (65, 65), (66, 66), (67, 67), (68, 68), (69, 69), (70, 70), (71, 55),
     (72, 56), (73, 57), (45, 45), (75, 52), (76, 53), (77, 54), (43, 43), (79, 49),
     (80, 50), (81, 51), (82, 48), (83, 46), (0, 0), (0, 0), (45, 45), (87, 87),
     (88, 88)]"

definition IS_KEYCODE :: "u8 \<Rightarrow> bool" where
  "IS_KEYCODE c \<longleftrightarrow> c \<ge> ESCAPE_KEY \<and> c \<le> F12_KEY"

definition IS_PRINTABLE :: "bool \<Rightarrow> u8 \<Rightarrow> bool" where
  "IS_PRINTABLE shift c \<longleftrightarrow> IS_KEYCODE c \<and>
     ((c \<ge> 0x02 \<and> c \<le> 0x0D) \<or> (c \<ge> 0x0F \<and> c \<le> 0x1C) \<or> (c \<ge> 0x1E \<and> c \<le> 0x29) \<or> (c \<ge> 0x2B \<and> c \<le> 0x35) \<or>
      c = 0x37 \<or> c = 0x39 \<or> (shift \<and> c \<ge> 0x47 \<and> c \<le> 0x53) \<or> c = 0x4A \<or> c = 0x4E \<or> c = 0x56)"

definition TO_UPPER :: "u8 \<Rightarrow> u8" where
  "TO_UPPER c = (if 97 \<le> sint c \<and> sint c \<le> 122 then c - 97 + 65 else c)"

definition isReleased :: "u8 \<Rightarrow> bool" where
  "isReleased scancode \<longleftrightarrow> scancode AND 0x80 \<noteq> 0"

definition isPressed :: "u8 \<Rightarrow> bool" where
  "isPressed scancode \<longleftrightarrow> \<not> isReleased scancode"

definition makeCode :: "u8 \<Rightarrow> u8" where
  "makeCode scancode = scancode AND 0x7F"

text \<open>
  \<open>(to_write - to_read) % BUFFER_SIZE == BUFFER_SIZE - 1\<close> on \<open>int\<close>: the remainder of C has the sign
  of the dividend.
\<close>

definition c_rem :: "int \<Rightarrow> int \<Rightarrow> int" where
  "c_rem a b = (if a < 0 then - ((- a) mod b) else a mod b)"

definition BUFFER_IS_FULL :: "'m machine \<Rightarrow> bool" where
  "BUFFER_IS_FULL s \<longleftrightarrow> c_rem (int (to_write s) - int (to_read s)) (int BUFFER_SIZE) = int BUFFER_SIZE - 1"

definition INC_MOD :: "nat \<Rightarrow> nat" where
  "INC_MOD x = (x + 1) mod BUFFER_SIZE"

definition SUB_MOD :: "nat \<Rightarrow> nat \<Rightarrow> nat" where
  "SUB_MOD a b = (if a < b then BUFFER_SIZE - b + a else a - b)"

section \<open>Special keys\<close>

text \<open>The index loops run from \<open>ESCAPE_KEY\<close> to below \<open>F12_KEY\<close>.\<close>

definition restoreKeyFnMapNonKernel :: "addr list \<Rightarrow> ('m machine, unit) kernel" where
  "restoreKeyFnMapNonKernel saved = upd (\<lambda>s. s\<lparr>KeyFnMap :=
     fold (\<lambda>i m. if registered_from_kernel (m ! i) then m else m[i := (m ! i)\<lparr>key_fn := saved ! i\<rparr>]) [1..<0x58] (KeyFnMap s)\<rparr>)"

definition clearKeyFnMapNonKernel :: "addr list \<Rightarrow> ('m machine, addr list) kernel" where
  "clearKeyFnMapNonKernel saved = (\<lambda>s.
     let (m, saved') = fold (\<lambda>i (m, sv). if registered_from_kernel (m ! i) then (m, sv)
           else (m[i := (m ! i)\<lparr>key_fn := null\<rparr>], sv[i := key_fn (m ! i)])) [1..<0x58] (KeyFnMap s, saved)
     in Ret (saved', s\<lparr>KeyFnMap := m\<rparr>))"

text \<open>The table has \<open>F12_KEY - ESCAPE_KEY + 1\<close> entries and is indexed by the scancode itself: the
  last key is one past the end, a fault.\<close>

definition KEY_TABLE_SIZE :: nat where "KEY_TABLE_SIZE = 0x58"

definition key_entry :: "u8 \<Rightarrow> ('m machine, registered_key) kernel" where
  "key_entry scancode = (\<lambda>s.
     if unat scancode < KEY_TABLE_SIZE then Ret (KeyFnMap s ! unat scancode, s) else Stop Fault)"

definition registerSpecialKey :: "u8 \<Rightarrow> addr \<Rightarrow> bool \<Rightarrow> ('m machine, u8) kernel" where
  "registerSpecialKey scancode fn registeredFromKernel =
     (if IS_KEYCODE scancode
      then bnd (if registeredFromKernel then ret True
                else bnd (key_entry scancode) (\<lambda>e. ret (key_fn e = null))) (\<lambda>free.
        if free then
          sq (key_entry scancode)
          (sq (upd (\<lambda>s. s\<lparr>KeyFnMap := (KeyFnMap s)[unat scancode :=
                 \<lparr>registered_from_kernel = registeredFromKernel, key_fn = fn\<rparr>]\<rparr>))
          (ret 1))
        else ret 0)
      else ret 0)"

section \<open>The ring buffer\<close>

text \<open>\<open>addCharToBuffer\<close> of anything but a tabulator.\<close>

definition add_plain :: "'m mm \<Rightarrow> u8 \<Rightarrow> bool \<Rightarrow> ('m machine, unit) kernel" where
  "add_plain M ascii showOutput =
     sq (upd (\<lambda>s. s\<lparr>kb_buffer := (kb_buffer s)(to_write s := ascii)\<rparr>))
     (sq (upd (\<lambda>s. s\<lparr>to_write := INC_MOD (to_write s)\<rparr>))
     (sq (if showOutput then in_console (putChar ascii) else ret ())
     (bnd (gets keyboard_options) (\<lambda>ops.
      if ops AND MODIFY_BUFFER \<noteq> 0
      then bnd (gets buffer_sem) (\<lambda>sm. sq (in_kernel (semPost M sm)) (ret ()))
      else ret ()))))"

definition tab_fill_step :: "'m mm \<Rightarrow> bool \<Rightarrow> unit \<Rightarrow> ('m machine, unit + unit) kernel" where
  "tab_fill_step M showOutput _ =
     sq (add_plain M 32 showOutput)
     (bnd (gets BUFFER_IS_FULL) (\<lambda>full.
      bnd (in_console getXBufferPosition) (\<lambda>x.
      bnd (in_console getFontSize) (\<lambda>fs.
      ret (if \<not> full \<and> x mod (TAB_SIZE * glyphSizeX * fs) \<noteq> 0 then Inl () else Inr ())))))"

definition addCharToBuffer :: "'m mm \<Rightarrow> u8 \<Rightarrow> bool \<Rightarrow> ('m machine, unit) kernel" where
  "addCharToBuffer M ascii showOutput =
     (if ascii \<noteq> TABULATOR_CHAR then add_plain M ascii showOutput
      else loop (tab_fill_step M showOutput) ())"

definition clearBuffer :: "('m machine, nat) kernel" where
  "clearBuffer =
     bnd (gets (\<lambda>s. SUB_MOD (to_write s) (to_read s))) (\<lambda>aux.
     if aux = 0 then ret 0
     else sq (upd (\<lambda>s. s\<lparr>to_write := SUB_MOD (to_write s) 1\<rparr>))
          (sq (in_console clearPreviousCharacter) (ret aux)))"

section \<open>Reading\<close>

text \<open>
  A reader returns a character, or loses the processor: \<open>Waiting\<close> in the wait for input, \<open>Locked\<close>
  in the wait for the mutex. \<open>getKeyboardCharacter_resume\<close> is the rest of the routine.
\<close>

datatype kb_result = Character u8 | Waiting | Locked

definition kb_last :: "'m machine \<Rightarrow> u8" where
  "kb_last s = kb_buffer s (SUB_MOD (to_write s) 1)"

definition kb_wait_step :: "'m mm \<Rightarrow> unit \<Rightarrow> ('m machine, unit + bool) kernel" where
  "kb_wait_step M _ =
     bnd (gets (\<lambda>s. to_write s = to_read s \<or>
           (keyboard_options s AND AWAIT_RETURN_KEY \<noteq> 0 \<and> kb_last s \<noteq> NEW_LINE_CHAR \<and> kb_last s \<noteq> EOF))) (\<lambda>wait.
     if wait then
       bnd (gets buffer_sem) (\<lambda>sm. bnd (in_kernel (semWait M sm)) (\<lambda>w.
         ret (case w of Suspended \<Rightarrow> Inr False | Done _ \<Rightarrow> Inl ())))
     else ret (Inr True))"

definition kb_take :: "'m mm \<Rightarrow> ('m machine, kb_result) kernel" where
  "kb_take M =
     bnd (gets (\<lambda>s. kb_buffer s (to_read s))) (\<lambda>aux.
     sq (upd (\<lambda>s. s\<lparr>to_read := INC_MOD (to_read s)\<rparr>))
     (bnd (gets keyboard_mutex) (\<lambda>mx. sq (in_kernel (semPost M mx)) (ret (Character aux)))))"

definition kb_lock :: "'m mm \<Rightarrow> ('m machine, kb_result) kernel" where
  "kb_lock M =
     sq (upd (\<lambda>s. s\<lparr>keyboard_options := 0\<rparr>))
     (bnd (gets keyboard_mutex) (\<lambda>mx. bnd (in_kernel (semWait M mx)) (\<lambda>w.
      case w of Suspended \<Rightarrow> ret Locked | Done _ \<Rightarrow> kb_take M)))"

definition kb_loop :: "'m mm \<Rightarrow> ('m machine, kb_result) kernel" where
  "kb_loop M = bnd (loop (kb_wait_step M) ()) (\<lambda>ready. if ready then kb_lock M else ret Waiting)"

definition getKeyboardCharacter :: "'m mm \<Rightarrow> u8 \<Rightarrow> ('m machine, kb_result) kernel" where
  "getKeyboardCharacter M ops =
     sq (upd (\<lambda>s. s\<lparr>keyboard_options := ops OR MODIFY_BUFFER\<rparr>)) (kb_loop M)"

definition getKeyboardCharacter_resume :: "'m mm \<Rightarrow> kb_result \<Rightarrow> ('m machine, kb_result) kernel" where
  "getKeyboardCharacter_resume M r =
     sq (in_kernel (semWait_resume M)) (case r of Waiting \<Rightarrow> kb_loop M | Locked \<Rightarrow> kb_take M | Character c \<Rightarrow> ret r)"

section \<open>The interrupt handler\<close>

text \<open>The switch on the make code: modifiers only.\<close>

definition modifiers :: "u8 \<Rightarrow> ('m machine, unit) kernel" where
  "modifiers scancode = upd (\<lambda>s.
     if makeCode scancode = SHIFT_KEY_L \<or> makeCode scancode = SHIFT_KEY_R then s\<lparr>SHIFT_KEY_PRESSED := isPressed scancode\<rparr>
     else if makeCode scancode = CONTROL_KEY_L then s\<lparr>CONTROL_KEY_PRESSED := isPressed scancode\<rparr>
     else if makeCode scancode = CAPS_LOCK_KEY \<and> isPressed scancode
          then s\<lparr>CAPS_LOCK_KEY_PRESSED := \<not> CAPS_LOCK_KEY_PRESSED s\<rparr>
     else s)"

definition key_char :: "'m machine \<Rightarrow> u8 \<Rightarrow> u8" where
  "key_char s scancode =
     (let e = scancodeMap ! unat scancode; c = (if SHIFT_KEY_PRESSED s then snd e else fst e)
      in if CAPS_LOCK_KEY_PRESSED s then TO_UPPER c else c)"

text \<open>The block guarded by \<open>keyboard_options & MODIFY_BUFFER\<close>; the result tells whether the handler
  returns at once, the case of a second new line.\<close>

definition edit_buffer :: "'m mm \<Rightarrow> u8 \<Rightarrow> ('m machine, bool) kernel" where
  "edit_buffer M scancode =
     bnd (gets (\<lambda>s. key_char s scancode)) (\<lambda>c.
     bnd (gets (\<lambda>s. IS_PRINTABLE (SHIFT_KEY_PRESSED s) scancode)) (\<lambda>printable.
     bnd (gets (\<lambda>s. to_write s \<noteq> to_read s)) (\<lambda>nonempty.
     bnd (gets kb_last) (\<lambda>last.
     bnd (gets (\<lambda>s. keyboard_options s AND SHOW_BUFFER_WHILE_TYPING \<noteq> 0)) (\<lambda>echo.
     if printable then
       if c = RETURN_KEY then
         if nonempty \<and> last = NEW_LINE_CHAR then ret True
         else sq (addCharToBuffer M NEW_LINE_CHAR echo) (ret False)
       else sq (addCharToBuffer M (if c = TABULATOR_KEY then TABULATOR_CHAR else c) echo) (ret False)
     else if c = BACKSPACE_KEY \<and> nonempty then
       sq (upd (\<lambda>s. s\<lparr>to_write := SUB_MOD (to_write s) 1\<rparr>)) (sq (in_console clearPreviousCharacter) (ret False))
     else ret False)))))"

definition call_key_fn :: "(addr \<Rightarrow> u8 \<Rightarrow> ('m machine, unit) kernel) \<Rightarrow> u8 \<Rightarrow> ('m machine, unit) kernel" where
  "call_key_fn handlers scancode =
     bnd (key_entry scancode) (\<lambda>e. if key_fn e \<noteq> null then handlers (key_fn e) scancode else ret ())"

definition keyboardHandler ::
  "'m mm \<Rightarrow> (addr \<Rightarrow> u8 \<Rightarrow> ('m machine, unit) kernel) \<Rightarrow> u8 \<Rightarrow> ('m machine, u8) kernel" where
  "keyboardHandler M handlers scancode =
     bnd (gets BUFFER_IS_FULL) (\<lambda>full.
     if full then sq (upd (\<lambda>s. s\<lparr>to_write := 0, to_read := 0\<rparr>)) (ret scancode)
     else sq (modifiers scancode)
       (if \<not> (isPressed scancode \<and> IS_KEYCODE scancode) then ret scancode
        else bnd (gets CONTROL_KEY_PRESSED) (\<lambda>control.
          if control \<and> makeCode scancode = C_KEY then
            sq (in_kernel (kill_foreground_processes M)) (ret scancode)
          else if control \<and> makeCode scancode = D_KEY then
            bnd (gets (\<lambda>s. to_write s = to_read s)) (\<lambda>empty.
            sq (if empty then addCharToBuffer M EOF False else ret ()) (ret EOF))
          else bnd (gets (\<lambda>s. keyboard_options s AND MODIFY_BUFFER \<noteq> 0)) (\<lambda>modify.
            bnd (if modify then edit_buffer M scancode else ret False) (\<lambda>stop.
            if stop then ret scancode
            else sq (call_key_fn handlers scancode) (ret scancode))))))"

definition keyboard_sem_init :: "'m mm \<Rightarrow> ('m machine, unit) kernel" where
  "keyboard_sem_init M =
     bnd (in_kernel (semOpen M (Some ''keyboard_mutex'') 1)) (\<lambda>mx.
     sq (upd (\<lambda>s. s\<lparr>keyboard_mutex := mx\<rparr>))
     (bnd (in_kernel (semOpen M (Some ''buffer_sem'') 0)) (\<lambda>sm.
      sq (upd (\<lambda>s. s\<lparr>buffer_sem := sm\<rparr>))
      (if mx = null \<or> sm = null then halt (Panic ''Failed to initialize keyboard semaphores'') else ret ()))))"

section \<open>The ring as a queue of characters\<close>

definition kb_wf :: "'m machine \<Rightarrow> bool" where
  "kb_wf s \<longleftrightarrow> to_write s < BUFFER_SIZE \<and> to_read s < BUFFER_SIZE \<and> length (KeyFnMap s) = KEY_TABLE_SIZE"

definition kb_count :: "'m machine \<Rightarrow> nat" where
  "kb_count s = (to_write s + BUFFER_SIZE - to_read s) mod BUFFER_SIZE"

definition kb_chars :: "'m machine \<Rightarrow> u8 list" where
  "kb_chars s = map (\<lambda>i. kb_buffer s ((to_read s + i) mod BUFFER_SIZE)) [0..<kb_count s]"

lemma kb_count_cases:
  assumes "kb_wf s"
  shows "kb_count s = (if to_read s \<le> to_write s then to_write s - to_read s else to_write s + BUFFER_SIZE - to_read s)"
proof (cases "to_read s \<le> to_write s")
  case True
  then have "kb_count s = (BUFFER_SIZE + (to_write s - to_read s)) mod BUFFER_SIZE" by (simp add: kb_count_def add.commute)
  also have "\<dots> = to_write s - to_read s" unfolding mod_add_self1 using assms by (auto simp: kb_wf_def)
  finally show ?thesis using True by simp
qed (use assms in \<open>auto simp: kb_count_def kb_wf_def\<close>)

lemma kb_count_less: "kb_count s < BUFFER_SIZE"
  by (simp add: kb_count_def BUFFER_SIZE_def)

lemma kb_write_index:
  assumes "kb_wf s"
  shows "(to_read s + kb_count s) mod BUFFER_SIZE = to_write s"
  using assms by (auto simp: kb_count_cases kb_wf_def)

text \<open>Where the ring is not full, storing a byte and advancing the index appends it.\<close>

lemma kb_append:
  assumes "kb_wf s" and "kb_count s < BUFFER_SIZE - 1"
  shows "kb_chars (s\<lparr>kb_buffer := (kb_buffer s)(to_write s := c), to_write := INC_MOD (to_write s)\<rparr>) = kb_chars s @ [c]"
    and "kb_wf (s\<lparr>kb_buffer := (kb_buffer s)(to_write s := c), to_write := INC_MOD (to_write s)\<rparr>)"
proof -
  let ?t = "s\<lparr>kb_buffer := (kb_buffer s)(to_write s := c), to_write := INC_MOD (to_write s)\<rparr>"
  show wf: "kb_wf ?t" using assms(1) by (simp add: kb_wf_def INC_MOD_def BUFFER_SIZE_def)
  have n: "kb_count ?t = Suc (kb_count s)"
  proof -
    have "(to_write s + 1) mod BUFFER_SIZE = (if to_write s + 1 = BUFFER_SIZE then 0 else to_write s + 1)"
      using assms(1) by (auto simp: kb_wf_def)
    then show ?thesis using assms kb_count_cases [OF assms(1)] kb_count_cases [OF wf]
      by (auto simp: INC_MOD_def kb_wf_def split: if_splits)
  qed
  have old: "(to_read s + i) mod BUFFER_SIZE \<noteq> to_write s" if "i < kb_count s" for i
  proof
    assume "(to_read s + i) mod BUFFER_SIZE = to_write s"
    then have "(to_read s + i) mod BUFFER_SIZE = (to_read s + kb_count s) mod BUFFER_SIZE" using kb_write_index [OF assms(1)] by simp
    moreover have "to_read s < BUFFER_SIZE" using assms(1) by (simp add: kb_wf_def)
    ultimately show False using that kb_count_less [of s] by (simp add: mod_if split: if_splits)
  qed
  show "kb_chars ?t = kb_chars s @ [c]"
    unfolding kb_chars_def n using old kb_write_index [OF assms(1)] by simp
qed

lemma kb_pop:
  assumes "kb_wf s" and "kb_count s > 0"
  shows "kb_chars s = kb_buffer s (to_read s) # kb_chars (s\<lparr>to_read := INC_MOD (to_read s)\<rparr>)"
proof -
  let ?t = "s\<lparr>to_read := INC_MOD (to_read s)\<rparr>"
  have wf: "kb_wf ?t" using assms(1) by (simp add: kb_wf_def INC_MOD_def BUFFER_SIZE_def)
  have "(to_read s + 1) mod BUFFER_SIZE = (if to_read s + 1 = BUFFER_SIZE then 0 else to_read s + 1)"
    using assms(1) by (auto simp: kb_wf_def)
  then have n: "kb_count s = Suc (kb_count ?t)"
    using assms kb_count_cases [OF assms(1)] kb_count_cases [OF wf] by (auto simp: INC_MOD_def kb_wf_def split: if_splits)
  have i: "(INC_MOD (to_read s) + i) mod BUFFER_SIZE = (to_read s + Suc i) mod BUFFER_SIZE" for i
    by (simp add: INC_MOD_def mod_simps)
  have "to_read s mod BUFFER_SIZE = to_read s" using assms(1) by (simp add: kb_wf_def)
  then show ?thesis unfolding kb_chars_def n by (simp add: i upt_conv_Cons map_Suc_upt [symmetric] del: upt_Suc)
qed

text \<open>Every printable key gives a 7-bit character; only the shifted left meta key does not.\<close>

lemma sint_eq_uint: "uint (c :: u8) < 128 \<Longrightarrow> sint c = uint c"
proof -
  assume "uint c < 128"
  moreover have "- (2 ^ 7) \<le> uint c" by (rule order_trans [OF _ uint_ge_0]) simp
  ultimately have "signed_take_bit 7 (uint c) = uint c" by (intro signed_take_bit_int_eq_self) simp_all
  then show ?thesis by (simp add: sint_uint)
qed

lemma sint_small: "c < 128 \<Longrightarrow> 0 \<le> sint (c :: u8)"
  using sint_eq_uint [of c] by (simp add: word_less_def)

lemma scancodeMap_ascii:
  "list_all (\<lambda>i. i = 0x38 \<or> (fst (scancodeMap ! i) < 128 \<and> snd (scancodeMap ! i) < 128 \<and>
     TO_UPPER (fst (scancodeMap ! i)) < 128 \<and> TO_UPPER (snd (scancodeMap ! i)) < 128)) [0..<0x59]"
  by code_simp

lemma key_char_ascii:
  assumes "IS_PRINTABLE sh scancode"
  shows "0 \<le> sint (key_char s scancode)"
proof -
  have "scancode \<le> 0x58" "scancode \<noteq> 0x38" using assms by (auto simp: IS_PRINTABLE_def IS_KEYCODE_def F12_KEY_def)
  then have "unat scancode < 0x59" "unat scancode \<noteq> 0x38" by (auto simp: word_le_nat_alt unat_arith_simps)
  then have "key_char s scancode < 128" using scancodeMap_ascii by (auto simp: list_all_iff key_char_def Let_def)
  then show ?thesis by (rule sint_small)
qed

section \<open>Typing and reading\<close>

lemma kb_full_iff:
  assumes "kb_wf s"
  shows "BUFFER_IS_FULL s \<longleftrightarrow> to_write s = BUFFER_SIZE - 1 \<and> to_read s = 0"
  using assms by (auto simp: BUFFER_IS_FULL_def c_rem_def kb_wf_def BUFFER_SIZE_def)

lemma putChar_run:
  assumes "con_ok c" and "0 \<le> sint a"
  obtains d where "putChar a c = Ret ((), d)" and "con_ok d"
proof -
  have "wp no_stop (putChar a) (\<lambda>_ t. con_step (c\<lparr>dirty_line := True\<rparr>) t) c" by (rule putChar_step [OF assms])
  with that show thesis by (auto elim!: wp_no_stopE simp: con_step_def)
qed

lemma makeCode_pressed: "isPressed scancode \<Longrightarrow> makeCode scancode = scancode"
proof -
  assume "isPressed scancode"
  then have "scancode AND 0x80 = 0" by (simp add: isPressed_def isReleased_def)
  moreover have "scancode AND (0x7F OR 0x80) = (scancode AND 0x7F) OR (scancode AND 0x80)" by (rule bit.conj_disj_distrib)
  moreover have "(0x7F OR 0x80 :: u8) = - 1" by code_simp
  ultimately have "scancode AND - 1 = scancode AND 0x7F" by (simp only: or.right_neutral)
  then show ?thesis by (simp add: makeCode_def)
qed

text \<open>One stored character, with the echo and the post of the semaphore.\<close>

lemma add_plain_exec:
  assumes "con_ok (con s)" and "0 \<le> sint c \<or> \<not> echo" and "semPost M (buffer_sem s) (ker s) = Ret (r, k)"
  obtains d where "con_ok d" and "add_plain M c echo s = Ret ((), s\<lparr>kb_buffer := (kb_buffer s)(to_write s := c),
    to_write := INC_MOD (to_write s), con := d, ker := (if keyboard_options s AND MODIFY_BUFFER \<noteq> 0 then k else ker s)\<rparr>)"
proof -
  let ?s = "s\<lparr>kb_buffer := (kb_buffer s)(to_write s := c), to_write := INC_MOD (to_write s)\<rparr>"
  obtain d where d: "(if echo then in_console (putChar c) else ret ()) ?s = Ret ((), ?s\<lparr>con := d\<rparr>)" "con_ok d"
  proof (cases echo)
    case True
    then have "0 \<le> sint c" using assms(2) by simp
    with putChar_run [OF assms(1)] obtain d where "putChar c (con s) = Ret ((), d)" "con_ok d" by metis
    with that [of d] True show thesis by (simp add: run_simps)
  next
    case False
    with that [of "con s"] assms(1) show thesis by (simp add: run_simps)
  qed
  show thesis by (rule that [OF d(2)]) (use d(1) assms(3) in \<open>auto simp: add_plain_def run_simps\<close>)
qed

lemma add_plain_run:
  assumes "kb_wf s" and "kb_count s < BUFFER_SIZE - 1" and "con_ok (con s)" and "0 \<le> sint c \<or> \<not> echo"
    and "semPost M (buffer_sem s) (ker s) = Ret (r, k)"
  shows "\<exists>t. add_plain M c echo s = Ret ((), t) \<and> kb_wf t \<and> kb_chars t = kb_chars s @ [c] \<and> con_ok (con t) \<and>
    KeyFnMap t = KeyFnMap s \<and> ker t = (if keyboard_options s AND MODIFY_BUFFER \<noteq> 0 then k else ker s)"
proof -
  let ?s = "s\<lparr>kb_buffer := (kb_buffer s)(to_write s := c), to_write := INC_MOD (to_write s)\<rparr>"
  from add_plain_exec [OF assms(3,4,5)] obtain d where d: "con_ok d" "add_plain M c echo s =
      Ret ((), ?s\<lparr>con := d, ker := (if keyboard_options s AND MODIFY_BUFFER \<noteq> 0 then k else ker s)\<rparr>)" by auto
  moreover have "kb_chars (?s\<lparr>con := d, ker := x\<rparr>) = kb_chars ?s" "kb_wf (?s\<lparr>con := d, ker := x\<rparr>) = kb_wf ?s" for x
    by (simp_all add: kb_chars_def kb_count_def kb_wf_def)
  ultimately show ?thesis using kb_append [OF assms(1,2), of c] by simp
qed

end
