(* ===== verification/Syscalls.thy ===== *)
theory Syscalls
  imports Keyboard
begin

text \<open>
  The system call layer: src/TP2-SO-2025/Kernel/idt/syscallDispatcher.c with the file descriptor
  layer fd.c, the shared byte of shared_mvar.c, the printing routines of fonts.c that go through
  the keyboard buffer, the timer of drivers/time.c, the speaker of drivers/sound.c and the
  interrupt table of idt/irqDispatcher.c.
\<close>

section \<open>Printing to a descriptor\<close>

text \<open>The loops over the characters; a count beyond the buffer reads outside it, a fault.\<close>

definition each_char :: "u8 list \<Rightarrow> int \<Rightarrow> (u8 \<Rightarrow> ('m machine, unit) kernel) \<Rightarrow> ('m machine, int) kernel" where
  "each_char str count f =
     (if nat count \<le> length str then sq (for_each (take (nat count) str) f) (ret (int (nat count))) else halt Fault)"

definition printToFd :: "'m mm \<Rightarrow> int \<Rightarrow> u8 list \<Rightarrow> int \<Rightarrow> ('m machine, int) kernel" where
  "printToFd M fd str count =
     bnd (in_console (gets file_descriptor)) (\<lambda>cur.
     if fd \<noteq> cur \<and> fd = 0 then each_char str count (\<lambda>c. addCharToBuffer M c True)
     else sq (if fd \<noteq> cur \<and> fd = 1 then
                in_console (upd (\<lambda>c. c\<lparr>text_color := DEFAULT_TEXT_COLOR, background_color := DEFAULT_BACKGROUND_COLOR, file_descriptor := fd\<rparr>))
              else if fd \<noteq> cur \<and> fd = 2 then
                in_console (upd (\<lambda>c. c\<lparr>text_color := DEFAULT_ERROR_COLOR, background_color := DEFAULT_BACKGROUND_COLOR, file_descriptor := fd\<rparr>))
              else ret ())
          (each_char str count (\<lambda>c. in_console (putChar c))))"

definition char_bytes :: "string \<Rightarrow> u8 list" where
  "char_bytes str = map of_char str"

definition print :: "'m mm \<Rightarrow> string \<Rightarrow> ('m machine, unit) kernel" where
  "print M str = sq (printToFd M 1 (char_bytes str) (int (length str))) (ret ())"

text \<open>\<open>printBase\<close> goes through the static buffer of 64 bytes.\<close>

definition printBase :: "'m mm \<Rightarrow> nat \<Rightarrow> nat \<Rightarrow> ('m machine, unit) kernel" where
  "printBase M value b =
     (case uintToBase 64 value b of None \<Rightarrow> halt Fault | Some (str, n) \<Rightarrow> print M (take n str))"

definition printDec :: "'m mm \<Rightarrow> nat \<Rightarrow> ('m machine, unit) kernel" where "printDec M value = printBase M value 10"
definition printHex :: "'m mm \<Rightarrow> nat \<Rightarrow> ('m machine, unit) kernel" where "printHex M value = printBase M value 16"
definition printBin :: "'m mm \<Rightarrow> nat \<Rightarrow> ('m machine, unit) kernel" where "printBin M value = printBase M value 2"

section \<open>File descriptors\<close>

definition READ_FD :: int where "READ_FD = 0"
definition WRITE_FD :: int where "WRITE_FD = 1"
definition ERR_FD :: int where "ERR_FD = 2"

definition setReadTarget :: "u8 list option \<Rightarrow> u8 \<Rightarrow> int \<times> u8 list option" where
  "setReadTarget targetByFd target =
     (case targetByFd of None \<Rightarrow> (- 1, None) | Some ts \<Rightarrow> (0, Some (ts[nat READ_FD := target])))"

definition setWriteTarget :: "u8 list option \<Rightarrow> u8 \<Rightarrow> int \<times> u8 list option" where
  "setWriteTarget targetByFd target =
     (case targetByFd of None \<Rightarrow> (- 1, None) | Some ts \<Rightarrow> (0, Some (ts[nat WRITE_FD := target])))"

text \<open>
  The result of a read: finished with the count and the bytes stored, suspended in the keyboard
  driver with the bytes stored so far, or suspended on a pipe.
\<close>

datatype fd_result = Finished int "u8 list" | Interrupted kb_result "u8 list" | On_pipe

fun read_keys :: "'m mm \<Rightarrow> nat \<Rightarrow> u8 list \<Rightarrow> ('m machine, fd_result) kernel" where
  "read_keys M 0 acc = ret (Finished (int (length acc)) acc)"
| "read_keys M (Suc n) acc =
     bnd (getKeyboardCharacter M (AWAIT_RETURN_KEY OR SHOW_BUFFER_WHILE_TYPING)) (\<lambda>r.
     case r of
       Character c \<Rightarrow> if c \<noteq> EOF then read_keys M n (acc @ [c]) else ret (Finished (int (length acc)) acc)
     | _ \<Rightarrow> ret (Interrupted r acc))"

definition fd_read_resume :: "'m mm \<Rightarrow> int \<Rightarrow> kb_result \<Rightarrow> u8 list \<Rightarrow> ('m machine, fd_result) kernel" where
  "fd_read_resume M count r acc =
     bnd (getKeyboardCharacter_resume M r) (\<lambda>r'.
     case r' of
       Character c \<Rightarrow> if c \<noteq> EOF then read_keys M (nat count - length acc - 1) (acc @ [c]) else ret (Finished (int (length acc)) acc)
     | _ \<Rightarrow> ret (Interrupted r' acc))"

definition fd_read :: "'m mm \<Rightarrow> int \<Rightarrow> addr \<Rightarrow> int \<Rightarrow> ('m machine, fd_result) kernel" where
  "fd_read M fd userBuff count =
     bnd (in_kernel get_current_process) (\<lambda>proc.
     if proc = null then ret (Finished (- 1) [])
     else if userBuff = null \<or> count < 0 then ret (Finished (- 1) [])
     else if fd < 0 \<or> fd > ERR_FD then ret (Finished (- 1) [])
     else bnd (in_kernel (get_proc proc)) (\<lambda>pc.
       let target = p_targetByFd pc ! nat fd in
       if fd = READ_FD \<and> target = STDIN then read_keys M (nat count) []
       else bnd (in_kernel (readPipe M target userBuff (nat count))) (\<lambda>r.
         ret (case r of Done (n, xs) \<Rightarrow> Finished n xs | Suspended \<Rightarrow> On_pipe))))"

text \<open>The bytes still to be written are returned with a suspended write.\<close>

definition fd_write :: "'m mm \<Rightarrow> int \<Rightarrow> u8 list option \<Rightarrow> int \<Rightarrow> ('m machine, int cont \<times> u8 list) kernel" where
  "fd_write M fd userBuff count =
     bnd (in_kernel get_current_process) (\<lambda>proc.
     if proc = null then ret (Done (- 1), [])
     else (case userBuff of None \<Rightarrow> ret (Done (- 1), [])
       | Some bs \<Rightarrow>
           if count < 0 then ret (Done (- 1), [])
           else if fd < 0 \<or> fd > ERR_FD then ret (Done (- 1), [])
           else bnd (in_kernel (get_proc proc)) (\<lambda>pc.
             let target = p_targetByFd pc ! nat fd in
             if (fd = WRITE_FD \<and> target = STDOUT) \<or> (fd = ERR_FD \<and> target = STDERR)
             then bnd (printToFd M (uint target) bs count) (\<lambda>n. ret (Done n, []))
             else in_kernel (writePipe M target (Some bs) (nat count)))))"

section \<open>Timer, speaker and shared byte\<close>

definition SECONDS_TO_TICKS :: nat where "SECONDS_TO_TICKS = 18"

definition timer_handler :: "('m machine, unit) kernel" where
  "timer_handler = upd (\<lambda>s. if soft_irq0 s then s\<lparr>soft_irq0 := False\<rparr> else s\<lparr>ticks := (ticks s + 1) mod 2 ^ 64\<rparr>)"

definition ticks_elapsed :: "('m machine, int) kernel" where
  "ticks_elapsed = gets (\<lambda>s. sint (of_nat (ticks s) :: u32))"

definition seconds_elapsed :: "('m machine, int) kernel" where
  "seconds_elapsed = gets (\<lambda>s. sint (of_nat (ticks s div SECONDS_TO_TICKS) :: u32))"

text \<open>The condition of the waiting loop of \<open>sleepTicks\<close>; only interrupts change it.\<close>

definition sleepTicks :: "nat \<Rightarrow> nat \<Rightarrow> nat \<Rightarrow> bool" where
  "sleepTicks start sleep_t now \<longleftrightarrow> now < (start + sleep_t) mod 2 ^ 64"

text \<open>A frequency of 0 divides by zero, a processor exception.\<close>

definition play_sound :: "nat \<Rightarrow> ('m machine, unit) kernel" where
  "play_sound nFrequence =
     (if nFrequence = 0 then halt Fault
      else upd (\<lambda>s. s\<lparr>pit_divisor := 1193180 div nFrequence, speaker_on := True\<rparr>))"

definition set_mvar_value :: "u8 \<Rightarrow> ('m machine, unit) kernel" where
  "set_mvar_value value = upd (\<lambda>s. s\<lparr>shared_mvar_value := value\<rparr>)"

definition get_mvar_value :: "('m machine, u8) kernel" where
  "get_mvar_value = gets shared_mvar_value"

definition irqDispatcher ::
  "'m mm \<Rightarrow> (addr \<Rightarrow> u8 \<Rightarrow> ('m machine, unit) kernel) \<Rightarrow> u8 \<Rightarrow> nat \<Rightarrow> ('m machine, u8) kernel" where
  "irqDispatcher M handlers scancode irq =
     (if irq = 0 then sq timer_handler (ret 0)
      else if irq = 1 then keyboardHandler M handlers scancode
      else ret 0)"

section \<open>System calls\<close>

text \<open>
  What the calls reach outside the kernel: user memory behind pointer arguments, the user function
  of \<open>sys_exec\<close>, the clock of the machine and the statistics of the linked memory manager.
\<close>

record 'm env =
  e_mm :: "'m mm"
  e_stats :: "('m, mem_stats) kernel"
  e_string :: "addr \<Rightarrow> string option"
  e_argv :: "addr \<Rightarrow> string list option"
  e_ints :: "addr \<Rightarrow> int list"
  e_bytes :: "addr \<Rightarrow> u8 list option"
  e_infos :: "addr \<Rightarrow> process_info list option"
  e_call :: "addr \<Rightarrow> ('m machine, int) kernel"
  e_hour :: u8
  e_minute :: u8
  e_second :: u8

text \<open>The value a call leaves in the result register, what it stored through its pointers, or that
  the caller lost the processor.\<close>

datatype stored = Nothing | Bytes "u8 list" | Ints "int list" | Infos "process_info list"

datatype sys_result = Value int stored | Blocked | Asleep nat nat

definition s32_of :: "int \<Rightarrow> int" where
  "s32_of i = sint (word_of_int i :: u32)"

definition value32 :: "int \<Rightarrow> ('m machine, sys_result) kernel" where
  "value32 i = ret (Value (s32_of i) Nothing)"

definition cont32 :: "int cont \<Rightarrow> sys_result" where
  "cont32 r = (case r of Done i \<Rightarrow> Value (s32_of i) Nothing | Suspended \<Rightarrow> Blocked)"

definition sys_write :: "'m env \<Rightarrow> int \<Rightarrow> addr \<Rightarrow> int \<Rightarrow> ('m machine, sys_result) kernel" where
  "sys_write E fd user_buf count =
     bnd (fd_write (e_mm E) fd (e_bytes E user_buf) count) (\<lambda>r. ret (cont32 (fst r)))"

definition sys_read :: "'m env \<Rightarrow> int \<Rightarrow> addr \<Rightarrow> int \<Rightarrow> ('m machine, sys_result) kernel" where
  "sys_read E fd user_buf count =
     bnd (fd_read (e_mm E) fd user_buf count) (\<lambda>r.
     ret (case r of Finished n xs \<Rightarrow> Value (s32_of n) (Bytes xs) | _ \<Rightarrow> Blocked))"

definition sys_start_beep :: "nat \<Rightarrow> ('m machine, sys_result) kernel" where
  "sys_start_beep nFrequence = sq (play_sound nFrequence) (value32 0)"

definition sys_stop_beep :: "('m machine, sys_result) kernel" where
  "sys_stop_beep = sq (upd (\<lambda>s. s\<lparr>speaker_on := False\<rparr>)) (value32 0)"

definition sys_fonts_text_color :: "u32 \<Rightarrow> ('m machine, sys_result) kernel" where
  "sys_fonts_text_color color = sq (in_console (setTextColor color)) (value32 0)"

definition sys_fonts_background_color :: "u32 \<Rightarrow> ('m machine, sys_result) kernel" where
  "sys_fonts_background_color color = sq (in_console (setBackgroundColor color)) (value32 0)"

definition sys_fonts_decrease_size :: "('m machine, sys_result) kernel" where
  "sys_fonts_decrease_size = bnd (in_console decreaseFontSize) (\<lambda>n. value32 (int n))"

definition sys_fonts_increase_size :: "('m machine, sys_result) kernel" where
  "sys_fonts_increase_size = bnd (in_console increaseFontSize) (\<lambda>n. value32 (int n))"

definition sys_fonts_set_size :: "u8 \<Rightarrow> ('m machine, sys_result) kernel" where
  "sys_fonts_set_size sz = bnd (in_console (setFontSize sz)) (\<lambda>n. value32 (int n))"

definition sys_clear_screen :: "('m machine, sys_result) kernel" where
  "sys_clear_screen = sq (in_console clear) (value32 0)"

definition clear_step :: "unit \<Rightarrow> ('m machine, unit + unit) kernel" where
  "clear_step _ = bnd clearBuffer (\<lambda>n. ret (if n \<noteq> 0 then Inl () else Inr ()))"

definition sys_clear_input_buffer :: "('m machine, sys_result) kernel" where
  "sys_clear_input_buffer = sq (loop clear_step ()) (value32 0)"

definition sys_window_width :: "('m machine, sys_result) kernel" where
  "sys_window_width = bnd (gets (\<lambda>s. getWindowWidth (vbe (con s)))) (\<lambda>n. value32 (int n))"

definition sys_window_height :: "('m machine, sys_result) kernel" where
  "sys_window_height = bnd (gets (\<lambda>s. getWindowHeight (vbe (con s)))) (\<lambda>n. value32 (int n))"

definition sys_hour :: "'m env \<Rightarrow> ('m machine, sys_result) kernel" where
  "sys_hour E = ret (Value 0 (Ints [uint (e_hour E)]))"

definition sys_minute :: "'m env \<Rightarrow> ('m machine, sys_result) kernel" where
  "sys_minute E = ret (Value 0 (Ints [uint (e_minute E)]))"

definition sys_second :: "'m env \<Rightarrow> ('m machine, sys_result) kernel" where
  "sys_second E = ret (Value 0 (Ints [uint (e_second E)]))"

definition draw :: "(vbe_mode_info \<Rightarrow> framebuffer \<Rightarrow> framebuffer) \<Rightarrow> ('m machine, unit) kernel" where
  "draw f = in_console (upd (\<lambda>c. c\<lparr>fb := f (vbe c) (fb c)\<rparr>))"

definition sys_circle :: "u32 \<Rightarrow> nat \<Rightarrow> nat \<Rightarrow> nat \<Rightarrow> ('m machine, sys_result) kernel" where
  "sys_circle hexColor topLeftX topLeftY diameter =
     sq (draw (\<lambda>v. drawCircle v hexColor topLeftX topLeftY diameter)) (value32 0)"

definition sys_rectangle :: "u32 \<Rightarrow> nat \<Rightarrow> nat \<Rightarrow> nat \<Rightarrow> nat \<Rightarrow> ('m machine, sys_result) kernel" where
  "sys_rectangle color width_pixels height_pixels initial_pos_x initial_pos_y =
     sq (draw (\<lambda>v. drawRectangle v color width_pixels height_pixels initial_pos_x initial_pos_y)) (value32 0)"

definition sys_fill_video_memory :: "u32 \<Rightarrow> ('m machine, sys_result) kernel" where
  "sys_fill_video_memory hexColor = sq (draw (\<lambda>v. fillVideoMemory v hexColor)) (value32 0)"

definition sys_exec :: "'m env \<Rightarrow> addr \<Rightarrow> ('m machine, sys_result) kernel" where
  "sys_exec E fnPtr =
     sq (in_console clear)
     (bnd (in_console getFontSize) (\<lambda>fs.
      bnd (in_console getTextColor) (\<lambda>tc.
      bnd (in_console getBackgroundColor) (\<lambda>bc.
      bnd (clearKeyFnMapNonKernel (replicate KEY_TABLE_SIZE null)) (\<lambda>saved.
      bnd (e_call E fnPtr) (\<lambda>aux.
      sq (restoreKeyFnMapNonKernel saved)
      (sq (in_console (setFontSize (of_nat fs)))
      (sq (in_console (setTextColor tc))
      (sq (in_console (setBackgroundColor bc))
      (sq (in_console clear) (value32 aux)))))))))))"

definition sys_register_key :: "u8 \<Rightarrow> addr \<Rightarrow> ('m machine, sys_result) kernel" where
  "sys_register_key scancode fn = sq (registerSpecialKey scancode fn False) (value32 0)"

text \<open>The product is taken in 32 bits.\<close>

definition sleep_ticks_of :: "nat \<Rightarrow> nat" where
  "sleep_ticks_of milis = (milis * SECONDS_TO_TICKS) mod 2 ^ 32 div 1000"

definition sys_sleep_milis :: "nat \<Rightarrow> ('m machine, sys_result) kernel" where
  "sys_sleep_milis milis =
     bnd (gets ticks) (\<lambda>start.
     if sleepTicks start (sleep_ticks_of milis) start then ret (Asleep start (sleep_ticks_of milis)) else value32 0)"

definition sys_get_register_snapshot :: "('m machine, sys_result) kernel" where
  "sys_get_register_snapshot =
     bnd (gets register_snapshot_taken) (\<lambda>taken.
     if \<not> taken then value32 0 else bnd (gets register_snapshot) (\<lambda>regs. ret (Value 1 (Ints (take 18 regs)))))"

definition sys_get_character_without_display :: "'m env \<Rightarrow> ('m machine, sys_result) kernel" where
  "sys_get_character_without_display E =
     bnd (getKeyboardCharacter (e_mm E) 0) (\<lambda>r.
     ret (case r of Character c \<Rightarrow> Value (sint c) Nothing | _ \<Rightarrow> Blocked))"

definition sys_malloc :: "'m env \<Rightarrow> nat \<Rightarrow> ('m machine, addr) kernel" where
  "sys_malloc E n = in_kernel (mm_alloc (e_mm E) n)"

definition sys_free :: "'m env \<Rightarrow> addr \<Rightarrow> ('m machine, unit) kernel" where
  "sys_free E ap = in_kernel (mm_free (e_mm E) ap)"

definition sys_get_memory_stats :: "'m env \<Rightarrow> ('m machine, sys_result) kernel" where
  "sys_get_memory_stats E =
     bnd (in_kernel (on_mem (e_stats E))) (\<lambda>st.
     ret (Value 0 (Ints [s32_of (int (total_memory st)), s32_of (int (free_memory st)), s32_of (int (occupied_memory st))])))"

definition sys_create_process ::
  "'m env \<Rightarrow> int \<Rightarrow> addr \<Rightarrow> addr \<Rightarrow> int \<Rightarrow> addr \<Rightarrow> int \<Rightarrow> ('m machine, sys_result) kernel" where
  "sys_create_process E argc argv entryPoint priority targets hasForeground =
     bnd (in_kernel (create_process (e_mm E) argc (e_argv E argv) entryPoint priority (e_ints E targets) (hasForeground \<noteq> 0))) (\<lambda>p.
     if p = null then value32 (- 1) else bnd (in_kernel (get_pid p)) value32)"

definition sys_get_pid :: "('m machine, sys_result) kernel" where
  "sys_get_pid = bnd (in_kernel get_running_pid) value32"

definition sys_kill :: "'m env \<Rightarrow> int \<Rightarrow> ('m machine, sys_result) kernel" where
  "sys_kill E pid = bnd (in_kernel (kill_process (e_mm E) pid)) (\<lambda>r. ret (cont32 r))"

definition sys_modify_priority :: "int \<Rightarrow> int \<Rightarrow> ('m machine, unit) kernel" where
  "sys_modify_priority pid new_priority = sq (in_kernel (set_priority pid new_priority)) (ret ())"

definition sys_ps :: "'m env \<Rightarrow> addr \<Rightarrow> ('m machine, sys_result) kernel" where
  "sys_ps E info = bnd (in_kernel (ps (e_infos E info))) (\<lambda>r. ret (Value (s32_of (fst r)) (Infos (snd r))))"

definition sys_block_process :: "'m env \<Rightarrow> int \<Rightarrow> ('m machine, sys_result) kernel" where
  "sys_block_process E pid =
     bnd (in_kernel (get_process pid)) (\<lambda>p.
     bnd (in_kernel (gets idle_proc)) (\<lambda>idle.
     if p = null \<or> p = idle then value32 (- 1)
     else bnd (in_kernel (get_proc p)) (\<lambda>pc.
       if p_state pc = TERMINATED then value32 (- 1)
       else if p_state pc = BLOCKED then sq (in_kernel (unblock_process (e_mm E) p)) (value32 0)
       else sq (in_kernel (block_process (e_mm E) p)) (value32 0))))"

definition sys_unblock_process :: "'m env \<Rightarrow> int \<Rightarrow> ('m machine, sys_result) kernel" where
  "sys_unblock_process E pid =
     bnd (in_kernel (get_process pid)) (\<lambda>p.
     if p = null then value32 (- 1) else bnd (in_kernel (unblock_process (e_mm E) p)) value32)"

definition sys_yield :: "'m env \<Rightarrow> ('m machine, unit) kernel" where
  "sys_yield E = in_kernel (yield_cpu (e_mm E))"

definition sys_wait_pid :: "'m env \<Rightarrow> int \<Rightarrow> ('m machine, sys_result) kernel" where
  "sys_wait_pid E pid = bnd (in_kernel (wait_child (e_mm E) pid)) (\<lambda>r. ret (cont32 (fst r)))"

definition sys_wait_for_children :: "'m env \<Rightarrow> ('m machine, sys_result) kernel" where
  "sys_wait_for_children E = bnd (in_kernel (wait_all_children (e_mm E))) (\<lambda>r. ret (cont32 (fst r)))"

definition sys_get_process_info :: "process_info option \<Rightarrow> int \<Rightarrow> ('m machine, int \<times> process_info option) kernel" where
  "sys_get_process_info info pid = in_kernel (get_process_info info pid)"

definition sys_pipe_open :: "'m env \<Rightarrow> ('m machine, sys_result) kernel" where
  "sys_pipe_open E = bnd (in_kernel (openPipe (e_mm E))) value32"

definition sys_pipe_close :: "'m env \<Rightarrow> u8 \<Rightarrow> ('m machine, sys_result) kernel" where
  "sys_pipe_close E ident = bnd (in_kernel (closePipe (e_mm E) ident)) value32"

definition sys_set_read_target_sys :: "'m env \<Rightarrow> u8 \<Rightarrow> ('m machine, sys_result) kernel" where
  "sys_set_read_target_sys E ident =
     bnd (in_kernel get_current_process) (\<lambda>p.
     if p = null then value32 (- 1)
     else bnd (in_kernel (get_proc p)) (\<lambda>pc.
       let old = p_targetByFd pc ! nat READ_FD in
       sq (if old \<noteq> STDIN \<and> old \<noteq> STDOUT then in_kernel (detachReader (e_mm E) old (p_pid pc)) else ret ())
       (bnd (if ident \<noteq> STDIN \<and> ident \<noteq> STDOUT then in_kernel (attachReader ident) else ret 0) (\<lambda>r.
        if r < 0 then value32 (- 1)
        else sq (in_kernel (upd_proc p (\<lambda>pc. pc\<lparr>p_targetByFd := the (snd (setReadTarget (Some (p_targetByFd pc)) ident))\<rparr>))) (value32 0)))))"

definition sys_set_write_target_sys :: "'m env \<Rightarrow> u8 \<Rightarrow> ('m machine, sys_result) kernel" where
  "sys_set_write_target_sys E ident =
     bnd (in_kernel get_current_process) (\<lambda>p.
     if p = null then value32 (- 1)
     else bnd (in_kernel (get_proc p)) (\<lambda>pc.
       let old = p_targetByFd pc ! nat WRITE_FD in
       sq (if old \<noteq> STDIN \<and> old \<noteq> STDOUT then in_kernel (detachWriter (e_mm E) old (p_pid pc)) else ret ())
       (bnd (if ident \<noteq> STDIN \<and> ident \<noteq> STDOUT then in_kernel (attachWriter ident) else ret 0) (\<lambda>r.
        if r < 0 then value32 (- 1)
        else sq (in_kernel (upd_proc p (\<lambda>pc. pc\<lparr>p_targetByFd := the (snd (setWriteTarget (Some (p_targetByFd pc)) ident))\<rparr>))) (value32 0)))))"

definition sys_sem_open :: "'m env \<Rightarrow> addr \<Rightarrow> u16 \<Rightarrow> ('m machine, addr) kernel" where
  "sys_sem_open E name val = in_kernel (semOpen (e_mm E) (e_string E name) val)"

definition sys_sem_close :: "'m env \<Rightarrow> addr \<Rightarrow> ('m machine, sys_result) kernel" where
  "sys_sem_close E sm = bnd (in_kernel (semClose (e_mm E) sm)) value32"

definition sys_sem_wait :: "'m env \<Rightarrow> addr \<Rightarrow> ('m machine, sys_result) kernel" where
  "sys_sem_wait E sm = bnd (in_kernel (semWait (e_mm E) sm)) (\<lambda>r. ret (cont32 r))"

definition sys_sem_post :: "'m env \<Rightarrow> addr \<Rightarrow> ('m machine, sys_result) kernel" where
  "sys_sem_post E sm = bnd (in_kernel (semPost (e_mm E) sm)) value32"

definition sys_set_mvar_value :: "u8 \<Rightarrow> ('m machine, unit) kernel" where
  "sys_set_mvar_value value = set_mvar_value value"

definition sys_get_mvar_value :: "('m machine, u8) kernel" where
  "sys_get_mvar_value = get_mvar_value"

section \<open>The dispatcher\<close>

definition SYS_READ :: nat where "SYS_READ = 3"
definition SYS_WRITE :: nat where "SYS_WRITE = 4"
definition SYS_START_BEEP :: nat where "SYS_START_BEEP = 10"
definition SYS_STOP_BEEP :: nat where "SYS_STOP_BEEP = 11"
definition SYS_FONTS_TEXT_COLOR :: nat where "SYS_FONTS_TEXT_COLOR = 12"
definition SYS_FONTS_BACKGROUND_COLOR :: nat where "SYS_FONTS_BACKGROUND_COLOR = 13"
definition SYS_FONTS_DECREASE_SIZE :: nat where "SYS_FONTS_DECREASE_SIZE = 14"
definition SYS_FONTS_INCREASE_SIZE :: nat where "SYS_FONTS_INCREASE_SIZE = 15"
definition SYS_FONTS_SET_SIZE :: nat where "SYS_FONTS_SET_SIZE = 16"
definition SYS_CLEAR_SCREEN :: nat where "SYS_CLEAR_SCREEN = 17"
definition SYS_CLEAR_INPUT_BUFFER :: nat where "SYS_CLEAR_INPUT_BUFFER = 18"
definition SYS_HOUR :: nat where "SYS_HOUR = 19"
definition SYS_MINUTE :: nat where "SYS_MINUTE = 20"
definition SYS_SECOND :: nat where "SYS_SECOND = 21"
definition SYS_CIRCLE :: nat where "SYS_CIRCLE = 22"
definition SYS_RECTANGLE :: nat where "SYS_RECTANGLE = 23"
definition SYS_FILL_VIDEO_MEMORY :: nat where "SYS_FILL_VIDEO_MEMORY = 24"
definition SYS_EXEC :: nat where "SYS_EXEC = 25"
definition SYS_REGISTER_KEY :: nat where "SYS_REGISTER_KEY = 26"
definition SYS_WINDOW_WIDTH :: nat where "SYS_WINDOW_WIDTH = 27"
definition SYS_WINDOW_HEIGHT :: nat where "SYS_WINDOW_HEIGHT = 28"
definition SYS_SLEEP_MILIS :: nat where "SYS_SLEEP_MILIS = 29"
definition SYS_GET_REGISTER_SNAPSHOT :: nat where "SYS_GET_REGISTER_SNAPSHOT = 30"
definition SYS_GET_CHARACTER_NO_DISPLAY :: nat where "SYS_GET_CHARACTER_NO_DISPLAY = 31"
definition SYS_MALLOC :: nat where "SYS_MALLOC = 32"
definition SYS_FREE :: nat where "SYS_FREE = 33"
definition SYS_MM_STATS :: nat where "SYS_MM_STATS = 34"
definition SYS_CREATE_PROCESS :: nat where "SYS_CREATE_PROCESS = 35"
definition SYS_GET_PID :: nat where "SYS_GET_PID = 36"
definition SYS_KILL_PROCESS :: nat where "SYS_KILL_PROCESS = 37"
definition SYS_MODIFY_PRIORITY :: nat where "SYS_MODIFY_PRIORITY = 38"
definition SYS_PS :: nat where "SYS_PS = 39"
definition SYS_BLOCK_PROCESS :: nat where "SYS_BLOCK_PROCESS = 40"
definition SYS_YIELD :: nat where "SYS_YIELD = 41"
definition SYS_WAIT_PID :: nat where "SYS_WAIT_PID = 42"
definition SYS_WAIT_FOR_CHILDREN :: nat where "SYS_WAIT_FOR_CHILDREN = 43"
definition SYS_PIPE_OPEN :: nat where "SYS_PIPE_OPEN = 45"
definition SYS_PIPE_ATTACH :: nat where "SYS_PIPE_ATTACH = 46"
definition SYS_PIPE_CLOSE :: nat where "SYS_PIPE_CLOSE = 47"
definition SYS_SET_READ_TARGET :: nat where "SYS_SET_READ_TARGET = 48"
definition SYS_SET_WRITE_TARGET :: nat where "SYS_SET_WRITE_TARGET = 49"
definition SYS_SEM_OPEN :: nat where "SYS_SEM_OPEN = 50"
definition SYS_SEM_CLOSE :: nat where "SYS_SEM_CLOSE = 51"
definition SYS_SEM_WAIT :: nat where "SYS_SEM_WAIT = 52"
definition SYS_SEM_POST :: nat where "SYS_SEM_POST = 53"
definition SYS_SHUTDOWN :: nat where "SYS_SHUTDOWN = 54"
definition SYS_UNBLOCK_PROCESS :: nat where "SYS_UNBLOCK_PROCESS = 55"
definition SYS_SET_MVAR_VALUE :: nat where "SYS_SET_MVAR_VALUE = 56"
definition SYS_GET_MVAR_VALUE :: nat where "SYS_GET_MVAR_VALUE = 57"

lemmas sys_numbers =
  SYS_READ_def SYS_WRITE_def SYS_START_BEEP_def SYS_STOP_BEEP_def
  SYS_FONTS_TEXT_COLOR_def SYS_FONTS_BACKGROUND_COLOR_def SYS_FONTS_DECREASE_SIZE_def SYS_FONTS_INCREASE_SIZE_def
  SYS_FONTS_SET_SIZE_def SYS_CLEAR_SCREEN_def SYS_CLEAR_INPUT_BUFFER_def SYS_HOUR_def
  SYS_MINUTE_def SYS_SECOND_def SYS_CIRCLE_def SYS_RECTANGLE_def
  SYS_FILL_VIDEO_MEMORY_def SYS_EXEC_def SYS_REGISTER_KEY_def SYS_WINDOW_WIDTH_def
  SYS_WINDOW_HEIGHT_def SYS_SLEEP_MILIS_def SYS_GET_REGISTER_SNAPSHOT_def SYS_GET_CHARACTER_NO_DISPLAY_def
  SYS_MALLOC_def SYS_FREE_def SYS_MM_STATS_def SYS_CREATE_PROCESS_def
  SYS_GET_PID_def SYS_KILL_PROCESS_def SYS_MODIFY_PRIORITY_def SYS_PS_def
  SYS_BLOCK_PROCESS_def SYS_YIELD_def SYS_WAIT_PID_def SYS_WAIT_FOR_CHILDREN_def
  SYS_PIPE_OPEN_def SYS_PIPE_ATTACH_def SYS_PIPE_CLOSE_def SYS_SET_READ_TARGET_def
  SYS_SET_WRITE_TARGET_def SYS_SEM_OPEN_def SYS_SEM_CLOSE_def SYS_SEM_WAIT_def
  SYS_SEM_POST_def SYS_SHUTDOWN_def SYS_UNBLOCK_PROCESS_def SYS_SET_MVAR_VALUE_def
  SYS_GET_MVAR_VALUE_def

text \<open>The registers the entry stub saves; the casts of the arguments are those of the C code.\<close>

record registers =
  rax :: u64
  rdi :: u64
  rsi :: u64
  rdx :: u64
  rcx :: u64
  r8 :: u64
  r9 :: u64

definition as_int :: "u64 \<Rightarrow> int" where "as_int r = sint (ucast r :: u32)"
definition as_u8 :: "u64 \<Rightarrow> u8" where "as_u8 r = ucast r"
definition as_u32 :: "u64 \<Rightarrow> u32" where "as_u32 r = ucast r"
definition as_ptr :: "u64 \<Rightarrow> addr" where "as_ptr r = unat r"

text \<open>\<open>SYS_SHUTDOWN\<close> writes to the power port of the emulator: the machine stops.\<close>

definition syscallDispatcher :: "'m env \<Rightarrow> registers \<Rightarrow> ('m machine, sys_result) kernel" where
  "syscallDispatcher E r =
     (let n = unat (rax r) in
      if n = SYS_READ then sys_read E (as_int (rdi r)) (as_ptr (rsi r)) (as_int (rdx r))
      else if n = SYS_WRITE then sys_write E (as_int (rdi r)) (as_ptr (rsi r)) (as_int (rdx r))
      else if n = SYS_START_BEEP then sys_start_beep (unat (as_u32 (rdi r)))
      else if n = SYS_STOP_BEEP then sys_stop_beep
      else if n = SYS_FONTS_TEXT_COLOR then sys_fonts_text_color (as_u32 (rdi r))
      else if n = SYS_FONTS_BACKGROUND_COLOR then sys_fonts_background_color (as_u32 (rdi r))
      else if n = SYS_FONTS_DECREASE_SIZE then sys_fonts_decrease_size
      else if n = SYS_FONTS_INCREASE_SIZE then sys_fonts_increase_size
      else if n = SYS_FONTS_SET_SIZE then sys_fonts_set_size (as_u8 (rdi r))
      else if n = SYS_CLEAR_SCREEN then sys_clear_screen
      else if n = SYS_CLEAR_INPUT_BUFFER then sys_clear_input_buffer
      else if n = SYS_HOUR then sys_hour E
      else if n = SYS_MINUTE then sys_minute E
      else if n = SYS_SECOND then sys_second E
      else if n = SYS_CIRCLE then sys_circle (as_u32 (rdi r)) (unat (rsi r)) (unat (rdx r)) (unat (rcx r))
      else if n = SYS_RECTANGLE then
        sys_rectangle (as_u32 (rdi r)) (unat (rsi r)) (unat (rdx r)) (unat (rcx r)) (unat (r8 r))
      else if n = SYS_FILL_VIDEO_MEMORY then sys_fill_video_memory (as_u32 (rdi r))
      else if n = SYS_EXEC then sys_exec E (as_ptr (rdi r))
      else if n = SYS_REGISTER_KEY then sys_register_key (as_u8 (rdi r)) (as_ptr (rsi r))
      else if n = SYS_WINDOW_WIDTH then sys_window_width
      else if n = SYS_WINDOW_HEIGHT then sys_window_height
      else if n = SYS_SLEEP_MILIS then sys_sleep_milis (unat (as_u32 (rdi r)))
      else if n = SYS_GET_REGISTER_SNAPSHOT then sys_get_register_snapshot
      else if n = SYS_GET_CHARACTER_NO_DISPLAY then sys_get_character_without_display E
      else if n = SYS_MALLOC then bnd (sys_malloc E (unat (rdi r))) (\<lambda>a. value32 (int a))
      else if n = SYS_FREE then sq (sys_free E (as_ptr (rdi r))) (value32 0)
      else if n = SYS_MM_STATS then sys_get_memory_stats E
      else if n = SYS_CREATE_PROCESS then
        sys_create_process E (as_int (rdi r)) (as_ptr (rsi r)) (as_ptr (rdx r)) (as_int (rcx r)) (as_ptr (r8 r)) (as_int (r9 r))
      else if n = SYS_GET_PID then sys_get_pid
      else if n = SYS_KILL_PROCESS then sys_kill E (as_int (rdi r))
      else if n = SYS_MODIFY_PRIORITY then sq (sys_modify_priority (as_int (rdi r)) (as_int (rsi r))) (value32 0)
      else if n = SYS_PS then sys_ps E (as_ptr (rdi r))
      else if n = SYS_BLOCK_PROCESS then sys_block_process E (as_int (rdi r))
      else if n = SYS_UNBLOCK_PROCESS then sys_unblock_process E (as_int (rdi r))
      else if n = SYS_YIELD then sq (sys_yield E) (value32 0)
      else if n = SYS_WAIT_PID then sys_wait_pid E (as_int (rdi r))
      else if n = SYS_WAIT_FOR_CHILDREN then sys_wait_for_children E
      else if n = SYS_PIPE_OPEN then sys_pipe_open E
      else if n = SYS_PIPE_CLOSE then sys_pipe_close E (as_u8 (rdi r))
      else if n = SYS_SET_READ_TARGET then sys_set_read_target_sys E (as_u8 (rdi r))
      else if n = SYS_SET_WRITE_TARGET then sys_set_write_target_sys E (as_u8 (rdi r))
      else if n = SYS_SEM_OPEN then bnd (sys_sem_open E (as_ptr (rdi r)) (ucast (rsi r))) (\<lambda>a. value32 (int a))
      else if n = SYS_SEM_CLOSE then sys_sem_close E (as_ptr (rdi r))
      else if n = SYS_SEM_WAIT then sys_sem_wait E (as_ptr (rdi r))
      else if n = SYS_SEM_POST then sys_sem_post E (as_ptr (rdi r))
      else if n = SYS_SHUTDOWN then halt (Panic ''ACPI shutdown'')
      else if n = SYS_SET_MVAR_VALUE then sq (sys_set_mvar_value (as_u8 (rdi r))) (value32 0)
      else if n = SYS_GET_MVAR_VALUE then bnd sys_get_mvar_value (\<lambda>v. value32 (sint v))
      else value32 0)"

end
