(* ===== verification/Keyboard_Properties.thy ===== *)
theory Keyboard_Properties
  imports Keyboard Sched_Properties
begin

text \<open>
  The properties of the keyboard: what a key stroke adds to the input, what a read takes from it,
  and where the ring buffer's test for a full buffer goes wrong.
\<close>

section \<open>A machine\<close>

definition kb_machine :: "nat \<Rightarrow> nat \<Rightarrow> u8 \<Rightarrow> ff_state machine" where
  "kb_machine w r ops = \<lparr>ker = k_idle, con = demo_console, buffer_sem = 940, keyboard_mutex = 941, SHIFT_KEY_PRESSED = True,
     CAPS_LOCK_KEY_PRESSED = False, CONTROL_KEY_PRESSED = False, kb_buffer = (\<lambda>_. 120), to_write = w, to_read = r,
     keyboard_options = ops, KeyFnMap = replicate 88 \<lparr>registered_from_kernel = False, key_fn = null\<rparr>,
     shared_mvar_value = 0, ticks = 0, soft_irq0 = False, pit_divisor = 0, speaker_on = False,
     register_snapshot = replicate 18 0, register_snapshot_taken = False\<rparr>"

lemma kb_machine_wf: "w < 1024 \<Longrightarrow> r < 1024 \<Longrightarrow> kb_wf (kb_machine w r ops)"
  by (simp add: kb_wf_def kb_machine_def BUFFER_SIZE_def KEY_TABLE_SIZE_def)

lemma kb_machine_sems:
  "semPost M a (ker (kb_machine w r ops)) = Ret (- 1, ker (kb_machine w r ops))"
  "semWait M a (ker (kb_machine w r ops)) = Ret (Done (- 1), ker (kb_machine w r ops))"
  by (simp_all add: kb_machine_def k_idle_def semPost_def semWait_def run_simps)

section \<open>Typing and reading\<close>

text \<open>
  C23. A printable key, while a reader has asked for characters, appends to the input exactly the
  character of the key map, shifted or upper-case as the modifiers say, wakes the reader through
  the semaphore and keeps the console invariant.
\<close>

theorem keyboard_types:
  assumes "kb_wf s" and "kb_count s < BUFFER_SIZE - 1" and "con_ok (con s)"
    and "keyboard_options s AND MODIFY_BUFFER \<noteq> 0" and "isPressed scancode" and "IS_PRINTABLE (SHIFT_KEY_PRESSED s) scancode"
    and "key_char s scancode \<notin> {RETURN_KEY, TABULATOR_KEY, TABULATOR_CHAR}" and "\<not> CONTROL_KEY_PRESSED s"
    and "key_fn (KeyFnMap s ! unat scancode) = null" and "semPost M (buffer_sem s) (ker s) = Ret (r, k)"
  shows "\<exists>t. keyboardHandler M handlers scancode s = Ret (scancode, t) \<and> kb_wf t \<and>
    kb_chars t = kb_chars s @ [key_char s scancode] \<and> con_ok (con t) \<and> ker t = k"
proof -
  have key: "IS_KEYCODE scancode" "unat scancode < KEY_TABLE_SIZE"
    using assms(6) by (auto simp: IS_PRINTABLE_def KEY_TABLE_SIZE_def word_le_nat_alt)
  have full: "\<not> BUFFER_IS_FULL s" using kb_full_iff [OF assms(1)] assms(1,2) by (auto simp: kb_count_cases)
  have "modifiers scancode s = Ret ((), s)"
    using makeCode_pressed [OF assms(5)] assms(6)
    by (auto simp: modifiers_def run_simps IS_PRINTABLE_def SHIFT_KEY_L_def SHIFT_KEY_R_def CONTROL_KEY_L_def CAPS_LOCK_KEY_def)
  moreover obtain t where t: "add_plain M (key_char s scancode) (keyboard_options s AND SHOW_BUFFER_WHILE_TYPING \<noteq> 0) s = Ret ((), t)"
      "kb_wf t" "kb_chars t = kb_chars s @ [key_char s scancode]" "con_ok (con t)" "KeyFnMap t = KeyFnMap s" "ker t = k"
    using add_plain_run [OF assms(1,2,3) _ assms(10)] key_char_ascii [OF assms(6)] assms(4) by metis
  moreover have "edit_buffer M scancode s = Ret (False, t)"
    using t(1) assms(6,7) by (simp add: edit_buffer_def addCharToBuffer_def run_simps)
  moreover have "call_key_fn handlers scancode t = Ret ((), t)"
    using assms(9) key(2) t(5) by (simp add: call_key_fn_def key_entry_def run_simps)
  ultimately have "keyboardHandler M handlers scancode s = Ret (scancode, t)"
    using full key(1) assms(4,5,8) by (simp add: keyboardHandler_def run_simps)
  with t show ?thesis by blast
qed


theorem keyboard_types_witness:
  "\<exists>t. keyboardHandler first_fit_mm (\<lambda>_ _. ret ()) 0x1E (kb_machine 5 3 5) = Ret (0x1E, t) \<and> kb_wf t \<and>
     kb_chars t = [120, 120, 65] \<and> con_ok (con t) \<and> ker t = k_idle"
proof -
  have "kb_chars (kb_machine 5 3 5) = [120, 120]"
    by (simp add: kb_chars_def kb_count_def kb_machine_def BUFFER_SIZE_def upt_rec)
  moreover have "key_char (kb_machine 5 3 5) 0x1E = 65" by (simp add: key_char_def kb_machine_def scancodeMap_def)
  ultimately show ?thesis
    using keyboard_types [where s = "kb_machine 5 3 5" and scancode = "0x1E" and M = first_fit_mm and k = k_idle and handlers = "\<lambda>_ _. ret ()"]
      kb_machine_wf [of 5 3 5] kb_machine_sems [where w = 5 and r = 3 and ops = 5 and a = 940] demo_console_ok
    by (simp add: kb_machine_def kb_count_def BUFFER_SIZE_def MODIFY_BUFFER_def isPressed_def isReleased_def IS_PRINTABLE_def
        IS_KEYCODE_def ESCAPE_KEY_def F12_KEY_def RETURN_KEY_def TABULATOR_KEY_def TABULATOR_CHAR_def)
qed

text \<open>
  A read with characters waiting, and the line complete if it was asked to wait for one, returns
  the oldest character and removes it, without blocking when the mutex is free; it turns the
  driver's options off.
\<close>

theorem getKeyboardCharacter_reads:
  assumes "kb_wf s" and "kb_chars s = c # cs" and "ops AND AWAIT_RETURN_KEY = 0 \<or> kb_last s \<in> {NEW_LINE_CHAR, EOF}"
    and "semWait M (keyboard_mutex s) (ker s) = Ret (Done r, k)" and "semPost M (keyboard_mutex s) k = Ret (r', k')"
  shows "\<exists>t. getKeyboardCharacter M ops s = Ret (Character c, t) \<and> kb_wf t \<and> kb_chars t = cs \<and>
    keyboard_options t = 0 \<and> ker t = k' \<and> con t = con s"
proof -
  have "length (kb_chars s) = kb_count s" by (simp add: kb_chars_def)
  then have n: "kb_count s > 0" using assms(2) by simp
  then have ne: "to_write s \<noteq> to_read s" using kb_count_cases [OF assms(1)] by auto
  have pop: "c = kb_buffer s (to_read s)" "cs = kb_chars (s\<lparr>to_read := INC_MOD (to_read s)\<rparr>)"
    using kb_pop [OF assms(1) n] assms(2) by simp_all
  let ?s = "s\<lparr>keyboard_options := ops OR MODIFY_BUFFER\<rparr>"
  have "(ops OR MODIFY_BUFFER) AND AWAIT_RETURN_KEY = ops AND AWAIT_RETURN_KEY"
    by (simp add: MODIFY_BUFFER_def AWAIT_RETURN_KEY_def bit.conj_disj_distrib2)
  then have "kb_wait_step M () ?s = Ret (Inr True, ?s)"
    using assms(3) ne by (auto simp: kb_wait_step_def kb_last_def run_simps)
  then have "loop (kb_wait_step M) () ?s = Ret (True, ?s)" by (simp add: loop_unfold)
  then have "getKeyboardCharacter M ops s =
      Ret (Character c, s\<lparr>keyboard_options := 0, ker := k', to_read := INC_MOD (to_read s)\<rparr>)"
    using assms(4,5) pop(1) by (simp add: getKeyboardCharacter_def kb_loop_def kb_lock_def kb_take_def run_simps)
  moreover have "kb_chars (s\<lparr>keyboard_options := 0, ker := k', to_read := INC_MOD (to_read s)\<rparr>) = cs"
    unfolding pop(2) by (simp add: kb_chars_def kb_count_def)
  moreover have "kb_wf (s\<lparr>keyboard_options := 0, ker := k', to_read := INC_MOD (to_read s)\<rparr>)"
    using assms(1) by (simp add: kb_wf_def INC_MOD_def BUFFER_SIZE_def)
  ultimately show ?thesis by simp
qed

theorem getKeyboardCharacter_reads_witness:
  "\<exists>t. getKeyboardCharacter first_fit_mm 0 (kb_machine 5 3 0) = Ret (Character 120, t) \<and> kb_wf t \<and> kb_chars t = [120] \<and>
     keyboard_options t = 0 \<and> ker t = k_idle \<and> con t = demo_console"
proof -
  have "kb_chars (kb_machine 5 3 0) = [120, 120]"
    by (simp add: kb_chars_def kb_count_def kb_machine_def BUFFER_SIZE_def upt_rec)
  then show ?thesis
    using getKeyboardCharacter_reads [where s = "kb_machine 5 3 0" and c = 120 and cs = "[120]" and ops = 0 and M = first_fit_mm and k = k_idle and k' = k_idle]
      kb_machine_wf [of 5 3 0] kb_machine_sems [where w = 5 and r = 3 and ops = 0 and a = 941]
    by (simp add: kb_machine_def)
qed

section \<open>The full buffer\<close>

text \<open>
  C37. The test for a full buffer succeeds for one pair of indices only. With 1023 characters in the
  ring and the read index anywhere but 0 it fails, and the next character makes the indices equal:
  every character in the buffer is lost.
\<close>

theorem kb_overrun:
  assumes "kb_wf s" and "length (kb_chars s) = BUFFER_SIZE - 1" and "to_read s \<noteq> 0" and "con_ok (con s)" and "0 \<le> sint c"
    and "semPost M (buffer_sem s) (ker s) = Ret (r, k)"
  shows "\<not> BUFFER_IS_FULL s \<and> (\<exists>t. add_plain M c echo s = Ret ((), t) \<and> kb_wf t \<and> kb_chars t = [])"
proof
  show "\<not> BUFFER_IS_FULL s" using kb_full_iff [OF assms(1)] assms(3) by simp
  have n: "kb_count s = BUFFER_SIZE - 1" using assms(2) by (simp add: kb_chars_def)
  have eq: "INC_MOD (to_write s) = to_read s"
    using kb_count_cases [OF assms(1)] assms(1,3) n by (auto simp: INC_MOD_def kb_wf_def BUFFER_SIZE_def split: if_splits)
  obtain d where "add_plain M c echo s = Ret ((), s\<lparr>kb_buffer := (kb_buffer s)(to_write s := c),
      to_write := INC_MOD (to_write s), con := d, ker := (if keyboard_options s AND MODIFY_BUFFER \<noteq> 0 then k else ker s)\<rparr>)"
    using add_plain_exec [OF assms(4) _ assms(6), of c echo] assms(5) by blast
  then show "\<exists>t. add_plain M c echo s = Ret ((), t) \<and> kb_wf t \<and> kb_chars t = []"
    unfolding eq using assms(1) by (auto simp: kb_wf_def kb_chars_def kb_count_def)
qed

theorem kb_overrun_witness:
  "\<not> BUFFER_IS_FULL (kb_machine 6 7 4) \<and>
   (\<exists>t. add_plain first_fit_mm 65 False (kb_machine 6 7 4) = Ret ((), t) \<and> kb_wf t \<and> kb_chars t = [])"
  by (rule kb_overrun [where r = "- 1" and k = k_idle])
     (use kb_machine_wf [of 6 7 4] kb_machine_sems [where w = 6 and r = 7 and ops = 4 and a = 940] demo_console_ok in
       \<open>simp_all add: kb_chars_def kb_count_def kb_machine_def BUFFER_SIZE_def\<close>)

text \<open>
  A tabulator typed while the echo is off, with the cursor away from a tabulator stop and the
  read index anywhere but 0, hangs the interrupt handler: the loop waits for the cursor, which does
  not move, or for the full test, which cannot succeed. \<open>I\<close> is any condition on the kernel under
  which posting the semaphore returns.
\<close>

theorem tabulator_hangs:
  assumes "kb_wf s" and "to_read s \<noteq> 0"
    and "nat (xBufferPosition (con s) mod 2 ^ 16) mod (TAB_SIZE * glyphSizeX * fontSize (con s)) \<noteq> 0"
    and "I (ker s)" and "\<And>k. I k \<Longrightarrow> \<exists>r k'. semPost M (buffer_sem s) k = Ret (r, k') \<and> I k'"
  shows "addCharToBuffer M TABULATOR_CHAR False s = Stop Diverge"
proof -
  let ?J = "\<lambda>(_ :: unit) t. kb_wf t \<and> to_read t = to_read s \<and> con t = con s \<and> buffer_sem t = buffer_sem s \<and> I (ker t)"
  have "loop (tab_fill_step M False) () s = Stop Diverge"
  proof (rule loop_diverges [where I = ?J])
    fix a t assume J: "?J a t"
    then obtain r k where k: "semPost M (buffer_sem t) (ker t) = Ret (r, k)" "I k" using assms(5) by metis
    let ?t = "t\<lparr>kb_buffer := (kb_buffer t)(to_write t := 32), to_write := INC_MOD (to_write t),
      ker := (if keyboard_options t AND MODIFY_BUFFER \<noteq> 0 then k else ker t)\<rparr>"
    have wf: "kb_wf ?t" using J by (simp add: kb_wf_def INC_MOD_def BUFFER_SIZE_def)
    have "add_plain M 32 False t = Ret ((), ?t)" using k by (simp add: add_plain_def run_simps)
    moreover have "\<not> BUFFER_IS_FULL ?t" using kb_full_iff [OF wf] J assms(2) by simp
    ultimately have "tab_fill_step M False a t = Ret (Inl (), ?t)"
      using J assms(3) by (simp add: tab_fill_step_def getXBufferPosition_def getFontSize_def run_simps)
    moreover have "?J () ?t" using J wf k by simp
    ultimately show "\<exists>a' t'. tab_fill_step M False a t = Ret (Inl a', t') \<and> ?J a' t'" by blast
  qed (use assms in simp)
  then show ?thesis by (simp add: addCharToBuffer_def)
qed

theorem tabulator_hangs_witness: "addCharToBuffer first_fit_mm TABULATOR_CHAR False (kb_machine 5 3 4) = Stop Diverge"
  by (rule tabulator_hangs [where I = "\<lambda>k. k = k_idle"])
     (use kb_machine_wf [of 5 3 4] kb_machine_sems [where w = 5 and r = 3 and ops = 4 and a = 940] in
       \<open>simp_all add: kb_machine_def demo_console_def TAB_SIZE_def glyphSizeX_def\<close>)

end
