(* ===== verification/Syscall_Properties.thy ===== *)
theory Syscall_Properties
  imports Syscalls Keyboard_Properties
begin

text \<open>
  The properties of the system call layer: what \<open>exec\<close> restores, the input buffer emptied, the
  32-bit result register, and the descriptors.
\<close>

section \<open>The key table across exec\<close>

text \<open>The two index loops, entry by entry.\<close>

lemma restore_fold_nth:
  assumes "length m = KEY_TABLE_SIZE" and "n \<le> KEY_TABLE_SIZE" and "j < KEY_TABLE_SIZE"
  shows "fold (\<lambda>i m. if registered_from_kernel (m ! i) then m else m[i := (m ! i)\<lparr>key_fn := sv ! i\<rparr>]) [1..<n] m ! j =
    (if 1 \<le> j \<and> j < n \<and> \<not> registered_from_kernel (m ! j) then (m ! j)\<lparr>key_fn := sv ! j\<rparr> else m ! j) \<and>
    length (fold (\<lambda>i m. if registered_from_kernel (m ! i) then m else m[i := (m ! i)\<lparr>key_fn := sv ! i\<rparr>]) [1..<n] m) = KEY_TABLE_SIZE"
  using assms(2,3)
proof (induction n arbitrary: j)
  case (Suc n)
  let ?f = "fold (\<lambda>i m. if registered_from_kernel (m ! i) then m else m[i := (m ! i)\<lparr>key_fn := sv ! i\<rparr>]) [1..<n] m"
  have len: "length ?f = KEY_TABLE_SIZE" using Suc by simp
  have at: "?f ! i = (if 1 \<le> i \<and> i < n \<and> \<not> registered_from_kernel (m ! i) then (m ! i)\<lparr>key_fn := sv ! i\<rparr> else m ! i)"
    if "i < KEY_TABLE_SIZE" for i using Suc that by simp
  show ?case
  proof (cases "1 \<le> n")
    case True
    have n: "n < KEY_TABLE_SIZE" using Suc.prems by simp
    have "?f ! n = m ! n" using at [OF n] by simp
    then show ?thesis using True len at [OF Suc.prems(2)] n Suc.prems(2) by (auto simp: nth_list_update less_Suc_eq)
  qed (use assms(1) in simp)
qed (use assms(1) in simp)

lemma clear_fold_nth:
  assumes "length m = KEY_TABLE_SIZE" and "length sv = KEY_TABLE_SIZE" and "n \<le> KEY_TABLE_SIZE"
  shows "\<exists>m' sv'. fold (\<lambda>i (m, sv). if registered_from_kernel (m ! i) then (m, sv)
           else (m[i := (m ! i)\<lparr>key_fn := null\<rparr>], sv[i := key_fn (m ! i)])) [1..<n] (m, sv) = (m', sv') \<and>
    length m' = KEY_TABLE_SIZE \<and> length sv' = KEY_TABLE_SIZE \<and>
    (\<forall>j<KEY_TABLE_SIZE. m' ! j = (if 1 \<le> j \<and> j < n \<and> \<not> registered_from_kernel (m ! j) then (m ! j)\<lparr>key_fn := null\<rparr> else m ! j) \<and>
       sv' ! j = (if 1 \<le> j \<and> j < n \<and> \<not> registered_from_kernel (m ! j) then key_fn (m ! j) else sv ! j))"
  using assms(3)
proof (induction n)
  case (Suc n)
  then obtain m' sv' where f: "fold (\<lambda>i (m, sv). if registered_from_kernel (m ! i) then (m, sv)
           else (m[i := (m ! i)\<lparr>key_fn := null\<rparr>], sv[i := key_fn (m ! i)])) [1..<n] (m, sv) = (m', sv')"
    and l: "length m' = KEY_TABLE_SIZE" "length sv' = KEY_TABLE_SIZE"
    and at: "\<And>j. j < KEY_TABLE_SIZE \<Longrightarrow> m' ! j = (if 1 \<le> j \<and> j < n \<and> \<not> registered_from_kernel (m ! j) then (m ! j)\<lparr>key_fn := null\<rparr> else m ! j) \<and>
       sv' ! j = (if 1 \<le> j \<and> j < n \<and> \<not> registered_from_kernel (m ! j) then key_fn (m ! j) else sv ! j)" by auto
  show ?case
  proof (cases "1 \<le> n")
    case True
    have n: "n < KEY_TABLE_SIZE" using Suc.prems by simp
    have mn: "m' ! n = m ! n" using at [OF n] by simp
    show ?thesis
    proof (cases "registered_from_kernel (m ! n)")
      case False
      have "j < KEY_TABLE_SIZE \<Longrightarrow> m'[n := (m ! n)\<lparr>key_fn := null\<rparr>] ! j =
          (if 1 \<le> j \<and> j < Suc n \<and> \<not> registered_from_kernel (m ! j) then (m ! j)\<lparr>key_fn := null\<rparr> else m ! j) \<and>
          sv'[n := key_fn (m ! n)] ! j = (if 1 \<le> j \<and> j < Suc n \<and> \<not> registered_from_kernel (m ! j) then key_fn (m ! j) else sv ! j)" for j
        using at [of j] False True n l by (auto simp: nth_list_update less_Suc_eq)
      then show ?thesis using f True False mn l by simp
    next
      case reg: True
      have "j < KEY_TABLE_SIZE \<Longrightarrow> m' ! j =
          (if 1 \<le> j \<and> j < Suc n \<and> \<not> registered_from_kernel (m ! j) then (m ! j)\<lparr>key_fn := null\<rparr> else m ! j) \<and>
          sv' ! j = (if 1 \<le> j \<and> j < Suc n \<and> \<not> registered_from_kernel (m ! j) then key_fn (m ! j) else sv ! j)" for j
        using at [of j] reg by (auto simp: less_Suc_eq)
      then show ?thesis using f True reg mn l by simp
    qed
  qed (use assms in simp)
qed (use assms in simp)

text \<open>
  What \<open>exec\<close> relies on of the program it calls: it returns, and it does not replace the handlers
  that the kernel registered, nor mark its own as the kernel's.
\<close>

definition keeps_kernel_keys :: "('m machine, int) kernel \<Rightarrow> bool" where
  "keeps_kernel_keys c \<longleftrightarrow> (\<forall>u. length (KeyFnMap u) = KEY_TABLE_SIZE \<longrightarrow>
     (\<exists>aux t. c u = Ret (aux, t) \<and> length (KeyFnMap t) = KEY_TABLE_SIZE \<and>
        (\<forall>j<KEY_TABLE_SIZE. registered_from_kernel (KeyFnMap t ! j) = registered_from_kernel (KeyFnMap u ! j) \<and>
           (registered_from_kernel (KeyFnMap u ! j) \<longrightarrow> KeyFnMap t ! j = KeyFnMap u ! j))))"

text \<open>
  A program run by \<open>exec\<close> leaves no trace in the console settings or the key handlers: the font
  size, both colours and the handler of every key from escape to F11 are those from before, and the
  console starts again at the top left corner.
\<close>

theorem exec_restores:
  assumes "con_ok (con s)" and "length (KeyFnMap s) = KEY_TABLE_SIZE" and "keeps_kernel_keys (e_call E f)"
  shows "\<exists>aux u. sys_exec E f s = Ret (Value (s32_of aux) Nothing, u) \<and> fontSize (con u) = fontSize (con s) \<and>
    text_color (con u) = text_color (con s) \<and> background_color (con u) = background_color (con s) \<and>
    xBufferPosition (con u) = 0 \<and> yBufferPosition (con u) = 0 \<and>
    (\<forall>j. 1 \<le> j \<and> j < KEY_TABLE_SIZE \<longrightarrow> KeyFnMap u ! j = KeyFnMap s ! j)"
proof -
  have n: "(0x58 :: nat) = KEY_TABLE_SIZE" by (simp add: KEY_TABLE_SIZE_def)
  have fs: "1 \<le> fontSize (con s)" "fontSize (con s) \<le> 10" using assms(1) by (auto simp: con_ok_def)
  obtain c where c: "in_console clear s = Ret ((), s\<lparr>con := c\<rparr>)" "fontSize c = fontSize (con s)" "text_color c = text_color (con s)"
    "background_color c = background_color (con s)" by (simp add: clear_def run_simps)
  obtain m' sv' where cl: "fold (\<lambda>i (m, sv). if registered_from_kernel (m ! i) then (m, sv)
           else (m[i := (m ! i)\<lparr>key_fn := null\<rparr>], sv[i := key_fn (m ! i)])) [1..<KEY_TABLE_SIZE] (KeyFnMap s, replicate KEY_TABLE_SIZE null) = (m', sv')"
    and l: "length m' = KEY_TABLE_SIZE" "length sv' = KEY_TABLE_SIZE"
    and at: "\<And>j. j < KEY_TABLE_SIZE \<Longrightarrow> 1 \<le> j \<Longrightarrow>
       m' ! j = (if \<not> registered_from_kernel (KeyFnMap s ! j) then (KeyFnMap s ! j)\<lparr>key_fn := null\<rparr> else KeyFnMap s ! j) \<and>
       (\<not> registered_from_kernel (KeyFnMap s ! j) \<longrightarrow> sv' ! j = key_fn (KeyFnMap s ! j))"
    using clear_fold_nth [OF assms(2) _ order_refl, of "replicate KEY_TABLE_SIZE null"] by auto
  let ?u = "s\<lparr>con := c, KeyFnMap := m'\<rparr>"
  have clr: "clearKeyFnMapNonKernel (replicate KEY_TABLE_SIZE null) (s\<lparr>con := c\<rparr>) = Ret (sv', ?u)"
    using cl by (simp add: clearKeyFnMapNonKernel_def n)
  from assms(3) l(1) obtain aux t where t: "e_call E f ?u = Ret (aux, t)" "length (KeyFnMap t) = KEY_TABLE_SIZE"
    "\<And>j. j < KEY_TABLE_SIZE \<Longrightarrow> registered_from_kernel (KeyFnMap t ! j) = registered_from_kernel (m' ! j) \<and>
       (registered_from_kernel (m' ! j) \<longrightarrow> KeyFnMap t ! j = m' ! j)"
    unfolding keeps_kernel_keys_def by force
  obtain w where w: "restoreKeyFnMapNonKernel sv' t = Ret ((), w)" "con w = con t"
    "KeyFnMap w = fold (\<lambda>i m. if registered_from_kernel (m ! i) then m else m[i := (m ! i)\<lparr>key_fn := sv' ! i\<rparr>]) [1..<KEY_TABLE_SIZE] (KeyFnMap t)"
    by (simp add: restoreKeyFnMapNonKernel_def run_simps n)
  have key: "KeyFnMap w ! j = KeyFnMap s ! j" if j: "1 \<le> j" "j < KEY_TABLE_SIZE" for j
    using restore_fold_nth [OF t(2) order_refl j(2), of sv'] t(3) [OF j(2)] at [OF j(2,1)] j w(3)
    by (cases "registered_from_kernel (KeyFnMap s ! j)") auto
  have si: "sint (of_nat (fontSize (con s)) :: u8) = int (fontSize (con s))"
  proof -
    have "uint (of_nat (fontSize (con s)) :: u8) = int (fontSize (con s))" using fs by (simp add: unsigned_of_nat take_bit_nat_eq_self_iff flip: uint_nat)
    then show ?thesis using fs sint_eq_uint by simp
  qed
  have "\<exists>u. sys_exec E f s = Ret (Value (s32_of aux) Nothing, u) \<and> fontSize (con u) = fontSize (con s) \<and>
    text_color (con u) = text_color (con s) \<and> background_color (con u) = background_color (con s) \<and>
    xBufferPosition (con u) = 0 \<and> yBufferPosition (con u) = 0 \<and> KeyFnMap u = KeyFnMap w"
    using c clr t(1) w(1) si fs
    by (simp add: sys_exec_def run_simps getFontSize_def getTextColor_def getBackgroundColor_def setFontSize_def adjust_line_def
        setTextColor_def setBackgroundColor_def clear_def value32_def)
  with key show ?thesis by metis
qed

definition demo_env :: "ff_state env" where
  "demo_env = \<lparr>e_mm = first_fit_mm, e_stats = ff_mm_get_stats, e_string = (\<lambda>_. None), e_argv = (\<lambda>_. None), e_ints = (\<lambda>_. []),
     e_bytes = (\<lambda>a. if a = 0 then None else Some [72, 105]), e_infos = (\<lambda>_. None),
     e_call = (\<lambda>_. sq (in_console (setFontSize 3)) (sq (in_console (setTextColor 7)) (ret 5))), e_hour = 0, e_minute = 0, e_second = 0\<rparr>"

lemma demo_env_keys: "keeps_kernel_keys (e_call demo_env f)"
  by (simp add: keeps_kernel_keys_def demo_env_def run_simps setFontSize_def adjust_line_def setTextColor_def)

theorem exec_restores_witness:
  "\<exists>aux u. sys_exec demo_env 99 (kb_machine 5 3 0) = Ret (Value (s32_of aux) Nothing, u) \<and>
     fontSize (con u) = 1 \<and> text_color (con u) = DEFAULT_TEXT_COLOR"
  using exec_restores [of "kb_machine 5 3 0" demo_env 99] demo_console_ok demo_env_keys [of 99] kb_machine_wf [of 5 3 0]
  by (auto simp: kb_wf_def kb_machine_def demo_console_def)

section \<open>Emptying the input buffer\<close>

lemma clearBuffer_run:
  assumes "kb_wf s" and "con_ok (con s)"
  shows "\<exists>t. clearBuffer s = Ret (kb_count s, t) \<and> kb_wf t \<and> con_ok (con t) \<and> to_read t = to_read s \<and>
    (if kb_count s = 0 then t = s else kb_count t = kb_count s - 1)"
proof -
  have aux: "SUB_MOD (to_write s) (to_read s) = kb_count s"
    using kb_count_cases [OF assms(1)] assms(1) by (auto simp: SUB_MOD_def kb_wf_def)
  show ?thesis
  proof (cases "kb_count s = 0")
    case True
    then show ?thesis using aux assms by (simp add: clearBuffer_def run_simps)
  next
    case False
    from clearPreviousCharacter_step [OF assms(2)] obtain d where d: "clearPreviousCharacter (con s) = Ret ((), d)" "con_ok d"
      by (auto elim!: wp_no_stopE simp: con_step_def)
    let ?t = "s\<lparr>to_write := SUB_MOD (to_write s) 1, con := d\<rparr>"
    have "clearBuffer s = Ret (kb_count s, ?t)" using d(1) aux False by (simp add: clearBuffer_def run_simps)
    moreover have wf: "kb_wf ?t" using assms(1) by (auto simp: kb_wf_def SUB_MOD_def BUFFER_SIZE_def)
    moreover have "kb_count ?t = kb_count s - 1"
      using kb_count_cases [OF assms(1)] kb_count_cases [OF wf] False assms(1)
      by (auto simp: SUB_MOD_def kb_wf_def BUFFER_SIZE_def split: if_splits)
    ultimately show ?thesis using False d(2) by simp
  qed
qed

text \<open>
  Clearing the input buffer terminates: each round removes one character and the loop ends with
  the buffer empty, the console invariant kept.
\<close>

theorem clear_input_empties:
  assumes "kb_wf s" and "con_ok (con s)"
  shows "\<exists>t. sys_clear_input_buffer s = Ret (Value 0 Nothing, t) \<and> kb_wf t \<and> kb_chars t = [] \<and> con_ok (con t) \<and>
    to_read t = to_read s"
proof -
  let ?I = "\<lambda>(_ :: unit) t. kb_wf t \<and> con_ok (con t) \<and> to_read t = to_read s"
  have "wp no_stop (loop clear_step ()) (\<lambda>_ t. ?I () t \<and> kb_count t = 0) s"
  proof (rule wp_loop [where I = ?I and \<mu> = "\<lambda>_. kb_count"])
    fix a t assume "?I a t"
    with clearBuffer_run [of t] show "wp no_stop (clear_step a) (\<lambda>x u. case x of Inl a' \<Rightarrow> ?I a' u \<and> kb_count u < kb_count t
        | Inr r \<Rightarrow> ?I () u \<and> kb_count u = 0) t"
      by (auto simp: clear_step_def wp_def run_simps split: if_splits)
  qed (use assms in simp)
  then obtain t where "loop clear_step () s = Ret ((), t)" "?I () t" "kb_count t = 0" by (auto elim!: wp_no_stopE)
  then show ?thesis by (auto simp: sys_clear_input_buffer_def value32_def s32_of_def run_simps kb_chars_def)
qed

theorem clear_input_empties_witness:
  "\<exists>t. sys_clear_input_buffer (kb_machine 5 900 0) = Ret (Value 0 Nothing, t) \<and> kb_wf t \<and> kb_chars t = [] \<and>
     con_ok (con t) \<and> to_read t = to_read (kb_machine 5 900 0)"
  by (rule clear_input_empties) (use kb_machine_wf [of 5 900 0] demo_console_ok in \<open>simp_all add: kb_machine_def\<close>)

section \<open>The result register\<close>

text \<open>
  The dispatcher returns 32 bits, and user code extends them with their sign. A pointer from
  \<open>malloc\<close> or \<open>sem_open\<close> survives exactly when it lies below \<open>2 ^ 31\<close>: for such an address the value is
  the address, and from there up to \<open>2 ^ 32\<close> it is negative.
\<close>

theorem malloc_pointer:
  assumes "mm_alloc (e_mm E) (unat (rdi r)) (ker s) = Ret (a, k)" and "rax r = of_nat SYS_MALLOC" and "a < 2 ^ 32"
  shows "\<exists>v. syscallDispatcher E r s = Ret (Value v Nothing, s\<lparr>ker := k\<rparr>) \<and> (v = int a \<longleftrightarrow> a < 2 ^ 31) \<and> (2 ^ 31 \<le> a \<longrightarrow> v < 0)"
proof -
  have n: "unat (rax r) = SYS_MALLOC" using assms(2) by (simp add: SYS_MALLOC_def)
  have "syscallDispatcher E r s = Ret (Value (s32_of (int a)) Nothing, s\<lparr>ker := k\<rparr>)"
    unfolding syscallDispatcher_def Let_def n using assms(1) by (simp add: sys_numbers sys_malloc_def value32_def run_simps)
  moreover have "s32_of (int a) = (if a < 2 ^ 31 then int a else int a - 2 ^ 32)"
  proof -
    have "s32_of (int a) = signed_take_bit 31 (int a)"
      using assms(3) by (simp add: s32_of_def sint_uint unsigned_of_nat uint_word_of_int_eq take_bit_nat_eq_self)
    also have "\<dots> = (int a + 2 ^ 31) mod 2 ^ 32 - 2 ^ 31" by (simp add: signed_take_bit_eq_take_bit_shift take_bit_eq_mod)
    also have "\<dots> = (if a < 2 ^ 31 then int a else int a - 2 ^ 32)"
      using assms(3) minus_mod_self2 [of "int a + 2 ^ 31" "2 ^ 32"] mod_pos_pos_trivial [of "int a - 2 ^ 31" "2 ^ 32"] by auto
    finally show ?thesis .
  qed
  ultimately show ?thesis using assms(3) by (auto split: if_splits)
qed

theorem malloc_pointer_witness:
  "\<exists>v k. syscallDispatcher demo_env \<lparr>rax = of_nat SYS_MALLOC, rdi = 0, rsi = 0, rdx = 0, rcx = 0, r8 = 0, r9 = 0\<rparr> (kb_machine 5 3 0) =
     Ret (Value v Nothing, (kb_machine 5 3 0)\<lparr>ker := k\<rparr>) \<and> v = 0"
  using malloc_pointer [of demo_env "\<lparr>rax = of_nat SYS_MALLOC, rdi = 0, rsi = 0, rdx = 0, rcx = 0, r8 = 0, r9 = 0\<rparr>" "kb_machine 5 3 0" 0 k_idle]
  by (force simp: demo_env_def kb_machine_def mm_alloc_def first_fit_mm_def ff_mm_alloc_def run_simps k_idle_def)

section \<open>Descriptors\<close>

text \<open>
  A write to the terminal prints every byte of the buffer and returns their number, whatever the
  console state: the console invariant holds afterwards and neither the kernel nor the keyboard
  buffer is touched.
\<close>

theorem terminal_write:
  assumes "running_process (ker s) = p" and "p \<noteq> null" and "procs (ker s) p = Some pc" and "p_targetByFd pc = [t0, STDOUT, t2]"
    and "con_ok (con s)" and "\<forall>c\<in>set bs. 0 \<le> sint c"
  shows "\<exists>c. fd_write M WRITE_FD (Some bs) (int (length bs)) s = Ret ((Done (int (length bs)), []), s\<lparr>con := c\<rparr>) \<and> con_ok c"
proof -
  have each: "\<exists>c. for_each bs (\<lambda>c. in_console (putChar c)) u = Ret ((), u\<lparr>con := c\<rparr>) \<and> con_ok c" if "con_ok (con u)" for u :: "'a machine"
    using that assms(6)
  proof (induction bs arbitrary: u)
    case Nil
    then show ?case by (intro exI [of _ "con u"]) (simp add: run_simps)
  next
    case (Cons b bs)
    from putChar_run [OF Cons.prems(1), of b] Cons.prems(2) obtain d where d: "putChar b (con u) = Ret ((), d)" "con_ok d" by auto
    from Cons.IH [of "u\<lparr>con := d\<rparr>"] d Cons.prems(2) show ?case by (auto simp: run_simps)
  qed
  have colors: "con_ok (c\<lparr>text_color := a, background_color := b, file_descriptor := f\<rparr>) = con_ok c" for c a b f
    by (simp add: con_ok_def cell_def line_def)
  let ?c = "if 1 \<noteq> file_descriptor (con s) then (con s)\<lparr>text_color := DEFAULT_TEXT_COLOR, background_color := DEFAULT_BACKGROUND_COLOR,
    file_descriptor := 1\<rparr> else con s"
  have "con_ok ?c" using assms(5) colors by simp
  with each [of "s\<lparr>con := ?c\<rparr>"] obtain c where "for_each bs (\<lambda>c. in_console (putChar c)) (s\<lparr>con := ?c\<rparr>) = Ret ((), s\<lparr>con := c\<rparr>)" "con_ok c" by auto
  then show ?thesis using assms(1-4)
    by (auto simp: fd_write_def get_current_process_def run_simps WRITE_FD_def ERR_FD_def STDOUT_def STDERR_def Let_def printToFd_def each_char_def)
qed

theorem terminal_write_witness:
  "\<exists>c. fd_write first_fit_mm WRITE_FD (Some [72, 105]) (int (length [72 :: u8, 105])) (kb_machine 5 3 0) =
     Ret ((Done (int (length [72 :: u8, 105])), []), (kb_machine 5 3 0)\<lparr>con := c\<rparr>) \<and> con_ok c"
  by (rule terminal_write [where p = 900 and pc = pcb0 and ?t0.0 = 0 and ?t2.0 = 1])
     (use demo_console_ok in \<open>simp_all add: kb_machine_def k_idle_def pcb0_def STDOUT_def\<close>)

end
