(* ===== verification/Boot.thy ===== *)
theory Boot
  imports Syscalls
begin

text \<open>
  How the system comes up: the packer that joins the kernel and the user modules
  (src/TP2-SO-2025/Toolchain/ModulePacker/main.c), the loader that takes them apart again
  (src/TP2-SO-2025/Kernel/moduleLoader.c), the interrupt table (idt/idtLoader.c) and the start of the
  kernel (kernel.c). A file is the list of its bytes; memory is a map from addresses to bytes as in
  \<open>CLib\<close>. The addresses that the linker chooses are parameters.
\<close>

section \<open>Packing\<close>

text \<open>The copy loop of \<open>write_file\<close>, \<open>BUFFER_SIZE\<close> bytes at a time.\<close>

definition BUFFER_SIZE :: nat where "BUFFER_SIZE = 128"

function write_file :: "u8 list \<Rightarrow> u8 list \<Rightarrow> u8 list" where
  "write_file target source =
     (if source = [] then target
      else write_file (target @ take BUFFER_SIZE source) (drop BUFFER_SIZE source))"
  by pat_completeness auto

termination by (relation "measure (length \<circ> snd)") (simp_all add: BUFFER_SIZE_def)

declare write_file.simps [simp del]

text \<open>A \<open>uint32_t\<close> as the processor stores it, least significant byte first.\<close>

definition le32 :: "u32 \<Rightarrow> u8 list" where
  "le32 w = map (\<lambda>k. ucast (drop_bit (8 * k) w)) [0..<4]"

definition write_size :: "u8 list \<Rightarrow> u8 list \<Rightarrow> u8 list" where
  "write_size target source = target @ le32 (of_nat (length source))"

fun write_modules :: "u8 list \<Rightarrow> u8 list list \<Rightarrow> u8 list" where
  "write_modules target [] = target"
| "write_modules target (m # ms) = write_modules (write_file (write_size target m) m) ms"

definition buildImage :: "u8 list list \<Rightarrow> u8 list option" where
  "buildImage files =
     (case files of [] \<Rightarrow> None
      | kern # modules \<Rightarrow>
          Some (write_modules (write_file [] kern @ le32 (of_nat (length modules))) modules))"

text \<open>\<open>access\<close> is a parameter: the contents of the readable files.\<close>

definition packer_main :: "('f \<Rightarrow> u8 list option) \<Rightarrow> 'f list \<Rightarrow> u8 list option" where
  "packer_main file fs =
     (if list_all (\<lambda>f. file f \<noteq> None) fs then buildImage (map (\<lambda>f. the (file f)) fs) else None)"

section \<open>Loading\<close>

definition readUint32 :: "bytes \<Rightarrow> addr \<Rightarrow> u32 \<times> addr" where
  "readUint32 b a =
     (push_bit 24 (ucast (b (a + 3))) OR push_bit 16 (ucast (b (a + 2))) OR push_bit 8 (ucast (b (a + 1))) OR ucast (b a), a + 4)"

definition loadModule :: "addr \<Rightarrow> addr \<Rightarrow> bytes \<Rightarrow> addr \<times> bytes" where
  "loadModule module target b =
     (case readUint32 b module of (moduleSize, module) \<Rightarrow>
      (module + unat moduleSize, memcpy target module (unat moduleSize) b))"

text \<open>The loop over the modules: \<open>k\<close> are left; an address that was not passed is not there.\<close>

fun load_loop :: "nat \<Rightarrow> addr list \<Rightarrow> addr \<Rightarrow> bytes \<Rightarrow> bytes option" where
  "load_loop 0 targets module b = Some b"
| "load_loop (Suc k) [] module b = None"
| "load_loop (Suc k) (t # ts) module b = (case loadModule module t b of (module, b) \<Rightarrow> load_loop k ts module b)"

definition loadModules :: "addr \<Rightarrow> addr list \<Rightarrow> bytes \<Rightarrow> bytes option" where
  "loadModules payloadStart targetModuleAddress b =
     (case readUint32 b payloadStart of (moduleCount, currentModule) \<Rightarrow>
      load_loop (unat moduleCount) targetModuleAddress currentModule b)"

definition clearBSS :: "addr \<Rightarrow> nat \<Rightarrow> bytes \<Rightarrow> bytes" where
  "clearBSS bssAddress bssSize b = memset bssAddress 0 bssSize b"

definition PageSize :: nat where "PageSize = 0x1000"

definition HEAP_END_ADDRESS :: nat where "HEAP_END_ADDRESS = 0x20000000"

definition shellModuleAddress :: addr where "shellModuleAddress = 0x400000"

definition getStackBase :: "addr \<Rightarrow> addr" where
  "getStackBase endOfKernel = endOfKernel + PageSize * 8 - 8"

record link_map =
  l_bss :: addr
  l_endOfKernelBinary :: addr
  l_endOfKernel :: addr

definition initializeKernelBinary :: "link_map \<Rightarrow> bytes \<Rightarrow> (addr \<times> bytes) option" where
  "initializeKernelBinary l b =
     (case loadModules (l_endOfKernelBinary l) [shellModuleAddress] b of
        None \<Rightarrow> None
      | Some b \<Rightarrow> Some (getStackBase (l_endOfKernel l), clearBSS (l_bss l) (l_endOfKernel l - l_bss l) b))"

section \<open>The interrupt table\<close>

record descr_int =
  offset_l :: u16
  selector :: u16
  zero :: u8
  access :: u8
  offset_m :: u16
  offset_h :: u32
  other_zero :: u32

definition setup_IDT_entry :: "u8 \<Rightarrow> nat \<Rightarrow> u64 \<Rightarrow> u16 \<Rightarrow> descr_int list \<Rightarrow> descr_int list" where
  "setup_IDT_entry ACS_INT i off cs_selector idt =
     idt[i := \<lparr>offset_l = ucast (off AND 0xFFFF), selector = cs_selector, zero = 0, access = ACS_INT,
        offset_m = ucast (drop_bit 16 off AND 0xFFFF), offset_h = ucast (drop_bit 32 off AND 0xFFFFFFFF), other_zero = 0\<rparr>]"

text \<open>The entries of \<open>load_idt\<close>, in its order; the handlers are written in assembly language.\<close>

definition idt_entries :: "(nat \<Rightarrow> u64) \<Rightarrow> (nat \<times> u64) list" where
  "idt_entries handler = map (\<lambda>i. (i, handler i)) [0x00, 0x06, 0x08, 0x0D, 0x0E, 0x20, 0x21, 0x80]"

definition load_idt :: "u8 \<Rightarrow> (nat \<Rightarrow> u64) \<Rightarrow> u16 \<Rightarrow> descr_int list \<Rightarrow> descr_int list" where
  "load_idt ACS_INT handler kernel_cs idt =
     fold (\<lambda>(i, off). setup_IDT_entry ACS_INT i off kernel_cs) (idt_entries handler) idt"

section \<open>The start of the kernel\<close>

definition heap_start :: "addr \<Rightarrow> addr" where
  "heap_start endOfKernel =
     (let heapStartOriginal = of_nat endOfKernel + of_nat PageSize * 8 :: u64;
          base = (heapStartOriginal + 0x1FFFFF) AND NOT 0x1FFFFF in
      unat (if base < 0x600000 then 0x600000 else base))"

definition heap_size :: "addr \<Rightarrow> nat" where
  "heap_size endOfKernel = sub64 HEAP_END_ADDRESS (heap_start endOfKernel)"

definition create_shell :: "'m mm \<Rightarrow> ('m kst, unit) kernel" where
  "create_shell M =
     bnd (create_process M 1 (Some [''shell'']) shellModuleAddress MIN_PRIORITY [0, 1, 2] True) (\<lambda>p.
     upd (\<lambda>s. s\<lparr>shell_proc := p\<rparr>))"

text \<open>One round of the loop of \<open>init_process\<close>; the busy wait at its end has no effect.\<close>

definition init_process_round :: "'m mm \<Rightarrow> ('m kst, unit) kernel" where
  "init_process_round M =
     bnd (gets shell_proc) (\<lambda>p.
     bnd (if p = null then ret True else bnd (deref procs p) (\<lambda>x. ret (p_state x = TERMINATED))) (\<lambda>again.
     sq (if again then create_shell M else ret ()) (yield_cpu M)))"

definition create_init :: "'m mm \<Rightarrow> addr \<Rightarrow> ('m kst, addr) kernel" where
  "create_init M init_process = create_process M 1 (Some [''init'']) init_process MIN_PRIORITY [0, 1, 2] False"

record entry_points =
  ep_idle :: addr
  ep_init :: addr
  ep_junk :: u16

text \<open>\<open>main\<close> after \<open>load_idt\<close>, up to the first scheduler interrupt, which does not return. \<open>mm_init\<close>
  is the parameter \<open>init_mm\<close>.\<close>

definition kernel_main ::
  "'m mm \<Rightarrow> (addr \<Rightarrow> nat \<Rightarrow> ('m, unit) kernel) \<Rightarrow> entry_points \<Rightarrow> addr \<Rightarrow> ('m machine, unit) kernel" where
  "kernel_main M init_mm ep endOfKernel =
     sq (in_console (setFontSize 2))
     (sq (in_kernel (on_mem (init_mm (heap_start endOfKernel) (heap_size endOfKernel))))
     (sq (in_kernel (initSemQueue M))
     (sq (in_kernel (initPipeStorage M (ep_junk ep)))
     (sq (in_kernel (setNextId 2))
     (sq (in_kernel (init_scheduler M (ep_junk ep) (ep_idle ep)))
     (sq (keyboard_sem_init M)
     (bnd (in_kernel (create_init M (ep_init ep))) (\<lambda>init.
      if init = null then halt (Panic ''Failed to create init process'') else ret ()))))))))"

section \<open>Facts about images\<close>

lemma write_file_append: "write_file target source = target @ source"
proof (induction target source rule: write_file.induct)
  case (1 target source)
  then show ?case by (subst write_file.simps) auto
qed

definition module_bytes :: "u8 list \<Rightarrow> u8 list" where
  "module_bytes m = le32 (of_nat (length m)) @ m"

lemma write_modules_append: "write_modules target ms = target @ concat (map module_bytes ms)"
  by (induction ms arbitrary: target) (simp_all add: write_file_append write_size_def module_bytes_def)

lemma length_le32 [simp]: "length (le32 w) = 4"
  by (simp add: le32_def)

text \<open>The bytes of memory from an address on are those of a list.\<close>

definition bytes_at :: "bytes \<Rightarrow> addr \<Rightarrow> u8 list \<Rightarrow> bool" where
  "bytes_at b a xs \<longleftrightarrow> (\<forall>k < length xs. b (a + k) = xs ! k)"

lemma bytes_at_append [simp]: "bytes_at b a (xs @ ys) \<longleftrightarrow> bytes_at b a xs \<and> bytes_at b (a + length xs) ys"
proof
  assume l: "bytes_at b a (xs @ ys)"
  have "b (a + length xs + k) = ys ! k" if "k < length ys" for k
    using l that by (auto simp: bytes_at_def nth_append dest!: spec [of _ "length xs + k"]) (simp add: add.assoc)
  with l show "bytes_at b a xs \<and> bytes_at b (a + length xs) ys" by (auto simp: bytes_at_def nth_append)
next
  assume r: "bytes_at b a xs \<and> bytes_at b (a + length xs) ys"
  show "bytes_at b a (xs @ ys)" unfolding bytes_at_def
  proof (intro allI impI)
    fix k assume "k < length (xs @ ys)"
    then show "b (a + k) = (xs @ ys) ! k"
    proof (cases "k < length xs")
      case False
      then obtain j where "k = length xs + j" by (metis le_iff_add not_less)
      with r \<open>k < length (xs @ ys)\<close> show ?thesis by (auto simp: bytes_at_def nth_append add.assoc)
    qed (use r in \<open>auto simp: bytes_at_def nth_append\<close>)
  qed
qed

lemma readUint32_le32:
  assumes "bytes_at b a (le32 w)"
  shows "readUint32 b a = (w, a + 4)"
proof -
  have "b (a + k) = ucast (drop_bit (8 * k) w)" if "k < 4" for k
    using assms that by (auto simp: bytes_at_def le32_def)
  from this [of 0] this [of 1] this [of 2] this [of 3]
  have "b a = ucast w" "b (a + 1) = ucast (drop_bit 8 w)" "b (a + 2) = ucast (drop_bit 16 w)" "b (a + 3) = ucast (drop_bit 24 w)" by auto
  moreover have "push_bit 24 (ucast (ucast (drop_bit 24 w) :: u8)) OR push_bit 16 (ucast (ucast (drop_bit 16 w) :: u8)) OR
      push_bit 8 (ucast (ucast (drop_bit 8 w) :: u8)) OR ucast (ucast w :: u8) = w"
  proof (rule bit_word_eqI)
    fix n assume "n < LENGTH(32)"
    then consider "n < 8" | "8 \<le> n" "n < 16" | "16 \<le> n" "n < 24" | "24 \<le> n" "n < 32" by fastforce
    then show "bit (push_bit 24 (ucast (ucast (drop_bit 24 w) :: u8)) OR push_bit 16 (ucast (ucast (drop_bit 16 w) :: u8)) OR
      push_bit 8 (ucast (ucast (drop_bit 8 w) :: u8)) OR ucast (ucast w :: u8) :: u32) n = bit w n"
      by cases (auto simp: bit_or_iff bit_push_bit_iff bit_unsigned_iff bit_drop_bit_eq)
  qed
  ultimately show ?thesis by (simp add: readUint32_def)
qed


lemma bytes_at_keep: "bytes_at b a xs \<Longrightarrow> t + n \<le> a \<or> a + length xs \<le> t \<Longrightarrow> s + n \<le> t \<or> t + n \<le> s \<Longrightarrow> bytes_at (memcpy t s n b) a xs"
  using memcpy_spec [of s n t b] by (auto simp: bytes_at_def)


section \<open>Facts about the heap\<close>

lemma unat_round_down: "unat (y AND NOT 0x1FFFFF :: u64) = unat y div 2 ^ 21 * 2 ^ 21"
proof -
  have m: "(0x1FFFFF :: u64) = mask 21" by (simp add: mask_numeral)
  have eq: "y AND NOT 0x1FFFFF = push_bit 21 (drop_bit 21 y)"
    unfolding m by (rule bit_word_eqI) (auto simp: bit_and_iff bit_not_iff bit_mask_iff bit_push_bit_iff bit_drop_bit_eq)
  have "unat y < 2 ^ 64" using unsigned_less [of y] by simp
  then have "unat y div 2 ^ 21 * 2 ^ 21 < 2 ^ 64" by (rule le_less_trans [OF div_times_less_eq_dividend])
  then have "take_bit LENGTH(64) (unat y div 2 ^ 21 * 2 ^ 21) = unat y div 2 ^ 21 * 2 ^ 21" by (intro take_bit_nat_eq_self) simp
  moreover have "take_bit LENGTH(64) (unat y) = unat y" using \<open>unat y < 2 ^ 64\<close> by (intro take_bit_nat_eq_self) simp
  then have "unat (push_bit 21 (drop_bit 21 y)) = take_bit LENGTH(64) (push_bit 21 (drop_bit 21 (unat y)))"
    by (simp only: unsigned_push_bit_eq unsigned_drop_bit_eq)
  ultimately show ?thesis unfolding eq
    by (simp only: push_bit_eq_mult [where 'a = nat] drop_bit_eq_div [where 'a = nat])
qed

lemma round_up: "x \<le> (x + (2 ^ 21 - 1)) div 2 ^ 21 * 2 ^ 21 \<and> (x + (2 ^ 21 - 1)) div 2 ^ 21 * 2 ^ 21 < x + 2 ^ 21" for x :: nat
proof -
  have "(x + (2 ^ 21 - 1)) div 2 ^ 21 * 2 ^ 21 + (x + (2 ^ 21 - 1)) mod 2 ^ 21 = x + (2 ^ 21 - 1)" by (rule div_mult_mod_eq)
  moreover have "(x + (2 ^ 21 - 1)) mod 2 ^ 21 < (2 ^ 21 :: nat)" by simp
  ultimately show ?thesis by linarith
qed

lemma heap_start_eq:
  assumes "e < 2 ^ 62"
  shows "heap_start e = max 0x600000 ((e + 0x8000 + (2 ^ 21 - 1)) div 2 ^ 21 * 2 ^ 21)"
proof -
  let ?y = "of_nat e + of_nat PageSize * 8 + 0x1FFFFF :: u64"
  have "?y = of_nat (e + 0x8000 + (2 ^ 21 - 1))" by (simp add: PageSize_def)
  moreover have "take_bit LENGTH(64) (e + 0x8000 + (2 ^ 21 - 1)) = e + 0x8000 + (2 ^ 21 - 1)"
    using assms by (intro take_bit_nat_eq_self) simp
  ultimately have y: "unat ?y = e + 0x8000 + (2 ^ 21 - 1)" by (simp only: unsigned_of_nat of_nat_id)
  have "?y AND NOT 0x1FFFFF < 0x600000 \<longleftrightarrow> unat (?y AND NOT 0x1FFFFF) < 0x600000" by (simp add: word_less_nat_alt)
  then show ?thesis unfolding heap_start_def Let_def using unat_round_down [of ?y] y by auto
qed

section \<open>Properties\<close>

text \<open>The places for the modules: apart from each other and from the \<open>n\<close> bytes at \<open>a\<close>.\<close>

fun apart_from :: "addr \<Rightarrow> nat \<Rightarrow> (addr \<times> u8 list) list \<Rightarrow> bool" where
  "apart_from a n [] \<longleftrightarrow> True"
| "apart_from a n ((t, m) # ts) \<longleftrightarrow> (t + length m \<le> a \<or> a + n \<le> t) \<and> apart_from a n ts"

fun targets_ok :: "addr \<Rightarrow> nat \<Rightarrow> (addr \<times> u8 list) list \<Rightarrow> bool" where
  "targets_ok a n [] \<longleftrightarrow> True"
| "targets_ok a n ((t, m) # ts) \<longleftrightarrow> length m < 2 ^ 32 \<and> apart_from t (length m) ts \<and> (t + length m \<le> a \<or> a + n \<le> t) \<and> targets_ok a n ts"

lemma load_loop_spec:
  assumes "targets_ok a n ts" and "bytes_at b c (concat (map (module_bytes \<circ> snd) ts))"
    and "a \<le> c" and "c + length (concat (map (module_bytes \<circ> snd) ts)) \<le> a + n"
    and "list_all (\<lambda>(t, m). bytes_at b t m) done" and "list_all (\<lambda>(t, m). apart_from t (length m) ts) done"
  shows "\<exists>b'. load_loop (length ts) (map fst ts) c b = Some b' \<and> list_all (\<lambda>(t, m). bytes_at b' t m) (done @ ts)"
  using assms
proof (induction ts arbitrary: c b "done")
  case (Cons x ts)
  obtain t m where x: "x = (t, m)" by (cases x)
  let ?b = "memcpy t (c + 4) (length m) b"
  have sz: "unat (word_of_nat (length m) :: u32) = length m"
  proof -
    have "take_bit LENGTH(32) (length m) = length m" using Cons.prems(1) x by (intro take_bit_nat_eq_self) simp
    then show ?thesis by (simp only: unsigned_of_nat of_nat_id)
  qed
  have at: "bytes_at b c (le32 (of_nat (length m)))" "bytes_at b (c + 4) m"
    "bytes_at b (c + 4 + length m) (concat (map (module_bytes \<circ> snd) ts))"
    using Cons.prems(2) x by (simp_all add: module_bytes_def [of m] add.assoc comp_def)
  have disj: "c + 4 + length m \<le> t \<or> t + length m \<le> c + 4"
    "t + length m \<le> c + 4 + length m \<or> c + 4 + length m + length (concat (map (module_bytes \<circ> snd) ts)) \<le> t"
    using Cons.prems(1,3,4) x by (auto simp: module_bytes_def [of m] comp_def)
  have keep: "bytes_at ?b c' xs" if "bytes_at b c' xs" "t + length m \<le> c' \<or> c' + length xs \<le> t" for c' xs
    by (rule bytes_at_keep [OF that disj(1)])
  have new: "bytes_at ?b t m" using memcpy_spec [OF disj(1), of b] at(2) by (auto simp: bytes_at_def)
  have step: "loadModule c t b = (c + 4 + length m, ?b)"
    using readUint32_le32 [OF at(1)] sz by (simp add: loadModule_def)
  have "\<exists>b'. load_loop (length ts) (map fst ts) (c + 4 + length m) ?b = Some b' \<and> list_all (\<lambda>(t, m). bytes_at b' t m) ((done @ [x]) @ ts)"
  proof (rule Cons.IH)
    show "targets_ok a n ts" using Cons.prems(1) x by simp
    show "bytes_at ?b (c + 4 + length m) (concat (map (module_bytes \<circ> snd) ts))"
      using keep [OF at(3)] disj(2) Cons.prems(1,3,4) x by (auto simp: module_bytes_def [of m] comp_def)
    show "a \<le> c + 4 + length m" "c + 4 + length m + length (concat (map (module_bytes \<circ> snd) ts)) \<le> a + n"
      using Cons.prems(3,4) x by (auto simp: module_bytes_def [of m] comp_def)
    show "list_all (\<lambda>(t, m). bytes_at ?b t m) (done @ [x])"
      using Cons.prems(5,6) x new keep by (fastforce simp: list_all_iff)
    show "list_all (\<lambda>(t, m). apart_from t (length m) ts) (done @ [x])"
      using Cons.prems(1,6) x by (auto simp: list_all_iff split: prod.splits)
  qed
  with x step show ?case by simp
qed simp

text \<open>
  C16. Loading undoes packing. When the bytes that the packer appends to the kernel lie in memory from the
  end of the kernel on, and the places for the modules overlap neither them nor each other, then
  loading returns and leaves every module, byte for byte, at its place.
\<close>

theorem pack_load_roundtrip:
  assumes "buildImage (kern # map snd ts) = Some (kern @ img)" and "bytes_at b a img"
    and "length ts < 2 ^ 32" and "targets_ok a (length img) ts"
  shows "\<exists>b'. loadModules a (map fst ts) b = Some b' \<and> list_all (\<lambda>(t, m). bytes_at b' t m) ts"
proof -
  have "take_bit LENGTH(32) (length ts) = length ts" using assms(3) by (intro take_bit_nat_eq_self) simp
  then have n: "unat (word_of_nat (length ts) :: u32) = length ts" by (simp only: unsigned_of_nat of_nat_id)
  have layout: "img = le32 (of_nat (length ts)) @ concat (map (module_bytes \<circ> snd) ts)"
    using assms(1) by (simp add: buildImage_def write_file_append write_modules_append)
  with assms(2) have "bytes_at b a (le32 (of_nat (length ts)))" "bytes_at b (a + 4) (concat (map (module_bytes \<circ> snd) ts))" by auto
  with load_loop_spec [OF assms(4), of b "a + 4" "[]"] readUint32_le32 [of b a "of_nat (length ts)"] n layout show ?thesis
    by (simp add: loadModules_def)
qed


theorem pack_load_roundtrip_witness:
  "\<exists>b'. loadModules 100 [200, 300] (\<lambda>x. (replicate 100 0 @ [2, 0, 0, 0, 3, 0, 0, 0, 7, 8, 9, 1, 0, 0, 0, 5] @ replicate 400 0) ! x) = Some b' \<and>
    b' 201 = 8 \<and> b' 300 = 5"
proof -
  let ?b = "\<lambda>x. (replicate 100 0 @ [2, 0, 0, 0, 3, 0, 0, 0, 7, 8, 9, 1, 0, 0, 0, 5] @ replicate 400 0) ! x :: u8"
  let ?img = "[2, 0, 0, 0, 3, 0, 0, 0, 7, 8, 9, 1, 0, 0, 0, 5] :: u8 list" and ?ts = "[(200, [7, 8, 9]), (300, [5])] :: (addr \<times> u8 list) list"
  have "buildImage ([1] # map snd ?ts) = Some ([1] @ ?img)" by code_simp
  moreover have "bytes_at (\<lambda>x. (replicate n 0 @ xs @ ys) ! x) n xs" for n and xs ys :: "u8 list" by (simp add: bytes_at_def nth_append)
  from this [of 100 ?img "replicate 400 0"] have "bytes_at ?b 100 ?img" by simp
  moreover have "targets_ok 100 (length ?img) ?ts" by simp
  ultimately obtain b' where "loadModules 100 (map fst ?ts) ?b = Some b'" "list_all (\<lambda>(t, m). bytes_at b' t m) ?ts"
    using pack_load_roundtrip [of "[1]" ?ts ?img ?b 100] by auto
  then show ?thesis by (auto simp: bytes_at_def dest: spec [of _ 1])
qed

text \<open>
  The heap starts at a multiple of 2 MiB, above the kernel with its stack and above the first 2 MiB
  of the place of the shell, wastes less than 2 MiB, and ends at \<open>HEAP_END_ADDRESS\<close>.
\<close>

theorem heap_region:
  assumes "e + 0x8000 + 2 ^ 21 \<le> HEAP_END_ADDRESS"
  shows "2 ^ 21 dvd heap_start e \<and> e + 8 * PageSize \<le> heap_start e \<and> shellModuleAddress + 2 ^ 21 \<le> heap_start e \<and>
    heap_start e < max 0x600001 (e + 8 * PageSize + 2 ^ 21) \<and> 0 < heap_size e \<and> heap_start e + heap_size e = HEAP_END_ADDRESS"
proof -
  have e: "e < 2 ^ 62" using assms by (simp add: HEAP_END_ADDRESS_def)
  let ?r = "(e + 0x8000 + (2 ^ 21 - 1)) div 2 ^ 21 * 2 ^ 21"
  have r: "e + 0x8000 \<le> ?r" "?r < e + 0x8000 + 2 ^ 21" using round_up [of "e + 0x8000"] by auto
  have h: "heap_start e = max 0x600000 ?r" by (rule heap_start_eq [OF e])
  then have lt: "heap_start e < HEAP_END_ADDRESS" using assms r by (auto simp: HEAP_END_ADDRESS_def)
  then have "heap_size e = HEAP_END_ADDRESS - heap_start e"
    unfolding heap_size_def by (intro sub64_small) (simp_all add: HEAP_END_ADDRESS_def)
  moreover have "2 ^ 21 dvd heap_start e" unfolding h by (auto simp: max_def)
  ultimately show ?thesis using h r lt by (auto simp: PageSize_def shellModuleAddress_def max_def)
qed

theorem heap_region_witness: "2 ^ 21 dvd heap_start 0x120000 \<and> heap_start 0x120000 + heap_size 0x120000 = HEAP_END_ADDRESS"
  using heap_region [of "0x120000"] by (simp add: HEAP_END_ADDRESS_def)

text \<open>
  Every entry that \<open>load_idt\<close> installs spells the whole address of its handler: the three parts of the
  offset put together give it back.
\<close>

theorem idt_entry_address:
  assumes "i < length idt"
  shows "(case setup_IDT_entry acs i off cs idt ! i of d \<Rightarrow>
      push_bit 32 (ucast (offset_h d)) OR push_bit 16 (ucast (offset_m d)) OR ucast (offset_l d) = off \<and>
      selector d = cs \<and> access d = acs) \<and>
    (\<forall>j. j \<noteq> i \<longrightarrow> setup_IDT_entry acs i off cs idt ! j = idt ! j)"
proof -
  have "push_bit 32 (ucast (ucast (drop_bit 32 off AND 0xFFFFFFFF) :: u32)) OR push_bit 16 (ucast (ucast (drop_bit 16 off AND 0xFFFF) :: u16)) OR
      ucast (ucast (off AND 0xFFFF) :: u16) = off"
    (is "?l = _")
  proof (rule bit_word_eqI)
    have m: "(0xFFFF :: u64) = mask 16" "(0xFFFFFFFF :: u64) = mask 32" by (simp_all add: mask_numeral)
    fix n assume "n < LENGTH(64)"
    then consider "n < 16" | "16 \<le> n" "n < 32" | "32 \<le> n" "n < 64" by fastforce
    then show "bit ?l n = bit off n"
      unfolding m by cases (auto simp: bit_or_iff bit_and_iff bit_mask_iff bit_push_bit_iff bit_unsigned_iff bit_drop_bit_eq)
  qed
  with assms show ?thesis by (simp add: setup_IDT_entry_def)
qed

theorem idt_entry_address_witness:
  "offset_m (setup_IDT_entry 0x8E 0x21 0x123456789ABC 8 (replicate 256 \<lparr>offset_l = 0, selector = 0, zero = 0, access = 0,
      offset_m = 0, offset_h = 0, other_zero = 0\<rparr>) ! 0x21) = 0x5678 \<and>
   access (setup_IDT_entry 0x8E 0x21 0x123456789ABC 8 (replicate 256 \<lparr>offset_l = 0, selector = 0, zero = 0, access = 0,
      offset_m = 0, offset_h = 0, other_zero = 0\<rparr>) ! 0x21) = 0x8E"
  using idt_entry_address [of "0x21" "replicate 256 \<lparr>offset_l = 0, selector = 0, zero = 0, access = 0,
      offset_m = 0, offset_h = 0, other_zero = 0\<rparr>" "0x8E" "0x123456789ABC" 8]
  by (simp add: setup_IDT_entry_def)

end
