(* ===== verification/Libc_String.thy ===== *)
theory Libc_String
  imports CLib
begin

text \<open>
  The string routines of the user library: src/TP2-SO-2025/Userland/libc/string.c and the macro of
  src/TP2-SO-2025/Userland/include/libc/ctype.h. As in \<open>CLib\<close> a buffer is the list of its bytes, a
  C string the part before its first NUL, and leaving the buffer is \<open>None\<close>. \<open>char\<close> is signed on the
  target, so the comparison routines subtract signed bytes. \<open>strtok\<close> keeps the position of the next
  call in a static pointer: its state is the memory it cuts and that pointer.
\<close>

section \<open>Measuring and comparing\<close>

definition schar :: "char \<Rightarrow> int" where
  "schar c = (if of_char c < (128 :: int) then of_char c else of_char c - 256)"

fun strlen_libc :: "char list \<Rightarrow> nat option" where
  "strlen_libc [] = None"
| "strlen_libc (c # cs) = (if c \<noteq> NUL then map_option Suc (strlen_libc cs) else Some 0)"

fun strcmp_libc :: "char list \<Rightarrow> char list \<Rightarrow> int option" where
  "strcmp_libc (a # as) (b # bs) =
     (if a \<noteq> NUL \<and> b \<noteq> NUL
      then if a \<noteq> b then Some (schar a - schar b) else strcmp_libc as bs
      else Some (schar a - schar b))"
| "strcmp_libc _ _ = None"

definition toupper :: "char \<Rightarrow> int" where
  "toupper a = (if 97 \<le> schar a \<and> schar a \<le> 122 then schar a - (97 - 65) else schar a)"

fun strcasecmp :: "char list \<Rightarrow> char list \<Rightarrow> int option" where
  "strcasecmp (a # as) (b # bs) =
     (if a \<noteq> NUL \<and> b \<noteq> NUL
      then if toupper a \<noteq> toupper b then Some (schar a - schar b) else strcasecmp as bs
      else Some (schar a - schar b))"
| "strcasecmp _ _ = None"

section \<open>Copying\<close>

text \<open>A store of one byte, and the two copy loops at index \<open>i\<close>; \<open>src\<close> is what is left of the source.\<close>

definition put_byte :: "char list \<Rightarrow> nat \<Rightarrow> char \<Rightarrow> char list option" where
  "put_byte buf i c = (if i < length buf then Some (buf[i := c]) else None)"

definition strcpy_libc :: "char list \<Rightarrow> char list \<Rightarrow> char list option" where
  "strcpy_libc dest src = copy_loop 0 dest src"

fun ncopy_loop :: "int \<Rightarrow> nat \<Rightarrow> char list \<Rightarrow> char list \<Rightarrow> char list option" where
  "ncopy_loop n i dest [] = (if int i < n then None else put_byte dest i NUL)"
| "ncopy_loop n i dest (c # cs) =
     (if int i < n \<and> c \<noteq> NUL
      then case put_byte dest i c of None \<Rightarrow> None | Some dest' \<Rightarrow> ncopy_loop n (i + 1) dest' cs
      else put_byte dest i NUL)"

definition strncpy_libc :: "char list \<Rightarrow> char list \<Rightarrow> int \<Rightarrow> char list option" where
  "strncpy_libc dest src n = ncopy_loop n 0 dest src"

section \<open>Tokens\<close>

record tokenizer =
  tk_mem :: "char list"
  tk_last :: "nat option"

text \<open>The inner loop: is the byte one of the delimiters? \<open>None\<close> when they are not terminated.\<close>

fun is_delim :: "char \<Rightarrow> char list \<Rightarrow> bool option" where
  "is_delim c [] = None"
| "is_delim c (d # ds) = (if d \<noteq> NUL then if c = d then Some True else is_delim c ds else Some False)"

text \<open>The outer loop from the position \<open>l\<close>: the memory it leaves and the next position.\<close>

function strtok_scan :: "char list \<Rightarrow> nat \<Rightarrow> char list \<Rightarrow> (char list \<times> nat) option" where
  "strtok_scan s2 l mem =
     (if length mem \<le> l then None
      else if mem ! l = NUL then Some (mem, l)
      else case is_delim (mem ! l) s2 of
          None \<Rightarrow> None
        | Some True \<Rightarrow> Some (mem[l := NUL], l + 1)
        | Some False \<Rightarrow> strtok_scan s2 (l + 1) mem)"
  by pat_completeness auto

termination by (relation "measure (\<lambda>(s2, l, mem). length mem - l)") auto

declare strtok_scan.simps [simp del]

definition strtok_from :: "char list \<Rightarrow> nat \<Rightarrow> (tokenizer, nat option) kernel" where
  "strtok_from s2 s1 = (\<lambda>s. case strtok_scan s2 s1 (tk_mem s) of
       None \<Rightarrow> Stop Fault
     | Some (mem, l) \<Rightarrow> Ret (Some s1, s\<lparr>tk_mem := mem, tk_last := Some l\<rparr>))"

definition strtok :: "nat option \<Rightarrow> char list \<Rightarrow> (tokenizer, nat option) kernel" where
  "strtok s1 s2 =
     (case s1 of
        Some p \<Rightarrow> strtok_from s2 p
      | None \<Rightarrow> bnd (deref (\<lambda>s _. tk_last s) null) (\<lambda>l.
          bnd (deref (\<lambda>s i. if i < length (tk_mem s) then Some (tk_mem s ! i) else None) l) (\<lambda>c.
          if c = NUL then ret None else strtok_from s2 l)))"

text \<open>The string behind a pointer that \<open>strtok\<close> returned.\<close>

definition str_at :: "char list \<Rightarrow> nat \<Rightarrow> string" where
  "str_at mem p = takeWhile (\<lambda>c. c \<noteq> NUL) (drop p mem)"


text \<open>A caller's loop: the first token of the string at \<open>p\<close>, then all the others.\<close>

definition next_token :: "char list \<Rightarrow> nat option \<times> nat list \<Rightarrow> (tokenizer, (nat option \<times> nat list) + nat list) kernel" where
  "next_token s2 a = (case a of
       (None, ps) \<Rightarrow> ret (Inr ps)
     | (Some p, ps) \<Rightarrow> bnd (strtok None s2) (\<lambda>tok. ret (Inl (tok, ps @ [p]))))"

definition strtok_all :: "nat \<Rightarrow> char list \<Rightarrow> (tokenizer, nat list) kernel" where
  "strtok_all p s2 = bnd (strtok (Some p) s2) (\<lambda>tok. loop (next_token s2) (tok, []))"

section \<open>Facts about comparing\<close>

lemma int_of_char_bounds: "0 \<le> (of_char c :: int) \<and> of_char c < (256 :: int)"
  using pos_mod_sign [of 256 "of_char c :: int"] pos_mod_bound [of 256 "of_char c :: int"] by simp

lemma schar_inj [simp]: "schar a = schar b \<longleftrightarrow> a = b"
proof -
  have "a = b \<longleftrightarrow> (of_char a :: int) = of_char b" by simp
  then show ?thesis using int_of_char_bounds [of a] int_of_char_bounds [of b]
    by (auto simp: schar_def simp del: of_char_eq_iff)
qed

lemma schar_NUL [simp]: "schar NUL = 0"
  by (simp add: schar_def)

lemma is_cstr_Cons: "is_cstr (c # buf) s \<longleftrightarrow> (if c = NUL then s = [] else \<exists>t. s = c # t \<and> is_cstr buf t)"
  by (cases s) (auto simp: is_cstr_def)

lemma is_cstr_Nil [simp]: "\<not> is_cstr [] s"
  by (simp add: is_cstr_def)

lemma strlen_libc_cstr: "is_cstr buf s \<Longrightarrow> strlen_libc buf = Some (length s)"
  by (induction buf arbitrary: s) (auto simp: is_cstr_Cons split: if_splits)

lemma strcmp_libc_cstr:
  "is_cstr x a \<Longrightarrow> is_cstr y b \<Longrightarrow> \<exists>r. strcmp_libc x y = Some r \<and> (r = 0 \<longleftrightarrow> a = b)"
proof (induction x y arbitrary: a b rule: strcmp_libc.induct)
  case (1 c x d y)
  then show ?case by (fastforce simp: is_cstr_Cons split: if_splits)
qed simp_all

lemma toupper_eq_0 [simp]: "toupper c = 0 \<longleftrightarrow> c = NUL"
  using schar_inj [of c NUL] by (auto simp: toupper_def)

lemma strcasecmp_cstr:
  "is_cstr x a \<Longrightarrow> is_cstr y b \<Longrightarrow> \<exists>r. strcasecmp x y = Some r \<and> (r = 0 \<longleftrightarrow> map toupper a = map toupper b)"
proof (induction x y arbitrary: a b rule: strcasecmp.induct)
  case (1 c x d y)
  show ?case
  proof (cases "c = NUL \<or> d = NUL")
    case True
    with 1(2,3) show ?thesis using schar_inj [of c NUL] schar_inj [of NUL d]
      by (auto simp: is_cstr_Cons simp del: schar_inj split: if_splits)
  next
    case False
    with 1(2,3) obtain a' b' where "a = c # a'" "b = d # b'" "is_cstr x a'" "is_cstr y b'"
      by (auto simp: is_cstr_Cons)
    with 1(1) False show ?thesis by auto
  qed
qed simp_all

section \<open>Facts about copying\<close>

lemma ncopy_loop_spec:
  assumes "NUL \<notin> set s" and "int (length pre) \<le> n"
    and "length pre + length (take (nat (n - int (length pre))) s) < length (pre @ dest)"
  shows "ncopy_loop n (length pre) (pre @ dest) (s @ NUL # rest) =
    (let t = take (nat (n - int (length pre))) s in Some (pre @ t @ NUL # drop (length t + 1) dest))"
  using assms
proof (induction s arbitrary: pre dest)
  case Nil
  then obtain d ds where "dest = d # ds" by (cases dest) auto
  then show ?case by (simp add: put_byte_def)
next
  case (Cons c s)
  then obtain d ds where dest: "dest = d # ds" by (cases dest) auto
  show ?case
  proof (cases "int (length pre) < n")
    case True
    have k: "nat (n - int (length pre)) = Suc (nat (n - int (length (pre @ [c]))))" using True by simp
    have "ncopy_loop n (length (pre @ [c])) ((pre @ [c]) @ ds) (s @ NUL # rest) =
        (let t = take (nat (n - int (length (pre @ [c])))) s in Some ((pre @ [c]) @ t @ NUL # drop (length t + 1) ds))"
      by (rule Cons.IH) (use Cons.prems True dest k in \<open>auto simp: Let_def\<close>)
    moreover have "c \<noteq> NUL" using Cons.prems(1) by auto
    ultimately show ?thesis using True dest unfolding k by (simp add: put_byte_def Let_def)
  qed (use Cons.prems dest in \<open>simp add: put_byte_def\<close>)
qed

section \<open>Facts about tokens\<close>

lemma is_delim_cstr: "is_cstr buf ds \<Longrightarrow> is_delim c buf = Some (c \<in> set ds)"
  by (induction buf arbitrary: ds) (auto simp: is_cstr_Cons split: if_splits)

text \<open>What is left of a string after its first token: \<open>None\<close> when no delimiter follows it.\<close>

definition after_token :: "string \<Rightarrow> string \<Rightarrow> string option" where
  "after_token ds s = (case dropWhile (\<lambda>c. c \<notin> set ds) s of [] \<Rightarrow> None | _ # r \<Rightarrow> Some r)"

abbreviation token :: "string \<Rightarrow> string \<Rightarrow> string" where
  "token ds s \<equiv> takeWhile (\<lambda>c. c \<notin> set ds) s"

lemma after_token_Nil [simp]: "after_token ds [] = None"
  by (simp add: after_token_def)

lemma after_token_Cons: "after_token ds (c # s) = (if c \<in> set ds then Some s else after_token ds s)"
  by (simp add: after_token_def)

lemma after_token_None: "after_token ds s = None \<Longrightarrow> token ds s = s"
  by (induction s) (auto simp: after_token_Cons split: if_splits)

lemma after_token_Some: "after_token ds s = Some r \<Longrightarrow> \<exists>d\<in>set ds. s = token ds s @ d # r"
  by (induction s) (auto simp: after_token_Cons split: if_splits)

lemma after_token_length: "after_token ds s = Some r \<Longrightarrow> length r < length s"
  by (induction s) (auto simp: after_token_Cons split: if_splits)

lemma strtok_scan_spec:
  assumes "is_cstr s2 ds" and "NUL \<notin> set s"
  shows "strtok_scan s2 (length pre) (pre @ s @ NUL # post) =
    (case after_token ds s of
       None \<Rightarrow> Some (pre @ s @ NUL # post, length pre + length s)
     | Some r \<Rightarrow> Some (pre @ token ds s @ NUL # r @ NUL # post, length pre + length (token ds s) + 1))"
  using assms(2)
proof (induction s arbitrary: pre)
  case Nil
  then show ?case by (subst strtok_scan.simps) simp
next
  case (Cons c s)
  show ?case
  proof (cases "c \<in> set ds")
    case True
    then show ?thesis using Cons.prems is_delim_cstr [OF assms(1)]
      by (subst strtok_scan.simps) (auto simp: after_token_Cons nth_append)
  next
    case False
    then have "strtok_scan s2 (length pre) (pre @ (c # s) @ NUL # post) =
        strtok_scan s2 (length (pre @ [c])) ((pre @ [c]) @ s @ NUL # post)"
      using Cons.prems is_delim_cstr [OF assms(1)] by (subst strtok_scan.simps) (auto simp: nth_append)
    with Cons.IH [of "pre @ [c]"] Cons.prems False show ?thesis
      by (simp add: after_token_Cons split: option.split)
  qed
qed

text \<open>The reference: the fields between delimiters, the empty ones too, but not a trailing empty one.\<close>

function fields :: "string \<Rightarrow> string \<Rightarrow> string list" where
  "fields ds s = token ds s #
     (case after_token ds s of None \<Rightarrow> [] | Some r \<Rightarrow> if r = [] then [] else fields ds r)"
  by pat_completeness auto

termination by (relation "measure (length \<circ> snd)") (auto dest: after_token_length)

declare fields.simps [simp del]


lemma str_at_cstr: "NUL \<notin> set s \<Longrightarrow> str_at (pre @ s @ NUL # post) (length pre) = s"
  by (simp add: str_at_def takeWhile_append)

lemma strtok_from_spec:
  assumes "is_cstr s2 ds" and "NUL \<notin> set s" and "tk_mem t = pre @ s @ NUL # post"
  shows "strtok_from s2 (length pre) t = Ret (Some (length pre),
    case after_token ds s of
      None \<Rightarrow> t\<lparr>tk_last := Some (length (pre @ s))\<rparr>
    | Some r \<Rightarrow> t\<lparr>tk_mem := (pre @ token ds s @ [NUL]) @ r @ NUL # post, tk_last := Some (length (pre @ token ds s @ [NUL]))\<rparr>)"
proof -
  have "t\<lparr>tk_mem := tk_mem t, tk_last := l\<rparr> = t\<lparr>tk_last := l\<rparr>" for l by simp
  with strtok_scan_spec [OF assms(1,2), of pre post] assms(3) show ?thesis
    by (simp add: strtok_from_def split: option.split)
qed

lemma strtok_next:
  assumes "tk_mem t = pre @ s @ NUL # post" and "NUL \<notin> set s" and "tk_last t = Some (length pre)"
  shows "strtok None s2 t = (if s = [] then Ret (None, t) else strtok_from s2 (length pre) t)"
  using assms by (cases s) (auto simp: strtok_def run_simps deref_def nth_append)

text \<open>One token of a string and the rest of the caller's loop. The memory before the string is kept,
  and with it every token that ends there.\<close>

lemma strtok_run:
  assumes "is_cstr s2 ds" and "NUL \<notin> set s" and "tk_mem t = pre @ s @ NUL # post"
  shows "\<exists>qs t' m. bnd (strtok_from s2 (length pre)) (\<lambda>tok. loop (next_token s2) (tok, ps)) t = Ret (ps @ qs, t') \<and>
    tk_mem t' = pre @ m \<and> length m = Suc (length s + length post) \<and> map (str_at (tk_mem t')) qs = fields ds s"
  using assms(2-)
proof (induction "length s" arbitrary: s t pre ps rule: less_induct)
  case less
  have step: "loop (next_token s2) (Some p, ps) t = bnd (strtok None s2) (\<lambda>tok. loop (next_token s2) (tok, ps @ [p])) t" for p ps t
    by (subst loop_unfold) (auto simp: next_token_def run_simps split: outcome.split)
  have leave: "loop (next_token s2) (None, ps) t = Ret (ps, t)" for ps t
    by (subst loop_unfold) (simp add: next_token_def run_simps)
  note first_token = strtok_from_spec [OF assms(1) less.prems]
  show ?case
  proof (cases "after_token ds s")
    case None
    let ?t = "t\<lparr>tk_last := Some (length (pre @ s))\<rparr>"
    have "strtok None s2 ?t = Ret (None, ?t)" using strtok_next [of ?t "pre @ s" "[]" post s2] less.prems by simp
    moreover have "str_at (tk_mem ?t) (length pre) = s" using less.prems str_at_cstr [of s pre post] by simp
    moreover have "fields ds s = [s]" using None after_token_None [OF None] by (simp add: fields.simps [of ds s])
    ultimately show ?thesis using None first_token less.prems
      by (intro exI [of _ "[length pre]"] exI [of _ ?t] exI [of _ "s @ NUL # post"])
         (simp add: bnd_def step leave)
  next
    case (Some r)
    let ?a = "token ds s" let ?pre = "pre @ ?a @ [NUL]"
    let ?t = "t\<lparr>tk_mem := ?pre @ r @ NUL # post, tk_last := Some (length ?pre)\<rparr>"
    obtain d where s: "s = ?a @ d # r" using after_token_Some [OF Some] by blast
    have a: "NUL \<notin> set ?a" "NUL \<notin> set r" using less.prems(1) by (subst (asm) s, simp)+
    have len: "length s = length ?a + Suc (length r)" by (subst s) simp
    have first: "bnd (strtok_from s2 (length pre)) (\<lambda>tok. loop (next_token s2) (tok, ps)) t =
        bnd (strtok None s2) (\<lambda>tok. loop (next_token s2) (tok, ps @ [length pre])) ?t"
      using first_token Some by (simp add: bnd_def [of "strtok_from s2 (length pre)"] step)
    have at: "str_at (?pre @ m) (length pre) = ?a" for m using str_at_cstr [OF a(1), of pre m] by simp
    note tok = strtok_next [of ?t ?pre r post s2, OF _ a(2)]
    show ?thesis
    proof (cases "r = []")
      case True
      with tok have "strtok None s2 ?t = Ret (None, ?t)" by simp
      then show ?thesis using first True Some len at [of "NUL # post"]
        by (intro exI [of _ "[length pre]"] exI [of _ ?t] exI [of _ "?a @ NUL # NUL # post"])
           (simp add: fields.simps [of ds s] bnd_def [of "strtok None s2"] leave)
    next
      case False
      with tok have "strtok None s2 ?t = strtok_from s2 (length ?pre) ?t" by simp
      then have "bnd (strtok None s2) f ?t = bnd (strtok_from s2 (length ?pre)) f ?t" for f :: "nat option \<Rightarrow> (tokenizer, nat list) kernel"
        by (simp add: bnd_def)
      moreover obtain qs t' m where "bnd (strtok_from s2 (length ?pre)) (\<lambda>tok. loop (next_token s2) (tok, ps @ [length pre])) ?t
            = Ret ((ps @ [length pre]) @ qs, t')" and m: "tk_mem t' = ?pre @ m"
          "length m = Suc (length r + length post)" "map (str_at (tk_mem t')) qs = fields ds r"
        using less.hyps [of r ?t ?pre "ps @ [length pre]"] after_token_length [OF Some] a(2) by auto
      ultimately show ?thesis using first False Some len at [of m]
        by (intro exI [of _ "length pre # qs"] exI [of _ t'] exI [of _ "?a @ NUL # m"])
           (simp add: fields.simps [of ds s])
    qed
  qed
qed

section \<open>Properties\<close>

text \<open>
  \<open>strtok\<close>, called on a string and then until it returns no more tokens, returns and yields the
  fields between the delimiters, in order: an empty field between two adjacent delimiters or before
  a leading one is a token, an empty last field is not. It only cuts the string itself: the memory
  before it is kept.
\<close>

theorem strtok_fields:
  assumes "is_cstr s2 ds" and "NUL \<notin> set s" and "tk_mem t = pre @ s @ NUL # post"
  shows "\<exists>ps t' m. strtok_all (length pre) s2 t = Ret (ps, t') \<and> map (str_at (tk_mem t')) ps = fields ds s \<and>
    tk_mem t' = pre @ m \<and> length m = Suc (length s + length post)"
  using strtok_run [OF assms, of "[]"] by (auto simp: strtok_all_def strtok_def)

theorem strtok_fields_witness:
  "\<exists>ps t. strtok_all 1 [CHR '' '', NUL] \<lparr>tk_mem = ''>ps  | wc '' @ [NUL], tk_last = None\<rparr> = Ret (ps, t) \<and>
    map (str_at (tk_mem t)) ps = [''ps'', [], ''|'', ''wc'']"
  using strtok_fields [of "[CHR '' '', NUL]" "'' ''" "''ps  | wc ''" "\<lparr>tk_mem = ''>ps  | wc '' @ [NUL], tk_last = None\<rparr>" "''>''" "[]"]
  by (auto simp: is_cstr_def fields.simps after_token_def)

end
