(* ===== verification/Libc_Stdlib.thy ===== *)
theory Libc_Stdlib
  imports Libc_String Fonts "HOL-Library.Signed_Division"
begin

text \<open>
  The general utilities of the user library: src/TP2-SO-2025/Userland/libc/stdlib.c, and the helpers
  of the test programs in src/TP2-SO-2025/Userland/Shell/commands/test_util.c. A C \<open>int\<close> is kept as a
  word of 32 bits where it may overflow (the compiled code wraps); its signed reading is the value.
  Signed division and remainder truncate, as \<open>sdiv\<close> and \<open>smod\<close> do.
\<close>

type_synonym s32 = "32 word"
type_synonym s64 = "64 word"

section \<open>Pseudo-random numbers\<close>

text \<open>\<open>unsigned long\<close> is 64 bits wide on the target. The quotient is cut to \<open>unsigned int\<close>.\<close>

definition rand :: "u64 \<Rightarrow> nat \<times> u64" where
  "rand next =
     (let next = next * 1103515245 + 12345 in
      (unat (ucast (next div 65536) :: u32) mod 32768, next))"

definition srand :: "u32 \<Rightarrow> u64" where
  "srand seed = ucast seed"

section \<open>Numbers and strings\<close>

fun skip_blanks :: "char list \<Rightarrow> char list" where
  "skip_blanks [] = []"
| "skip_blanks (c # cs) = (if c = CHR '' '' \<or> c = CHR 0x09 \<or> c = CHR 0x0A then skip_blanks cs else c # cs)"

fun atoi_digits :: "s32 \<Rightarrow> char list \<Rightarrow> s32 option" where
  "atoi_digits result [] = None"
| "atoi_digits result (c # cs) =
     (if 48 \<le> schar c \<and> schar c \<le> 57
      then atoi_digits (result * 10 + word_of_int (schar c - 48)) cs
      else Some result)"

definition atoi :: "char list \<Rightarrow> int option" where
  "atoi str =
     (case skip_blanks str of
        [] \<Rightarrow> None
      | c # cs \<Rightarrow>
          if c = CHR ''-'' then map_option (\<lambda>result. sint (- 1 * result)) (atoi_digits 0 cs)
          else if c = CHR ''+'' then map_option (\<lambda>result. sint (1 * result)) (atoi_digits 0 cs)
          else map_option (\<lambda>result. sint (1 * result)) (atoi_digits 0 (c # cs)))"

text \<open>The digit loop of \<open>itoa\<close>: the buffer and the position after the last digit. The base is at
  least 2 there.\<close>

definition itoa_char :: "int \<Rightarrow> char" where
  "itoa_char tmp_value = char_of (if tmp_value < 10 then tmp_value + 48 else tmp_value - 10 + 97)"

lemma abs_sdiv_less: "value \<noteq> 0 \<Longrightarrow> 2 \<le> b \<Longrightarrow> \<bar>value sdiv b\<bar> < \<bar>value :: int\<bar>"
proof -
  assume v: "value \<noteq> 0" and b: "2 \<le> b"
  then have "\<bar>value sdiv b\<bar> = \<bar>value\<bar> div b"
    by (auto simp: signed_divide_int_def abs_mult sgn_if pos_imp_zdiv_nonneg_iff)
  moreover have "\<bar>value\<bar> div b < \<bar>value\<bar>" using v b by (intro int_div_less_self) auto
  ultimately show ?thesis by simp
qed

function itoa_digits :: "int \<Rightarrow> int \<Rightarrow> nat \<Rightarrow> char list \<Rightarrow> (nat \<times> char list) option" where
  "itoa_digits b value ptr str =
     (if value = 0 \<or> b < 2 then Some (ptr, str)
      else case put_byte str ptr (itoa_char (value smod b)) of
          None \<Rightarrow> None
        | Some str' \<Rightarrow> itoa_digits b (value sdiv b) (ptr + 1) str')"
  by pat_completeness auto

termination by (relation "measure (\<lambda>(b, value, ptr, str). nat \<bar>value\<bar>)") (auto simp: abs_sdiv_less)

declare itoa_digits.simps [simp del]

text \<open>The inner \<open>None\<close> is a null result or argument, the outer one a store beyond the buffer.\<close>

definition itoa :: "s32 \<Rightarrow> char list option \<Rightarrow> int \<Rightarrow> char list option option" where
  "itoa value str b =
     (case str of None \<Rightarrow> Some None
      | Some buf \<Rightarrow>
          if b < 2 \<or> 36 < b then Some None
          else if value = 0 then
            (case put_byte buf 0 (CHR ''0'') of None \<Rightarrow> None
             | Some buf \<Rightarrow> map_option Some (put_byte buf 1 NUL))
          else
            let is_negative = (sint value < 0 \<and> b = 10);
                value = (if is_negative then - value else value) in
            case itoa_digits b (sint value) 0 buf of None \<Rightarrow> None
            | Some (ptr, buf) \<Rightarrow>
                (case (if is_negative then map_option (Pair (ptr + 1)) (put_byte buf ptr (CHR ''-'')) else Some (ptr, buf)) of
                   None \<Rightarrow> None
                 | Some (ptr, buf) \<Rightarrow>
                     (case put_byte buf ptr NUL of None \<Rightarrow> None
                      | Some buf \<Rightarrow> Some (Some (reverse_in_place 0 (ptr - 1) buf)))))"

section \<open>Memory blocks and statistics\<close>

definition memset_libc :: "addr \<Rightarrow> int \<Rightarrow> nat \<Rightarrow> bytes \<Rightarrow> bytes" where
  "memset_libc destination c n b = memset destination c n b"

definition memcpy_libc :: "addr \<Rightarrow> addr \<Rightarrow> nat \<Rightarrow> bytes \<Rightarrow> bytes" where
  "memcpy_libc destination source n b =
     (if destination mod 4 = 0 \<and> source mod 4 = 0 \<and> n mod 4 = 0
      then copy_words (n div 4) 0 destination source b
      else copy_bytes n 0 destination source b)"

definition get_free_bytes :: int where "get_free_bytes = 0"

definition get_used_bytes :: int where "get_used_bytes = 0"

definition get_total_bytes :: int where "get_total_bytes = 0"

section \<open>The helpers of the test programs\<close>

definition GetUint :: "u32 \<times> u32 \<Rightarrow> u32 \<times> u32 \<times> u32" where
  "GetUint m = (case m of (m_z, m_w) \<Rightarrow>
     let m_z = 36969 * (m_z AND 65535) + drop_bit 16 m_z;
         m_w = 18000 * (m_w AND 65535) + drop_bit 16 m_w in
     (push_bit 16 m_z + m_w, m_z, m_w))"

fun memcheck :: "bytes \<Rightarrow> addr \<Rightarrow> u8 \<Rightarrow> nat \<Rightarrow> bool" where
  "memcheck b p value 0 = True"
| "memcheck b p value (Suc n) = (if b p \<noteq> value then False else memcheck b (p + 1) value n)"

fun satoi_digits :: "s64 \<Rightarrow> char list \<Rightarrow> s64 option option" where
  "satoi_digits res [] = None"
| "satoi_digits res (c # cs) =
     (if c = NUL then Some (Some res)
      else if schar c < 48 \<or> 57 < schar c then Some None
      else satoi_digits (res * 10 + word_of_int (schar c) - 48) cs)"

definition satoi :: "char list option \<Rightarrow> int option" where
  "satoi str =
     (case str of None \<Rightarrow> Some 0
      | Some [] \<Rightarrow> None
      | Some (c # cs) \<Rightarrow>
          let (sign, ds) = (if c = CHR ''-'' then (- 1, cs) else (1, c # cs)) in
          map_option (\<lambda>r. case r of None \<Rightarrow> 0 | Some res \<Rightarrow> sint (res * sign)) (satoi_digits 0 ds))"

section \<open>Facts about pseudo-random numbers\<close>

text \<open>The generator the comment of the source assumes, with a state of 32 bits.\<close>

definition rand32 :: "u32 \<Rightarrow> nat \<times> u32" where
  "rand32 next = (let next = next * 1103515245 + 12345 in (unat (next div 65536) mod 32768, next))"

fun rands :: "('a \<Rightarrow> nat \<times> 'a) \<Rightarrow> nat \<Rightarrow> 'a \<Rightarrow> nat list" where
  "rands f 0 s = []"
| "rands f (Suc k) s = (case f s of (x, s') \<Rightarrow> x # rands f k s')"

lemma unat_ucast32: "unat (ucast (x :: u64) :: u32) = unat x mod 2 ^ 32"
  by (simp add: unsigned_ucast_eq take_bit_eq_mod)

lemma rand_bits: "(x div 65536 mod 2 ^ 32) mod 32768 = (x mod 2 ^ 32 div 65536) mod (32768 :: nat)"
proof -
  have "x mod 2 ^ 32 div 65536 = x div 65536 mod 65536" using mod_mult2_eq [of x 65536 65536] by simp
  then show ?thesis by (simp add: mod_mod_cancel)
qed

lemma rand_step: "ucast n = m \<Longrightarrow> fst (rand n) = fst (rand32 m) \<and> ucast (snd (rand n)) = snd (rand32 m)"
proof -
  assume m: "ucast n = m"
  let ?n = "n * 1103515245 + 12345" let ?m = "m * 1103515245 + 12345"
  have "ucast ?n = ?m" unfolding m [symmetric] 
    by (transfer, simp only: take_bit_eq_mod)
       (auto simp: mod_mod_cancel intro!: mod_add_cong mod_mult_cong)
  moreover from this have "unat ?m = unat ?n mod 2 ^ 32" using unat_ucast32 [of ?n] by simp
  ultimately show ?thesis unfolding rand_def rand32_def Let_def fst_conv snd_conv
    by (simp add: unat_ucast32 unat_div rand_bits del: power_numeral)
qed

section \<open>Facts about numbers and strings\<close>

lemma num_len_le: "num_len n \<le> k \<longleftrightarrow> n < 10 ^ k"
proof (induction k arbitrary: n)
  case 0
  then show ?case by (simp add: num_len.simps [of n])
next
  case (Suc k)
  show ?case using Suc [of "n div 10"] by (subst num_len.simps) (auto simp: div_less_iff_less_mult)
qed

lemma char_of_int: "(char_of (int k) :: char) = char_of k"
proof (rule of_char_eqI [where 'a = int])
  show "(of_char (char_of (int k) :: char) :: int) = of_char (char_of k :: char)"
    using of_nat_of_char [of "char_of k :: char", where 'a = int] by (simp add: zmod_int)
qed

lemma itoa_digits_spec:
  "num_len n \<le> length rest \<Longrightarrow> itoa_digits 10 (int n) (length pre) (pre @ rest) =
     Some (length pre + num_len n, pre @ rev (digits n) @ drop (num_len n) rest)"
proof (induction n arbitrary: pre rest rule: digits.induct)
  case (1 n)
  show ?case
  proof (cases "n = 0")
    case True
    then show ?thesis by (simp add: itoa_digits.simps num_len.simps digits.simps)
  next
    case False
    then have len: "num_len n = Suc (num_len (n div 10))" by (subst num_len.simps) simp
    with "1.prems" obtain x xs where rest: "rest = x # xs" by (cases rest) auto
    let ?d = "char_of (48 + n mod 10) :: char"
    have ops: "int n sdiv 10 = int (n div 10)" "int n smod 10 = int (n mod 10)"
      using False by (simp_all add: signed_divide_int_def signed_modulo_int_def zdiv_int zmod_int minus_div_mult_eq_mod [symmetric])
    have "n mod 10 < 10" by simp
    then have d: "itoa_char (int (n mod 10)) = ?d"
      using char_of_int [of "48 + n mod 10"] by (simp add: itoa_char_def add.commute)
    have "itoa_digits 10 (int (n div 10)) (length (pre @ [?d])) ((pre @ [?d]) @ xs) =
        Some (length (pre @ [?d]) + num_len (n div 10), (pre @ [?d]) @ rev (digits (n div 10)) @ drop (num_len (n div 10)) xs)"
      by (rule "1.IH") (use False "1.prems" len rest in auto)
    then show ?thesis using False len rest ops d
      by (subst itoa_digits.simps, subst digits.simps) (simp add: put_byte_def)
  qed
qed

lemma schar_digit: "is_digit c \<Longrightarrow> schar c = int (of_char c)"
  by (auto simp: is_digit_def schar_def of_nat_of_char [symmetric, where 'a = int])

lemma atoi_digits_spec:
  assumes "\<forall>c\<in>set s. is_digit c"
  shows "atoi_digits r (s @ NUL # rest) = Some (foldl (\<lambda>r c. r * 10 + word_of_int (schar c - 48)) r s)"
  using assms
proof (induction s arbitrary: r)
  case (Cons c s)
  then have "48 \<le> schar c \<and> schar c \<le> 57" using schar_digit [of c] by (auto simp: is_digit_def)
  with Cons show ?case by simp
qed simp

lemma atoi_value:
  "\<forall>c\<in>set s. is_digit c \<Longrightarrow> foldl (\<lambda>r c. r * 10 + word_of_int (schar c - 48)) 0 s = (of_nat (dec_value s) :: 'a::len word)"
proof (induction s rule: rev_induct)
  case (snoc c s)
  then have "schar c - 48 = int (of_char c - 48)" using schar_digit [of c] by (auto simp: is_digit_def)
  then have "word_of_int (schar c - 48) = (of_nat (of_char c - 48) :: 'a word)" by (simp only: of_int_of_nat_eq)
  with snoc show ?case by (simp add: dec_value_def del: of_int_diff)
qed (simp add: dec_value_def)


text \<open>The string a decimal conversion leaves in the buffer.\<close>

definition sdec :: "int \<Rightarrow> string" where
  "sdec v = (if v < 0 then CHR ''-'' # digits (nat (- v)) else dec (nat v))"

lemma itoa_dec:
  assumes "sint value \<noteq> - (2 ^ 31)" and "length (sdec (sint value)) < length buf"
  shows "itoa value (Some buf) 10 =
    Some (Some (sdec (sint value) @ NUL # drop (length (sdec (sint value)) + 1) buf))"
proof (cases "value = 0")
  case True
  then obtain x y zs where "buf = x # y # zs" using assms(2)
    by (cases buf; cases "tl buf") (auto simp: sdec_def dec_def)
  with True show ?thesis by (simp add: itoa_def put_byte_def sdec_def dec_def)
next
  case False
  let ?v = "sint value" let ?n = "nat \<bar>?v\<bar>" let ?neg = "?v < 0"
  have v: "?v \<noteq> 0" using False by (simp add: signed_eq_0_iff)
  have bounds: "- (2 ^ 31) < ?v" "?v < 2 ^ 31" using sint_range_size [of "value"] assms(1) by (auto simp: word_size)
  have n: "sint (if ?neg then - value else value) = int ?n"
  proof (cases ?neg)
    case True
    have "sint (- value) = - ?v" using bounds by (subst sint_word_ariths) (simp add: signed_take_bit_int_eq_self)
    with True show ?thesis by simp
  qed simp
  have s: "sdec ?v = (if ?neg then CHR ''-'' # digits ?n else digits ?n)" using v by (auto simp: sdec_def dec_def)
  have "num_len ?n \<le> length buf" using assms(2) s by (auto simp: length_digits split: if_splits)
  from itoa_digits_spec [OF this, of "[]"] n
  have ds: "itoa_digits 10 (sint (if ?neg then - value else value)) 0 buf =
      Some (num_len ?n, rev (digits ?n) @ drop (num_len ?n) buf)" by simp
  have rest: "drop (num_len ?n) buf = (if ?neg then buf ! num_len ?n # buf ! Suc (num_len ?n) # drop (num_len ?n + 2) buf
      else buf ! num_len ?n # drop (num_len ?n + 1) buf)"
    using assms(2) s by (auto simp: Cons_nth_drop_Suc length_digits split: if_splits)
  have ne: "digits ?n \<noteq> []" using v by (subst digits.simps) simp
  show ?thesis
  proof (cases ?neg)
    case True
    have "reverse_in_place 0 (num_len ?n) (rev (digits ?n) @ CHR ''-'' # NUL # drop (num_len ?n + 2) buf) =
        CHR ''-'' # digits ?n @ NUL # drop (num_len ?n + 2) buf"
      using reverse_in_place_rev [of "rev (digits ?n) @ ''-''" "NUL # drop (num_len ?n + 2) buf"] by (simp add: length_digits)
    then show ?thesis using True ds rest s False
      by (simp add: itoa_def put_byte_def length_digits [symmetric] list_update_append)
  next
    case neg: False
    have "reverse_in_place 0 (num_len ?n - 1) (rev (digits ?n) @ NUL # drop (num_len ?n + 1) buf) =
        digits ?n @ NUL # drop (num_len ?n + 1) buf"
      using reverse_in_place_rev [of "rev (digits ?n)" "NUL # drop (num_len ?n + 1) buf"] ne by (simp add: length_digits)
    then show ?thesis using neg ds rest s False
      by (simp add: itoa_def put_byte_def length_digits [symmetric] list_update_append)
  qed
qed

lemma is_digit_not: "is_digit c \<Longrightarrow> c \<notin> set ['' '' ! 0, CHR 0x09, CHR 0x0A, CHR ''-'', CHR ''+'', NUL]"
  by (auto simp: is_digit_def)

lemma atoi_dec: "atoi_digits 0 (dec n @ NUL # rest) = Some (of_nat n)" "atoi_digits 0 (digits n @ NUL # rest) = Some (of_nat n)"
  using atoi_digits_spec [of "dec n" 0 rest] atoi_value [of "dec n"] dec_is_digit [of _ n] dec_value_dec [of n]
    atoi_digits_spec [of "digits n" 0 rest] atoi_value [of "digits n"] digits_is_digit [of _ n] dec_value_digits [of n]
  by auto

lemma sint_of_int: "- (2 ^ 31) \<le> v \<Longrightarrow> v < 2 ^ 31 \<Longrightarrow> sint (word_of_int v :: s32) = v"
  by (simp add: signed_of_int signed_take_bit_int_eq_self)

lemma atoi_sdec:
  assumes "- (2 ^ 31) \<le> v" and "v < 2 ^ 31"
  shows "atoi (sdec v @ NUL # rest) = Some v"
proof (cases "v < 0")
  case True
  then have "- 1 * (of_nat (nat (- v)) :: s32) = word_of_int v" by simp
  with True sint_of_int [OF assms] show ?thesis by (simp add: sdec_def atoi_def atoi_dec)
next
  case False
  obtain c cs where d: "dec (nat v) = c # cs"
    by (cases "dec (nat v)") (auto simp: dec_def digits.simps [of "nat v"] split: if_splits)
  have "is_digit c" using dec_is_digit [of c "nat v"] d by simp
  then have c: "c \<noteq> CHR '' ''" "c \<noteq> CHR 0x09" "c \<noteq> CHR 0x0A" "c \<noteq> CHR ''-''" "c \<noteq> CHR ''+''"
    using is_digit_not [of c] by auto
  have "atoi_digits 0 (c # cs @ NUL # rest) = Some (of_nat (nat v))" using atoi_dec(1) [of "nat v" rest] d by simp
  with c d False sint_of_int [OF assms] show ?thesis by (simp add: sdec_def atoi_def)
qed

lemma satoi_digits_spec:
  assumes "\<forall>c\<in>set s. is_digit c"
  shows "satoi_digits r (s @ NUL # rest) = Some (Some (foldl (\<lambda>r c. r * 10 + word_of_int (schar c - 48)) r s))"
  using assms
proof (induction s arbitrary: r)
  case (Cons c s)
  then have "48 \<le> schar c \<and> schar c \<le> 57" using schar_digit [of c] by (auto simp: is_digit_def)
  moreover have "c \<noteq> NUL" using Cons.prems is_digit_not [of c] by auto
  ultimately show ?case using Cons by (simp add: algebra_simps)
qed simp

lemma satoi_dec: "satoi_digits 0 (dec n @ NUL # rest) = Some (Some (of_nat n))" "satoi_digits 0 (digits n @ NUL # rest) = Some (Some (of_nat n))"
  using satoi_digits_spec [of "dec n" 0 rest] atoi_value [of "dec n", where 'a = 64] dec_is_digit [of _ n] dec_value_dec [of n]
    satoi_digits_spec [of "digits n" 0 rest] atoi_value [of "digits n", where 'a = 64] digits_is_digit [of _ n] dec_value_digits [of n]
  by auto

lemma satoi_sdec:
  assumes "- (2 ^ 63) \<le> v" and "v < 2 ^ 63"
  shows "satoi (Some (sdec v @ NUL # rest)) = Some v"
proof -
  have s: "sint (word_of_int v :: s64) = v" using assms by (simp add: signed_of_int signed_take_bit_int_eq_self)
  show ?thesis
  proof (cases "v < 0")
    case True
    then have "(of_nat (nat (- v)) :: s64) * - 1 = word_of_int v" by simp
    with True s show ?thesis by (simp add: sdec_def satoi_def satoi_dec)
  next
    case False
    obtain c cs where d: "dec (nat v) = c # cs"
      by (cases "dec (nat v)") (auto simp: dec_def digits.simps [of "nat v"] split: if_splits)
    have "c \<noteq> CHR ''-''" using dec_is_digit [of c "nat v"] is_digit_not [of c] d by auto
    moreover have "satoi_digits 0 (c # cs @ NUL # rest) = Some (Some (of_nat (nat v)))" using satoi_dec(1) [of "nat v" rest] d by simp
    ultimately show ?thesis using d False s by (simp add: sdec_def satoi_def)
  qed
qed

lemma sdec_length:
  assumes "- (2 ^ 31) < v" and "v < 2 ^ 31"
  shows "length (sdec v) \<le> 11"
proof -
  have "nat v < 10 ^ 10" "nat (- v) < 10 ^ 10" using assms by auto
  then show ?thesis using num_len_le [of "nat v" 10] num_len_le [of "nat (- v)" 10]
    by (auto simp: sdec_def dec_def length_digits)
qed

lemma sdec_no_NUL: "NUL \<notin> set (sdec v)"
  by (auto simp: sdec_def dec_no_NUL digits_no_NUL)

section \<open>Properties\<close>

text \<open>
  C34. A decimal conversion and back: for every \<open>int\<close> but the least one, \<open>itoa\<close> into a buffer of twelve
  bytes or more returns, leaves a terminated string at its start and the bytes after it alone, and
  \<open>atoi\<close> of the buffer is the number again.
\<close>

theorem atoi_itoa:
  assumes "sint v \<noteq> - (2 ^ 31)" and "12 \<le> length buf"
  shows "\<exists>d s. itoa v (Some buf) 10 = Some (Some d) \<and> is_cstr d s \<and> length d = length buf \<and>
    drop 12 d = drop 12 buf \<and> atoi d = Some (sint v)"
proof -
  let ?s = "sdec (sint v)"
  have b: "- (2 ^ 31) \<le> sint v" "sint v < 2 ^ 31" using sint_range_size [of v] by (auto simp: word_size)
  then have len: "length ?s \<le> 11" using assms(1) by (intro sdec_length) auto
  have "length (?s @ NUL # drop (length ?s + 1) buf) = length buf"
    "drop 12 (?s @ NUL # drop (length ?s + 1) buf) = drop 12 buf"
    using len assms(2) by (auto simp: drop_Cons')
  then show ?thesis
    using itoa_dec [OF assms(1), of buf] len assms(2) atoi_sdec [OF b] sdec_no_NUL [of "sint v"]
    by (intro exI [of _ "?s @ NUL # drop (length ?s + 1) buf"] exI [of _ ?s]) (auto simp: is_cstr_def)
qed

theorem atoi_itoa_witness:
  "\<exists>d. itoa (- 407) (Some (replicate 12 NUL)) 10 = Some (Some d) \<and> atoi d = Some (- 407)"
  using atoi_itoa [of "- 407" "replicate 12 NUL"] by auto

text \<open>
  The least \<open>int\<close> has no positive counterpart, and a negative number in another base is never
  negated: the remainders are then negative, and the characters stored are not digits.
\<close>

theorem itoa_negative:
  "itoa 0x80000000 (Some (replicate 12 NUL)) 10 = Some (Some (''-./,),(-*,('' @ [NUL])) \<and>
   itoa (- 1) (Some (replicate 2 NUL)) 16 = Some (Some (''/'' @ [NUL]))"
  by code_simp

text \<open>
  The state of the generator is wider than the comment assumes, and it does not matter: from the same
  seed it produces for ever the numbers of the generator with a state of 32 bits, all of them below
  32768.
\<close>

theorem rand_sequence:
  "rands rand k (srand seed) = rands rand32 k seed \<and> list_all (\<lambda>x. x < 32768) (rands rand k (srand seed))"
proof -
  have "rands rand k n = rands rand32 k m" if "ucast n = m" for n m
    using that rand_step
    by (induction k arbitrary: n m) (simp_all add: case_prod_beta)
  moreover have "list_all (\<lambda>x. x < 32768) (rands rand k n)" for n
    by (induction k arbitrary: n) (simp_all add: rand_def Let_def)
  moreover have "ucast (srand seed) = seed" unfolding srand_def by (transfer, simp)
  ultimately show ?thesis by blast
qed

end
