(* ===== verification/Libc_Stdio.thy ===== *)
theory Libc_Stdio
  imports Libc_Stdlib
begin

text \<open>
  The input and output of the user library: src/TP2-SO-2025/Userland/libc/stdio.c, \<open>perror\<close> of
  string.c and src/TP2-SO-2025/Userland/libsys/ansiColors.c, with \<open>ANSI_4_BIT_COLOR_SUPPORT\<close> defined as
  in src/TP2-SO-2025/Userland/Makefile.inc. The library ignores the result of every output system
  call, so the effect of a program on the outside is the sequence of its calls, \<open>calls\<close>. What
  \<open>sys_read\<close> will answer is \<open>answers\<close>; a program that reads past the last answer is blocked for ever.
\<close>

section \<open>System calls of a user program\<close>

datatype call =
    Write int string
  | TextColor u32
  | BackgroundColor u32
  | ClearScreen
  | Block int
  | Kill int
  | Priority int int
  | Sleep u32
  | Yield
  | Shutdown
  | FontIncrease
  | FontDecrease
  | Create string "string list" int "int list" bool
  | WaitPid int
  | PipeOpen
  | PipeClose int

datatype answer = Failed | End | Byte u8

record user_io =
  answers :: "answer list"
  calls :: "call list"

definition syscall :: "call \<Rightarrow> (user_io, unit) kernel" where
  "syscall c = upd (\<lambda>s. s\<lparr>calls := calls s @ [c]\<rparr>)"

definition sys_write_user :: "int \<Rightarrow> string \<Rightarrow> (user_io, unit) kernel" where
  "sys_write_user fd s = syscall (Write fd s)"

definition FD_STDOUT :: int where "FD_STDOUT = 1"

definition FD_STDERR :: int where "FD_STDERR = 2"

definition EOF :: int where "EOF = - 1"

text \<open>One byte of a string or buffer, and a library routine on buffers.\<close>

definition char_at :: "char list \<Rightarrow> nat \<Rightarrow> ('s, char) kernel" where
  "char_at str i = (if i < length str then ret (str ! i) else halt Fault)"

definition of_opt :: "'a option \<Rightarrow> ('s, 'a) kernel" where
  "of_opt x = (case x of None \<Rightarrow> halt Fault | Some y \<Rightarrow> ret y)"

section \<open>Escape sequences\<close>

definition ansi_color :: "u8 \<Rightarrow> u32 option" where
  "ansi_color prop = map_of
     [(30, 0x000000), (31, 0xDE382B), (32, 0x39B54A), (33, 0xFFC706), (34, 0x006FB8), (35, 0x762671),
      (36, 0x2CB5E9), (37, 0xCCCCCC), (90, 0x808080), (91, 0xFF0000), (92, 0x00FF00), (93, 0xFFFF00),
      (94, 0x0000FF), (95, 0xFF00FF), (96, 0x00FFFF), (97, 0xFFFFFF)] prop"

definition setANSIProp :: "u8 \<Rightarrow> (user_io, unit) kernel" where
  "setANSIProp prop =
     (let background = (40 \<le> prop \<and> prop \<le> 47 \<or> 100 \<le> prop \<and> prop \<le> 107);
          prop = (if background then prop - 10 else prop) in
      if prop = 0 then sq (syscall (TextColor 0xFFFFFF)) (syscall (BackgroundColor 0x000000))
      else case ansi_color prop of
          None \<Rightarrow> ret ()
        | Some c \<Rightarrow> syscall (if background then BackgroundColor c else TextColor c))"

definition ansi_step :: "char list \<Rightarrow> nat \<times> u8 \<Rightarrow> (user_io, (nat \<times> u8) + nat) kernel" where
  "ansi_step str a = (case a of (i, prop) \<Rightarrow>
     bnd (char_at str i) (\<lambda>c.
     bnd (if c = CHR '';'' \<or> c = CHR ''m''
          then sq (setANSIProp prop) (ret 0)
          else ret (prop * 10 + word_of_int (schar c - 48))) (\<lambda>prop.
     ret (if c \<noteq> CHR ''m'' then Inl (i + 1, prop) else Inr (i + 1)))))"

text \<open>The position after the escape sequence; the position itself when it is none.\<close>

definition parseANSI :: "char list \<Rightarrow> nat \<Rightarrow> (user_io, nat) kernel" where
  "parseANSI str i =
     bnd (char_at str (i + 1)) (\<lambda>c.
     if c \<noteq> CHR ''['' then ret i
     else bnd (char_at str (i + 2)) (\<lambda>c.
       if c = NUL then ret i else loop (ansi_step str) (i + 2, 0)))"

section \<open>Formatted output\<close>

text \<open>A variable argument: a number of up to 64 bits or a string. Fetching an argument that was not
  passed, or was passed as something else, is undefined and stops the model.\<close>

datatype vararg = Num u64 | Str "char list"

definition va_num :: "vararg list \<Rightarrow> ('s, u64 \<times> vararg list) kernel" where
  "va_num args = (case args of Num n # rest \<Rightarrow> ret (n, rest) | _ \<Rightarrow> halt Fault)"

definition va_str :: "vararg list \<Rightarrow> ('s, char list \<times> vararg list) kernel" where
  "va_str args = (case args of Str s # rest \<Rightarrow> ret (s, rest) | _ \<Rightarrow> halt Fault)"

text \<open>The number is written to the static buffer of 64 bytes and from there to the descriptor.\<close>

definition print_value :: "int \<Rightarrow> u64 \<Rightarrow> nat \<Rightarrow> (user_io, unit) kernel" where
  "print_value fd value b =
     bnd (of_opt (uintToBase 64 (unat value) b)) (\<lambda>(str, n).
     bnd (of_opt (strlen_libc str)) (\<lambda>len. sys_write_user fd (take len str)))"

definition printBase_user :: "int \<Rightarrow> s32 \<Rightarrow> nat \<Rightarrow> (user_io, unit) kernel" where
  "printBase_user fd num b =
     (if sint num < 0 then sq (sys_write_user fd ''-'') (print_value fd (scast (- num)) b)
      else print_value fd (scast num) b)"

definition printLongBase :: "int \<Rightarrow> s64 \<Rightarrow> nat \<Rightarrow> (user_io, unit) kernel" where
  "printLongBase fd num b =
     (if sint num < 0 then
        sq (sys_write_user fd ''-'')
           (print_value fd (if num = 0x8000000000000000 then 9223372036854775808 else - num) b)
      else print_value fd num b)"

definition printUnsignedLongBase :: "int \<Rightarrow> u64 \<Rightarrow> nat \<Rightarrow> (user_io, unit) kernel" where
  "printUnsignedLongBase fd num b = print_value fd num b"

text \<open>The conversion after a percent sign at position \<open>i\<close>: the arguments left and the position of
  its last character. \<open>fprintf\<close> of a string argument is the parameter \<open>fp\<close>.\<close>

definition conversion ::
  "(char list \<Rightarrow> (user_io, unit) kernel) \<Rightarrow> int \<Rightarrow> char list \<Rightarrow> nat \<Rightarrow> vararg list \<Rightarrow> (user_io, nat \<times> vararg list) kernel" where
  "conversion fp fd format i args =
     bnd (char_at format i) (\<lambda>c.
     if c = CHR ''x'' then bnd (va_num args) (\<lambda>(n, rest). sq (printBase_user fd (ucast n) 16) (ret (i, rest)))
     else if c = CHR ''d'' then bnd (va_num args) (\<lambda>(n, rest). sq (printBase_user fd (ucast n) 10) (ret (i, rest)))
     else if c = CHR ''o'' then bnd (va_num args) (\<lambda>(n, rest). sq (printBase_user fd (ucast n) 8) (ret (i, rest)))
     else if c = CHR ''b'' then bnd (va_num args) (\<lambda>(n, rest). sq (printBase_user fd (ucast n) 2) (ret (i, rest)))
     else if c = CHR ''l'' then
       bnd (char_at format (i + 1)) (\<lambda>c.
       if c = CHR ''d'' then bnd (va_num args) (\<lambda>(n, rest). sq (printLongBase fd n 10) (ret (i + 1, rest)))
       else if c = CHR ''u'' then bnd (va_num args) (\<lambda>(n, rest). sq (printUnsignedLongBase fd n 10) (ret (i + 1, rest)))
       else if c = CHR ''x'' then bnd (va_num args) (\<lambda>(n, rest). sq (printUnsignedLongBase fd n 16) (ret (i + 1, rest)))
       else sq (sys_write_user fd ''l'') (ret (i, args)))
     else if c = CHR ''c'' then
       bnd (va_num args) (\<lambda>(n, rest). sq (sys_write_user fd [char_of (unat n)]) (ret (i, rest)))
     else if c = CHR ''s'' then bnd (va_str args) (\<lambda>(s, rest). sq (fp s) (ret (i, rest)))
     else if c = CHR ''%'' then sq (sys_write_user fd ''%'') (ret (i, args))
     else ret (i, args))"

definition print_step ::
  "(char list \<Rightarrow> (user_io, unit) kernel) \<Rightarrow> int \<Rightarrow> char list \<Rightarrow> nat \<times> vararg list \<Rightarrow> (user_io, (nat \<times> vararg list) + unit) kernel" where
  "print_step fp fd format a = (case a of (i, args) \<Rightarrow>
     bnd (char_at format i) (\<lambda>c.
     if c = NUL then ret (Inr ())
     else if c = CHR 0x1B then
       sq (sys_write_user fd []) (bnd (parseANSI format i) (\<lambda>i. ret (Inl (i, args))))
     else if c = CHR ''%'' then
       bnd (conversion fp fd format (i + 1) args) (\<lambda>(i, args). ret (Inl (i + 1, args)))
     else sq (sys_write_user fd [c]) (ret (Inl (i + 1, args)))))"

text \<open>
  \<open>fprintf\<close> of a string argument passes no arguments on, so a conversion inside it that needs one
  stops the model before any deeper call: two levels are all there are.
\<close>

definition print_plain :: "int \<Rightarrow> char list \<Rightarrow> (user_io, unit) kernel" where
  "print_plain fd format = loop (print_step (\<lambda>_. halt Fault) fd format) (0, [])"

definition vfprintf :: "int \<Rightarrow> char list \<Rightarrow> vararg list \<Rightarrow> (user_io, unit) kernel" where
  "vfprintf fd format args = loop (print_step (print_plain fd) fd format) (0, args)"

definition fprintf :: "int \<Rightarrow> char list \<Rightarrow> vararg list \<Rightarrow> (user_io, unit) kernel" where
  "fprintf fd str args = vfprintf fd str args"

definition printf :: "char list \<Rightarrow> vararg list \<Rightarrow> (user_io, unit) kernel" where
  "printf format args = vfprintf FD_STDOUT format args"

definition puts :: "char list \<Rightarrow> (user_io, unit) kernel" where
  "puts str = sq (printf str []) (printf [CHR 0x0A, NUL] [])"

definition perror :: "char list \<Rightarrow> (user_io, unit) kernel" where
  "perror s1 = fprintf FD_STDERR s1 []"

definition putchar :: "char \<Rightarrow> (user_io, unit) kernel" where
  "putchar c = sys_write_user FD_STDOUT [c]"

section \<open>Input\<close>

definition sys_read_user :: "(user_io, answer) kernel" where
  "sys_read_user = (\<lambda>s. case answers s of [] \<Rightarrow> Stop Diverge | a # as \<Rightarrow> Ret (a, s\<lparr>answers := as\<rparr>))"

definition getchar :: "(user_io, int) kernel" where
  "getchar = loop (\<lambda>_. bnd sys_read_user (\<lambda>a. case a of
       Failed \<Rightarrow> ret (Inl ())
     | End \<Rightarrow> ret (Inr EOF)
     | Byte c \<Rightarrow> ret (Inr (uint c)))) ()"

text \<open>The variables a scanning call stores to.\<close>

datatype target = IntVar s32 | CharVar char | StrVar "char list"

definition put_target :: "nat \<Rightarrow> target \<Rightarrow> target list \<Rightarrow> ('s, target list) kernel" where
  "put_target k v ts = (if k < length ts then ret (ts[k := v]) else halt Fault)"

definition target_buf :: "nat \<Rightarrow> target list \<Rightarrow> ('s, char list) kernel" where
  "target_buf k ts = (if k < length ts then case ts ! k of StrVar buf \<Rightarrow> ret buf | _ \<Rightarrow> halt Fault else halt Fault)"

definition digit_char :: "int \<Rightarrow> bool" where
  "digit_char c \<longleftrightarrow> 48 \<le> c \<and> c \<le> 57"

definition as_char :: "int \<Rightarrow> int" where
  "as_char c = sint (word_of_int c :: u8)"

text \<open>\<open>vscanf\<close>: the number of a \<open>%d\<close>, or none when the input does not start with one.\<close>

definition skip_line :: "(user_io, unit) kernel" where
  "skip_line = loop (\<lambda>_. bnd getchar (\<lambda>c. ret (if as_char c \<noteq> 10 then Inl () else Inr ()))) ()"

definition scan_digits :: "int \<Rightarrow> (user_io, s64 \<times> bool) kernel" where
  "scan_digits c = loop (\<lambda>(c, num, negative).
       let (num, negative) = (if c = 45 then (num, True) else (num * 10 + word_of_int c - 48, negative)) in
       bnd getchar (\<lambda>c. let c = as_char c in
       ret (if digit_char c \<or> num = 0 \<and> c = 45 then Inl (c, num, negative) else Inr (num, negative))))
     (c, 0, False)"

definition scan_int :: "(user_io, s64 option) kernel" where
  "scan_int =
     bnd getchar (\<lambda>c. let c = as_char c in
     if c \<noteq> 45 \<and> (c < 48 \<or> 57 < c) then sq skip_line (ret None)
     else bnd (scan_digits c) (\<lambda>(num, negative). ret (Some (num * (if negative then - 1 else 1)))))"

definition scan_word :: "char list \<Rightarrow> (user_io, char list) kernel" where
  "scan_word buf = loop (\<lambda>(i, buf).
       bnd getchar (\<lambda>c. let c = as_char c in
       if c \<noteq> 32 \<and> c \<noteq> 10
       then bnd (of_opt (put_byte buf i (char_of (c mod 256)))) (\<lambda>buf. ret (Inl (i + 1, buf)))
       else bnd (of_opt (put_byte buf i NUL)) (\<lambda>buf. ret (Inr buf))))
     (0, buf)"

definition vscanf_conversion :: "char \<Rightarrow> nat \<Rightarrow> target list \<Rightarrow> (user_io, nat \<times> target list) kernel" where
  "vscanf_conversion c k ts =
     (if c = CHR ''d'' then
        bnd scan_int (\<lambda>r. case r of None \<Rightarrow> ret (k, ts)
          | Some num \<Rightarrow> bnd (put_target k (IntVar (ucast num)) ts) (\<lambda>ts. ret (k + 1, ts)))
      else if c = CHR ''c'' then
        bnd getchar (\<lambda>c. bnd (put_target k (CharVar (char_of (as_char c mod 256))) ts) (\<lambda>ts. ret (k + 1, ts)))
      else if c = CHR ''s'' then
        bnd (target_buf k ts) (\<lambda>buf. bnd (scan_word buf) (\<lambda>buf. bnd (put_target k (StrVar buf) ts) (\<lambda>ts. ret (k + 1, ts))))
      else ret (k, ts))"

text \<open>Every conversion that stores also counts, so the next argument is the number of those read.\<close>

definition vscanf :: "char list \<Rightarrow> target list \<Rightarrow> (user_io, nat \<times> target list) kernel" where
  "vscanf format args = loop (\<lambda>(i, args_read, ts).
       bnd (char_at format i) (\<lambda>c.
       if c = NUL then ret (Inr (args_read, ts))
       else if c = CHR ''%'' then
         bnd (char_at format (i + 1)) (\<lambda>c.
         bnd (vscanf_conversion c args_read ts) (\<lambda>(args_read, ts). ret (Inl (i + 2, args_read, ts))))
       else ret (Inl (i + 1, args_read, ts))))
     (0, 0, args)"

definition scanf :: "char list \<Rightarrow> target list \<Rightarrow> (user_io, nat \<times> target list) kernel" where
  "scanf format args = vscanf format args"

text \<open>\<open>vsscanf\<close> scans a buffer. The digits from \<open>i\<close> on: the number, the position after them, and
  whether there were any. A word is stored with a step of two bytes in the target.\<close>

definition sscan_digit ::
  "char list \<Rightarrow> s32 \<times> nat \<times> bool \<Rightarrow> ('s, (s32 \<times> nat \<times> bool) + (s32 \<times> nat \<times> bool)) kernel" where
  "sscan_digit buffer a = (case a of (num, i, read_num) \<Rightarrow>
     bnd (char_at buffer i) (\<lambda>c.
     ret (if digit_char (schar c) then Inl (num * 10 + word_of_int (schar c) - 48, i + 1, True)
          else Inr (num, i, read_num))))"

definition sscan_digits :: "char list \<Rightarrow> nat \<Rightarrow> ('s, s32 \<times> nat \<times> bool) kernel" where
  "sscan_digits buffer i = loop (sscan_digit buffer) (0, i, False)"

definition sscan_char ::
  "char list \<Rightarrow> nat \<times> nat \<times> char list \<Rightarrow> ('s, (nat \<times> nat \<times> char list) + (nat \<times> char list)) kernel" where
  "sscan_char buffer a = (case a of (i, str, target) \<Rightarrow>
     bnd (char_at buffer i) (\<lambda>c.
     if c \<noteq> CHR '' '' \<and> c \<noteq> CHR 0x0A \<and> c \<noteq> NUL
     then bnd (of_opt (put_byte target str c)) (\<lambda>target. ret (Inl (i + 1, str + 2, target)))
     else bnd (of_opt (put_byte target str NUL)) (\<lambda>target. ret (Inr (i, target)))))"

definition sscan_word :: "char list \<Rightarrow> nat \<Rightarrow> char list \<Rightarrow> ('s, nat \<times> char list) kernel" where
  "sscan_word buffer buf_i target = loop (sscan_char buffer) (buf_i, 0, target)"

text \<open>The position in the buffer, the next argument, the count and the variables after a conversion.\<close>

definition vsscanf_conversion ::
  "char list \<Rightarrow> char \<Rightarrow> nat \<times> nat \<times> nat \<times> target list \<Rightarrow> ('s, nat \<times> nat \<times> nat \<times> target list) kernel" where
  "vsscanf_conversion buffer f st = (case st of (buf_i, k, args_read, ts) \<Rightarrow>
     if f = CHR ''d'' then
       bnd (char_at buffer buf_i) (\<lambda>c.
       if c \<noteq> CHR ''-'' \<and> \<not> digit_char (schar c) then ret st
       else
         let negative = (c = CHR ''-'') in
         bnd (sscan_digits buffer (if negative then buf_i + 1 else buf_i)) (\<lambda>(num, buf_i, read_num).
         bnd (put_target k (IntVar (num * (if negative then - 1 else 1))) ts) (\<lambda>ts.
         ret (buf_i, k + 1, if read_num then args_read + 1 else args_read, ts))))
     else if f = CHR ''c'' then
       bnd (char_at buffer buf_i) (\<lambda>c.
       bnd (put_target k (CharVar c) ts) (\<lambda>ts. ret (buf_i + 1, k + 1, args_read + 1, ts)))
     else if f = CHR ''s'' then
       bnd (target_buf k ts) (\<lambda>target.
       bnd (sscan_word buffer buf_i target) (\<lambda>(buf_i, target).
       bnd (put_target k (StrVar target) ts) (\<lambda>ts. ret (buf_i, k + 1, args_read + 1, ts))))
     else ret st)"

definition vsscanf :: "char list \<Rightarrow> char list \<Rightarrow> target list \<Rightarrow> ('s, nat \<times> target list) kernel" where
  "vsscanf buffer format args = loop (\<lambda>(form_i, st).
       bnd (char_at format form_i) (\<lambda>c.
       if c = NUL then ret (Inr (case st of (buf_i, k, args_read, ts) \<Rightarrow> (args_read, ts)))
       else if c = CHR ''%'' then
         bnd (char_at format (form_i + 1)) (\<lambda>c.
         bnd (vsscanf_conversion buffer c st) (\<lambda>st. ret (Inl (form_i + 2, st))))
       else ret (Inl (form_i + 1, st))))
     (0, 0, 0, 0, args)"

definition sscanf :: "char list \<Rightarrow> char list \<Rightarrow> target list \<Rightarrow> ('s, nat \<times> target list) kernel" where
  "sscanf str format args = vsscanf str format args"

end
