(* ===== verification/Stdio_Properties.thy ===== *)
theory Stdio_Properties
  imports Libc_Stdio
begin

text \<open>
  What the formatted output and the scanning of the user library do: a format is a sequence of
  directives, and printing it writes their texts in order; scanning a decimal number undoes printing
  it. The two flaws of the string conversions and the loops that do not end are stated too.
\<close>

section \<open>The directives of a format\<close>

datatype directive =
    Lit char
  | Percent
  | Chr char
  | Dec s32
  | LongHex u64
  | Plain string

fun spec :: "directive \<Rightarrow> string" where
  "spec (Lit c) = [c]"
| "spec Percent = ''%%''"
| "spec (Chr c) = ''%c''"
| "spec (Dec v) = ''%d''"
| "spec (LongHex v) = ''%lx''"
| "spec (Plain s) = ''%s''"

fun arg :: "directive \<Rightarrow> vararg list" where
  "arg (Chr c) = [Num (of_char c)]"
| "arg (Dec v) = [Num (scast v)]"
| "arg (LongHex v) = [Num v]"
| "arg (Plain s) = [Str (s @ [NUL])]"
| "arg _ = []"

fun render :: "directive \<Rightarrow> string" where
  "render (Lit c) = [c]"
| "render Percent = ''%''"
| "render (Chr c) = [c]"
| "render (Dec v) = sdec (sint v)"
| "render (LongHex v) = rev (base_digits (unat v) 16)"
| "render (Plain s) = s"

definition literal :: "char \<Rightarrow> bool" where
  "literal c \<longleftrightarrow> c \<noteq> NUL \<and> c \<noteq> CHR 0x1B \<and> c \<noteq> CHR ''%''"

fun directive_ok :: "directive \<Rightarrow> bool" where
  "directive_ok (Lit c) \<longleftrightarrow> literal c"
| "directive_ok (Dec v) \<longleftrightarrow> sint v \<noteq> - (2 ^ 31)"
| "directive_ok (Plain s) \<longleftrightarrow> list_all literal s"
| "directive_ok _ \<longleftrightarrow> True"

text \<open>The bytes that a sequence of calls writes to a descriptor.\<close>

fun written :: "int \<Rightarrow> call list \<Rightarrow> string" where
  "written fd [] = []"
| "written fd (Write d s # cs) = (if d = fd then s @ written fd cs else written fd cs)"
| "written fd (_ # cs) = written fd cs"

lemma written_append [simp]: "written fd (cs @ ds) = written fd cs @ written fd ds"
  by (induction fd cs rule: written.induct) auto

section \<open>Numbers\<close>

lemma digit_chars: "char_of (48 :: nat) = CHR ''0''" "char_of (49 :: nat) = CHR ''1''" "char_of (50 :: nat) = CHR ''2''"
  "char_of (51 :: nat) = CHR ''3''" "char_of (52 :: nat) = CHR ''4''" "char_of (53 :: nat) = CHR ''5''"
  "char_of (54 :: nat) = CHR ''6''" "char_of (55 :: nat) = CHR ''7''" "char_of (56 :: nat) = CHR ''8''" "char_of (57 :: nat) = CHR ''9''"
  by code_simp+

lemma char_of_48: "char_of (48 :: nat) = CHR 0x30"
  by code_simp

lemma base_digits_dec: "rev (base_digits n 10) = dec n"
proof (induction n rule: less_induct)
  case (less n)
  have d: "base_digit (n mod 10) = char_of (48 + n mod 10)" by (simp add: base_digit_def add.commute)
  show ?case
  proof (cases "n div 10 = 0")
    case True
    then show ?thesis using d by (subst base_digits.simps) (auto simp: dec_def digits.simps [of n] digits.simps [of 0] char_of_48)
  next
    case False
    then have "rev (base_digits (n div 10) 10) = digits (n div 10)" using less [of "n div 10"] by (auto simp: dec_def)
    then show ?thesis using d False by (subst base_digits.simps) (auto simp: dec_def digits.simps [of n])
  qed
qed

lemma base_digit_not_NUL: "r < 16 \<Longrightarrow> base_digit r \<noteq> NUL"
  by (auto simp: base_digit_def char_of_eq_iff take_bit_eq_mod)

lemma base_digits_no_NUL: "2 \<le> b \<Longrightarrow> b \<le> 16 \<Longrightarrow> NUL \<notin> set (base_digits n b)"
proof (induction n b rule: base_digits.induct)
  case (1 n b)
  have "n mod b < 16" using 1(2,3) by (auto intro: less_le_trans [OF mod_less_divisor])
  then show ?case using 1 base_digit_not_NUL [of "n mod b"] by (subst base_digits.simps) auto
qed

lemma print_value_writes:
  assumes "b = 8 \<or> b = 10 \<or> b = 16"
  shows "print_value fd v b s = Ret ((), s\<lparr>calls := calls s @ [Write fd (rev (base_digits (unat v) b))]\<rparr>)"
proof -
  let ?ds = "base_digits (unat v) b"
  have "unat v < 2 ^ 64" using unsigned_less [of v] by simp
  also have "(2 :: nat) ^ 64 \<le> b ^ 62" using assms by auto
  finally have "length ?ds + 1 \<le> 64" using base_digits_length [of b "unat v" 61] assms by auto
  moreover have "strlen_libc (rev ?ds @ [NUL]) = Some (length ?ds)"
    using strlen_libc_cstr [of "rev ?ds @ [NUL]" "rev ?ds"] base_digits_no_NUL [of b "unat v"] assms by (auto simp: is_cstr_def)
  ultimately show ?thesis using reverse_in_place_rev [of ?ds "[NUL]"]
    by (simp add: print_value_def uintToBase_def Let_def of_opt_def run_simps sys_write_user_def syscall_def)
qed

lemma printBase_dec:
  assumes "sint v \<noteq> - (2 ^ 31)"
  shows "\<exists>cs. printBase_user fd v 10 s = Ret ((), s\<lparr>calls := calls s @ cs\<rparr>) \<and> written fd cs = sdec (sint v)"
proof -
  have bounds: "- (2 ^ 31) < sint v" "sint v < 2 ^ 31" using sint_range_size [of v] assms by (auto simp: word_size)
  have nat_cast: "unat (scast w :: u64) = nat (sint w)" if "0 \<le> sint w" for w :: s32
  proof -
    have "sint w < 2 ^ 64" using sint_range_size [of w] by (simp add: word_size)
    with that have "take_bit LENGTH(64) (sint w) = sint w" by (intro take_bit_int_eq_self) auto
    then have "uint (scast w :: u64) = sint w" using that by (simp only: scast_eq unsigned_of_int)
    then show ?thesis by (simp only: unat_eq_nat_uint)
  qed
  show ?thesis
  proof (cases "sint v < 0")
    case True
    have neg: "sint (- v) = - sint v" using bounds by (subst sint_word_ariths) (simp add: signed_take_bit_int_eq_self)
    then have "unat (scast (- v) :: u64) = nat (- sint v)" using nat_cast [of "- v"] True by simp
    then have "print_value fd (scast (- v)) 10 t = Ret ((), t\<lparr>calls := calls t @ [Write fd (digits (nat (- sint v)))]\<rparr>)" for t
      using print_value_writes [of 10 fd "scast (- v)" t] base_digits_dec [of "nat (- sint v)"] True by (simp add: dec_def)
    then show ?thesis using True
      by (intro exI [of _ "[Write fd ''-'', Write fd (digits (nat (- sint v)))]"])
         (simp add: printBase_user_def run_simps sys_write_user_def syscall_def sdec_def)
  next
    case False
    then have "print_value fd (scast v) 10 s = Ret ((), s\<lparr>calls := calls s @ [Write fd (dec (nat (sint v)))]\<rparr>)"
      using print_value_writes [of 10 fd "scast v" s] base_digits_dec [of "nat (sint v)"] nat_cast [of v] by simp
    with False show ?thesis
      by (intro exI [of _ "[Write fd (dec (nat (sint v)))]"]) (simp add: printBase_user_def sdec_def)
  qed
qed

section \<open>Printing\<close>

lemma print_literal:
  assumes "literal c"
  shows "loop (print_step fp fd (pre @ c # rest)) (length pre, args) s =
    loop (print_step fp fd (pre @ c # rest)) (length (pre @ [c]), args) (s\<lparr>calls := calls s @ [Write fd [c]]\<rparr>)"
  using assms by (subst loop_unfold)
    (simp add: print_step_def char_at_def run_simps literal_def sys_write_user_def syscall_def)

lemma print_literals:
  assumes "list_all literal t"
  shows "loop (print_step fp fd (pre @ t @ rest)) (length pre, args) s =
    loop (print_step fp fd (pre @ t @ rest)) (length (pre @ t), args) (s\<lparr>calls := calls s @ map (\<lambda>c. Write fd [c]) t\<rparr>)"
  using assms
proof (induction t arbitrary: pre s)
  case (Cons c t)
  then show ?case using print_literal [of c fp fd pre "t @ rest" args s] Cons.IH [of "pre @ [c]"] by simp
qed simp

lemma print_end: "loop (print_step fp fd (pre @ NUL # rest)) (length pre, args) s = Ret ((), s)"
  by (subst loop_unfold) (simp add: print_step_def char_at_def run_simps)

lemma print_plain_writes:
  "list_all literal t \<Longrightarrow> print_plain fd (t @ NUL # rest) s = Ret ((), s\<lparr>calls := calls s @ map (\<lambda>c. Write fd [c]) t\<rparr>)"
  using print_literals [of t "\<lambda>_. halt Fault" fd "[]" "NUL # rest" "[]" s] print_end [of "\<lambda>_. halt Fault" fd t rest "[]"]
  by (simp add: print_plain_def)

lemma written_literals [simp]: "written fd (map (\<lambda>c. Write fd [c]) t) = t"
  by (induction t) auto

lemma print_conversion:
  assumes "conversion fp fd (pre @ CHR ''%'' # rest) (Suc (length pre)) args s = Ret ((i, args'), s')"
  shows "loop (print_step fp fd (pre @ CHR ''%'' # rest)) (length pre, args) s =
    loop (print_step fp fd (pre @ CHR ''%'' # rest)) (Suc i, args') s'"
  using assms by (subst loop_unfold) (simp add: print_step_def char_at_def run_simps)

lemma print_directive:
  assumes "directive_ok d"
  shows "\<exists>cs. written fd cs = render d \<and>
    loop (print_step (print_plain fd) fd (pre @ spec d @ rest)) (length pre, arg d @ as) s =
    loop (print_step (print_plain fd) fd (pre @ spec d @ rest)) (length (pre @ spec d), as) (s\<lparr>calls := calls s @ cs\<rparr>)"
proof -
  note conv = print_conversion [of "print_plain fd" fd pre _ "arg d @ as" s]
  note run = conversion_def char_at_def run_simps nth_append va_num_def va_str_def sys_write_user_def syscall_def
  show ?thesis
  proof (cases d)
    case (Lit c)
    with assms print_literal [of c _ fd pre rest as s] show ?thesis by (intro exI [of _ "[Write fd [c]]"]) simp
  next
    case Percent
    then show ?thesis using conv [of "CHR ''%'' # rest" "Suc (length pre)" as "s\<lparr>calls := calls s @ [Write fd ''%'']\<rparr>"]
      by (intro exI [of _ "[Write fd ''%'']"]) (simp add: run)
  next
    case (Chr c)
    have "take_bit LENGTH(64) (of_char c) = (of_char c :: nat)"
      by (rule take_bit_nat_eq_self, rule less_le_trans [OF nat_of_char_less_256]) simp
    then have "unat (word_of_nat (of_char c) :: u64) = of_char c" by (simp only: unsigned_of_nat of_nat_id)
    then have "unat (of_char c :: u64) = of_char c" by (simp only: of_nat_of_char)
    with Chr show ?thesis using conv [of "CHR ''c'' # rest" "Suc (length pre)" as "s\<lparr>calls := calls s @ [Write fd [c]]\<rparr>"]
      by (intro exI [of _ "[Write fd [c]]"]) (simp add: run)
  next
    case (Dec v)
    with assms printBase_dec [of v fd s] obtain cs
      where cs: "printBase_user fd v 10 s = Ret ((), s\<lparr>calls := calls s @ cs\<rparr>)" "written fd cs = sdec (sint v)" by auto
    moreover have "ucast (scast v :: u64) = v"
      by (rule bit_word_eqI) (auto simp: bit_unsigned_iff bit_signed_iff min_absorb2)
    ultimately show ?thesis using Dec conv [of "CHR ''d'' # rest" "Suc (length pre)" as "s\<lparr>calls := calls s @ cs\<rparr>"]
      by (intro exI [of _ cs]) (simp add: run)
  next
    case (LongHex v)
    then show ?thesis using conv [of "''lx'' @ rest" "Suc (Suc (length pre))" as "s\<lparr>calls := calls s @ [Write fd (rev (base_digits (unat v) 16))]\<rparr>"]
        print_value_writes [of 16 fd v s]
      by (intro exI [of _ "[Write fd (rev (base_digits (unat v) 16))]"]) (simp add: run printUnsignedLongBase_def)
  next
    case (Plain t)
    then show ?thesis using conv [of "CHR ''s'' # rest" "Suc (length pre)" as "s\<lparr>calls := calls s @ map (\<lambda>c. Write fd [c]) t\<rparr>"]
        print_plain_writes [of t fd "[]" s] assms
      by (intro exI [of _ "map (\<lambda>c. Write fd [c]) t"]) (simp add: run)
  qed
qed

lemma print_directives:
  assumes "list_all directive_ok ds"
  shows "\<exists>cs. written fd cs = concat (map render ds) \<and>
    loop (print_step (print_plain fd) fd (pre @ concat (map spec ds) @ NUL # rest)) (length pre, concat (map arg ds) @ as) s =
    Ret ((), s\<lparr>calls := calls s @ cs\<rparr>)"
  using assms
proof (induction ds arbitrary: pre s)
  case Nil
  then show ?case using print_end [of "print_plain fd" fd pre rest as s] by (intro exI [of _ "[]"]) simp
next
  case (Cons d ds)
  let ?rest = "concat (map spec ds) @ NUL # rest" and ?as = "concat (map arg ds) @ as"
  from Cons.prems print_directive [of d fd pre ?rest ?as s] obtain cs where cs: "written fd cs = render d"
    "loop (print_step (print_plain fd) fd (pre @ spec d @ ?rest)) (length pre, arg d @ ?as) s =
     loop (print_step (print_plain fd) fd (pre @ spec d @ ?rest)) (length (pre @ spec d), ?as) (s\<lparr>calls := calls s @ cs\<rparr>)" by auto
  from Cons.prems Cons.IH [of "pre @ spec d" "s\<lparr>calls := calls s @ cs\<rparr>"] obtain cs' where
    "written fd cs' = concat (map render ds)"
    "loop (print_step (print_plain fd) fd ((pre @ spec d) @ ?rest)) (length (pre @ spec d), ?as) (s\<lparr>calls := calls s @ cs\<rparr>) =
     Ret ((), s\<lparr>calls := (calls s @ cs) @ cs'\<rparr>)" by auto
  with cs show ?case by (intro exI [of _ "cs @ cs'"]) simp
qed

section \<open>Scanning\<close>

lemma sscan_digits_loop:
  assumes "list_all is_digit ds" and "\<not> digit_char (schar c)"
  shows "loop (sscan_digit (pre @ ds @ c # rest)) (num, length pre, b) s =
    Ret ((foldl (\<lambda>r c. r * 10 + word_of_int (schar c - 48)) num ds, length (pre @ ds), b \<or> ds \<noteq> []), s)"
  using assms(1)
proof (induction ds arbitrary: pre num b)
  case Nil
  then show ?case using assms(2) by (subst loop_unfold) (simp add: sscan_digit_def char_at_def run_simps)
next
  case (Cons d ds)
  then have "digit_char (schar d)" using schar_digit [of d] by (auto simp: is_digit_def digit_char_def)
  then have "loop (sscan_digit (pre @ (d # ds) @ c # rest)) (num, length pre, b) s =
      loop (sscan_digit ((pre @ [d]) @ ds @ c # rest)) (num * 10 + word_of_int (schar d - 48), length (pre @ [d]), True) s"
    by (subst loop_unfold) (simp add: sscan_digit_def char_at_def run_simps add_diff_eq)
  also have "\<dots> = Ret ((foldl (\<lambda>r c. r * 10 + word_of_int (schar c - 48)) (num * 10 + word_of_int (schar d - 48)) ds,
      length ((pre @ [d]) @ ds), True \<or> ds \<noteq> []), s)"
    by (rule Cons.IH) (use Cons.prems in simp)
  finally show ?case by simp
qed

lemma sscan_digits_spec:
  assumes "list_all is_digit ds" and "\<not> digit_char (schar c)"
  shows "sscan_digits (pre @ ds @ c # rest) (length pre) s =
    Ret ((of_nat (dec_value ds), length (pre @ ds), ds \<noteq> []), s)"
  using sscan_digits_loop [OF assms, of pre rest 0 False s] atoi_value [of ds] assms(1)
  by (simp add: sscan_digits_def list_all_iff del: of_int_diff)

lemma sscanf_d:
  assumes "vsscanf_conversion str (CHR ''d'') (0, 0, 0, [t]) s = Ret ((i, k, n, ts), s)"
  shows "sscanf str (''%d'' @ [NUL]) [t] s = Ret ((n, ts), s)"
  unfolding sscanf_def vsscanf_def
  by (subst loop_unfold, simp add: char_at_def run_simps assms, subst loop_unfold, simp add: char_at_def run_simps)


lemma sscanf_int:
  assumes "- (2 ^ 31) < v" and "v < 2 ^ 31" and "\<not> digit_char (schar c)"
  shows "sscanf (sdec v @ c # rest) (''%d'' @ [NUL]) [IntVar x] s = Ret ((1, [IntVar (word_of_int v)]), s)"
proof (rule sscanf_d)
  show "vsscanf_conversion (sdec v @ c # rest) (CHR ''d'') (0, 0, 0, [IntVar x]) s =
      Ret ((length (sdec v), 1, 1, [IntVar (word_of_int v)]), s)"
  proof (cases "v < 0")
    case True
    have ne: "digits (nat (- v)) \<noteq> []" using True by (subst digits.simps) simp
    have "sscan_digits (''-'' @ digits (nat (- v)) @ c # rest) (length ''-'') s =
        Ret ((of_nat (nat (- v)), Suc (length (digits (nat (- v)))), True), s)"
      using sscan_digits_spec [of "digits (nat (- v))" c "''-''" rest s] assms(3) ne digits_is_digit [of _ "nat (- v)"]
      by (simp add: list_all_iff dec_value_digits)
    then show ?thesis using True
      by (simp add: vsscanf_conversion_def sdec_def char_at_def run_simps put_target_def digit_char_def)
  next
    case False
    obtain d ds where d: "dec (nat v) = d # ds"
      by (cases "dec (nat v)") (auto simp: dec_def digits.simps [of "nat v"] split: if_splits)
    have "is_digit d" using dec_is_digit [of d "nat v"] d by simp
    then have "digit_char (schar d)" "d \<noteq> CHR ''-''" using schar_digit [of d] by (auto simp: is_digit_def digit_char_def)
    moreover have "sscan_digits (dec (nat v) @ c # rest) 0 s = Ret ((of_nat (nat v), length (dec (nat v)), True), s)"
      using sscan_digits_spec [of "dec (nat v)" c "[]" rest s] assms(3) d dec_is_digit [of _ "nat v"] dec_value_dec [of "nat v"]
      by (simp add: list_all_iff)
    ultimately show ?thesis using False d
      by (simp add: vsscanf_conversion_def sdec_def char_at_def run_simps put_target_def)
  qed
qed

text \<open>The bytes a word of length \<open>n\<close> leaves in its target: every other one.\<close>

fun spread :: "nat \<Rightarrow> string \<Rightarrow> char list \<Rightarrow> char list" where
  "spread j [] buf = buf[j := NUL]"
| "spread j (c # cs) buf = spread (j + 2) cs (buf[j := c])"

definition word_char :: "char \<Rightarrow> bool" where
  "word_char c \<longleftrightarrow> c \<noteq> CHR '' '' \<and> c \<noteq> CHR 0x0A \<and> c \<noteq> NUL"

lemma sscan_word_loop:
  assumes "list_all word_char w" and "\<not> word_char c"
  shows "loop (sscan_char (pre @ w @ c # rest)) (length pre, j, buf) s =
    (if j + 2 * length w < length buf then Ret ((length (pre @ w), spread j w buf), s) else Stop Fault)"
  using assms(1)
proof (induction w arbitrary: pre j buf)
  case Nil
  then show ?case using assms(2)
    by (subst loop_unfold) (auto simp: sscan_char_def char_at_def run_simps word_char_def of_opt_def put_byte_def)
next
  case (Cons x w)
  have "loop (sscan_char (pre @ (x # w) @ c # rest)) (length pre, j, buf) s =
      (if j < length buf then loop (sscan_char ((pre @ [x]) @ w @ c # rest)) (length (pre @ [x]), j + 2, buf[j := x]) s else Stop Fault)"
    using Cons.prems
    by (subst loop_unfold) (auto simp: sscan_char_def char_at_def run_simps word_char_def of_opt_def put_byte_def)
  with Cons.IH [of "pre @ [x]" "j + 2" "buf[j := x]"] Cons.prems show ?case by auto
qed

lemma spread_length [simp]: "length (spread j w buf) = length buf"
  by (induction j w buf rule: spread.induct) auto

lemma spread_nth:
  "j + 2 * length w < length buf \<Longrightarrow> k < length buf \<Longrightarrow> spread j w buf ! k =
     (if k < j \<or> odd (k - j) \<or> j + 2 * length w < k then buf ! k
      else if k = j + 2 * length w then NUL else w ! ((k - j) div 2))"
proof (induction j w buf rule: spread.induct)
  case (2 j c cs buf)
  then have IH: "spread (j + 2) cs (buf[j := c]) ! k =
     (if k < j + 2 \<or> odd (k - (j + 2)) \<or> j + 2 + 2 * length cs < k then buf[j := c] ! k
      else if k = j + 2 + 2 * length cs then NUL else cs ! ((k - (j + 2)) div 2))" by simp
  consider "k < j" | "k = j" | "k = j + 1" | n where "k = j + 2 + n"
    by (metis Suc_eq_plus1 add_2_eq_Suc' less_Suc_eq less_imp_Suc_add linorder_neqE_nat not_less_eq add.assoc le_iff_add not_less)
  then show ?case
  proof cases
    case 4
    then have "(k - j) div 2 = Suc ((k - (j + 2)) div 2)" "odd (k - j) = odd (k - (j + 2))" by auto
    with IH 4 show ?thesis by auto
  qed (use IH 2 in \<open>auto simp: nth_list_update\<close>)
qed (auto simp: nth_list_update)

section \<open>Properties\<close>

text \<open>
  C24. Printing with a format of the modelled directives returns and writes to the descriptor exactly the
  texts of the directives, in order: literal characters, percent signs, characters, signed decimal
  numbers (the least one apart), hexadecimal numbers of 64 bits and strings of literal characters.
\<close>

theorem vfprintf_renders:
  assumes "list_all directive_ok ds"
  shows "\<exists>cs. vfprintf fd (concat (map spec ds) @ NUL # rest) (concat (map arg ds) @ as) s =
      Ret ((), s\<lparr>calls := calls s @ cs\<rparr>) \<and> written fd cs = concat (map render ds)"
  using print_directives [OF assms, of fd "[]" rest as s] by (auto simp: vfprintf_def)

lemma sdec_minus_7: "sdec (- 7) = ''-7''" "sdec (- 12) = ''-12''"
  by code_simp+

theorem vfprintf_renders_witness:
  "\<exists>cs. vfprintf 1 (''pid %d: %s'' @ [NUL]) [Num (scast (- 7 :: s32)), Str (''wc'' @ [NUL])]
      \<lparr>answers = [], calls = []\<rparr> = Ret ((), \<lparr>answers = [], calls = cs\<rparr>) \<and> written 1 cs = ''pid -7: wc''"
  using vfprintf_renders [of "map Lit ''pid '' @ [Dec (- 7)] @ map Lit '': '' @ [Plain ''wc'']" 1 "[]" "[]" "\<lparr>answers = [], calls = []\<rparr>"]
    sdec_minus_7 by (auto simp: literal_def)

text \<open>
  Scanning a number undoes printing it: for every \<open>int\<close> but the least one, \<open>sscanf\<close> with \<open>%d\<close> of its
  decimal text, whatever character that is not a digit follows, stores the number and counts one.
\<close>

theorem sscanf_reads_int:
  assumes "sint v \<noteq> - (2 ^ 31)" and "\<not> digit_char (schar c)"
  shows "sscanf (sdec (sint v) @ c # rest) (''%d'' @ [NUL]) [IntVar x] s = Ret ((1, [IntVar v]), s)"
  using sscanf_int [of "sint v" c rest x s] assms sint_range_size [of v] by (auto simp: word_size)

theorem sscanf_reads_int_witness:
  "sscanf (''-12'' @ [NUL]) (''%d'' @ [NUL]) [IntVar 5] () = Ret ((1, [IntVar (- 12)]), ())"
  using sscanf_reads_int [of "- 12" NUL "[]" 5 "()"]
    sdec_minus_7 by (simp add: digit_char_def)

text \<open>
  \<open>sscanf\<close> with \<open>%s\<close> stores every character of a word and then the terminator two bytes further than
  the one before, leaving the bytes between as they were: a target with room for the word and its
  terminator is overrun as soon as the word has two characters.
\<close>

theorem sscanf_word_gaps:
  assumes "list_all word_char w" and "\<not> word_char c"
  shows "case sscanf (w @ c # rest) (''%s'' @ [NUL]) [StrVar buf] s of
      Stop e \<Rightarrow> e = Fault \<and> length buf \<le> 2 * length w
    | Ret ((n, ts), t) \<Rightarrow> 2 * length w < length buf \<and> n = 1 \<and> t = s \<and> (\<exists>buf'. ts = [StrVar buf'] \<and> length buf' = length buf \<and>
        (\<forall>k < length w. buf' ! (2 * k) = w ! k \<and> buf' ! (2 * k + 1) = buf ! (2 * k + 1)) \<and> buf' ! (2 * length w) = NUL)"
proof -
  have "sscan_word (w @ c # rest) 0 buf s = (if 2 * length w < length buf then Ret ((length w, spread 0 w buf), s) else Stop Fault)"
    using sscan_word_loop [OF assms, of "[]" rest 0 buf s] by (simp add: sscan_word_def)
  then have "sscanf (w @ c # rest) (''%s'' @ [NUL]) [StrVar buf] s =
      (if 2 * length w < length buf then Ret ((1, [StrVar (spread 0 w buf)]), s) else Stop Fault)"
    unfolding sscanf_def vsscanf_def
    by (subst loop_unfold) (simp add: char_at_def run_simps vsscanf_conversion_def target_buf_def put_target_def,
        subst loop_unfold, simp add: char_at_def run_simps)
  then show ?thesis using spread_nth [of 0 w buf] by auto
qed

theorem sscanf_word_gaps_witness:
  "\<exists>b. sscanf (''ab'' @ [NUL]) (''%s'' @ [NUL]) [StrVar (replicate 8 (CHR ''x''))] () = Ret ((1, [StrVar b]), ()) \<and>
    b ! 0 = CHR ''a'' \<and> b ! 1 = CHR ''x'' \<and> b ! 2 = CHR ''b'' \<and> b ! 4 = NUL"
  using sscanf_word_gaps [of "''ab''" NUL, where rest = "[]" and buf = "replicate 8 (CHR ''x'')" and s = "()"]
  by (cases "sscanf (''ab'' @ [NUL]) (''%s'' @ [NUL]) [StrVar (replicate 8 (CHR ''x''))] ()")
     (auto simp: word_char_def All_less_Suc)

text \<open>
  An escape character that does not start a colour sequence is never passed over: \<open>parseANSI\<close> leaves
  the position where it is, and printing does not end.
\<close>

theorem printf_escape_hangs:
  assumes "list_all literal pre" and "c \<noteq> CHR ''[''"
  shows "printf (pre @ CHR 0x1B # c # rest) args s = Stop Diverge"
proof -
  let ?f = "pre @ CHR 0x1B # c # rest"
  have "loop (print_step (print_plain 1) 1 ?f) (length pre, args) t = Stop Diverge" for t
    by (rule loop_diverges [where I = "\<lambda>a _. a = (length pre, args)"])
       (use assms(2) in \<open>auto simp: print_step_def char_at_def run_simps sys_write_user_def syscall_def parseANSI_def nth_append\<close>)
  then show ?thesis using print_literals [OF assms(1), of "print_plain 1" 1 "[]" "CHR 0x1B # c # rest" args s]
    by (simp add: printf_def vfprintf_def FD_STDOUT_def)
qed

theorem printf_escape_hangs_witness:
  "printf (''a'' @ [CHR 0x1B, NUL]) [] \<lparr>answers = [], calls = []\<rparr> = Stop Diverge"
  using printf_escape_hangs [of "''a''" NUL "[]" "[]" "\<lparr>answers = [], calls = []\<rparr>"] by (simp add: literal_def)

text \<open>
  The argument of \<open>%s\<close> is printed as a format of its own: a percent sign in it starts a conversion for
  which no argument was passed, and one at its end makes the printing run past the terminator.
\<close>

theorem printf_string_is_format:
  "printf (''%s'' @ [NUL]) [Str (''100%'' @ [NUL])] s = Stop Fault \<and>
   printf (''%s'' @ [NUL]) [Str (''%d'' @ [NUL])] s = Stop Fault"
proof -
  have "print_plain 1 (''100%'' @ [NUL]) s = Stop Fault" "print_plain 1 (''%d'' @ [NUL]) s = Stop Fault"
    unfolding print_plain_def
    using print_literals [of "''100''" "\<lambda>_. halt Fault" 1 "[]" "[CHR ''%'', NUL]" "[]" s]
    by (simp_all add: literal_def loop_unfold print_step_def char_at_def run_simps conversion_def va_num_def)
  then show ?thesis by (simp add: printf_def vfprintf_def FD_STDOUT_def loop_unfold print_step_def char_at_def
        run_simps conversion_def va_str_def)
qed

text \<open>
  The least \<open>int\<close> is its own negation; widened to 64 bits with its sign it is printed as a number of
  twenty digits.
\<close>

theorem printf_least_int:
  "\<exists>t. printf (''%d'' @ [NUL]) [Num 0x80000000] s = Ret ((), t) \<and>
    written 1 (calls t) = written 1 (calls s) @ ''-18446744071562067968''"
proof -
  have cast: "scast (- ucast (0x80000000 :: u64) :: s32) = (0xFFFFFFFF80000000 :: u64)" by code_simp
  have v: "unat (scast (- ucast (0x80000000 :: u64) :: s32) :: u64) = 18446744071562067968" unfolding cast by simp
  have neg: "sint (ucast (0x80000000 :: u64) :: s32) < 0" by code_simp
  have d: "dec 18446744071562067968 = ''18446744071562067968''" by (simp add: dec_def digits.simps digit_chars)
  let ?w = "ucast (0x80000000 :: u64) :: s32"
  have "print_value 1 (scast (- ?w)) 10 t = Ret ((), t\<lparr>calls := calls t @ [Write 1 ''18446744071562067968'']\<rparr>)" for t
    using print_value_writes [of 10 1 "scast (- ?w)" t] base_digits_dec [of 18446744071562067968] v d by (simp only:) simp
  then have "printBase_user 1 ?w 10 s = Ret ((), s\<lparr>calls := calls s @ [Write 1 ''-'', Write 1 ''18446744071562067968'']\<rparr>)"
    using neg by (simp only: printBase_user_def if_True run_simps sys_write_user_def syscall_def) simp
  then have "conversion (print_plain 1) 1 (''%d'' @ [NUL]) 1 [Num 0x80000000] s =
      Ret ((1, []), s\<lparr>calls := calls s @ [Write 1 ''-'', Write 1 ''18446744071562067968'']\<rparr>)"
    by (simp add: conversion_def char_at_def run_simps va_num_def del: ucast_bintr)
  from print_conversion [of "print_plain 1" 1 "[]", simplified, OF this [simplified]] print_end [of "print_plain 1" 1 "''%d''" "[]" "[]"]
  show ?thesis by (simp add: printf_def vfprintf_def FD_STDOUT_def)
qed

end
