(* ===== verification/Commands.thy ===== *)
theory Commands
  imports Stdio_Properties
begin

text \<open>
  The commands of the shell that only use their arguments, the standard input and the output calls:
  filter.c, wc.c, cat.c, echo.c, clear.c, block.c, kill.c, nice.c, font.c, loop.c, mem.c and exit.c of
  src/TP2-SO-2025/Userland/Shell/commands. \<open>argv\<close> is the list of the argument buffers and its length
  is \<open>argc\<close>; the answers of the system calls whose result a command uses are the record \<open>os\<close>.
\<close>

record os =
  os_kill :: "int \<Rightarrow> int"
  os_font :: u8
  os_pid :: s32
  os_memory :: "s32 \<times> s32 \<times> s32"

definition cs :: "string \<Rightarrow> char list" where
  "cs s = s @ [NUL]"

abbreviation nl :: string where
  "nl \<equiv> [CHR 0x0A]"

section \<open>Filters\<close>

definition IS_VOWEL :: "char \<Rightarrow> bool" where
  "IS_VOWEL c \<longleftrightarrow> c \<in> set ''aeiouAEIOU''"

text \<open>The bytes of one argument, from position \<open>i\<close>.\<close>

definition filter_arg :: "char list \<Rightarrow> (user_io, unit) kernel" where
  "filter_arg p = loop (\<lambda>i.
     bnd (char_at p i) (\<lambda>c.
     if c = NUL then ret (Inr ())
     else if \<not> IS_VOWEL c then sq (putchar c) (ret (Inl (i + 1))) else ret (Inl (i + 1)))) 0"

fun filter_args :: "char list list \<Rightarrow> (user_io, unit) kernel" where
  "filter_args [] = ret ()"
| "filter_args [p] = filter_arg p"
| "filter_args (p # q # ps) = sq (filter_arg p) (sq (putchar (CHR '' '')) (filter_args (q # ps)))"

definition filter_byte :: "bool \<Rightarrow> (user_io, bool + bool) kernel" where
  "filter_byte printed_any =
     bnd getchar (\<lambda>c.
     if c = EOF then ret (Inr printed_any)
     else if char_of c = CHR 0x0A then sq (putchar (CHR 0x0A)) (ret (Inl True))
     else if \<not> IS_VOWEL (char_of c) then sq (putchar (char_of c)) (ret (Inl True))
     else ret (Inl printed_any))"

text \<open>When the loop ends, the last character read is the end of the file: the last test always holds.\<close>

definition filter_cmd :: "char list list \<Rightarrow> (user_io, int) kernel" where
  "filter_cmd argv =
     (if 1 < length argv then sq (filter_args (tl argv)) (sq (putchar (CHR 0x0A)) (ret 0))
      else bnd (loop filter_byte False) (\<lambda>printed_any. sq (putchar (CHR 0x0A)) (ret 0)))"

definition wc_byte :: "u32 \<times> bool \<Rightarrow> (user_io, (u32 \<times> bool) + (u32 \<times> bool)) kernel" where
  "wc_byte a = (case a of (lines, saw_char) \<Rightarrow>
     bnd getchar (\<lambda>c.
     if c = EOF then ret (Inr (lines, saw_char))
     else ret (Inl (if c = 10 then lines + 1 else lines, True))))"

definition wc :: "char list list \<Rightarrow> (user_io, int) kernel" where
  "wc argv =
     (if 1 < length argv then sq (printf (cs (''Se registro 1 linea por stdin'' @ nl)) []) (ret 0)
      else bnd (loop wc_byte (0, False)) (\<lambda>(lines, saw_char).
        let lines = (if saw_char \<and> lines = 0 then 1 else lines) in
        sq (printf (cs (''Se registraron %d lineas por stdin'' @ nl)) [Num (ucast lines)]) (ret 0)))"

definition cat_byte :: "unit \<Rightarrow> (user_io, unit + unit) kernel" where
  "cat_byte _ =
     bnd getchar (\<lambda>c. if c = EOF then ret (Inr ()) else sq (printf (cs ''%c'') [Num (word_of_int c)]) (ret (Inl ())))"

fun cat_args :: "char list list \<Rightarrow> (user_io, unit) kernel" where
  "cat_args [] = ret ()"
| "cat_args (p # ps) = sq (printf (cs ''%s '') [Str p]) (cat_args ps)"

definition cat :: "char list list \<Rightarrow> (user_io, int) kernel" where
  "cat argv =
     (if 1 < length argv then sq (cat_args (tl argv)) (sq (printf (cs nl) []) (ret 0))
      else sq (loop cat_byte ()) (ret 0))"

fun echo_args :: "char list list \<Rightarrow> (user_io, unit) kernel" where
  "echo_args [] = ret ()"
| "echo_args [p] = printf (cs ''%s'') [Str p]"
| "echo_args (p # q # ps) = sq (printf (cs ''%s'') [Str p]) (sq (printf (cs '' '') []) (echo_args (q # ps)))"

definition echo :: "char list list \<Rightarrow> (user_io, int) kernel" where
  "echo argv =
     (if length argv < 2
      then sq (printf (cs (''Cantidad de parametros invalida, uso: echo <string>'' @ nl)) []) (ret (- 1))
      else sq (echo_args (tl argv)) (sq (printf (cs nl) []) (ret 0)))"

section \<open>Commands on processes and the screen\<close>

definition clear_cmd :: "char list list \<Rightarrow> (user_io, int) kernel" where
  "clear_cmd argv =
     (if 1 < length argv then sq (perror (cs (''Usage: clear'' @ nl))) (ret 1)
      else sq (syscall ClearScreen) (ret 0))"

text \<open>Reading one number: the count of \<open>sscanf\<close> and the variable, which was 0 before.\<close>

definition read_int :: "char list \<Rightarrow> (user_io, nat \<times> s32) kernel" where
  "read_int str =
     bnd (sscanf str (cs ''%d'') [IntVar 0]) (\<lambda>(n, ts).
     case ts of [IntVar v] \<Rightarrow> ret (n, v) | _ \<Rightarrow> halt Fault)"

definition block_cmd :: "char list list \<Rightarrow> (user_io, int) kernel" where
  "block_cmd argv =
     (if length argv \<noteq> 2 then sq (perror (cs ''Usage: block <pid>'')) (ret 1)
      else bnd (read_int (argv ! 1)) (\<lambda>(_, pid).
        if sint pid \<le> 0 then sq (perror (cs ''Invalid pid'')) (ret 1)
        else sq (syscall (Block (sint pid))) (ret 0)))"

definition kill_cmd :: "os \<Rightarrow> char list list \<Rightarrow> (user_io, int) kernel" where
  "kill_cmd os argv =
     (if length argv \<noteq> 2 then sq (perror (cs (''Usage: kill <pid>'' @ nl))) (ret 1)
      else bnd (read_int (argv ! 1)) (\<lambda>(_, pid).
        if sint pid \<le> 0 then sq (perror (cs (''Invalid PID'' @ nl))) (ret 1)
        else sq (syscall (Kill (sint pid)))
          (if os_kill os (sint pid) = - 1 then sq (perror (cs (''Error killing process'' @ nl))) (ret 1) else ret 0)))"

definition nice_cmd :: "char list list \<Rightarrow> (user_io, int) kernel" where
  "nice_cmd argv =
     (if length argv \<noteq> 3
      then sq (perror (cs (''Usage: nice <pid> <value> (Where value is between 0 and 3)'' @ nl))) (ret 1)
      else bnd (read_int (argv ! 1)) (\<lambda>(n, pid).
        if n \<noteq> 1 \<or> sint pid \<le> 0 then sq (perror (cs (''Invalid pid'' @ nl))) (ret 1)
        else bnd (read_int (argv ! 2)) (\<lambda>(n, new_prio).
          if n \<noteq> 1 \<or> sint new_prio < 0 \<or> 3 < sint new_prio then sq (perror (cs (''Invalid value'' @ nl))) (ret 1)
          else sq (syscall (Priority (sint pid) (sint new_prio))) (ret 0))))"

definition font_cmd :: "os \<Rightarrow> char list list \<Rightarrow> (user_io, int) kernel" where
  "font_cmd os argv =
     (if length argv < 2 then sq (perror (cs (''Usage: font <increase|decrease>'' @ nl))) (ret 1)
      else bnd (of_opt (strcasecmp (argv ! 1) (cs ''increase''))) (\<lambda>r.
        if r = 0 then sq (syscall FontIncrease) (ret (uint (os_font os)))
        else bnd (of_opt (strcasecmp (argv ! 1) (cs ''decrease''))) (\<lambda>r.
          if r = 0 then sq (syscall FontDecrease) (ret (uint (os_font os)))
          else sq (perror (cs (''Invalid argument'' @ nl))) (ret 0))))"

definition loop_cmd :: "os \<Rightarrow> char list list \<Rightarrow> (user_io, int) kernel" where
  "loop_cmd os argv =
     (if length argv \<noteq> 2 then sq (perror (cs (''Usage: loop <miliseconds>'' @ nl))) (ret 1)
      else bnd (read_int (argv ! 1)) (\<lambda>(n, milliseconds).
        if n \<noteq> 1 \<or> sint milliseconds \<le> 0 then sq (perror (cs (''Invalid time interval'' @ nl))) (ret 1)
        else loop (\<lambda>_. sq (printf (cs (''Hello from PID: %d'' @ nl)) [Num (scast (os_pid os))])
               (sq (syscall (Sleep milliseconds)) (ret (Inl ())))) ()))"

definition mem_cmd :: "os \<Rightarrow> char list list \<Rightarrow> (user_io, int) kernel" where
  "mem_cmd os argv =
     (if 1 < length argv then sq (printf (cs (''Cantidad invlaida de argumentos'' @ nl)) []) (ret 1)
      else case os_memory os of (total_bytes, free_bytes, used_bytes) \<Rightarrow>
        sq (printf (cs (''%d'' @ nl)) [Num 16])
        (sq (printf (cs (''Datos de memoria:'' @ nl @ ''Total de bytes: %d'' @ nl @ ''Bytes Disponibles: %d'' @ nl @ ''Bytes usados: %d'' @ nl))
               [Num (scast total_bytes), Num (scast free_bytes), Num (scast used_bytes)]) (ret 0)))"

definition exit_cmd :: "char list list \<Rightarrow> (user_io, int) kernel" where
  "exit_cmd argv = sq (syscall Shutdown) (ret 0)"

section \<open>Reading a stream\<close>

text \<open>The bytes that a list of answers delivers; a failed read is retried.\<close>

fun delivered :: "answer list \<Rightarrow> u8 list" where
  "delivered [] = []"
| "delivered (Byte c # as) = c # delivered as"
| "delivered (_ # as) = delivered as"

lemma getchar_Failed [simp]: "getchar (s\<lparr>answers := Failed # as\<rparr>) = getchar (s\<lparr>answers := as\<rparr>)"
  unfolding getchar_def by (subst loop_unfold) (simp add: sys_read_user_def run_simps)

lemma getchar_End [simp]: "getchar (s\<lparr>answers := End # as\<rparr>) = Ret (EOF, s\<lparr>answers := as\<rparr>)"
  unfolding getchar_def by (subst loop_unfold) (simp add: sys_read_user_def run_simps)

lemma getchar_Byte [simp]: "getchar (s\<lparr>answers := Byte c # as\<rparr>) = Ret (uint c, s\<lparr>answers := as\<rparr>)"
  unfolding getchar_def by (subst loop_unfold) (simp add: sys_read_user_def run_simps)

lemma EOF_not_byte [simp]: "uint (c :: u8) \<noteq> EOF" "EOF \<noteq> uint (c :: u8)"
proof -
  have "0 \<le> uint c" by simp
  then show "uint c \<noteq> EOF" "EOF \<noteq> uint c" unfolding EOF_def by linarith+
qed

text \<open>
  A loop over the input: its body handles one byte with \<open>f\<close> and the end of the file with \<open>g\<close>. A body
  that starts with \<open>getchar\<close> cannot tell a failed read from none.
\<close>

lemma stream_loop:
  assumes fail: "\<And>a s as. body a (s\<lparr>answers := Failed # as\<rparr>) = body a (s\<lparr>answers := as\<rparr>)"
    and byte: "\<And>a s c as. body a (s\<lparr>answers := Byte c # as\<rparr>) = Ret (Inl (fst (f c a s)), (snd (f c a s))\<lparr>answers := as\<rparr>)"
    and last: "\<And>a s as. body a (s\<lparr>answers := End # as\<rparr>) = Ret (Inr (g a), s\<lparr>answers := as\<rparr>)"
    and nend: "End \<notin> set ins"
  shows "loop body a (s\<lparr>answers := ins @ End # as\<rparr>) =
    (case fold (\<lambda>c (a, s). f c a s) (delivered ins) (a, s) of (a, s) \<Rightarrow> Ret (g a, s\<lparr>answers := as\<rparr>))"
  using nend
proof (induction ins arbitrary: a s)
  case Nil
  show ?case by (subst loop_unfold) (simp add: last)
next
  case (Cons i ins)
  show ?case
  proof (cases i)
    case Failed
    have "loop body a (s\<lparr>answers := Failed # ins @ End # as\<rparr>) = loop body a (s\<lparr>answers := ins @ End # as\<rparr>)"
      by (subst (1 2) loop_unfold) (simp add: fail)
    with Failed Cons show ?thesis by simp
  next
    case (Byte c)
    have "loop body a (s\<lparr>answers := Byte c # ins @ End # as\<rparr>) =
        loop body (fst (f c a s)) ((snd (f c a s))\<lparr>answers := ins @ End # as\<rparr>)"
      by (subst loop_unfold) (simp add: byte)
    with Byte Cons show ?thesis by (simp add: case_prod_beta)
  qed (use Cons in simp)
qed

definition text_of :: "u8 list \<Rightarrow> string" where
  "text_of bs = map (\<lambda>c. char_of (uint c)) bs"

definition emit :: "string \<Rightarrow> user_io \<Rightarrow> user_io" where
  "emit t s = s\<lparr>calls := calls s @ map (\<lambda>c. Write 1 [c]) t\<rparr>"

lemma putchar_emit: "putchar c s = Ret ((), emit [c] s)"
  by (simp add: putchar_def sys_write_user_def syscall_def run_simps emit_def FD_STDOUT_def)

lemma emit_emit [simp]: "emit u (emit t s) = emit (t @ u) s"
  by (simp add: emit_def)

lemma emit_Nil [simp]: "emit [] s = s"
  by (simp add: emit_def)

lemma emit_answers [simp]: "emit t (s\<lparr>answers := as\<rparr>) = (emit t s)\<lparr>answers := as\<rparr>" "answers (emit t s) = answers s"
  by (simp_all add: emit_def)

lemma written_emit [simp]: "written 1 (calls (emit t s)) = written 1 (calls s) @ t"
  by (simp add: emit_def)

lemma filter_stream:
  assumes "End \<notin> set ins"
  shows "\<exists>b. loop filter_byte b0 (s\<lparr>answers := ins @ End # as\<rparr>) =
    Ret (b, (emit (filter (\<lambda>c. \<not> IS_VOWEL c) (text_of (delivered ins))) s)\<lparr>answers := as\<rparr>)"
proof -
  let ?f = "\<lambda>c b s. if IS_VOWEL (char_of (uint c)) then (b, s) else (True, emit [char_of (uint c)] s)"
  have "\<not> IS_VOWEL (CHR 0x0A)" by (simp add: IS_VOWEL_def)
  then have byte: "filter_byte b (s\<lparr>answers := Byte c # as\<rparr>) = Ret (Inl (fst (?f c b s)), (snd (?f c b s))\<lparr>answers := as\<rparr>)" for b s c as
    by (auto simp: filter_byte_def run_simps putchar_emit)
  have fold: "\<exists>b. fold (\<lambda>c (b, s). ?f c b s) bs (b0, s) = (b, emit (filter (\<lambda>c. \<not> IS_VOWEL c) (text_of bs)) s)" for bs b0 s
  proof (induction bs arbitrary: b0 s)
    case (Cons c bs)
    from Cons.IH [of True "emit [char_of (uint c)] s"] Cons.IH [of b0 s] show ?case by (auto simp: text_of_def)
  qed (simp add: text_of_def)
  have "loop filter_byte b0 (s\<lparr>answers := ins @ End # as\<rparr>) =
      (case fold (\<lambda>c (b, s). ?f c b s) (delivered ins) (b0, s) of (b, s) \<Rightarrow> Ret (b, s\<lparr>answers := as\<rparr>))"
    by (rule stream_loop [where g = "\<lambda>b. b"]) (use byte assms in \<open>auto simp: filter_byte_def run_simps\<close>)
  with fold [of "delivered ins" b0 s] show ?thesis by auto
qed

definition count_nl :: "u8 list \<Rightarrow> nat" where
  "count_nl bs = length (filter (\<lambda>c. c = 10) bs)"

lemma uint_eq_10: "uint (c :: u8) = 10 \<longleftrightarrow> c = 10"
  using word_uint_eq_iff [of c 10] by simp

lemma wc_stream:
  assumes "End \<notin> set ins"
  shows "loop wc_byte (0, False) (s\<lparr>answers := ins @ End # as\<rparr>) =
    Ret ((of_nat (count_nl (delivered ins)), delivered ins \<noteq> []), s\<lparr>answers := as\<rparr>)"
proof -
  let ?f = "\<lambda>c a s. ((if c = 10 then fst a + 1 else fst a, True), s)"
  have byte: "wc_byte a (s\<lparr>answers := Byte c # as\<rparr>) = Ret (Inl (fst (?f c a s)), (snd (?f c a s))\<lparr>answers := as\<rparr>)" for a s c as
    by (cases a) (simp add: wc_byte_def run_simps uint_eq_10)
  have fold: "fold (\<lambda>c (a, s). ?f c a s) bs ((n, b), s) = ((n + of_nat (count_nl bs), b \<or> bs \<noteq> []), s)" for bs b and n :: u32 and s :: user_io
    by (induction bs arbitrary: n b) (auto simp: count_nl_def add.assoc)
  have "loop wc_byte (0, False) (s\<lparr>answers := ins @ End # as\<rparr>) =
      (case fold (\<lambda>c (a, s). ?f c a s) (delivered ins) ((0, False), s) of (a, s) \<Rightarrow> Ret (a, s\<lparr>answers := as\<rparr>))"
    by (rule stream_loop [where g = "\<lambda>a. a"]) (use byte assms in \<open>auto simp: wc_byte_def run_simps split: prod.splits\<close>)
  with fold [of "delivered ins" 0 False s] show ?thesis by simp
qed

lemma printf_directives:
  assumes "list_all directive_ok ds" and "f = concat (map spec ds)" and "as = concat (map arg ds)"
  shows "\<exists>cs. printf (f @ [NUL]) as s = Ret ((), s\<lparr>calls := calls s @ cs\<rparr>) \<and> written 1 cs = concat (map render ds)"
  using print_directives [OF assms(1), of 1 "[]" "[]" "[]" s] assms(2,3)
  by (auto simp: printf_def vfprintf_def FD_STDOUT_def)

lemma small_word:
  assumes "n < 2 ^ 31"
  shows "uint (of_nat n :: u32) = int n" and "sint (of_nat n :: u32) = int n"
proof -
  have "take_bit LENGTH(32) n = n" using assms by (intro take_bit_nat_eq_self) simp
  then have "unat (of_nat n :: u32) = n" by (simp only: unsigned_of_nat of_nat_id)
  then show "uint (of_nat n :: u32) = int n" by (simp only: uint_nat)
  show "sint (of_nat n :: u32) = int n" using sint_of_int [of "int n"] assms by simp
qed

lemma perror_writes:
  "list_all literal m \<Longrightarrow> perror (cs m) s = Ret ((), s\<lparr>calls := calls s @ map (\<lambda>c. Write 2 [c]) m\<rparr>)"
  using print_literals [of m "print_plain 2" 2 "[]" "[NUL]" "[]" s] print_end [of "print_plain 2" 2 m "[]" "[]"]
  by (simp add: perror_def fprintf_def vfprintf_def FD_STDERR_def cs_def)

section \<open>Properties\<close>

text \<open>
  The filter without arguments returns at the end of its input and writes exactly the bytes that are
  not vowels, in order, and a final newline, however often a read failed in between.
\<close>

theorem filter_removes_vowels:
  assumes "length argv \<le> 1" and "answers s = ins @ End # as" and "End \<notin> set ins"
  shows "\<exists>t. filter_cmd argv s = Ret (0, t) \<and> answers t = as \<and>
    written 1 (calls t) = written 1 (calls s) @ filter (\<lambda>c. \<not> IS_VOWEL c) (text_of (delivered ins)) @ nl"
proof -
  have s: "s\<lparr>answers := ins @ End # as\<rparr> = s" using assms(2) by simp
  let ?t = "(emit (filter (\<lambda>c. \<not> IS_VOWEL c) (text_of (delivered ins))) s)\<lparr>answers := as\<rparr>"
  obtain b where "loop filter_byte False s = Ret (b, ?t)" using filter_stream [OF assms(3), where s = s and as = as and ?b0.0 = False] s by auto
  with assms(1) show ?thesis
    by (intro exI [of _ "emit nl ?t"]) (simp add: filter_cmd_def run_simps putchar_emit)
qed

theorem filter_removes_vowels_witness:
  "\<exists>t. filter_cmd [cs ''filter''] \<lparr>answers = [Byte 0x68, Failed, Byte 0x6F, Byte 0x6C, Byte 0x61, End], calls = []\<rparr> = Ret (0, t) \<and>
    answers t = [] \<and> written 1 (calls t) = ''hl'' @ nl"
proof -
  let ?ins = "[Byte 0x68, Failed, Byte 0x6F, Byte 0x6C, Byte 0x61]"
  have "filter (\<lambda>c. \<not> IS_VOWEL c) (text_of (delivered ?ins)) = ''hl''" by code_simp
  then show ?thesis
    using filter_removes_vowels [of "[cs ''filter'']" "\<lparr>answers = ?ins @ [End], calls = []\<rparr>" ?ins "[]"] by auto
qed

text \<open>
  \<open>wc\<close> prints the number of newlines of its input; only when there is none does a last line without
  a newline count. The input is shorter than \<open>2 ^ 31\<close> lines.
\<close>

theorem wc_counts_newlines:
  assumes "length argv \<le> 1" and "answers s = ins @ End # as" and "End \<notin> set ins"
    and "count_nl (delivered ins) < 2 ^ 31"
  shows "\<exists>t n. wc argv s = Ret (0, t) \<and>
    written 1 (calls t) = written 1 (calls s) @ ''Se registraron '' @ dec n @ '' lineas por stdin'' @ nl \<and>
    n = (if count_nl (delivered ins) = 0 \<and> delivered ins \<noteq> [] then 1 else count_nl (delivered ins))"
proof -
  let ?k = "count_nl (delivered ins)"
  let ?n = "if ?k = 0 \<and> delivered ins \<noteq> [] then 1 else ?k"
  have s: "s\<lparr>answers := ins @ End # as\<rparr> = s" using assms(2) by simp
  have k: "(of_nat ?k :: u32) = 0 \<longleftrightarrow> ?k = 0" using small_word(1) [OF assms(4)] by auto
  have n: "?n < 2 ^ 31" using assms(4) by auto
  have w: "(if delivered ins \<noteq> [] \<and> (of_nat ?k :: u32) = 0 then 1 else of_nat ?k) = (of_nat ?n :: u32)" using k by auto
  have "sint (of_nat ?n :: u32) = int ?n" by (rule small_word(2) [OF n])
  moreover have "uint (of_nat ?n :: u32) = int ?n" by (rule small_word(1) [OF n])
  ultimately have num: "ucast (of_nat ?n :: u32) = (scast (of_nat ?n :: u32) :: u64)"
    and render: "sdec (sint (of_nat ?n :: u32)) = dec ?n" by (simp_all only: ucast_eq scast_eq) (simp add: sdec_def)
  let ?ds = "map Lit ''Se registraron '' @ [Dec (of_nat ?n)] @ map Lit ('' lineas por stdin'' @ nl)"
  have ok: "list_all directive_ok ?ds" using \<open>sint (of_nat ?n :: u32) = int ?n\<close> by (simp add: literal_def)
  obtain ws where "printf (cs (''Se registraron %d lineas por stdin'' @ nl)) [Num (ucast (of_nat ?n :: u32))] (s\<lparr>answers := as\<rparr>) =
      Ret ((), s\<lparr>answers := as, calls := calls s @ ws\<rparr>)"
    and "written 1 ws = ''Se registraron '' @ dec ?n @ '' lineas por stdin'' @ nl"
    using printf_directives [OF ok refl refl, of "s\<lparr>answers := as\<rparr>"] num render by (auto simp: cs_def)
  then show ?thesis using wc_stream [OF assms(3), where s = s and as = as] s assms(1) w
    by (intro exI [of _ "s\<lparr>answers := as, calls := calls s @ ws\<rparr>"] exI [of _ ?n]) (simp add: wc_def run_simps Let_def del: of_nat_eq_0_iff)
qed

theorem wc_counts_newlines_witness:
  "\<exists>t. wc [cs ''wc''] \<lparr>answers = [Byte 0x61, Byte 10, Byte 0x62, End], calls = []\<rparr> = Ret (0, t) \<and>
    written 1 (calls t) = ''Se registraron 1 lineas por stdin'' @ nl"
proof -
  let ?ins = "[Byte 0x61, Byte 10, Byte 0x62]"
  have "count_nl (delivered ?ins) = 1" by (simp add: count_nl_def)
  moreover have "dec 1 = ''1''" by (simp add: dec_def digits.simps digit_chars)
  ultimately show ?thesis
    using wc_counts_newlines [of "[cs ''wc'']" "\<lparr>answers = ?ins @ [End], calls = []\<rparr>" ?ins "[]"] by auto
qed

text \<open>
  \<open>nice\<close> asks for a new priority only for a positive process identifier and a value from 0 to 3, both
  decimal numbers; with any other pair of numbers it prints a message, makes no other call and
  returns 1.
\<close>

theorem nice_checks:
  fixes p v :: s32
  assumes "sint p \<noteq> - (2 ^ 31)" and "sint v \<noteq> - (2 ^ 31)"
  shows "\<exists>t. nice_cmd [cs ''nice'', sdec (sint p) @ [NUL], sdec (sint v) @ [NUL]] s =
      Ret (if 0 < sint p \<and> sint v \<in> {0..3} then 0 else 1, t) \<and>
    (if 0 < sint p \<and> sint v \<in> {0..3} then calls t = calls s @ [Priority (sint p) (sint v)]
     else \<exists>ws. calls t = calls s @ ws \<and> written 2 ws \<noteq> [] \<and> list_all (\<lambda>w. \<exists>c. w = Write 2 [c]) ws)"
proof -
  have nul: "\<not> digit_char (schar NUL)" by (simp add: digit_char_def)
  have read: "read_int (sdec (sint x) @ [NUL]) t = Ret ((1, x), t)" if "sint x \<noteq> - (2 ^ 31)" for x t
  proof -
    have b: "- (2 ^ 31) < sint x" "sint x < 2 ^ 31" using that sint_range_size [of x] by (auto simp: word_size)
    show ?thesis using sscanf_int [OF b nul, of "[]" 0 t] by (simp add: read_int_def cs_def run_simps)
  qed
  have msg: "\<exists>t. sq (perror (cs m)) (ret (1 :: int)) s = Ret (1, t) \<and> (\<exists>ws. calls t = calls s @ ws \<and> written 2 ws \<noteq> [] \<and>
      list_all (\<lambda>w. \<exists>c. w = Write 2 [c]) ws)" if "list_all literal m" "m \<noteq> []" for m
    using that perror_writes [of m s] by (auto simp: run_simps list_all_iff)
  have "list_all literal (''Invalid pid'' @ nl)" "list_all literal (''Invalid value'' @ nl)" by code_simp+
  with msg [of "''Invalid pid'' @ nl"] msg [of "''Invalid value'' @ nl"] read [OF assms(1)] read [OF assms(2)]
  show ?thesis by (auto simp: nice_cmd_def run_simps syscall_def)
qed

theorem nice_checks_witness:
  "(\<exists>t. nice_cmd [cs ''nice'', cs ''5'', cs ''2''] \<lparr>answers = [], calls = []\<rparr> = Ret (0, t) \<and> calls t = [Priority 5 2]) \<and>
   (\<exists>t. nice_cmd [cs ''nice'', cs ''5'', cs ''4''] \<lparr>answers = [], calls = []\<rparr> = Ret (1, t))"
proof -
  have "sdec 5 = ''5''" "sdec 2 = ''2''" "sdec 4 = ''4''" by code_simp+
  then show ?thesis
    using nice_checks [of 5 2 "\<lparr>answers = [], calls = []\<rparr>"] nice_checks [of 5 4 "\<lparr>answers = [], calls = []\<rparr>"]
    by (auto simp: cs_def)
qed

end
