(* ===== verification/Shell.thy ===== *)
theory Shell
  imports Commands
begin

text \<open>
  The shell: src/TP2-SO-2025/Userland/Shell/shell.c, shell.h and the built-in man.c. The line is read
  into a static buffer, which \<open>strtok\<close> cuts into words; every argument is copied to a block of the
  kernel's heap (\<open>allocMemory\<close>, a parameter of type \<open>mm\<close> as everywhere) whose contents are \<open>strs\<close>.
  The answers of the calls that start processes and open pipes are functions of the calls made so far.
\<close>

section \<open>The command table\<close>

record command =
  c_name :: string
  c_description :: string
  c_builtin :: bool

definition entry :: "string \<Rightarrow> string \<Rightarrow> bool \<Rightarrow> command" where
  "entry n d b = \<lparr>c_name = n, c_description = d, c_builtin = b\<rparr>"

definition ht :: string where
  "ht = [CHR 0x09]"

definition commands :: "command list" where
  "commands =
    [entry ''block'' ''Blocks or unblocks a process'' False,
     entry ''cat'' ''Prints the content of the file'' False,
     entry ''clear'' ''Clears the screen'' False,
     entry ''echo'' ''Prints the input string'' False,
     entry ''exit'' ''Closes qemu window'' True,
     entry ''help'' ''Prints the available commands'' False,
     entry ''man'' ''Prints the description of the provided command'' True,
     entry ''test_mm'' (''Runs the Memory Manager stress test.'' @ nl @ ht @ ht @ ht @ ''Usage: test_mm <bytes>'') False,
     entry ''test_prio'' (''Runs the priority test.'' @ nl @ ht @ ht @ ht @ ''Usage: test_prio <priority>'') False,
     entry ''test_processes'' (''Runs the process test.'' @ nl @ ht @ ht @ ht @ ''Usage: test_processes <processes>'') False,
     entry ''test_sync'' (''Runs the synchronization test.'' @ nl @ ht @ ht @ ht @ ''Usage: test_sync <value> <flag>'') False,
     entry ''ps'' ''Lists all processes'' False,
     entry ''loop'' (''Prints hello message every N seconds'' @ nl @ ht @ ht @ ht @ ''Usage: loop <delay_seconds>'') False,
     entry ''kill'' (''Kills a process by PID'' @ nl @ ht @ ht @ ht @ ''Usage: kill <pid>'') False,
     entry ''nice'' (''Changes process priority'' @ nl @ ht @ ht @ ht @ ''Usage: nice <pid> <priority>'') False,
     entry ''mem'' ''Shows memory status'' False,
     entry ''wc'' ''Counts inputs's total lines'' False,
     entry ''filter'' ''Removes all vowels from input string'' False,
     entry ''mvar'' ''MVar demo: Usage mvar <writers> <readers>'' False,
     entry ''font'' (''Increases or decreases the font size'' @ nl @ ht @ ht @ ht @ ht @ ''Use:'' @ nl @ ht @ ht @ ht @ ht @ ht @
       ''  + font increase'' @ nl @ ht @ ht @ ht @ ht @ ht @ ''  + font decrease'') False]"

definition MAX_BUFFER_SIZE :: nat where "MAX_BUFFER_SIZE = 1024"
definition HISTORY_SIZE :: nat where "HISTORY_SIZE = 10"
definition MAX_ARGUMENT_COUNT :: nat where "MAX_ARGUMENT_COUNT = 10"
definition MAX_ARGUMENT_SIZE :: nat where "MAX_ARGUMENT_SIZE = 256"

section \<open>State\<close>

text \<open>
  A parsed command: its index in the table and the addresses of its arguments after the first, so
  that \<open>argc\<close> is one more than their number.
\<close>

record parsed =
  p_cmd :: nat
  p_args :: "addr list"

record 'm shell =
  tok :: tokenizer
  buffer_dim :: nat
  command_buf :: "char list"
  history :: "char list list"
  history_buffer :: "char list"
  history_last :: u8
  last_command_arrowed :: u8
  table_addr :: addr
  parsed_dim :: nat
  parsed_cmds :: "parsed list"
  strs :: "addr \<Rightarrow> char list option"
  heap :: 'm
  io :: user_io

record sh_env =
  se_pid :: s32
  se_create :: "call list \<Rightarrow> int"
  se_pipe :: "call list \<Rightarrow> int"

definition on_tok :: "(tokenizer, 'a) kernel \<Rightarrow> ('m shell, 'a) kernel" where
  "on_tok = zoom tok (\<lambda>t s. s\<lparr>tok := t\<rparr>)"

definition on_io :: "(user_io, 'a) kernel \<Rightarrow> ('m shell, 'a) kernel" where
  "on_io = zoom io (\<lambda>t s. s\<lparr>io := t\<rparr>)"

definition on_heap :: "('m, 'a) kernel \<Rightarrow> ('m shell, 'a) kernel" where
  "on_heap = zoom heap (\<lambda>t s. s\<lparr>heap := t\<rparr>)"

text \<open>The bytes from a pointer into the line buffer on.\<close>

definition tok_bytes :: "nat \<Rightarrow> ('m shell, char list) kernel" where
  "tok_bytes p = gets (\<lambda>s. drop p (tk_mem (tok s)))"

definition str_of :: "addr \<Rightarrow> ('m shell, char list) kernel" where
  "str_of a = deref strs a"

section \<open>Parsing\<close>

definition allocMemory :: "'m mm \<Rightarrow> nat \<Rightarrow> ('m shell, addr) kernel" where
  "allocMemory M n = on_heap (mm_alloc_op M n)"

definition freeMemory :: "'m mm \<Rightarrow> addr \<Rightarrow> ('m shell, unit) kernel" where
  "freeMemory M a = sq (on_heap (mm_free_op M a)) (upd (\<lambda>s. s\<lparr>strs := (strs s)(a := None)\<rparr>))"

fun free_all :: "'m mm \<Rightarrow> addr list \<Rightarrow> ('m shell, unit) kernel" where
  "free_all M [] = ret ()"
| "free_all M (a # as) = sq (freeMemory M a) (free_all M as)"

text \<open>The table is searched in order; a name is compared with the command buffer.\<close>

fun find_command :: "nat \<Rightarrow> command list \<Rightarrow> char list \<Rightarrow> nat option option" where
  "find_command i [] command = Some None"
| "find_command i (c # rest) command =
     (case strcmp_libc (c_name c @ [NUL]) command of
        None \<Rightarrow> None
      | Some r \<Rightarrow> if r = 0 then Some (Some i) else find_command (i + 1) rest command)"

definition blank :: "char list" where
  "blank = [CHR '' '', NUL]"

definition skip_pipes :: "nat option \<Rightarrow> ('m shell, nat option) kernel" where
  "skip_pipes = loop (\<lambda>t. case t of
       None \<Rightarrow> ret (Inr None)
     | Some p \<Rightarrow> bnd (tok_bytes p) (\<lambda>str.
         bnd (of_opt (strcmp_libc str [CHR ''|'', NUL])) (\<lambda>r.
         if r = 0 then bnd (on_tok (strtok None blank)) (\<lambda>t. ret (Inl t)) else ret (Inr (Some p)))))"

text \<open>One round of the argument loop: \<open>args\<close> are the blocks of the arguments so far. \<open>None\<close> is the
  failed allocation, after which they have been given back.\<close>

definition arg_step ::
  "'m mm \<Rightarrow> nat option \<times> addr list \<Rightarrow> ('m shell, (nat option \<times> addr list) + addr list option) kernel" where
  "arg_step M a = (case a of
       (None, args) \<Rightarrow> ret (Inr (Some args))
     | (Some p, args) \<Rightarrow> bnd (tok_bytes p) (\<lambda>str.
         bnd (of_opt (strcasecmp str [CHR ''|'', NUL])) (\<lambda>r.
         if r \<noteq> 0 \<and> length args + 1 < MAX_ARGUMENT_COUNT - 1 then
           bnd (of_opt (strlen_libc str)) (\<lambda>len.
           bnd (allocMemory M (len + 1)) (\<lambda>blk.
           if blk = null then
             sq (on_io (perror (cs ''Memory allocation failed for command argument'')))
             (sq (free_all M args) (ret (Inr None)))
           else
             bnd (of_opt (strcpy_libc (replicate (len + 1) NUL) str)) (\<lambda>buf.
             sq (upd (\<lambda>s. s\<lparr>strs := (strs s)(blk := Some buf)\<rparr>))
             (bnd (on_tok (strtok None blank)) (\<lambda>t. ret (Inl (t, args @ [blk])))))))
         else ret (Inr (Some args)))))"

text \<open>\<open>None\<close> is the result -1. The \<open>command\<close> argument is the array of \<open>MAX_ARGUMENT_SIZE\<close> bytes.
  \<open>parse_words\<close> is the part after the leading pipes have been skipped, \<open>p\<close> the word found.\<close>

definition parse_words :: "'m mm \<Rightarrow> nat \<Rightarrow> ('m shell, parsed option) kernel" where
  "parse_words M p =
     bnd (tok_bytes p) (\<lambda>str.
     bnd (gets command_buf) (\<lambda>cmd.
     bnd (of_opt (strcpy_libc cmd str)) (\<lambda>cmd.
     sq (upd (\<lambda>s. s\<lparr>command_buf := cmd\<rparr>))
     (if cmd ! 0 = NUL then ret None
      else bnd (of_opt (find_command 0 commands cmd)) (\<lambda>found.
      case found of None \<Rightarrow> ret None
      | Some command_i \<Rightarrow>
          bnd (on_tok (strtok None blank)) (\<lambda>arg.
          bnd (loop (arg_step M) (arg, [])) (\<lambda>r.
          case r of None \<Rightarrow> ret None
          | Some args \<Rightarrow> ret (Some \<lparr>p_cmd = command_i, p_args = args\<rparr>))))))))"

definition parse_command :: "'m mm \<Rightarrow> bool \<Rightarrow> ('m shell, parsed option) kernel" where
  "parse_command M first =
     bnd (on_tok (strtok (if first then Some 0 else None) blank)) (\<lambda>t.
     bnd (skip_pipes t) (\<lambda>t.
     case t of None \<Rightarrow> ret None | Some p \<Rightarrow> parse_words M p))"

text \<open>
  All commands of the line. The table of parsed commands is a block of the heap that is moved to a
  larger one when it is full (a \<open>ParsedCommand\<close> has 112 bytes); when that fails everything is given
  back and the shell leaves its main loop, the result \<open>False\<close>.
\<close>

definition sizeof_parsed :: nat where "sizeof_parsed = 112"

definition grow_table :: "'m mm \<Rightarrow> ('m shell, bool) kernel" where
  "grow_table M =
     bnd (gets parsed_dim) (\<lambda>dim.
     bnd (gets parsed_cmds) (\<lambda>ps.
     bnd (gets table_addr) (\<lambda>old.
     bnd (allocMemory M (sizeof_parsed * (dim + 5))) (\<lambda>new.
     if new = null then
       sq (on_io (perror (cs ''Memory allocation failed for parsed commands'')))
       (sq (free_all M (concat (map p_args ps))) (sq (freeMemory M old) (ret False)))
     else
       sq (freeMemory M old) (sq (upd (\<lambda>s. s\<lparr>parsed_dim := dim + 5, table_addr := new\<rparr>)) (ret True))))))"

definition parse_step :: "'m mm \<Rightarrow> unit \<Rightarrow> ('m shell, unit + bool) kernel" where
  "parse_step M _ =
     bnd (gets parsed_cmds) (\<lambda>ps.
     bnd (gets parsed_dim) (\<lambda>dim.
     bnd (parse_command M (ps = [])) (\<lambda>r.
     case r of None \<Rightarrow> ret (Inr True)
     | Some p \<Rightarrow>
         if dim \<le> length ps then halt Fault
         else
           let parsed = length ps + 1 in
           sq (upd (\<lambda>s. s\<lparr>parsed_cmds := ps @ [p]\<rparr>))
           (if parsed mod 5 = 0 \<and> dim \<le> parsed
            then bnd (grow_table M) (\<lambda>ok. ret (if ok then Inl () else Inr False))
            else ret (Inl ())))))"

definition parse_line :: "'m mm \<Rightarrow> ('m shell, bool) kernel" where
  "parse_line M = loop (parse_step M) ()"

section \<open>Reading a line\<close>

definition read_char :: "('m shell, int) kernel" where
  "read_char = bnd (on_io getchar) (\<lambda>c. ret (as_char c))"

text \<open>The value is the last character read; a line that does not end in time leaves it unread.\<close>

definition read_step :: "int \<Rightarrow> ('m shell, int + int) kernel" where
  "read_step c =
     bnd (gets buffer_dim) (\<lambda>dim.
     if dim < MAX_BUFFER_SIZE - 1 then
       bnd read_char (\<lambda>c.
       if c = 10 then ret (Inr c)
       else
         let ch = char_of (c mod 256) in
         sq (upd (\<lambda>s. s\<lparr>history_buffer := (history_buffer s)[dim := ch],
                tok := (tok s)\<lparr>tk_mem := (tk_mem (tok s))[dim := ch]\<rparr>, buffer_dim := dim + 1\<rparr>))
         (ret (Inl c)))
     else ret (Inr c))"

definition set_buffer :: "nat \<Rightarrow> char \<Rightarrow> ('m shell, unit) kernel" where
  "set_buffer i c = upd (\<lambda>s. s\<lparr>tok := (tok s)\<lparr>tk_mem := (tk_mem (tok s))[i := c]\<rparr>\<rparr>)"

definition drain :: "int \<Rightarrow> ('m shell, unit) kernel" where
  "drain = loop (\<lambda>c. if c \<noteq> 10 then bnd read_char (\<lambda>c. ret (Inl c)) else ret (Inr ()))"

section \<open>Running commands\<close>

definition man :: "string list \<Rightarrow> (user_io, int) kernel" where
  "man argv =
     (if length argv \<noteq> 2 then sq (perror (cs (''Usage: man <command>'' @ nl))) (ret 1)
      else
        (let found = filter (\<lambda>c. strcasecmp (cs (c_name c)) (cs (argv ! 1)) = Some 0) commands in
         case found of
           [] \<Rightarrow> sq (perror (cs (''Command not found'' @ nl))) (ret 1)
         | c # _ \<Rightarrow> sq (printf (cs (''Command: %s'' @ nl @ ''Information: %s'' @ nl)) [Str (cs (c_name c)), Str (cs (c_description c))]) (ret 0)))"

definition arg_strings :: "addr list \<Rightarrow> ('m shell, string list) kernel" where
  "arg_strings as = (\<lambda>s. if list_all (\<lambda>a. strs s a \<noteq> None) as
     then Ret (map (\<lambda>a. takeWhile (\<lambda>c. c \<noteq> NUL) (the (strs s a))) as, s) else Stop Fault)"

text \<open>\<open>&\<close> as the last argument: its pointer is dropped from the table.\<close>

definition strip_background :: "parsed \<Rightarrow> ('m shell, bool \<times> parsed) kernel" where
  "strip_background p =
     (if p_args p = [] then ret (False, p)
      else bnd (str_of (last (p_args p))) (\<lambda>str.
        bnd (of_opt (strcmp_libc str [CHR ''&'', NUL])) (\<lambda>r.
        ret (if r = 0 then (True, p\<lparr>p_args := butlast (p_args p)\<rparr>) else (False, p)))))"

definition createProcess :: "sh_env \<Rightarrow> parsed \<Rightarrow> int list \<Rightarrow> bool \<Rightarrow> ('m shell, int) kernel" where
  "createProcess env p targets fg =
     bnd (arg_strings (p_args p)) (\<lambda>args.
     sq (on_io (syscall (Create (c_name (commands ! p_cmd p)) args 2 targets fg)))
     (gets (\<lambda>s. se_create env (calls (io s)))))"

definition run_builtin :: "parsed \<Rightarrow> ('m shell, unit) kernel" where
  "run_builtin p =
     bnd (arg_strings (p_args p)) (\<lambda>args.
     let argv = c_name (commands ! p_cmd p) # args in
     sq (on_io (if c_name (commands ! p_cmd p) = ''exit'' then exit_cmd (map cs argv) else man argv)) (ret ()))"

definition run_single :: "sh_env \<Rightarrow> parsed \<Rightarrow> ('m shell, unit) kernel" where
  "run_single env p =
     (if c_builtin (commands ! p_cmd p) then run_builtin p
      else bnd (strip_background p) (\<lambda>(wantsBackground, p).
        sq (upd (\<lambda>s. s\<lparr>parsed_cmds := [p]\<rparr>))
        (bnd (createProcess env p [0, 1, 2] (\<not> wantsBackground)) (\<lambda>pid.
         if \<not> wantsBackground \<and> 0 < pid then on_io (syscall (WaitPid pid)) else ret ()))))"

definition run_pipeline :: "sh_env \<Rightarrow> parsed \<Rightarrow> parsed \<Rightarrow> ('m shell, unit) kernel" where
  "run_pipeline env p q =
     (if c_builtin (commands ! p_cmd p) \<or> c_builtin (commands ! p_cmd q)
      then on_io (printf (cs (''Pipelines with built-in commands are not supported.'' @ nl)) [])
      else
        sq (on_io (syscall PipeOpen))
        (bnd (gets (\<lambda>s. se_pipe env (calls (io s)))) (\<lambda>pipeId.
         if pipeId < 0 then on_io (perror (cs ''Failed to open pipe''))
         else
           bnd (strip_background p) (\<lambda>(b1, p).
           bnd (strip_background q) (\<lambda>(b2, q).
           let wantsBackground = (b1 \<or> b2) in
           sq (upd (\<lambda>s. s\<lparr>parsed_cmds := [p, q]\<rparr>))
           (bnd (createProcess env p [0, pipeId, 2] False) (\<lambda>pidLeft.
            bnd (createProcess env q [pipeId, 1, 2] (\<not> wantsBackground)) (\<lambda>pidRight.
            sq (if \<not> wantsBackground \<and> 0 < pidRight \<and> 0 < pidLeft
                then sq (on_io (syscall (WaitPid pidLeft))) (on_io (syscall (WaitPid pidRight)))
                else ret ())
            (on_io (syscall (PipeClose (pipeId mod 256))))))))))))"

definition run_parsed :: "sh_env \<Rightarrow> ('m shell, unit) kernel" where
  "run_parsed env = bnd (gets parsed_cmds) (\<lambda>ps. case ps of
       [] \<Rightarrow> ret ()
     | [p] \<Rightarrow> run_single env p
     | [p, q] \<Rightarrow> run_pipeline env p q
     | _ \<Rightarrow> on_io (printf (cs (''Pipelines with more than 2 commands are not supported.'' @ nl)) []))"

section \<open>The main loop\<close>

text \<open>What is printed when no command was recognised: the first word of the buffer, which \<open>strtok\<close>
  has cut already.\<close>

definition not_found :: "('m shell, unit) kernel" where
  "not_found =
     bnd (on_tok (strtok (Some 0) blank)) (\<lambda>t.
     sq (case t of None \<Rightarrow> ret ()
         | Some p \<Rightarrow> bnd (tok_bytes p) (\<lambda>str.
             bnd (of_opt (strcpy_libc (replicate MAX_ARGUMENT_SIZE NUL) str)) (\<lambda>invalid_cmd.
             on_io (printf (cs (''Command '' @ [CHR 0x27] @ ''%s'' @ [CHR 0x27] @ '' not found'' @ nl)) [Str invalid_cmd]))))
     (on_io (printf (cs (''For a list of valid commands type '' @ [CHR 0x27] @ ''help'' @ [CHR 0x27] @ nl)) [])))"

definition remember :: "('m shell, unit) kernel" where
  "remember =
     bnd (gets (\<lambda>s. (unat (history_last s), history s, history_buffer s, buffer_dim s))) (\<lambda>(k, h, hb, dim).
     if length h \<le> k then halt Fault
     else bnd (of_opt (strncpy_libc (h ! k) hb 255)) (\<lambda>line.
       bnd (of_opt (put_byte line dim NUL)) (\<lambda>line.
       upd (\<lambda>s. s\<lparr>history := h[k := line], history_last := (history_last s + 1) mod 10,
              last_command_arrowed := (history_last s + 1) mod 10\<rparr>))))"

definition release :: "'m mm \<Rightarrow> ('m shell, unit) kernel" where
  "release M =
     bnd (gets parsed_cmds) (\<lambda>ps.
     sq (free_all M (concat (map p_args ps)))
     (sq (upd (\<lambda>s. s\<lparr>parsed_cmds := [], buffer_dim := 0\<rparr>)) (set_buffer 0 NUL)))"

definition prompt :: string where
  "prompt = [CHR 0x1B] @ ''[0mshell (%d) '' @ [CHR 0x1B] @ ''[0;32m$'' @ [CHR 0x1B] @ ''[0m ''"

text \<open>One line: \<open>Inr\<close> is the return from \<open>main\<close>.\<close>

definition shell_line :: "'m mm \<Rightarrow> sh_env \<Rightarrow> unit \<Rightarrow> ('m shell, unit + int) kernel" where
  "shell_line M env _ =
     sq (on_io (printf (cs prompt) [Num (scast (se_pid env))]))
     (bnd (loop read_step 0) (\<lambda>c.
      bnd (gets buffer_dim) (\<lambda>dim.
      sq (set_buffer dim NUL)
      (if MAX_BUFFER_SIZE - 1 \<le> dim then
         sq (on_io (perror (cs ([CHR 0x1B] @ ''[0;31mShell buffer overflow'' @ [CHR 0x1B] @ ''[0m'' @ nl))))
         (sq (upd (\<lambda>s. s\<lparr>buffer_dim := 0\<rparr>)) (sq (set_buffer 0 NUL) (sq (drain c) (ret (Inl ())))))
       else
         bnd (parse_line M) (\<lambda>ok.
         if \<not> ok then ret (Inr (- 1))
         else
           bnd (gets parsed_cmds) (\<lambda>ps.
           sq (if ps = [] \<and> 0 < dim then not_found else ret ())
           (sq (if ps \<noteq> [] then remember else ret ())
           (sq (run_parsed env) (sq (release M) (ret (Inl ())))))))))))"

definition shell_main :: "'m mm \<Rightarrow> sh_env \<Rightarrow> ('m shell, int) kernel" where
  "shell_main M env =
     sq (on_io (syscall ClearScreen))
     (sq (set_buffer 0 NUL)
     (sq (upd (\<lambda>s. s\<lparr>buffer_dim := 0, command_buf := replicate MAX_ARGUMENT_SIZE NUL, parsed_dim := 5\<rparr>))
     (bnd (allocMemory M (sizeof_parsed * 5)) (\<lambda>a.
      if a = null then sq (on_io (perror (cs ''Memory allocation failed for parsed commands''))) (ret (- 1))
      else sq (upd (\<lambda>s. s\<lparr>table_addr := a, parsed_cmds := []\<rparr>)) (loop (shell_line M env) ())))))"

end
