(* ===== verification/Shell_Properties.thy ===== *)
theory Shell_Properties
  imports Shell First_Fit
begin

text \<open>
  The parser of the shell against a specification on strings: which command and which words a line
  holds, how much of it is left for the next command of a pipeline, and what it takes from the heap.
\<close>

section \<open>The specification\<close>

definition remainder :: "string \<Rightarrow> string" where
  "remainder r = (case after_token '' '' r of None \<Rightarrow> [] | Some r' \<Rightarrow> r')"

abbreviation word :: "string \<Rightarrow> string" where
  "word r \<equiv> token '' '' r"

lemma remainder_length: "r \<noteq> [] \<Longrightarrow> length (remainder r) < length r"
  by (auto simp: remainder_def split: option.split dest: after_token_length)

lemma remainder_Nil [simp]: "remainder [] = []"
  by (simp add: remainder_def)

function first_word :: "string \<Rightarrow> (string \<times> string) option" where
  "first_word r =
     (if r = [] then None
      else if word r = ''|'' then first_word (remainder r)
      else Some (word r, remainder r))"
  by pat_completeness auto

termination by (relation "measure length") (simp_all add: remainder_length)

function arg_words :: "nat \<Rightarrow> string \<Rightarrow> string list \<times> string" where
  "arg_words n r =
     (if r = [] then ([], [])
      else if word r = ''|'' \<or> MAX_ARGUMENT_COUNT - 1 \<le> n + 1 then ([], remainder r)
      else (case arg_words (n + 1) (remainder r) of (ws, r') \<Rightarrow> (word r # ws, r')))"
  by pat_completeness auto

termination by (relation "measure (length \<circ> snd)") (simp_all add: remainder_length)

declare first_word.simps [simp del] arg_words.simps [simp del]

fun index_of :: "nat \<Rightarrow> command list \<Rightarrow> string \<Rightarrow> nat option" where
  "index_of i [] w = None"
| "index_of i (c # rest) w = (if c_name c = w then Some i else index_of (i + 1) rest w)"

text \<open>The index of the command, its arguments and the rest of the line.\<close>

definition parse_spec :: "string \<Rightarrow> (nat \<times> string list \<times> string) option" where
  "parse_spec r =
     (case first_word r of None \<Rightarrow> None
      | Some (w, r') \<Rightarrow> if w = [] then None else map_option (\<lambda>i. (i, arg_words 0 r')) (index_of 0 commands w))"

section \<open>The tokenizer between two words\<close>

definition at_rest :: "tokenizer \<Rightarrow> string \<Rightarrow> bool" where
  "at_rest t r \<longleftrightarrow> NUL \<notin> set r \<and> (\<exists>pre post. tk_mem t = pre @ r @ NUL # post \<and> tk_last t = Some (length pre))"

lemma blank_cstr: "is_cstr blank '' ''"
  by (simp add: blank_def is_cstr_def)

lemma word_NUL: "NUL \<notin> set r \<Longrightarrow> NUL \<notin> set (word r)"
  using set_takeWhileD [of NUL _ r] by metis

lemma remainder_NUL: "NUL \<notin> set r \<Longrightarrow> NUL \<notin> set (remainder r)"
  using after_token_Some [of "'' ''" r] by (auto simp: remainder_def split: option.split) (metis Un_iff list.set_intros(2) set_append)

lemma first_word_length: "first_word r = Some (w, r') \<Longrightarrow> length r' < length r"
proof (induction r rule: first_word.induct)
  case (1 r)
  then show ?case using remainder_length [of r] by (subst (asm) (2) first_word.simps) (auto split: if_splits)
qed

lemma strtok_from_rest:
  assumes "NUL \<notin> set r" and "tk_mem t = pre @ r @ NUL # post"
  shows "\<exists>t'. strtok_from blank (length pre) t = Ret (Some (length pre), t') \<and>
    is_cstr (drop (length pre) (tk_mem t')) (word r) \<and> at_rest t' (remainder r) \<and> length (tk_mem t') = length (tk_mem t)"
proof (cases "after_token '' '' r")
  case None
  let ?t = "t\<lparr>tk_last := Some (length (pre @ r))\<rparr>"
  have "at_rest ?t []" unfolding at_rest_def using assms(2)
    by (intro conjI exI [of _ "pre @ r"] exI [of _ post]) auto
  moreover have w: "word r = r" by (rule after_token_None [OF None])
  have "is_cstr (drop (length pre) (tk_mem ?t)) (word r)" unfolding w using assms by (simp add: is_cstr_def)
  moreover have "remainder r = []" by (simp add: remainder_def None)
  moreover have "strtok_from blank (length pre) t = Ret (Some (length pre), ?t)"
    using strtok_from_spec [OF blank_cstr assms] None by simp
  ultimately show ?thesis by (intro exI [of _ ?t]) simp
next
  case (Some r')
  let ?pre = "pre @ word r @ [NUL]"
  let ?t = "t\<lparr>tk_mem := ?pre @ r' @ NUL # post, tk_last := Some (length ?pre)\<rparr>"
  have "NUL \<notin> set r'" using remainder_NUL [OF assms(1)] Some by (simp add: remainder_def)
  then have "at_rest ?t r'" unfolding at_rest_def by (intro conjI exI [of _ ?pre] exI [of _ post]) auto
  moreover obtain d where "r = word r @ d # r'" using after_token_Some [OF Some] by blast
  then have "length r = length (word r) + Suc (length r')" by (metis length_Cons length_append)
  ultimately show ?thesis using strtok_from_spec [OF blank_cstr assms] Some assms word_NUL [OF assms(1)]
    by (intro exI [of _ ?t]) (auto simp: remainder_def is_cstr_def)
qed

lemma strtok_rest:
  assumes "at_rest t r"
  shows "if r = [] then strtok None blank t = Ret (None, t)
    else \<exists>p t'. strtok None blank t = Ret (Some p, t') \<and> is_cstr (drop p (tk_mem t')) (word r) \<and> at_rest t' (remainder r) \<and>
      length (tk_mem t') = length (tk_mem t)"
proof -
  from assms obtain pre post where m: "NUL \<notin> set r" "tk_mem t = pre @ r @ NUL # post" "tk_last t = Some (length pre)"
    by (auto simp: at_rest_def)
  from strtok_next [OF m(2,1,3), of blank] strtok_from_rest [OF m(1,2)] show ?thesis by auto
qed

lemma strtok_first:
  assumes "NUL \<notin> set r" and "tk_mem t = r @ NUL # post"
  shows "\<exists>t'. strtok (Some 0) blank t = Ret (Some 0, t') \<and> is_cstr (drop 0 (tk_mem t')) (word r) \<and> at_rest t' (remainder r) \<and>
    length (tk_mem t') = length (tk_mem t)"
  using strtok_from_rest [of r t "[]" post] assms by (simp add: strtok_def)

section \<open>What a routine keeps\<close>

definition sh_same :: "'m shell \<Rightarrow> 'm shell \<Rightarrow> bool" where
  "sh_same s t \<longleftrightarrow> parsed_cmds t = parsed_cmds s \<and> parsed_dim t = parsed_dim s \<and> table_addr t = table_addr s \<and>
     buffer_dim t = buffer_dim s"

text \<open>The blocks of the arguments \<open>as\<close>, which hold the words \<open>ws\<close>.\<close>

definition blocks :: "addr list \<Rightarrow> string list \<Rightarrow> addr \<rightharpoonup> nat" where
  "blocks as ws = map_of (zip as (map (\<lambda>w. length w + 1) ws))"

definition holds :: "'m shell \<Rightarrow> addr list \<Rightarrow> string list \<Rightarrow> bool" where
  "holds s as ws \<longleftrightarrow> list_all2 (\<lambda>a w. NUL \<notin> set w \<and> strs s a = Some (w @ [NUL])) as ws"

lemma blocks_dom: "length as = length ws \<Longrightarrow> dom (blocks as ws) = set as"
  by (simp add: blocks_def dom_map_of_zip)

lemma blocks_snoc:
  assumes "length as = length ws" and "a \<notin> dom L" and "a \<notin> set as"
  shows "L ++ blocks (as @ [a]) (ws @ [w]) = (L ++ blocks as ws)(a \<mapsto> length w + 1)"
proof -
  have "blocks (as @ [a]) (ws @ [w]) = [a \<mapsto> length w + 1] ++ blocks as ws" using assms(1) by (simp add: blocks_def)
  moreover have "blocks as ws a = None" using assms(1,3) blocks_dom [of as ws] by auto
  ultimately show ?thesis using assms(2) by (intro ext) (auto simp: map_add_def split: option.splits)
qed

lemma sh_same_refl [simp]: "sh_same s s"
  by (simp add: sh_same_def)

lemma sh_same_trans: "sh_same s t \<Longrightarrow> sh_same t u \<Longrightarrow> sh_same s u"
  by (simp add: sh_same_def)

context memory_manager
begin

lemma free_all_spec:
  assumes "rep (heap s) (L ++ blocks as ws)" and "length as = length ws" and "distinct as" and "set as \<inter> dom L = {}"
  shows "wp no_stop (free_all M as) (\<lambda>_ t. rep (heap t) L \<and> tok t = tok s \<and> sh_same s t \<and> command_buf t = command_buf s \<and> io t = io s) s"
  using assms
proof (induction as ws arbitrary: s rule: list_induct2')
  case (4 a as w ws)
  have "(L ++ blocks (a # as) (w # ws))(a := None) = L ++ blocks as ws"
  proof (rule ext)
    fix x
    have "blocks as ws a = None" using 4(3,4) blocks_dom [of as ws] by auto
    then show "((L ++ blocks (a # as) (w # ws))(a := None)) x = (L ++ blocks as ws) x"
      using 4(5) by (auto simp: blocks_def map_add_def split: option.splits)
  qed
  then have free: "wp no_stop (mm_free_op M a) (\<lambda>_ t. rep t (L ++ blocks as ws)) (heap s)"
    using free_spec [OF 4(2), of a] blocks_dom [of "a # as" "w # ws"] 4(3) by auto
  have "wp no_stop (free_all M as) (\<lambda>_ t. rep (heap t) L \<and> tok t = tok s \<and> sh_same s t \<and> command_buf t = command_buf s \<and> io t = io s)
      (s\<lparr>heap := h, strs := (strs s)(a := None)\<rparr>)" if "rep h (L ++ blocks as ws)" for h
    using 4(1) [of "s\<lparr>heap := h, strs := (strs s)(a := None)\<rparr>"] that 4(3-5) by (auto simp: sh_same_def elim!: wp_mono)
  then show ?case by (auto simp: freeMemory_def on_heap_def intro: wp_mono [OF free])
qed (auto simp: blocks_def)

end

lemma toupper_bar: "map toupper w = map toupper ''|'' \<longleftrightarrow> w = ''|''"
proof -
  have "toupper c = toupper (CHR ''|'') \<longleftrightarrow> c = CHR ''|''" for c
  proof -
    have "schar (CHR ''|'') = 124" by (simp add: schar_def)
    then show ?thesis using schar_inj [of c "CHR ''|''"] by (auto simp: toupper_def)
  qed
  then show ?thesis by (cases w) auto
qed

lemma strcasecmp_bar: "is_cstr x w \<Longrightarrow> \<exists>r. strcasecmp x [CHR ''|'', NUL] = Some r \<and> (r = 0 \<longleftrightarrow> w = ''|'')"
  using strcasecmp_cstr [of x w "[CHR ''|'', NUL]" "''|''"] toupper_bar [of w] by (auto simp: is_cstr_def)

lemma strcmp_bar: "is_cstr x w \<Longrightarrow> \<exists>r. strcmp_libc x [CHR ''|'', NUL] = Some r \<and> (r = 0 \<longleftrightarrow> w = ''|'')"
  using strcmp_libc_cstr [of x w "[CHR ''|'', NUL]" "''|''"] by (auto simp: is_cstr_def)

lemma strcpy_exact: "is_cstr x w \<Longrightarrow> strcpy_libc (replicate (length w + 1) NUL) x = Some (w @ [NUL])"
  using copy_loop_cstr [of w "[]" "replicate (length w + 1) NUL"] by (auto simp: strcpy_libc_def is_cstr_def)

text \<open>The invariant of the argument loop: the blocks so far are new, distinct and hold the words.\<close>

definition args_in :: "('m \<Rightarrow> (addr \<rightharpoonup> nat) \<Rightarrow> bool) \<Rightarrow> (addr \<rightharpoonup> nat) \<Rightarrow> 'm shell \<Rightarrow> addr list \<Rightarrow> string list \<Rightarrow> bool" where
  "args_in rep L s as ws \<longleftrightarrow> rep (heap s) (L ++ blocks as ws) \<and> length as = length ws \<and> distinct as \<and>
     set as \<inter> dom L = {} \<and> holds s as ws"

lemma wp_cong_run: "m s = k s \<Longrightarrow> wp E m Q s = wp E k Q s"
  by (simp add: wp_def)

text \<open>A failed allocation is reported.\<close>

definition complained :: "'m shell \<Rightarrow> 'm shell \<Rightarrow> bool" where
  "complained s t \<longleftrightarrow>
     calls (io t) = calls (io s) @ map (\<lambda>c. Write 2 [c]) ''Memory allocation failed for command argument''"

definition fetch :: "('m shell, nat option) kernel" where
  "fetch = on_tok (strtok None blank)"

lemma fetch_spec:
  assumes "at_rest (tok s) r"
  shows "if r = [] then fetch s = Ret (None, s)
    else \<exists>p t. fetch s = Ret (Some p, s\<lparr>tok := t\<rparr>) \<and> is_cstr (drop p (tk_mem t)) (word r) \<and> at_rest t (remainder r) \<and>
      length (tk_mem t) = length (tk_mem (tok s))"
proof (cases "r = []")
  case True
  with strtok_rest [OF assms] show ?thesis by (simp add: fetch_def on_tok_def zoom_def)
next
  case False
  with strtok_rest [OF assms] obtain p t where "strtok None blank (tok s) = Ret (Some p, t)"
    "is_cstr (drop p (tk_mem t)) (word r)" "at_rest t (remainder r)" "length (tk_mem t) = length (tk_mem (tok s))" by auto
  with False show ?thesis unfolding if_not_P [OF False]
    by (intro exI [of _ p] exI [of _ t]) (simp add: fetch_def on_tok_def zoom_def)
qed

lemma fetch_returns: "at_rest (tok s) r \<Longrightarrow> \<exists>q t. fetch s = Ret (q, t)"
  using fetch_spec [of s r] by (cases "r = []") auto

context memory_manager
begin

lemma arg_step_spec:
  assumes "args_in rep L s as us" and "at_rest (tok s) r" and "is_cstr (drop p (tk_mem (tok s))) w" and "length w < max_request"
  shows "wp no_stop (arg_step M (Some p, as)) (\<lambda>x t. case x of
      Inr None \<Rightarrow> rep (heap t) L \<and> sh_same s t \<and> complained s t
    | Inr (Some as') \<Rightarrow> t = s \<and> as' = as \<and> (w = ''|'' \<or> MAX_ARGUMENT_COUNT - 1 \<le> length as + 1)
    | Inl (q, as') \<Rightarrow> \<exists>u. w \<noteq> ''|'' \<and> length as + 1 < MAX_ARGUMENT_COUNT - 1 \<and> fetch u = Ret (q, t) \<and> at_rest (tok u) r \<and>
        sh_same s u \<and> io u = io s \<and> length as' = length as + 1 \<and> args_in rep L u as' (us @ [w])) s"
  (is "wp _ _ ?Q _")
proof -
  obtain rr where rr: "strcasecmp (drop p (tk_mem (tok s))) [CHR ''|'', NUL] = Some rr" "rr = 0 \<longleftrightarrow> w = ''|''"
    using strcasecmp_bar [OF assms(3)] by auto
  have len: "strlen_libc (drop p (tk_mem (tok s))) = Some (length w)" by (rule strlen_libc_cstr [OF assms(3)])
  have cp: "strcpy_libc (replicate (Suc (length w)) NUL) (drop p (tk_mem (tok s))) = Some (w @ [NUL])"
    using strcpy_exact [OF assms(3)] by simp
  have lit: "list_all literal ''Memory allocation failed for command argument''" by code_simp
  from assms(1) have A: "rep (heap s) (L ++ blocks as us)" "length as = length us" "distinct as" "set as \<inter> dom L = {}" "holds s as us"
    by (auto simp: args_in_def)
  show ?thesis
  proof (cases "rr \<noteq> 0 \<and> length as + 1 < MAX_ARGUMENT_COUNT - 1")
    case False
    with rr show ?thesis by (auto simp: arg_step_def tok_bytes_def of_opt_def)
  next
    case True
    let ?m = "''Memory allocation failed for command argument''"
    let ?fail = "\<lambda>h. s\<lparr>heap := h, io := (io s)\<lparr>calls := calls (io s) @ map (\<lambda>c. Write 2 [c]) ?m\<rparr>\<rparr>"
    let ?got = "\<lambda>h a. s\<lparr>heap := h, strs := (strs s)(a \<mapsto> w @ [NUL])\<rparr>"
    have fail: "wp no_stop (free_all M as) (\<lambda>_ t. rep (heap t) L \<and> sh_same s t \<and> complained s t) (?fail h)" if "rep h (L ++ blocks as us)" for h
      using free_all_spec [of "?fail h" L as us] A that by (auto simp: sh_same_def complained_def elim!: wp_mono)
    have got: "args_in rep L (?got h a) (as @ [a]) (us @ [w])"
      if "a \<notin> dom (L ++ blocks as us)" "rep h ((L ++ blocks as us)(a \<mapsto> Suc (length w)))" for h a
    proof -
      from that(1) have a: "a \<notin> dom L" "a \<notin> set as" using blocks_dom [OF A(2)] by auto
      have "holds (?got h a) as us" using A(5) a(2) unfolding holds_def by (auto simp: list_all2_conv_all_nth)
      then have "holds (?got h a) (as @ [a]) (us @ [w])" using assms(3) by (auto simp: holds_def is_cstr_def intro!: list_all2_appendI)
      with a that A blocks_snoc [OF A(2) a, of w] show ?thesis by (auto simp: args_in_def)
    qed
    have fetched: "wp no_stop fetch (\<lambda>q t. \<exists>u. w \<noteq> ''|'' \<and> length as + 1 < MAX_ARGUMENT_COUNT - 1 \<and> fetch u = Ret (q, t) \<and>
        at_rest (tok u) r \<and> sh_same s u \<and> io u = io s \<and> length (as @ [a]) = length as + 1 \<and> args_in rep L u (as @ [a]) (us @ [w])) (?got h a)"
      if g: "a \<notin> dom (L ++ blocks as us)" "rep h ((L ++ blocks as us)(a \<mapsto> Suc (length w)))" for h a
    proof -
      have rest: "at_rest (tok (?got h a)) r" using assms(2) by simp
      then obtain q t where "fetch (?got h a) = Ret (q, t)" using fetch_returns by blast
      then show ?thesis using rest got [OF g] True rr(2)
        by (simp only: wp_of_Ret) (intro exI [of _ "?got h a"], simp add: sh_same_def)
    qed
    have alloc: "wp no_stop (mm_alloc_op M (Suc (length w))) (\<lambda>a h. (a = null \<and> rep h (L ++ blocks as us)) \<or>
        (a \<noteq> null \<and> a \<notin> dom (L ++ blocks as us) \<and> rep h ((L ++ blocks as us)(a \<mapsto> Suc (length w))))) (heap s)"
      using alloc_spec [OF A(1), of "Suc (length w)"] assms(4) by (auto elim!: wp_mono)
    let ?k = "bnd (allocMemory M (Suc (length w))) (\<lambda>a.
        if a = null then sq (on_io (perror (cs ?m))) (sq (free_all M as) (ret (Inr None)))
        else sq (upd (\<lambda>s. s\<lparr>strs := (strs s)(a \<mapsto> w @ [NUL])\<rparr>)) (bnd fetch (\<lambda>t. ret (Inl (t, as @ [a])))))"
    have step: "arg_step M (Some p, as) s = ?k s"
      using True rr(1) len cp
      by (auto simp: arg_step_def tok_bytes_def of_opt_def run_simps fetch_def split: outcome.split)
    show ?thesis
      unfolding wp_cong_run [of "arg_step M (Some p, as)" s ?k, OF step] wp_bnd allocMemory_def on_heap_def wp_zoom
    proof (rule wp_mono [OF alloc], elim disjE conjE)
      fix a h assume "a = null" and "rep h (L ++ blocks as us)"
      then show "wp no_stop (if a = null then sq (on_io (perror (cs ?m))) (sq (free_all M as) (ret (Inr None)))
          else sq (upd (\<lambda>s. s\<lparr>strs := (strs s)(a \<mapsto> w @ [NUL])\<rparr>)) (bnd fetch (\<lambda>t. ret (Inl (t, as @ [a]))))) ?Q (s\<lparr>heap := h\<rparr>)"
        using fail [of h] perror_writes [OF lit, of "io s"] by (simp only: wp_if if_True wp_sq wp_ret on_io_def wp_zoom) (simp add: wp_of_Ret)
    next
      fix a h assume "a \<noteq> null" and "a \<notin> dom (L ++ blocks as us)" and "rep h ((L ++ blocks as us)(a \<mapsto> Suc (length w)))"
      then show "wp no_stop (if a = null then sq (on_io (perror (cs ?m))) (sq (free_all M as) (ret (Inr None)))
          else sq (upd (\<lambda>s. s\<lparr>strs := (strs s)(a \<mapsto> w @ [NUL])\<rparr>)) (bnd fetch (\<lambda>t. ret (Inl (t, as @ [a]))))) ?Q (s\<lparr>heap := h\<rparr>)"
        using fetched [of a h] by simp
    qed
  qed
qed

end

lemma find_command_index:
  "is_cstr cmd w \<Longrightarrow> list_all (\<lambda>c. NUL \<notin> set (c_name c)) tbl \<Longrightarrow> find_command i tbl cmd = Some (index_of i tbl w)"
proof (induction tbl arbitrary: i)
  case (Cons c tbl)
  then obtain r where "strcmp_libc (c_name c @ [NUL]) cmd = Some r" "r = 0 \<longleftrightarrow> c_name c = w"
    using strcmp_libc_cstr [of "c_name c @ [NUL]" "c_name c" cmd w] by (auto simp: is_cstr_def)
  with Cons show ?case by simp
qed simp

lemma commands_no_NUL: "list_all (\<lambda>c. NUL \<notin> set (c_name c)) commands"
  by (simp add: commands_def entry_def)

lemma skip_pipes_spec:
  assumes "is_cstr (drop p (tk_mem (tok s))) w" and "at_rest (tok s) r"
  shows "\<exists>q t. skip_pipes (Some p) s = Ret (q, s\<lparr>tok := t\<rparr>) \<and> length (tk_mem t) = length (tk_mem (tok s)) \<and>
    (case if w = ''|'' then first_word r else Some (w, r) of
       None \<Rightarrow> q = None
     | Some (v, r') \<Rightarrow> v \<noteq> ''|'' \<and> (\<exists>p'. q = Some p' \<and> is_cstr (drop p' (tk_mem t)) v) \<and> at_rest t r')"
  using assms
proof (induction "length r" arbitrary: r s p w rule: less_induct)
  case less
  obtain x where x: "strcmp_libc (drop p (tk_mem (tok s))) [CHR ''|'', NUL] = Some x" "x = 0 \<longleftrightarrow> w = ''|''"
    using strcmp_bar [OF less.prems(1)] by auto
  have unfold: "skip_pipes (Some p) s = (if x = 0 then
      (case fetch s of Stop e \<Rightarrow> Stop e | Ret (q, t) \<Rightarrow> skip_pipes q t) else Ret (Some p, s))"
    using x(1) unfolding skip_pipes_def by (subst loop_unfold) (auto simp: tok_bytes_def of_opt_def run_simps fetch_def split: outcome.split)
  show ?case
  proof (cases "w = ''|''")
    case False
    have "s = s\<lparr>tok := tok s\<rparr>" by simp
    with False x unfold less.prems show ?thesis by (intro exI [of _ "Some p"] exI [of _ "tok s"]) auto
  next
    case True
    show ?thesis
    proof (cases "r = []")
      case nil: True
      have "skip_pipes None s = Ret (None, s)" unfolding skip_pipes_def by (subst loop_unfold) (simp add: run_simps)
      with True nil x unfold fetch_spec [OF less.prems(2)] show ?thesis
        by (intro exI [of _ None] exI [of _ "tok s"]) (simp add: first_word.simps)
    next
      case False
      with fetch_spec [OF less.prems(2)] obtain q t where f: "fetch s = Ret (Some q, s\<lparr>tok := t\<rparr>)"
        "is_cstr (drop q (tk_mem t)) (word r)" "at_rest t (remainder r)" "length (tk_mem t) = length (tk_mem (tok s))" by auto
      have "first_word r = (if word r = ''|'' then first_word (remainder r) else Some (word r, remainder r))"
        using False by (subst first_word.simps) simp
      with True x unfold f less.hyps [OF remainder_length [OF False], of q "s\<lparr>tok := t\<rparr>" "word r"] show ?thesis by auto
    qed
  qed
qed

context memory_manager
begin

text \<open>The argument loop, from the fetch of its first word on.\<close>

lemma arg_loop_spec:
  assumes "args_in rep L s as us" and "at_rest (tok s) r" and "length r < max_request"
  shows "wp no_stop (bnd fetch (\<lambda>q. loop (arg_step M) (q, as))) (\<lambda>x t. sh_same s t \<and> (case x of
      None \<Rightarrow> rep (heap t) L \<and> complained s t
    | Some as' \<Rightarrow> \<exists>ws r'. arg_words (length as) r = (ws, r') \<and> at_rest (tok t) r' \<and> io t = io s \<and> args_in rep L t as' (us @ ws))) s"
  using assms
proof (induction "length r" arbitrary: r s as us rule: less_induct)
  case less
  show ?case
  proof (cases "r = []")
    case True
    have "loop (arg_step M) (None, as) s = Ret (Some as, s)" by (subst loop_unfold) (simp add: arg_step_def run_simps)
    with True less.prems fetch_spec [OF less.prems(2)] show ?thesis
      by (simp add: wp_def run_simps arg_words.simps)
  next
    case False
    with fetch_spec [OF less.prems(2)] obtain q t where f: "fetch s = Ret (Some q, s\<lparr>tok := t\<rparr>)"
      "is_cstr (drop q (tk_mem t)) (word r)" "at_rest t (remainder r)" by auto
    let ?s = "s\<lparr>tok := t\<rparr>"
    have in': "args_in rep L ?s as us" using less.prems(1) by (simp add: args_in_def holds_def)
    have len: "length (word r) < max_request" using length_takeWhile_le [of _ r] less.prems(3) by (meson le_less_trans)
    have words: "arg_words (length as) r = (if word r = ''|'' \<or> MAX_ARGUMENT_COUNT - 1 \<le> length as + 1 then ([], remainder r)
        else (case arg_words (length as + 1) (remainder r) of (ws, r') \<Rightarrow> (word r # ws, r')))"
      using False by (subst arg_words.simps) simp
    have same: "sh_same s ?s" by (simp add: sh_same_def)
    have "wp no_stop (loop (arg_step M) (Some q, as)) (\<lambda>x t. sh_same s t \<and> (case x of
        None \<Rightarrow> rep (heap t) L \<and> complained s t
      | Some as' \<Rightarrow> \<exists>ws r'. arg_words (length as) r = (ws, r') \<and> at_rest (tok t) r' \<and> io t = io s \<and> args_in rep L t as' (us @ ws))) ?s"
      (is "wp _ _ ?Q _")
    proof (subst wp_loop_step, rule wp_mono [OF arg_step_spec [OF in' _ _ len, of "remainder r" q]])
      show "at_rest (tok ?s) (remainder r)" "is_cstr (drop q (tk_mem (tok ?s))) (word r)" using f by simp_all
    next
      fix x u
      assume x: "case x of
          Inr None \<Rightarrow> rep (heap u) L \<and> sh_same ?s u \<and> complained ?s u
        | Inr (Some as') \<Rightarrow> u = ?s \<and> as' = as \<and> (word r = ''|'' \<or> MAX_ARGUMENT_COUNT - 1 \<le> length as + 1)
        | Inl (q, as') \<Rightarrow> \<exists>v. word r \<noteq> ''|'' \<and> length as + 1 < MAX_ARGUMENT_COUNT - 1 \<and> fetch v = Ret (q, u) \<and>
            at_rest (tok v) (remainder r) \<and> sh_same ?s v \<and> io v = io ?s \<and> length as' = length as + 1 \<and> args_in rep L v as' (us @ [word r])"
      show "case x of Inl a \<Rightarrow> wp no_stop (loop (arg_step M) a) ?Q u | Inr y \<Rightarrow> ?Q y u"
      proof (cases x)
        case (Inl a)
        obtain q' as' where a: "a = (q', as')" by (cases a)
        with x Inl obtain v where v: "word r \<noteq> ''|''" "length as + 1 < MAX_ARGUMENT_COUNT - 1" "fetch v = Ret (q', u)"
          "at_rest (tok v) (remainder r)" "sh_same ?s v" "length as' = length as + 1" "args_in rep L v as' (us @ [word r])" "io v = io s" by auto
        have "wp no_stop (bnd fetch (\<lambda>q. loop (arg_step M) (q, as'))) ?Q v"
          using less.hyps [OF remainder_length [OF False] v(7,4)] remainder_length [OF False] less.prems(3) v(1,2,6) words
            sh_same_trans [OF same v(5)] v(8) unfolding complained_def
          by (fastforce elim!: wp_mono intro: sh_same_trans split: option.splits prod.splits)
        with v(3) a Inl show ?thesis by (simp add: wp_of_Ret)
      next
        case (Inr y)
        with x words same in' f(3) show ?thesis by (cases y) (auto simp: complained_def intro: sh_same_trans)
      qed
    qed
    with f(1) show ?thesis by (simp add: wp_of_Ret)
  qed
qed

end

text \<open>The line before its first word, or what is left of it.\<close>

definition ready :: "bool \<Rightarrow> tokenizer \<Rightarrow> string \<Rightarrow> bool" where
  "ready first t r \<longleftrightarrow> (if first then NUL \<notin> set r \<and> (\<exists>post. tk_mem t = r @ NUL # post) else at_rest t r)"

text \<open>The word that the parser will take for the command, if any.\<close>

lemma parse_start:
  assumes "ready first (tok s) r"
  shows "\<exists>q t. bnd (on_tok (strtok (if first then Some 0 else None) blank)) skip_pipes s = Ret (q, s\<lparr>tok := t\<rparr>) \<and>
    length (tk_mem t) = length (tk_mem (tok s)) \<and>
    (case q of None \<Rightarrow> first_word r = None
     | Some p \<Rightarrow> \<exists>w r'. (if r = [] then w = [] \<and> r' = [] else first_word r = Some (w, r')) \<and> is_cstr (drop p (tk_mem t)) w \<and> at_rest t r')"
proof (cases "r = [] \<and> \<not> first")
  case True
  have "skip_pipes None s = Ret (None, s)" unfolding skip_pipes_def by (subst loop_unfold) (simp add: run_simps)
  with True fetch_spec [of s r] assms show ?thesis
    by (intro exI [of _ None] exI [of _ "tok s"]) (simp add: ready_def fetch_def run_simps first_word.simps)
next
  case False
  obtain p t where f: "on_tok (strtok (if first then Some 0 else None) blank) s = Ret (Some p, s\<lparr>tok := t\<rparr>)"
    "is_cstr (drop p (tk_mem t)) (word r)" "at_rest t (remainder r)" "length (tk_mem t) = length (tk_mem (tok s))"
  proof (cases first)
    case True
    with assms obtain post where "NUL \<notin> set r" "tk_mem (tok s) = r @ NUL # post" by (auto simp: ready_def)
    from strtok_first [OF this] that [of 0] True show thesis by (auto simp: on_tok_def zoom_def)
  next
    case f: False
    with False assms fetch_spec [of s r] that show thesis by (auto simp: ready_def fetch_def)
  qed
  from skip_pipes_spec [of p "s\<lparr>tok := t\<rparr>" "word r" "remainder r"] f(2,3) obtain q t' where
    g: "skip_pipes (Some p) (s\<lparr>tok := t\<rparr>) = Ret (q, s\<lparr>tok := t'\<rparr>)" "length (tk_mem t') = length (tk_mem t)"
    "case if word r = ''|'' then first_word (remainder r) else Some (word r, remainder r) of
       None \<Rightarrow> q = None
     | Some (v, r') \<Rightarrow> v \<noteq> ''|'' \<and> (\<exists>p'. q = Some p' \<and> is_cstr (drop p' (tk_mem t')) v) \<and> at_rest t' r'" by auto
  have "first_word r = (if r = [] then None else if word r = ''|'' then first_word (remainder r) else Some (word r, remainder r))"
    by (subst first_word.simps) simp
  with f g show ?thesis
    by (intro exI [of _ q] exI [of _ t']) (auto simp: run_simps split: option.splits if_splits)
qed

context memory_manager
begin

lemma parse_words_spec:
  assumes "rep (heap s) L" and "is_cstr (drop p (tk_mem (tok s))) w" and "at_rest (tok s) r" and "length r < max_request"
    and "length w < length (command_buf s)"
  shows "wp no_stop (parse_words M p) (\<lambda>x t. sh_same s t \<and> (case x of
      None \<Rightarrow> rep (heap t) L \<and> (w = [] \<or> index_of 0 commands w = None \<or> complained s t)
    | Some c \<Rightarrow> \<exists>r'. w \<noteq> [] \<and> index_of 0 commands w = Some (p_cmd c) \<and> at_rest (tok t) r' \<and> io t = io s \<and>
        (\<exists>ws. arg_words 0 r = (ws, r') \<and> args_in rep L t (p_args c) ws))) s"
proof -
  from assms(2) obtain post where d: "drop p (tk_mem (tok s)) = w @ NUL # post" and w: "NUL \<notin> set w" by (auto simp: is_cstr_def)
  let ?cmd = "w @ NUL # drop (length w + 1) (command_buf s)"
  have cp: "strcpy_libc (command_buf s) (drop p (tk_mem (tok s))) = Some ?cmd"
    using copy_loop_cstr [OF w, of "[]" "command_buf s" post] assms(5) d by (simp add: strcpy_libc_def)
  have nul: "?cmd ! 0 = NUL \<longleftrightarrow> w = []" using w by (cases w) auto
  have find: "find_command 0 commands ?cmd = Some (index_of 0 commands w)"
    by (rule find_command_index [OF _ commands_no_NUL]) (use w in \<open>auto simp: is_cstr_def\<close>)
  let ?s = "s\<lparr>command_buf := ?cmd\<rparr>"
  have args: "wp no_stop (bnd fetch (\<lambda>q. loop (arg_step M) (q, []))) (\<lambda>x t. sh_same ?s t \<and> (case x of
      None \<Rightarrow> rep (heap t) L \<and> complained ?s t
    | Some as' \<Rightarrow> \<exists>ws r'. arg_words 0 r = (ws, r') \<and> at_rest (tok t) r' \<and> io t = io ?s \<and> args_in rep L t as' ws)) ?s"
  proof -
    have "args_in rep L ?s [] []" "at_rest (tok ?s) r" using assms(1,3) by (simp_all add: args_in_def holds_def blocks_def)
    from arg_loop_spec [OF this assms(4)] show ?thesis unfolding append_Nil list.size(3) .
  qed
  have same: "sh_same s t" if "sh_same ?s t" for t using that by (simp add: sh_same_def)
  have io: "complained s t" if "complained ?s t" for t using that by (simp add: complained_def)
  show ?thesis
  proof (cases "w = [] \<or> index_of 0 commands w = None")
    case True
    with cp nul find assms(1) show ?thesis by (auto simp: parse_words_def tok_bytes_def of_opt_def sh_same_def)
  next
    case False
    then obtain i where "w \<noteq> []" "index_of 0 commands w = Some i" by auto
    then show ?thesis using cp nul find args same io
      by (simp add: parse_words_def tok_bytes_def of_opt_def fetch_def [symmetric])
         (fastforce elim!: wp_mono split: option.splits)
  qed
qed

lemma parse_command_spec:
  assumes "rep (heap s) L" and "ready first (tok s) r" and "length r < max_request"
    and "case first_word r of None \<Rightarrow> command_buf s \<noteq> [] | Some (w, _) \<Rightarrow> length w < length (command_buf s)"
  shows "wp no_stop (parse_command M first) (\<lambda>x t. sh_same s t \<and> (case x of
      None \<Rightarrow> rep (heap t) L \<and> (parse_spec r = None \<or> complained s t)
    | Some p \<Rightarrow> \<exists>ws r'. parse_spec r = Some (p_cmd p, ws, r') \<and> at_rest (tok t) r' \<and> io t = io s \<and> args_in rep L t (p_args p) ws)) s"
    (is "wp _ _ ?Q _")
proof -
  from parse_start [OF assms(2)] obtain q t where
    start: "bnd (on_tok (strtok (if first then Some 0 else None) blank)) skip_pipes s = Ret (q, s\<lparr>tok := t\<rparr>)"
    and q: "case q of None \<Rightarrow> first_word r = None
     | Some p \<Rightarrow> \<exists>w r'. (if r = [] then w = [] \<and> r' = [] else first_word r = Some (w, r')) \<and> is_cstr (drop p (tk_mem t)) w \<and> at_rest t r'" by auto
  let ?s = "s\<lparr>tok := t\<rparr>"
  have run: "parse_command M first s = (case q of None \<Rightarrow> ret None | Some p \<Rightarrow> parse_words M p) ?s"
    using start by (auto simp: parse_command_def run_simps split: outcome.splits)
  show ?thesis
  proof (cases q)
    case None
    with q run assms(1) show ?thesis by (simp add: wp_def run_simps sh_same_def parse_spec_def)
  next
    case (Some p)
    with q obtain w r' where w: "if r = [] then w = [] \<and> r' = [] else first_word r = Some (w, r')"
      "is_cstr (drop p (tk_mem t)) w" "at_rest t r'" by auto
    have empty: "r = [] \<Longrightarrow> first_word r = None" by (simp add: first_word.simps)
    have len: "length r' < max_request" "length w < length (command_buf ?s)"
      using w(1) assms(3,4) empty first_word_length [of r w r'] by (auto split: if_splits)
    have spec: "w = [] \<or> index_of 0 commands w = None \<Longrightarrow> parse_spec r = None"
      "w \<noteq> [] \<Longrightarrow> index_of 0 commands w = Some i \<Longrightarrow> parse_spec r = Some (i, arg_words 0 r')" for i
      using w(1) empty by (auto simp: parse_spec_def split: if_splits)
    have same: "sh_same s u" if "sh_same ?s u" for u using that by (simp add: sh_same_def)
    have io: "complained s u" if "complained ?s u" for u using that by (simp add: complained_def)
    have "wp no_stop (parse_words M p) ?Q ?s"
      by (rule wp_mono [OF parse_words_spec [of ?s L p w r']])
         (use assms(1) w len same io spec in \<open>fastforce split: option.splits\<close>)+
    with run Some show ?thesis by (simp add: wp_def)
  qed
qed

end

lemma copy_loop_overrun:
  assumes "NUL \<notin> set w" and "length pre + length dest \<le> length pre + length w"
  shows "copy_loop (length pre) (pre @ dest) (w @ NUL # rest) = None"
  using assms
proof (induction w arbitrary: pre dest)
  case (Cons c w)
  show ?case
  proof (cases dest)
    case (Cons d ds)
    with Cons.IH [of "pre @ [c]" ds] Cons.prems show ?thesis by auto
  qed simp
qed simp

section \<open>Running and releasing a command\<close>

lemma holds_snoc: "holds s (as @ [a]) (ws @ [w]) \<longleftrightarrow> holds s as ws \<and> NUL \<notin> set w \<and> strs s a = Some (w @ [NUL])"
  by (auto simp: holds_def list_all2_append dest: list_all2_lengthD intro: list_all2_appendI)
     (auto simp: list_all2_conv_all_nth nth_append split: if_splits)

lemma holds_Nil [simp]: "holds s [] ws \<longleftrightarrow> ws = []" "holds s as [] \<longleftrightarrow> as = []"
  by (simp_all add: holds_def)

lemma strip_background_spec:
  assumes "holds s (p_args p) ws"
  shows "strip_background p s = Ret (if ws \<noteq> [] \<and> last ws = ''&'' then (True, p\<lparr>p_args := butlast (p_args p)\<rparr>) else (False, p), s)"
proof (cases "p_args p" rule: rev_cases)
  case Nil
  with assms show ?thesis by (simp add: strip_background_def run_simps holds_def)
next
  case (snoc as a)
  with assms obtain us w where ws: "ws = us @ [w]" by (cases ws rule: rev_cases) (auto simp: holds_def)
  with assms snoc have w: "NUL \<notin> set w" "strs s a = Some (w @ [NUL])" by (auto simp: holds_snoc)
  then obtain r where "strcmp_libc (w @ [NUL]) [CHR ''&'', NUL] = Some r" "r = 0 \<longleftrightarrow> w = ''&''"
    using strcmp_libc_cstr [of "w @ [NUL]" w "[CHR ''&'', NUL]" "''&''"] by (auto simp: is_cstr_def)
  with snoc ws w show ?thesis by (simp add: strip_background_def str_of_def deref_def of_opt_def run_simps)
qed

lemma arg_strings_spec: "holds s as ws \<Longrightarrow> arg_strings as s = Ret (ws, s)"
proof (induction as arbitrary: ws)
  case (Cons a as)
  then obtain w us where ws: "ws = w # us" "holds s as us" "NUL \<notin> set w" "strs s a = Some (w @ [NUL])"
    by (auto simp: holds_def list_all2_Cons1)
  from Cons.IH [OF ws(2)] ws show ?case by (auto simp: arg_strings_def takeWhile_append split: if_splits)
qed (auto simp: arg_strings_def holds_def)

lemma createProcess_spec:
  assumes "holds s (p_args p) ws"
  shows "\<exists>pid c. createProcess env p targets fg s = Ret (pid, s\<lparr>io := (io s)\<lparr>calls := calls (io s) @ [c]\<rparr>\<rparr>) \<and>
    c = Create (c_name (commands ! p_cmd p)) ws 2 targets fg"
  using arg_strings_spec [OF assms] by (simp add: createProcess_def run_simps on_io_def zoom_def syscall_def)

text \<open>Running a command that is no built-in one changes the table of commands and the calls only.\<close>

lemma run_single_spec:
  assumes "holds s (p_args p) ws" and "\<not> c_builtin (commands ! p_cmd p)"
  shows "\<exists>cs. run_single env p s = Ret ((), s\<lparr>parsed_cmds := [if ws \<noteq> [] \<and> last ws = ''&'' then p\<lparr>p_args := butlast (p_args p)\<rparr> else p],
    io := (io s)\<lparr>calls := calls (io s) @ cs\<rparr>\<rparr>)"
proof -
  let ?bg = "ws \<noteq> [] \<and> last ws = ''&''"
  let ?p = "if ?bg then p\<lparr>p_args := butlast (p_args p)\<rparr> else p" and ?ws = "if ?bg then butlast ws else ws"
  have "holds s (p_args ?p) ?ws"
  proof (cases ?bg)
    case True
    with assms(1) show ?thesis by (cases ws rule: rev_cases; cases "p_args p" rule: rev_cases) (auto simp: holds_snoc)
  qed (use assms(1) in auto)
  then have h: "holds (s\<lparr>parsed_cmds := [?p]\<rparr>) (p_args ?p) ?ws" by (simp add: holds_def)
  obtain pid c where "createProcess env ?p [0, 1, 2] (\<not> ?bg) (s\<lparr>parsed_cmds := [?p]\<rparr>) =
      Ret (pid, (s\<lparr>parsed_cmds := [?p]\<rparr>)\<lparr>io := (io s)\<lparr>calls := calls (io s) @ [c]\<rparr>\<rparr>)"
    using createProcess_spec [OF h, of env "[0, 1, 2]" "\<not> ?bg"] by auto
  then show ?thesis using strip_background_spec [OF assms(1)] assms(2)
    by (intro exI [of _ "if \<not> ?bg \<and> 0 < pid then [c, WaitPid pid] else [c]"])
       (auto simp: run_single_def run_simps on_io_def zoom_def syscall_def)
qed

context memory_manager
begin

lemma release_spec:
  assumes "args_in rep L s as ws" and "concat (map p_args (parsed_cmds s)) = as"
  shows "wp no_stop (release M) (\<lambda>_ t. rep (heap t) L \<and> parsed_cmds t = [] \<and> buffer_dim t = 0) s"
proof -
  have "wp no_stop (free_all M as) (\<lambda>_ t. rep (heap t) L) s"
    using free_all_spec [of s L as ws] assms(1) by (auto simp: args_in_def elim!: wp_mono)
  then show ?thesis using assms(2) by (auto simp: release_def set_buffer_def elim!: wp_mono)
qed

lemma run_release_spec:
  assumes "args_in rep L s (p_args p) ws" and "\<not> c_builtin (commands ! p_cmd p)"
  shows "wp no_stop (sq (run_single env p) (release M)) (\<lambda>_ t. parsed_cmds t = [] \<and>
    rep (heap t) (if ws \<noteq> [] \<and> last ws = ''&'' then L(last (p_args p) \<mapsto> 2) else L)) s"
proof -
  from assms(1) have h: "holds s (p_args p) ws" by (simp add: args_in_def)
  from run_single_spec [OF this assms(2), of env] obtain cs where run: "run_single env p s =
      Ret ((), s\<lparr>parsed_cmds := [if ws \<noteq> [] \<and> last ws = ''&'' then p\<lparr>p_args := butlast (p_args p)\<rparr> else p],
        io := (io s)\<lparr>calls := calls (io s) @ cs\<rparr>\<rparr>)" (is "_ = Ret (_, ?s)") by blast
  have same: "heap ?s = heap s" "strs ?s = strs s" by simp_all
  show ?thesis
  proof (cases "ws \<noteq> [] \<and> last ws = ''&''")
    case False
    then have "args_in rep L ?s (p_args p) ws" using assms(1) by (simp add: args_in_def holds_def)
    from release_spec [OF this] False run show ?thesis by (auto simp: wp_of_Ret elim!: wp_mono)
  next
    case True
    then obtain us where ws: "ws = us @ [''&'']" by (cases ws rule: rev_cases) auto
    moreover from assms(1) ws obtain as a where as: "p_args p = as @ [a]"
      by (cases "p_args p" rule: rev_cases) (auto simp: args_in_def)
    ultimately have A: "length as = length us" "a \<notin> dom L" "a \<notin> set as" using assms(1) by (auto simp: args_in_def)
    have "(L ++ blocks as us)(a \<mapsto> 2) = L(a \<mapsto> 2) ++ blocks as us"
      using A(3) blocks_dom [OF A(1)] by (intro ext) (auto simp: map_add_def split: option.splits)
    moreover have "holds ?s as us" using assms(1) ws as by (auto simp: args_in_def holds_snoc) (simp add: holds_def)
    ultimately have "args_in rep (L(a \<mapsto> 2)) ?s as us"
      using assms(1) A ws as blocks_snoc [OF A, of "''&''"] by (auto simp: args_in_def numeral_2_eq_2)
    from release_spec [OF this] True run as show ?thesis by (auto simp: wp_of_Ret elim!: wp_mono)
  qed
qed

end

section \<open>Properties\<close>

text \<open>
  C12. The parser of the shell, over the first-fit heap, refines the specification on strings: on a line,
  or on what is left of it, it returns. Either it yields the command and exactly the words of the
  specification, each in a new block of its own, and the tokenizer stands at the specified rest of
  the line; or it yields nothing, every block it took has been given back, and the specification has
  no command there or a failed allocation has been reported.
\<close>

theorem parse_command_refines:
  assumes "ff_rep (heap s) L" and "ready first (tok s) r" and "length r < 2 ^ 63"
    and "case first_word r of None \<Rightarrow> command_buf s \<noteq> [] | Some (w, _) \<Rightarrow> length w < length (command_buf s)"
  shows "wp no_stop (parse_command first_fit_mm first) (\<lambda>x t. sh_same s t \<and> (case x of
      None \<Rightarrow> ff_rep (heap t) L \<and> (parse_spec r = None \<or> complained s t)
    | Some p \<Rightarrow> \<exists>ws r'. parse_spec r = Some (p_cmd p, ws, r') \<and> at_rest (tok t) r' \<and> io t = io s \<and>
        args_in ff_rep L t (p_args p) ws)) s"
  by (rule ff.parse_command_spec [OF assms(1,2) _ assms(4)]) (use assms(3) in \<open>simp add: UNIT_SIZE_def\<close>)

definition demo_shell :: "string \<Rightarrow> ff_state shell" where
  "demo_shell txt = \<lparr>tok = \<lparr>tk_mem = txt @ [NUL], tk_last = None\<rparr>, buffer_dim = length txt,
     command_buf = replicate MAX_ARGUMENT_SIZE NUL, history = [], history_buffer = [], history_last = 0, last_command_arrowed = 0,
     table_addr = 64, parsed_dim = 5, parsed_cmds = [], strs = Map.empty, heap = ff_ready, io = \<lparr>answers = [], calls = []\<rparr>\<rparr>"

lemma demo_parse: "parse_spec ''echo hi | wc'' = Some (3, [''hi''], ''wc'')" "first_word ''echo hi | wc'' = Some (''echo'', ''hi | wc'')"
  by code_simp+

theorem parse_command_refines_witness:
  "wp no_stop (parse_command first_fit_mm True) (\<lambda>x t. case x of
      None \<Rightarrow> ff_rep (heap t) Map.empty \<and> complained (demo_shell ''echo hi | wc'') t
    | Some p \<Rightarrow> p_cmd p = 3 \<and> at_rest (tok t) ''wc'' \<and> args_in ff_rep Map.empty t (p_args p) [''hi'']) (demo_shell ''echo hi | wc'')"
proof (rule wp_mono [OF parse_command_refines [of _ Map.empty _ "''echo hi | wc''"]])
  show "ready True (tok (demo_shell ''echo hi | wc'')) ''echo hi | wc''" by (simp add: ready_def demo_shell_def)
qed (use demo_parse ff_ready_rep in \<open>auto simp: demo_shell_def MAX_ARGUMENT_SIZE_def split: option.splits\<close>)

text \<open>
  The first word of a line is copied to an array of \<open>MAX_ARGUMENT_SIZE\<close> bytes without a check, and
  the line may be four times as long: a longer word is written past the array.
\<close>

theorem long_command_overruns:
  assumes "ready first (tok s) r" and "first_word r = Some (w, r')" and "length (command_buf s) \<le> length w"
  shows "parse_command M first s = Stop Fault"
proof -
  from assms(2) have "r \<noteq> []" by (auto simp: first_word.simps)
  with parse_start [OF assms(1)] assms(2) obtain p t where
    start: "bnd (on_tok (strtok (if first then Some 0 else None) blank)) skip_pipes s = Ret (Some p, s\<lparr>tok := t\<rparr>)"
    and w: "is_cstr (drop p (tk_mem t)) w" by (auto split: option.splits)
  then have "strcpy_libc (command_buf s) (drop p (tk_mem t)) = None"
    using copy_loop_overrun [of w "[]" "command_buf s"] assms(3) by (auto simp: strcpy_libc_def is_cstr_def)
  then have "parse_words M p (s\<lparr>tok := t\<rparr>) = Stop Fault" by (simp add: parse_words_def tok_bytes_def of_opt_def run_simps)
  with start show ?thesis by (auto simp: parse_command_def run_simps split: outcome.splits)
qed

theorem long_command_overruns_witness:
  "parse_command first_fit_mm True (demo_shell (replicate 256 (CHR ''a''))) = Stop Fault"
proof (rule long_command_overruns [of _ _ "replicate 256 (CHR ''a'')" "replicate 256 (CHR ''a'')" "[]"])
  have all: "after_token '' '' (replicate n (CHR ''a'')) = None" "word (replicate n (CHR ''a'')) = replicate n (CHR ''a'')" for n
    by (induction n) (simp_all add: after_token_Cons)
  show "first_word (replicate 256 (CHR ''a'')) = Some (replicate 256 (CHR ''a''), [])"
    using all [of 256] by (subst first_word.simps) (auto simp: remainder_def numeral_eq_Suc)
qed (auto simp: ready_def demo_shell_def MAX_ARGUMENT_SIZE_def)

text \<open>
  After a command that is not built in has been run, the shell gives back the blocks of all its
  arguments, with one exception: when the last word is an ampersand its pointer is dropped from the
  table before, and its block of two bytes stays allocated for ever.
\<close>

theorem background_leaks:
  assumes "args_in ff_rep L s (p_args p) ws" and "\<not> c_builtin (commands ! p_cmd p)"
  shows "wp no_stop (sq (run_single env p) (release first_fit_mm)) (\<lambda>_ t. parsed_cmds t = [] \<and>
    ff_rep (heap t) (if ws \<noteq> [] \<and> last ws = ''&'' then L(last (p_args p) \<mapsto> 2) else L)) s"
  by (rule ff.run_release_spec [OF assms])

lemma ff_amp: "\<exists>t. ff_mm_alloc 2 ff_ready = Ret (5104, t) \<and> ff_rep t [5104 \<mapsto> 2]"
proof -
  have "\<exists>t. ff_mm_alloc 2 ff_ready = Ret (5104, t)" by (simp add: ff_eval loop_unfold)
  with ff_alloc_spec [OF ff_ready_rep, of 2] show ?thesis by (auto simp: wp_def UNIT_SIZE_def)
qed

theorem background_leaks_witness:
  "\<exists>h. ff_mm_alloc 2 ff_ready = Ret (5104, h) \<and>
    wp no_stop (sq (run_single \<lparr>se_pid = 2, se_create = (\<lambda>_. 7), se_pipe = (\<lambda>_. 3)\<rparr> \<lparr>p_cmd = 11, p_args = [5104]\<rparr>) (release first_fit_mm))
      (\<lambda>_ t. parsed_cmds t = [] \<and> ff_rep (heap t) [5104 \<mapsto> 2])
      ((demo_shell [])\<lparr>heap := h, strs := [5104 \<mapsto> cs ''&'']\<rparr>)"
proof -
  obtain h where h: "ff_mm_alloc 2 ff_ready = Ret (5104, h)" "ff_rep h [5104 \<mapsto> 2]" using ff_amp by blast
  let ?p = "\<lparr>p_cmd = 11, p_args = [5104]\<rparr>" and ?s = "(demo_shell [])\<lparr>heap := h, strs := [5104 \<mapsto> cs ''&'']\<rparr>"
  have "args_in ff_rep Map.empty ?s (p_args ?p) [''&'']"
    using h(2) by (simp add: args_in_def holds_def blocks_def cs_def numeral_2_eq_2)
  moreover have "\<not> c_builtin (commands ! p_cmd ?p)" by (simp add: commands_def entry_def)
  ultimately show ?thesis using h(1) by (intro exI [of _ h] conjI) (assumption, rule wp_mono [OF background_leaks], auto)
qed

end
