(* ===== verification/Shell_Types.thy ===== *)
theory Shell_Types
  imports Shell
begin

text \<open>
  The sizes of the shell's arrays and the ranges of its indices: every routine of the shell keeps
  them, whatever is typed, whatever the answers of the system calls and for every memory manager.
\<close>

definition shell_wf :: "'m shell \<Rightarrow> bool" where
  "shell_wf s \<longleftrightarrow> length (tk_mem (tok s)) = MAX_BUFFER_SIZE \<and> length (history_buffer s) = MAX_BUFFER_SIZE \<and>
     buffer_dim s < MAX_BUFFER_SIZE \<and> length (command_buf s) = MAX_ARGUMENT_SIZE \<and>
     length (history s) = HISTORY_SIZE \<and> list_all (\<lambda>h. length h = MAX_BUFFER_SIZE) (history s) \<and> history_last s < 10"

text \<open>\<open>keeps m\<close>: when \<open>m\<close> returns from a well-formed state, it leaves a well-formed state.\<close>

definition keeps :: "('m shell, 'a) kernel \<Rightarrow> bool" where
  "keeps m \<longleftrightarrow> (\<forall>s. shell_wf s \<longrightarrow> wp any_stop m (\<lambda>_ t. shell_wf t) s)"

named_theorems keeps_rule \<open>routines that keep the shell well formed\<close>

lemma keeps_ret [keeps_rule]: "keeps (ret x)"
  by (simp add: keeps_def)

lemma keeps_halt [keeps_rule]: "keeps (halt e)"
  by (simp add: keeps_def)

lemma keeps_gets [keeps_rule]: "keeps (gets f)"
  by (simp add: keeps_def)

lemma keeps_bnd [keeps_rule]: "keeps m \<Longrightarrow> (\<And>x. keeps (f x)) \<Longrightarrow> keeps (bnd m f)"
  by (auto simp: keeps_def intro: wp_mono)

lemma keeps_sq [keeps_rule]: "keeps m \<Longrightarrow> keeps k \<Longrightarrow> keeps (sq m k)"
  by (auto simp: keeps_def intro: wp_mono)

lemma keeps_if [keeps_rule]: "(b \<Longrightarrow> keeps m) \<Longrightarrow> (\<not> b \<Longrightarrow> keeps k) \<Longrightarrow> keeps (if b then m else k)"
  by simp

lemma keeps_option [keeps_rule]: "keeps m \<Longrightarrow> (\<And>y. keeps (f y)) \<Longrightarrow> keeps (case x of None \<Rightarrow> m | Some y \<Rightarrow> f y)"
  by (cases x) simp_all

lemma keeps_prod [keeps_rule]: "(\<And>a b. keeps (f a b)) \<Longrightarrow> keeps (case x of (a, b) \<Rightarrow> f a b)"
  by (cases x) simp

lemma keeps_deref [keeps_rule]: "keeps (deref f a)"
  by (simp add: keeps_def split: option.split)

lemma keeps_loop [keeps_rule]: "(\<And>a. keeps (body a)) \<Longrightarrow> keeps (loop body a)"
  by (auto simp: keeps_def intro!: wp_loop_partial [where I = "\<lambda>_. shell_wf"] elim!: wp_mono split: sum.split)


section \<open>The routines\<close>

lemma keeps_on_io [keeps_rule]: "keeps (on_io m)"
  by (auto simp: keeps_def on_io_def shell_wf_def wp_def split: outcome.split)

lemma keeps_on_heap [keeps_rule]: "keeps (on_heap m)"
  by (auto simp: keeps_def on_heap_def shell_wf_def wp_def split: outcome.split)

lemma keeps_of_opt [keeps_rule]: "keeps (of_opt x)"
  by (simp add: of_opt_def keeps_rule)

lemma strtok_scan_length: "strtok_scan s2 l mem = Some (mem', l') \<Longrightarrow> length mem' = length mem"
proof (induction s2 l mem rule: strtok_scan.induct)
  case (1 s2 l mem)
  then show ?case by (subst (asm) (2) strtok_scan.simps) (auto split: if_splits option.splits bool.splits)
qed

lemma keeps_strtok [keeps_rule]: "keeps (on_tok (strtok s1 blank))"
proof -
  have "wp any_stop (strtok_from blank p) (\<lambda>_ t'. length (tk_mem t') = length (tk_mem t)) t" for p t
    by (auto simp: wp_def strtok_from_def dest: strtok_scan_length split: outcome.split option.split)
  then have k: "wp any_stop (strtok s1 blank) (\<lambda>_ t'. length (tk_mem t') = length (tk_mem t)) t" for t
    by (cases s1) (auto simp: strtok_def split: option.split)
  show ?thesis by (auto simp: keeps_def on_tok_def shell_wf_def intro: wp_mono [OF k])
qed

lemma keeps_strs [keeps_rule]: "keeps (upd (\<lambda>s. s\<lparr>strs := f s\<rparr>))"
  by (simp add: keeps_def shell_wf_def)

lemma keeps_table [keeps_rule]: "keeps (upd (\<lambda>s. s\<lparr>parsed_dim := d, table_addr := a\<rparr>))" "keeps (upd (\<lambda>s. s\<lparr>parsed_cmds := ps\<rparr>))"
  by (simp_all add: keeps_def shell_wf_def)

lemma keeps_reset [keeps_rule]: "keeps (upd (\<lambda>s. s\<lparr>buffer_dim := 0\<rparr>))" "keeps (upd (\<lambda>s. s\<lparr>parsed_cmds := [], buffer_dim := 0\<rparr>))"
  by (auto simp: keeps_def shell_wf_def MAX_BUFFER_SIZE_def)

lemma keeps_tok_bytes [keeps_rule]: "keeps (tok_bytes p)"
  by (simp add: tok_bytes_def keeps_rule)

lemma keeps_set_buffer [keeps_rule]: "keeps (set_buffer i c)"
  by (simp add: keeps_def set_buffer_def shell_wf_def)

lemma keeps_memory [keeps_rule]: "keeps (allocMemory M n)" "keeps (freeMemory M a)"
  by (simp_all add: allocMemory_def freeMemory_def keeps_rule)

lemma keeps_free_all [keeps_rule]: "keeps (free_all M as)"
  by (induction as) (simp_all add: keeps_rule)

lemma keeps_skip_pipes [keeps_rule]: "keeps (skip_pipes t)"
  unfolding skip_pipes_def by (intro keeps_rule)

lemma keeps_arg_step [keeps_rule]: "keeps (arg_step M a)"
  unfolding arg_step_def by (intro keeps_rule)

lemma copy_loop_length: "copy_loop i dest src = Some d \<Longrightarrow> length d = length dest"
  by (induction i dest src rule: copy_loop.induct) (auto split: if_splits)

lemma keeps_store_command:
  assumes "\<And>c. keeps (f c)"
  shows "keeps (bnd (gets command_buf) (\<lambda>cmd. bnd (of_opt (strcpy_libc cmd str)) (\<lambda>cmd. sq (upd (\<lambda>s. s\<lparr>command_buf := cmd\<rparr>)) (f cmd))))"
  using assms
  by (auto simp: keeps_def of_opt_def shell_wf_def strcpy_libc_def split: option.split dest!: copy_loop_length)

lemma keeps_parse_words [keeps_rule]: "keeps (parse_words M p)"
  unfolding parse_words_def by (intro keeps_bnd keeps_tok_bytes keeps_store_command) (intro keeps_rule)

lemma keeps_parse_command [keeps_rule]: "keeps (parse_command M first)"
  unfolding parse_command_def by (intro keeps_rule)

lemma keeps_grow [keeps_rule]: "keeps (grow_table M)"
  unfolding grow_table_def by (intro keeps_rule)

lemma keeps_parse_line [keeps_rule]: "keeps (parse_line M)"
  unfolding parse_line_def parse_step_def Let_def by (intro keeps_rule)

lemma keeps_read_char [keeps_rule]: "keeps read_char"
  unfolding read_char_def by (intro keeps_rule)

lemma keeps_read_step [keeps_rule]: "keeps (read_step c)"
proof -
  have char: "keeps (upd (\<lambda>s. s\<lparr>history_buffer := (history_buffer s)[dim := ch], tok := (tok s)\<lparr>tk_mem := (tk_mem (tok s))[dim := ch]\<rparr>,
      buffer_dim := dim + 1\<rparr>))" if "dim < MAX_BUFFER_SIZE - 1" for dim ch
    using that by (auto simp: keeps_def shell_wf_def)
  show ?thesis unfolding read_step_def Let_def by (intro keeps_rule char)
qed

lemma keeps_drain [keeps_rule]: "keeps (drain c)"
  unfolding drain_def by (intro keeps_rule)

lemma keeps_arg_strings [keeps_rule]: "keeps (arg_strings as)"
  by (simp add: keeps_def arg_strings_def wp_def)

lemma keeps_run [keeps_rule]: "keeps (strip_background p)" "keeps (createProcess env p targets fg)" "keeps (run_builtin p)"
  unfolding strip_background_def createProcess_def run_builtin_def str_of_def Let_def by (intro keeps_rule)+

lemma keeps_run_commands [keeps_rule]: "keeps (run_single env p)" "keeps (run_pipeline env p q)"
  unfolding run_single_def run_pipeline_def Let_def by (intro keeps_rule)+

lemma keeps_run_parsed [keeps_rule]: "keeps (run_parsed env)"
  unfolding run_parsed_def by (intro keeps_rule) (auto split: list.split intro: keeps_rule)

lemma keeps_not_found [keeps_rule]: "keeps not_found"
  unfolding not_found_def by (intro keeps_rule)

lemma keeps_release [keeps_rule]: "keeps (release M)"
  unfolding release_def by (intro keeps_rule)

lemma put_byte_length: "put_byte buf i c = Some d \<Longrightarrow> length d = length buf"
  by (auto simp: put_byte_def split: if_splits)

lemma ncopy_length: "ncopy_loop n i dest src = Some d \<Longrightarrow> length d = length dest"
  by (induction n i dest src rule: ncopy_loop.induct) (auto split: if_splits option.splits dest!: put_byte_length)

lemma list_all_update: "list_all P xs \<Longrightarrow> P x \<Longrightarrow> list_all P (xs[k := x])"
  by (auto simp: list_all_iff dest!: set_update_subset_insert [THEN subsetD])

lemma keeps_remember [keeps_rule]: "keeps remember"
proof -
  have m: "(x + 1) mod 10 < 10" for x :: u8 by (rule word_mod_less_divisor) simp
  show ?thesis
    using m by (auto simp: keeps_def remember_def of_opt_def shell_wf_def strncpy_libc_def split: option.split
        dest!: ncopy_length put_byte_length intro!: list_all_update) (simp add: list_all_length)
qed

section \<open>Properties\<close>





end
