(* ===== verification/MVar.thy ===== *)
theory MVar
  imports Shell
begin

text \<open>
  The synchronised variable of src/TP2-SO-2025/Userland/Shell/commands/mvar.c: any number of writer
  and reader processes share one byte of the kernel (shared_mvar.c) under the two semaphores
  \<open>mvar_empty\<close>, opened with 1, and \<open>mvar_full\<close>, opened with 0. A process is at one of the system
  calls of \<open>mvarPut\<close> or \<open>mvarGet\<close>; a step is one system call of one process, so every interleaving
  of the calls is a sequence of steps. A \<open>semWait\<close> on a semaphore whose value is 0 is no step: the
  process is blocked. On valid handles \<open>semWait\<close> and \<open>semPost\<close> return 0 (theory \<open>Sem_Properties\<close>), so
  the error returns of the two routines are not taken.
\<close>

section \<open>The processes\<close>

text \<open>
  \<open>PutWait\<close>, \<open>PutStore\<close> and \<open>PutPost\<close> are the calls of \<open>mvarPut\<close> with the value to put; \<open>GetWait\<close>,
  \<open>GetLoad\<close>, \<open>GetClear\<close> and \<open>GetPost\<close> those of \<open>mvarGet\<close>, with the value read once there is one. After
  its last call a process starts over, as the loops of \<open>_mvar_writer\<close> and \<open>_mvar_reader\<close> do.
\<close>

datatype pc =
    PutWait char
  | PutStore char
  | PutPost char
  | GetWait
  | GetLoad
  | GetClear char
  | GetPost char

record mvar_sys =
  slot :: char
  m_empty :: nat
  m_full :: nat
  procs :: "nat \<Rightarrow> pc"
  put_log :: "char list"
  got_log :: "char list"

text \<open>The values are logged when they are stored and when they are read.\<close>

definition mvar_step :: "nat \<Rightarrow> mvar_sys \<Rightarrow> mvar_sys option" where
  "mvar_step p s = (case procs s p of
       PutWait v \<Rightarrow>
         if m_empty s = 0 then None
         else Some (s\<lparr>m_empty := m_empty s - 1, procs := (procs s)(p := PutStore v)\<rparr>)
     | PutStore v \<Rightarrow> Some (s\<lparr>slot := v, procs := (procs s)(p := PutPost v), put_log := put_log s @ [v]\<rparr>)
     | PutPost v \<Rightarrow> Some (s\<lparr>m_full := m_full s + 1, procs := (procs s)(p := PutWait v)\<rparr>)
     | GetWait \<Rightarrow>
         if m_full s = 0 then None
         else Some (s\<lparr>m_full := m_full s - 1, procs := (procs s)(p := GetLoad)\<rparr>)
     | GetLoad \<Rightarrow> Some (s\<lparr>procs := (procs s)(p := GetClear (slot s)), got_log := got_log s @ [slot s]\<rparr>)
     | GetClear v \<Rightarrow> Some (s\<lparr>slot := NUL, procs := (procs s)(p := GetPost v)\<rparr>)
     | GetPost v \<Rightarrow> Some (s\<lparr>m_empty := m_empty s + 1, procs := (procs s)(p := GetWait)\<rparr>))"

text \<open>\<open>mvarInit\<close> and the start of the processes: a writer has its letter, \<open>None\<close> is a reader.\<close>

definition mvar_init :: "(nat \<Rightarrow> char option) \<Rightarrow> mvar_sys" where
  "mvar_init who = \<lparr>slot = NUL, m_empty = 1, m_full = 0,
     procs = (\<lambda>p. case who p of None \<Rightarrow> GetWait | Some v \<Rightarrow> PutWait v), put_log = [], got_log = []\<rparr>"

inductive mvar_reach :: "(nat \<Rightarrow> char option) \<Rightarrow> mvar_sys \<Rightarrow> bool" for who where
  start: "mvar_reach who (mvar_init who)"
| step: "mvar_reach who s \<Longrightarrow> mvar_step p s = Some t \<Longrightarrow> mvar_reach who t"

section \<open>The command\<close>

text \<open>The yields of \<open>random_delay\<close>, and the state of the generator after it.\<close>

definition random_delay :: "u64 \<Rightarrow> nat \<times> u64" where
  "random_delay next =
     (case rand next of (a, next) \<Rightarrow>
      case rand next of (b, next) \<Rightarrow>
      if b mod 100 < 30 then (case rand next of (c, next) \<Rightarrow> (a mod 20 + 1 + c mod 30, next))
      else (a mod 20 + 1, next))"

text \<open>The answers of the calls: whether \<open>mvarInit\<close> got its block and semaphores, and the process
  identifiers.\<close>

record mvar_env =
  me_init :: bool
  me_create :: "call list \<Rightarrow> int"

definition start_process :: "mvar_env \<Rightarrow> string \<Rightarrow> string \<Rightarrow> (user_io, int) kernel" where
  "start_process env n a =
     sq (syscall (Create n [a] 1 [0, 1, 2] False)) (gets (\<lambda>s. me_create env (calls s)))"

definition start_writer :: "mvar_env \<Rightarrow> nat \<Rightarrow> (user_io, unit) kernel" where
  "start_writer env i =
     (let letter = char_of (65 + i mod 26) in
      bnd (start_process env ''mvar_writer'' [letter]) (\<lambda>pid.
      if pid < 0 then printf (cs (''mvar: failed to create writer %c'' @ nl)) [Num (of_char letter)] else ret ()))"

definition start_reader :: "mvar_env \<Rightarrow> nat \<Rightarrow> (user_io, unit) kernel" where
  "start_reader env i =
     bnd (of_opt (itoa (word_of_nat i) (Some (replicate 16 NUL)) 10)) (\<lambda>r. case r of
       None \<Rightarrow> halt Fault
     | Some idStr \<Rightarrow>
         bnd (start_process env ''mvar_reader'' (takeWhile (\<lambda>c. c \<noteq> NUL) idStr)) (\<lambda>pid.
         if pid < 0 then printf (cs (''mvar: failed to create reader %d'' @ nl)) [Num (word_of_nat i)] else ret ()))"

fun for_each :: "(nat \<Rightarrow> (user_io, unit) kernel) \<Rightarrow> nat \<Rightarrow> nat \<Rightarrow> (user_io, unit) kernel" where
  "for_each f i 0 = ret ()"
| "for_each f i (Suc n) = sq (f i) (for_each f (i + 1) n)"

definition mvar_cmd :: "mvar_env \<Rightarrow> char list list \<Rightarrow> (user_io, int) kernel" where
  "mvar_cmd env argv =
     (if length argv \<noteq> 3 then sq (printf (cs (''Usage: mvar <readers> <writers>'' @ nl)) []) (ret (- 1))
      else bnd (of_opt (atoi (argv ! 1))) (\<lambda>readers.
        bnd (of_opt (atoi (argv ! 2))) (\<lambda>writers.
        if readers \<le> 0 \<or> writers \<le> 0
        then sq (printf (cs (''mvar: readers and writers must be > 0'' @ nl)) []) (ret (- 1))
        else if \<not> me_init env then sq (printf (cs (''mvar: failed to initialize MVar'' @ nl)) []) (ret (- 1))
        else sq (for_each (start_writer env) 0 (nat writers))
               (sq (for_each (start_reader env) 0 (nat readers)) (ret 0)))))"

section \<open>Mutual exclusion\<close>

text \<open>A process between its wait and its post holds the variable. Exactly one of three things is the
  case: the variable is empty, it is full, or one process holds it.\<close>

fun idle :: "pc \<Rightarrow> bool" where
  "idle (PutWait v) = True"
| "idle GetWait = True"
| "idle _ = False"

definition value_in :: "mvar_sys \<Rightarrow> char list" where
  "value_in s = (if m_full s = 1 then [slot s] else [])"

fun pending :: "pc \<Rightarrow> char \<Rightarrow> char list" where
  "pending (PutPost v) x = [x]"
| "pending GetLoad x = [x]"
| "pending _ x = []"

fun pc_ok :: "pc \<Rightarrow> char \<Rightarrow> bool" where
  "pc_ok (PutPost v) x \<longleftrightarrow> x = v"
| "pc_ok _ x \<longleftrightarrow> True"

definition all_idle :: "mvar_sys \<Rightarrow> bool" where
  "all_idle s \<longleftrightarrow> (\<forall>p. idle (procs s p))"

definition held_by :: "mvar_sys \<Rightarrow> nat \<Rightarrow> bool" where
  "held_by s h \<longleftrightarrow> (\<forall>p. idle (procs s p) \<longleftrightarrow> p \<noteq> h)"

definition mvar_ok :: "mvar_sys \<Rightarrow> bool" where
  "mvar_ok s \<longleftrightarrow>
     (m_empty s = 1 \<and> m_full s = 0 \<and> all_idle s \<and> put_log s = got_log s) \<or>
     (m_empty s = 0 \<and> m_full s = 1 \<and> all_idle s \<and> put_log s = got_log s @ [slot s]) \<or>
     (m_empty s = 0 \<and> m_full s = 0 \<and> (\<exists>h. held_by s h \<and> pc_ok (procs s h) (slot s) \<and>
        put_log s = got_log s @ pending (procs s h) (slot s)))"

lemma mvar_ok_holder:
  assumes "mvar_ok s" and "\<not> idle (procs s p)"
  shows "m_empty s = 0" "m_full s = 0" "held_by s p" "pc_ok (procs s p) (slot s)"
    "put_log s = got_log s @ pending (procs s p) (slot s)"
proof -
  from assms(2) have "\<not> all_idle s" by (auto simp: all_idle_def)
  with assms(1) obtain h where h: "m_empty s = 0" "m_full s = 0" "held_by s h" "pc_ok (procs s h) (slot s)"
    "put_log s = got_log s @ pending (procs s h) (slot s)" unfolding mvar_ok_def by blast
  moreover from h(3) assms(2) have "p = h" by (simp add: held_by_def)
  ultimately show "m_empty s = 0" "m_full s = 0" "held_by s p" "pc_ok (procs s p) (slot s)"
    "put_log s = got_log s @ pending (procs s p) (slot s)" by simp_all
qed

lemma mvar_ok_held:
  "m_empty s = 0 \<Longrightarrow> m_full s = 0 \<Longrightarrow> held_by s p \<Longrightarrow> pc_ok (procs s p) (slot s) \<Longrightarrow>
     put_log s = got_log s @ pending (procs s p) (slot s) \<Longrightarrow> mvar_ok s"
  unfolding mvar_ok_def by blast

lemma held_by_upd [simp]:
  "held_by (s\<lparr>procs := (procs s)(p := c)\<rparr>) p \<longleftrightarrow> \<not> idle c \<and> (\<forall>q. q \<noteq> p \<longrightarrow> idle (procs s q))"
  by (auto simp: held_by_def)

lemma mvar_step_ok:
  assumes "mvar_ok s" and "mvar_step p s = Some t"
  shows "mvar_ok t"
proof (cases "idle (procs s p)")
  case True
  then consider v where "procs s p = PutWait v" | "procs s p = GetWait" by (cases "procs s p") auto
  then show ?thesis
  proof cases
    case 1
    with assms(2) have "m_empty s \<noteq> 0" and t: "t = s\<lparr>m_empty := m_empty s - 1, procs := (procs s)(p := PutStore v)\<rparr>"
      by (auto simp: mvar_step_def split: if_splits)
    with assms(1) have "m_empty s = 1" "m_full s = 0" "all_idle s" "put_log s = got_log s" unfolding mvar_ok_def by auto
    then show ?thesis unfolding t by (intro mvar_ok_held [of _ p]) (auto simp: held_by_def all_idle_def)
  next
    case 2
    with assms(2) have "m_full s \<noteq> 0" and t: "t = s\<lparr>m_full := m_full s - 1, procs := (procs s)(p := GetLoad)\<rparr>"
      by (auto simp: mvar_step_def split: if_splits)
    with assms(1) have "m_empty s = 0" "m_full s = 1" "all_idle s" "put_log s = got_log s @ [slot s]" unfolding mvar_ok_def by auto
    then show ?thesis unfolding t by (intro mvar_ok_held [of _ p]) (auto simp: held_by_def all_idle_def)
  qed
next
  case False
  note h = mvar_ok_holder [OF assms(1) False]
  have others: "idle (procs s q)" if "q \<noteq> p" for q using h(3) that by (simp add: held_by_def)
  show ?thesis
  proof (cases "procs s p")
    case (PutStore v)
    with assms(2) have t: "t = s\<lparr>slot := v, procs := (procs s)(p := PutPost v), put_log := put_log s @ [v]\<rparr>" by (simp add: mvar_step_def)
    show ?thesis unfolding t by (rule mvar_ok_held [of _ p]) (use h PutStore in \<open>auto simp: held_by_def\<close>)
  next
    case (PutPost v)
    with assms(2) have t: "t = s\<lparr>m_full := m_full s + 1, procs := (procs s)(p := PutWait v)\<rparr>" by (simp add: mvar_step_def)
    have "all_idle t" using others by (simp add: t all_idle_def)
    with h PutPost show ?thesis unfolding mvar_ok_def by (simp add: t)
  next
    case GetLoad
    with assms(2) have t: "t = s\<lparr>procs := (procs s)(p := GetClear (slot s)), got_log := got_log s @ [slot s]\<rparr>" by (simp add: mvar_step_def)
    show ?thesis unfolding t by (rule mvar_ok_held [of _ p]) (use h GetLoad in \<open>auto simp: held_by_def\<close>)
  next
    case (GetClear v)
    with assms(2) have t: "t = s\<lparr>slot := NUL, procs := (procs s)(p := GetPost v)\<rparr>" by (simp add: mvar_step_def)
    show ?thesis unfolding t by (rule mvar_ok_held [of _ p]) (use h GetClear in \<open>auto simp: held_by_def\<close>)
  next
    case (GetPost v)
    with assms(2) have t: "t = s\<lparr>m_empty := m_empty s + 1, procs := (procs s)(p := GetWait)\<rparr>" by (simp add: mvar_step_def)
    have "all_idle t" using others by (simp add: t all_idle_def)
    with h GetPost show ?thesis unfolding mvar_ok_def by (simp add: t)
  qed (use False in simp_all)
qed

lemma mvar_reach_ok: "mvar_reach who s \<Longrightarrow> mvar_ok s"
proof (induction rule: mvar_reach.induct)
  case start
  show ?case by (auto simp: mvar_ok_def mvar_init_def all_idle_def split: option.split)
qed (rule mvar_step_ok)

text \<open>A process keeps its role, and a writer its letter.\<close>

fun role :: "pc \<Rightarrow> char option" where
  "role (PutWait v) = Some v"
| "role (PutStore v) = Some v"
| "role (PutPost v) = Some v"
| "role _ = None"

lemma mvar_reach_role: "mvar_reach who s \<Longrightarrow> role (procs s p) = who p"
proof (induction rule: mvar_reach.induct)
  case start
  show ?case by (auto simp: mvar_init_def split: option.split)
next
  case (step s q t)
  then show ?case by (cases "procs s q") (auto simp: mvar_step_def split: if_splits)
qed

section \<open>Properties\<close>

text \<open>
  C13. Whatever the interleaving of any number of writers and readers, the values that the readers got are
  the values that the writers put, in the same order and each exactly once, but for one that may
  still be in the variable; at most one process is between its wait and its post.
\<close>

theorem mvar_transfers:
  assumes "mvar_reach who s"
  shows "(put_log s = got_log s \<or> (\<exists>v. put_log s = got_log s @ [v])) \<and>
    (\<forall>p q. \<not> idle (procs s p) \<longrightarrow> \<not> idle (procs s q) \<longrightarrow> p = q)"
proof
  have ok: "mvar_ok s" by (rule mvar_reach_ok [OF assms])
  have "\<exists>v. pending c x = [v] \<or> pending c x = []" for c x by (cases c) auto
  with ok show "put_log s = got_log s \<or> (\<exists>v. put_log s = got_log s @ [v])"
    unfolding mvar_ok_def by (metis append_Nil2)
  show "\<forall>p q. \<not> idle (procs s p) \<longrightarrow> \<not> idle (procs s q) \<longrightarrow> p = q"
    using mvar_ok_holder(3) [OF ok] by (auto simp: held_by_def)
qed

fun run_schedule :: "nat list \<Rightarrow> mvar_sys \<Rightarrow> mvar_sys option" where
  "run_schedule [] s = Some s"
| "run_schedule (p # ps) s = (case mvar_step p s of None \<Rightarrow> None | Some t \<Rightarrow> run_schedule ps t)"

lemma run_schedule_reach: "mvar_reach who s \<Longrightarrow> run_schedule ps s = Some t \<Longrightarrow> mvar_reach who t"
  by (induction ps arbitrary: s) (auto split: option.splits intro: mvar_reach.step)

definition two_writers :: "nat \<Rightarrow> char option" where
  "two_writers p = (if p = 0 then Some (CHR ''A'') else if p = 1 then Some (CHR ''B'') else None)"

theorem mvar_transfers_witness:
  "\<exists>s. run_schedule [0, 0, 0, 2, 2, 2, 2, 1, 1] (mvar_init two_writers) = Some s \<and> got_log s = ''A'' \<and> put_log s = ''AB'' \<and>
    (put_log s = got_log s \<or> (\<exists>v. put_log s = got_log s @ [v])) \<and> (\<forall>p. \<not> idle (procs s p) \<longrightarrow> p = 1)"
proof -
  have "\<exists>s. run_schedule [0, 0, 0, 2, 2, 2, 2, 1, 1] (mvar_init two_writers) = Some s \<and> got_log s = ''A'' \<and> put_log s = ''AB'' \<and> \<not> idle (procs s 1)"
    by (simp add: mvar_step_def mvar_init_def two_writers_def)
  then obtain s where s: "run_schedule [0, 0, 0, 2, 2, 2, 2, 1, 1] (mvar_init two_writers) = Some s" "got_log s = ''A''" "put_log s = ''AB''"
    "\<not> idle (procs s 1)" by blast
  from mvar_transfers [OF run_schedule_reach [OF mvar_reach.start s(1)]] s show ?thesis by blast
qed

text \<open>
  C29. The system never comes to rest while there is a writer and a reader: in every reachable state some
  process can take a step, so no interleaving ends in a deadlock.
\<close>

theorem mvar_never_stuck:
  assumes "mvar_reach who s" and "who w = Some v" and "who r = None"
  shows "\<exists>p t. mvar_step p s = Some t"
proof (cases "all_idle s")
  case True
  have "role (procs s w) = Some v" "role (procs s r) = None" using mvar_reach_role [OF assms(1)] assms(2,3) by auto
  with True have "procs s w = PutWait v" "procs s r = GetWait"
    by (cases "procs s w"; simp add: all_idle_def; metis idle.simps)
       (use True \<open>role (procs s r) = None\<close> in \<open>cases "procs s r"; auto simp: all_idle_def dest: spec [of _ r]\<close>)
  moreover have "m_empty s \<noteq> 0 \<or> m_full s \<noteq> 0" using mvar_reach_ok [OF assms(1)] True
    by (auto simp: mvar_ok_def all_idle_def held_by_def)
  ultimately show ?thesis by (auto simp: mvar_step_def intro: exI [of _ w] exI [of _ r])
next
  case False
  then obtain p where "\<not> idle (procs s p)" by (auto simp: all_idle_def)
  then have "\<exists>t. mvar_step p s = Some t" by (cases "procs s p") (auto simp: mvar_step_def)
  then show ?thesis by blast
qed

theorem mvar_never_stuck_witness: "\<exists>p t. mvar_step p (mvar_init two_writers) = Some t"
  by (rule mvar_never_stuck [OF mvar_reach.start, of _ 0 "CHR ''A''" 2]) (simp_all add: two_writers_def)

lemma random_delay_bounds: "1 \<le> fst (random_delay n) \<and> fst (random_delay n) \<le> 49"
proof -
  have "a mod 20 < (20 :: nat)" "c mod 30 < (30 :: nat)" for a c by simp_all
  then show ?thesis by (auto simp: random_delay_def split: prod.splits)
qed


lemma for_each_calls:
  assumes "\<And>i s. i < i0 + n \<Longrightarrow> f i s = Ret ((), s\<lparr>calls := calls s @ [g i]\<rparr>)"
  shows "for_each f i0 n s = Ret ((), s\<lparr>calls := calls s @ map g [i0..<i0 + n]\<rparr>)"
  using assms
proof (induction n arbitrary: i0 s)
  case (Suc n)
  have "for_each f (Suc i0) n u = Ret ((), u\<lparr>calls := calls u @ map g [Suc i0..<Suc i0 + n]\<rparr>)" for u
    by (rule Suc.IH) (use Suc.prems in simp)
  with Suc.prems [of i0] show ?case by (simp add: run_simps upt_rec [of i0])
qed (simp add: run_simps)

lemma start_reader_call:
  assumes "i < 2 ^ 31" and "\<And>cs. 0 \<le> me_create env cs"
  shows "start_reader env i s = Ret ((), s\<lparr>calls := calls s @ [Create ''mvar_reader'' [dec i] 1 [0, 1, 2] False]\<rparr>)"
proof -
  have v: "sint (word_of_nat i :: s32) = int i" by (rule small_word(2) [OF assms(1)])
  have d: "sdec (int i) = dec i" by (simp add: sdec_def)
  have "length (dec i) < 16" using sdec_length [of "int i"] assms(1) d by simp
  then have "itoa (word_of_nat i) (Some (replicate 16 NUL)) 10 = Some (Some (dec i @ NUL # drop (length (dec i) + 1) (replicate 16 NUL)))"
    using itoa_dec [of "word_of_nat i" "replicate 16 NUL"] v d by simp
  moreover have "takeWhile (\<lambda>c. c \<noteq> NUL) (dec i @ NUL # z) = dec i" for z using dec_no_NUL [of i] by (simp add: takeWhile_append)
  ultimately show ?thesis using assms(2)
    by (simp add: start_reader_def start_process_def of_opt_def run_simps syscall_def not_less [symmetric])
qed

text \<open>
  The command \<open>mvar\<close> with two positive numbers starts as many writers as the second one says and as
  many readers as the first one says, the writers first, with the letters of the alphabet in turn.
\<close>

theorem mvar_starts:
  assumes "sint r \<noteq> - (2 ^ 31)" and "sint w \<noteq> - (2 ^ 31)" and "0 < sint (r :: s32)" and "0 < sint (w :: s32)"
    and "me_init env" and "\<And>cs. 0 \<le> me_create env cs"
  shows "\<exists>t. mvar_cmd env [cs ''mvar'', cs (sdec (sint r)), cs (sdec (sint w))] s = Ret (0, t) \<and>
    calls t = calls s @ map (\<lambda>i. Create ''mvar_writer'' [[char_of (65 + i mod 26)]] 1 [0, 1, 2] False) [0..<nat (sint w)]
      @ map (\<lambda>i. Create ''mvar_reader'' [dec i] 1 [0, 1, 2] False) [0..<nat (sint r)]"
proof -
  have b: "sint x < 2 ^ 31" "- (2 ^ 31) \<le> sint x" for x :: s32 using sint_range_size [of x] by (auto simp: word_size)
  have a: "atoi (cs (sdec (sint x))) = Some (sint x)" for x :: s32
    using atoi_sdec [OF b(2,1), of x "[]"] by (simp add: cs_def)
  have "start_writer env i u = Ret ((), u\<lparr>calls := calls u @ [Create ''mvar_writer'' [[char_of (65 + i mod 26)]] 1 [0, 1, 2] False]\<rparr>)" for i u
    using assms(6) by (simp add: start_writer_def Let_def start_process_def run_simps syscall_def not_less [symmetric])
  then have ws: "for_each (start_writer env) 0 n u =
      Ret ((), u\<lparr>calls := calls u @ map (\<lambda>i. Create ''mvar_writer'' [[char_of (65 + i mod 26)]] 1 [0, 1, 2] False) [0..<n]\<rparr>)" for n u
    using for_each_calls [of 0 n "start_writer env" "\<lambda>i. Create ''mvar_writer'' [[char_of (65 + i mod 26)]] 1 [0, 1, 2] False" u] by simp
  have "start_reader env i u = Ret ((), u\<lparr>calls := calls u @ [Create ''mvar_reader'' [dec i] 1 [0, 1, 2] False]\<rparr>)"
    if "i < 0 + nat (sint r)" for i u
    using start_reader_call [OF _ assms(6), of i u] that b(1) [of r] by simp
  then have rs: "for_each (start_reader env) 0 (nat (sint r)) u =
      Ret ((), u\<lparr>calls := calls u @ map (\<lambda>i. Create ''mvar_reader'' [dec i] 1 [0, 1, 2] False) [0..<nat (sint r)]\<rparr>)" for u
    using for_each_calls [of 0 "nat (sint r)" "start_reader env" "\<lambda>i. Create ''mvar_reader'' [dec i] 1 [0, 1, 2] False" u] by simp
  show ?thesis using assms(3-5) a ws rs
    by (simp add: mvar_cmd_def of_opt_def run_simps)
qed

theorem mvar_starts_witness:
  "\<exists>t. mvar_cmd \<lparr>me_init = True, me_create = (\<lambda>_. 9)\<rparr> [cs ''mvar'', cs ''2'', cs ''1''] \<lparr>answers = [], calls = []\<rparr> = Ret (0, t) \<and>
    length (filter (\<lambda>c. case c of Create n _ _ _ _ \<Rightarrow> n = ''mvar_reader'' | _ \<Rightarrow> False) (calls t)) = 2 \<and> length (calls t) = 3"
proof -
  have "sdec 2 = ''2''" "sdec 1 = ''1''" by code_simp+
  then show ?thesis
    using mvar_starts [of 2 1 "\<lparr>me_init = True, me_create = (\<lambda>_. 9)\<rparr>" "\<lparr>answers = [], calls = []\<rparr>"]
    by (auto simp: upt_rec)
qed

end
