(* ===== verification/Test_Sync.thy ===== *)
theory Test_Sync
  imports Stdio_Properties Commands
begin

text \<open>
  The test of the semaphores, src/TP2-SO-2025/Userland/Shell/commands/test_sync.c: processes add to a
  shared variable, each with a load, a yield and a store. A step is one system call or one access to the
  variable by one process, so every interleaving that the scheduler can choose is a sequence of steps.
  With the semaphore the sum is exact whatever the interleaving, and every run ends; without it
  updates are lost.
\<close>

section \<open>The processes\<close>

text \<open>What \<open>my_process_inc\<close> takes from its arguments.\<close>

record sync_args =
  sa_n :: u64
  sa_inc :: s64
  sa_use_sem :: bool

text \<open>
  Where a process is in \<open>my_process_inc\<close>, with its index \<open>i\<close>: at the opening of the semaphore, the
  wait, the load and the store of \<open>slowInc\<close> (with \<open>aux\<close>), the post, the closing; or it has
  returned.
\<close>

datatype sync_pc =
    AtOpen
  | AtWait u64
  | AtLoad u64
  | AtStore u64 u64
  | AtPost u64
  | AtClose
  | Returned int

text \<open>The shared state: the variable \<open>global\<close> and the semaphore \<open>sem\<close>, if it exists, with its value and the
  number of its users. Printing does not touch it and is no step.\<close>

record sync_sys =
  global :: u64
  semaphore :: "(nat \<times> nat) option"
  threads :: "nat \<Rightarrow> sync_pc"

text \<open>The loop test with index \<open>i\<close>, up to the next call.\<close>

definition next_round :: "sync_args \<Rightarrow> u64 \<Rightarrow> sync_pc" where
  "next_round a i =
     (if i < sa_n a then if sa_use_sem a then AtWait i else AtLoad i
      else if sa_use_sem a then AtClose else Returned 0)"

definition sync_start :: "sync_args \<Rightarrow> sync_pc" where
  "sync_start a = (if sa_use_sem a then AtOpen else next_round a 0)"

text \<open>
  The calls on the semaphore, as the operations of theory \<open>Sem\<close> serve them: opening an existing one adds a user, the last
  closing destroys it, and the calls on a handle that is not valid return an error, which the program ignores.
  A wait on the value 0 is no step: the process is blocked.
\<close>

definition sem_open :: "(nat \<times> nat) option \<Rightarrow> (nat \<times> nat) option" where
  "sem_open x = (case x of None \<Rightarrow> Some (1, 1) | Some (v, u) \<Rightarrow> Some (v, u + 1))"

definition sem_wait :: "(nat \<times> nat) option \<Rightarrow> (nat \<times> nat) option option" where
  "sem_wait x = (case x of None \<Rightarrow> Some None | Some (v, u) \<Rightarrow> if v = 0 then None else Some (Some (v - 1, u)))"

definition sem_post :: "(nat \<times> nat) option \<Rightarrow> (nat \<times> nat) option" where
  "sem_post x = map_option (\<lambda>(v, u). (v + 1, u)) x"

definition sem_close :: "(nat \<times> nat) option \<Rightarrow> (nat \<times> nat) option" where
  "sem_close x = (case x of None \<Rightarrow> None | Some (v, u) \<Rightarrow> if u \<le> 1 then None else Some (v, u - 1))"

text \<open>A step of process \<open>p\<close>; \<open>opens p\<close> says whether its \<open>semOpen\<close> succeeds.\<close>

definition sync_step :: "(nat \<Rightarrow> bool) \<Rightarrow> sync_args list \<Rightarrow> nat \<Rightarrow> sync_sys \<Rightarrow> sync_sys option" where
  "sync_step opens args p s =
     (if length args \<le> p then None
      else let a = args ! p; goto = (\<lambda>c. (threads s)(p := c)) in case threads s p of
        AtOpen \<Rightarrow>
          if opens p then Some (s\<lparr>semaphore := sem_open (semaphore s), threads := goto (next_round a 0)\<rparr>)
          else Some (s\<lparr>threads := goto (Returned (- 1))\<rparr>)
      | AtWait i \<Rightarrow> map_option (\<lambda>x. s\<lparr>semaphore := x, threads := goto (AtLoad i)\<rparr>) (sem_wait (semaphore s))
      | AtLoad i \<Rightarrow> Some (s\<lparr>threads := goto (AtStore i (global s))\<rparr>)
      | AtStore i aux \<Rightarrow>
          Some (s\<lparr>global := aux + sa_inc a, threads := goto (if sa_use_sem a then AtPost i else next_round a (i + 1))\<rparr>)
      | AtPost i \<Rightarrow> Some (s\<lparr>semaphore := sem_post (semaphore s), threads := goto (next_round a (i + 1))\<rparr>)
      | AtClose \<Rightarrow> Some (s\<lparr>semaphore := sem_close (semaphore s), threads := goto (Returned 0)\<rparr>)
      | Returned r \<Rightarrow> None)"

definition sync_init :: "sync_args list \<Rightarrow> sync_sys" where
  "sync_init args = \<lparr>global = 0, semaphore = None, threads = (\<lambda>p. if p < length args then sync_start (args ! p) else Returned 0)\<rparr>"

fun sync_run :: "(nat \<Rightarrow> bool) \<Rightarrow> sync_args list \<Rightarrow> nat list \<Rightarrow> sync_sys \<Rightarrow> sync_sys option" where
  "sync_run opens args [] s = Some s"
| "sync_run opens args (p # sched) s =
     (case sync_step opens args p s of None \<Rightarrow> None | Some t \<Rightarrow> sync_run opens args sched t)"

section \<open>The programs\<close>

text \<open>The arguments of \<open>my_process_inc\<close>; nothing if it returns -1 because of them.\<close>

definition process_inc_args :: "char list list \<Rightarrow> (user_io, sync_args option) kernel" where
  "process_inc_args argv =
     (if length argv \<noteq> 4 then sq (printf (cs (''argc: %d (expected 4)'' @ nl)) [Num (word_of_nat (length argv))]) (ret None)
      else bnd (of_opt (satoi (Some (argv ! 1)))) (\<lambda>n.
        if word_of_int n = (0 :: u64) then sq (printf (cs (''Invalid n value: %s'' @ nl)) [Str (argv ! 1)]) (ret None)
        else bnd (of_opt (satoi (Some (argv ! 2)))) (\<lambda>inc.
        if inc = 0 then sq (printf (cs (''Invalid inc value: %s'' @ nl)) [Str (argv ! 2)]) (ret None)
        else bnd (of_opt (satoi (Some (argv ! 3)))) (\<lambda>use_sem.
        let use_sem = sint (word_of_int use_sem :: 8 word) in
        if use_sem < 0 then sq (printf (cs (''Invalid use_sem value: %s'' @ nl)) [Str (argv ! 3)]) (ret None)
        else ret (Some \<lparr>sa_n = word_of_int n, sa_inc = word_of_int inc, sa_use_sem = (use_sem \<noteq> 0)\<rparr>)))))"

text \<open>The answers of the system: whether the two blocks are given, the identifiers of the processes, and
  the value of \<open>global\<close> when the four processes have been waited for.\<close>

record sync_env =
  se_alloc :: bool
  se_create :: "call list \<Rightarrow> int"
  se_global :: u64

definition text_of :: "char list \<Rightarrow> string" where
  "text_of a = takeWhile (\<lambda>c. c \<noteq> NUL) a"

definition create_inc :: "sync_env \<Rightarrow> char list list \<Rightarrow> (user_io, int) kernel" where
  "create_inc env argv =
     sq (syscall (Create (text_of (argv ! 0)) (map text_of (tl argv)) 3 [0, 1, 2] False))
        (gets (\<lambda>s. se_create env (calls s)))"

definition show_args :: "string \<Rightarrow> char list list \<Rightarrow> (user_io, unit) kernel" where
  "show_args name argv = printf (cs (name @ '': [%s, %s, %s, %s]'' @ nl)) (map Str argv)"

definition wait_for :: "int \<Rightarrow> (user_io, unit) kernel" where
  "wait_for pid = syscall (WaitPid pid)"

definition test_sync :: "sync_env \<Rightarrow> char list list \<Rightarrow> (user_io, int) kernel" where
  "test_sync env argv =
     (if length argv \<noteq> 3 then ret (- 1)
      else if \<not> se_alloc env then halt Fault
      else let argvDec = [cs ''test_sync_process_dec'', argv ! 1, cs ''-1'', argv ! 2];
               argvInc = [cs ''test_sync_process_inc'', argv ! 1, cs ''1'', argv ! 2] in
        sq (printf (cs (nl @ ''Creating processes...'' @ nl)) [])
       (sq (show_args ''argvDec'' argvDec)
       (sq (show_args ''argvInc'' argvInc)
       (bnd (create_inc env argvDec) (\<lambda>pid0.
        bnd (create_inc env argvInc) (\<lambda>pid2.
        bnd (create_inc env argvDec) (\<lambda>pid1.
        bnd (create_inc env argvInc) (\<lambda>pid3.
        sq (wait_for pid0) (sq (wait_for pid2) (sq (wait_for pid1) (sq (wait_for pid3)
       (sq (printf (cs (''Final value: %d'' @ nl)) [Num (se_global env)]) (ret 0)))))))))))))"

section \<open>The invariant\<close>

inductive sync_reach :: "(nat \<Rightarrow> bool) \<Rightarrow> sync_args list \<Rightarrow> sync_sys \<Rightarrow> bool" for opens args where
  start: "sync_reach opens args (sync_init args)"
| step: "sync_reach opens args s \<Longrightarrow> sync_step opens args p s = Some t \<Longrightarrow> sync_reach opens args t"

text \<open>A process holds a handle between its opening and its closing, and the semaphore between its wait and its
  post.\<close>

fun has_handle :: "sync_pc \<Rightarrow> nat" where
  "has_handle AtOpen = 0"
| "has_handle (Returned r) = 0"
| "has_handle _ = 1"

fun critical :: "sync_pc \<Rightarrow> nat" where
  "critical (AtLoad i) = 1"
| "critical (AtStore i aux) = 1"
| "critical (AtPost i) = 1"
| "critical _ = 0"

text \<open>The number of additions a process has made.\<close>

fun added :: "sync_args \<Rightarrow> sync_pc \<Rightarrow> u64" where
  "added a AtOpen = 0"
| "added a (AtWait i) = i"
| "added a (AtLoad i) = i"
| "added a (AtStore i aux) = i"
| "added a (AtPost i) = i + 1"
| "added a AtClose = sa_n a"
| "added a (Returned r) = (if r = 0 then sa_n a else 0)"

fun index_ok :: "bool \<Rightarrow> sync_args \<Rightarrow> u64 \<Rightarrow> sync_pc \<Rightarrow> bool" where
  "index_ok op a g (AtWait i) \<longleftrightarrow> op \<and> i < sa_n a"
| "index_ok op a g (AtLoad i) \<longleftrightarrow> op \<and> i < sa_n a"
| "index_ok op a g (AtStore i aux) \<longleftrightarrow> op \<and> i < sa_n a \<and> aux = g"
| "index_ok op a g (AtPost i) \<longleftrightarrow> op \<and> i < sa_n a"
| "index_ok op a g AtClose \<longleftrightarrow> op"
| "index_ok op a g (Returned r) \<longleftrightarrow> r = (if op then 0 else - 1)"
| "index_ok op a g AtOpen \<longleftrightarrow> True"

definition sum_added :: "sync_args list \<Rightarrow> (nat \<Rightarrow> sync_pc) \<Rightarrow> u64" where
  "sum_added args c = (\<Sum>p<length args. added (args ! p) (c p) * sa_inc (args ! p))"

definition tally :: "sync_args list \<Rightarrow> (sync_pc \<Rightarrow> nat) \<Rightarrow> (nat \<Rightarrow> sync_pc) \<Rightarrow> nat" where
  "tally args f c = (\<Sum>p<length args. f (c p))"

definition sync_ok :: "(nat \<Rightarrow> bool) \<Rightarrow> sync_args list \<Rightarrow> sync_sys \<Rightarrow> bool" where
  "sync_ok opens args s \<longleftrightarrow>
     (case semaphore s of
        None \<Rightarrow> tally args has_handle (threads s) = 0
      | Some (v, u) \<Rightarrow> u = tally args has_handle (threads s) \<and> 0 < u \<and> v + tally args critical (threads s) = 1) \<and>
     (\<forall>p<length args. index_ok (opens p) (args ! p) (global s) (threads s p)) \<and>
     global s = sum_added args (threads s)"

lemma tally_upd: "p < length args \<Longrightarrow> tally args f (c(p := x)) + f (c p) = tally args f c + f x"
  unfolding tally_def
  by (subst (1 2) sum.remove [of _ p]) (auto intro!: sum.cong)

lemma sum_added_upd:
  assumes "p < length args"
  shows "sum_added args (c(p := x)) = sum_added args c + (added (args ! p) x - added (args ! p) (c p)) * sa_inc (args ! p)"
proof -
  have "(\<Sum>q\<in>{..<length args} - {p}. added (args ! q) ((c(p := x)) q) * sa_inc (args ! q)) =
      (\<Sum>q\<in>{..<length args} - {p}. added (args ! q) (c q) * sa_inc (args ! q))" by (rule sum.cong) auto
  with assms show ?thesis unfolding sum_added_def
    by (subst (1 2) sum.remove [of _ p]) (auto simp: algebra_simps)
qed

lemma next_round_facts:
  assumes "sa_use_sem a" and "i \<le> sa_n a"
  shows "has_handle (next_round a i) = 1" "critical (next_round a i) = 0" "added a (next_round a i) = i"
    "index_ok True a g (next_round a i)"
  using assms by (auto simp: next_round_def)

lemma critical_handle: "critical c \<le> has_handle c"
  by (cases c) auto

lemma tally_mono: "tally args critical c \<le> tally args has_handle c"
  unfolding tally_def by (rule sum_mono) (rule critical_handle)

lemma tally_ge: "p < length args \<Longrightarrow> f (c p) \<le> tally args f c"
  unfolding tally_def by (rule member_le_sum) auto

lemma critical_alone:
  assumes "tally args critical c \<le> 1" and "p < length args" and "critical (c p) = 1" and "q < length args" and "q \<noteq> p"
  shows "critical (c q) = 0"
proof -
  have "critical (c p) + critical (c q) \<le> tally args critical c"
    using assms(2,4,5) sum_mono2 [of "{..<length args}" "{p, q}" "\<lambda>r. critical (c r)"] by (simp add: tally_def)
  with assms(1,3) show ?thesis by simp
qed

lemma index_ok_global: "critical c = 0 \<Longrightarrow> index_ok op a g c = index_ok op a h c"
  by (cases c) auto

lemma sync_ok_upd:
  assumes "sync_ok opens args s" and p: "p < length args" and "index_ok (opens p) (args ! p) g c"
    and "g = global s \<or> tally args critical (threads s) \<le> 1 \<and> critical (threads s p) = 1"
    and "g = global s + (added (args ! p) c - added (args ! p) (threads s p)) * sa_inc (args ! p)"
    and "case x of None \<Rightarrow> tally args has_handle ((threads s)(p := c)) = 0
         | Some (v, u) \<Rightarrow> u = tally args has_handle ((threads s)(p := c)) \<and> 0 < u \<and> v + tally args critical ((threads s)(p := c)) = 1"
  shows "sync_ok opens args (s\<lparr>global := g, semaphore := x, threads := (threads s)(p := c)\<rparr>)"
proof -
  have "index_ok (opens q) (args ! q) g (((threads s)(p := c)) q)" if q: "q < length args" for q
  proof (cases "q = p")
    case False
    with assms(1) q have *: "index_ok (opens q) (args ! q) (global s) (threads s q)" unfolding sync_ok_def by blast
    from assms(4) show ?thesis
    proof
      assume "tally args critical (threads s) \<le> 1 \<and> critical (threads s p) = 1"
      then have "critical (threads s q) = 0" using critical_alone [OF _ p _ q False] by blast
      with * False show ?thesis using index_ok_global [of "threads s q" "opens q" "args ! q" "global s" g] by simp
    qed (use * False in simp)
  qed (use assms(3) in simp)
  moreover have "g = sum_added args ((threads s)(p := c))"
    using assms(1,5) by (simp add: sum_added_upd [OF p] sync_ok_def)
  ultimately show ?thesis using assms(6) by (cases x) (auto simp: sync_ok_def)
qed

lemma sync_step_ok:
  assumes ok: "sync_ok opens args s" and st: "sync_step opens args p s = Some t" and us: "\<forall>a\<in>set args. sa_use_sem a"
  shows "sync_ok opens args t"
proof -
  have p: "p < length args" using st by (auto simp: sync_step_def split: if_splits)
  let ?a = "args ! p" and ?c = "threads s p"
  have a: "sa_use_sem ?a" using us p by simp
  have ix: "index_ok (opens p) ?a (global s) ?c" using ok p unfolding sync_ok_def by blast
  note hh = tally_upd [OF p, of has_handle "threads s"] and cr = tally_upd [OF p, of critical "threads s"]
  note ge = tally_ge [OF p, of has_handle "threads s"] tally_ge [OF p, of critical "threads s"]
  note inv = ok [unfolded sync_ok_def, THEN conjunct1]
  note nr = next_round_facts [OF a]
  note def = sync_step_def Let_def not_le p
  show ?thesis
  proof (cases ?c)
    case AtOpen
    show ?thesis
    proof (cases "opens p")
      case True
      with AtOpen st p have t: "t = s\<lparr>global := global s, semaphore := sem_open (semaphore s), threads := (threads s)(p := next_round ?a 0)\<rparr>"
        by (simp add: def)
      have cz: "tally args critical (threads s) = 0" if "tally args has_handle (threads s) = 0"
        using that tally_mono [of args "threads s"] by simp
      show ?thesis unfolding t
        by (rule sync_ok_upd [OF ok p]) (use True AtOpen nr [of 0] hh [of "next_round ?a 0"] cr [of "next_round ?a 0"] inv cz in
            \<open>auto simp: sem_open_def split: option.splits\<close>)
    next
      case False
      with AtOpen st p have t: "t = s\<lparr>global := global s, semaphore := semaphore s, threads := (threads s)(p := Returned (- 1))\<rparr>"
        by (simp add: def)
      show ?thesis unfolding t
        by (rule sync_ok_upd [OF ok p]) (use False AtOpen hh [of "Returned (- 1)"] cr [of "Returned (- 1)"] inv in \<open>auto split: option.splits\<close>)
    qed
  next
    case (AtWait i)
    with st p obtain x where x: "sem_wait (semaphore s) = Some x"
      and t: "t = s\<lparr>global := global s, semaphore := x, threads := (threads s)(p := AtLoad i)\<rparr>" by (auto simp: def)
    show ?thesis unfolding t
      by (rule sync_ok_upd [OF ok p]) (use x AtWait ix ge hh [of "AtLoad i"] cr [of "AtLoad i"] inv in
          \<open>auto simp: sem_wait_def split: option.splits if_splits\<close>)
  next
    case (AtLoad i)
    with st p have t: "t = s\<lparr>global := global s, semaphore := semaphore s, threads := (threads s)(p := AtStore i (global s))\<rparr>" by (simp add: def)
    show ?thesis unfolding t
      by (rule sync_ok_upd [OF ok p]) (use AtLoad ix ge hh [of "AtStore i (global s)"] cr [of "AtStore i (global s)"] inv in \<open>auto split: option.splits\<close>)
  next
    case (AtStore i aux)
    with st p a have t: "t = s\<lparr>global := aux + sa_inc ?a, semaphore := semaphore s, threads := (threads s)(p := AtPost i)\<rparr>" by (simp add: def)
    show ?thesis unfolding t
      by (rule sync_ok_upd [OF ok p]) (use AtStore ix ge hh [of "AtPost i"] cr [of "AtPost i"] inv in \<open>auto split: option.splits\<close>)
  next
    case (AtPost i)
    with st p have t: "t = s\<lparr>global := global s, semaphore := sem_post (semaphore s), threads := (threads s)(p := next_round ?a (i + 1))\<rparr>"
      by (simp add: def)
    have "i + 1 \<le> sa_n ?a" using ix AtPost by (auto intro: inc_le)
    then show ?thesis unfolding t
      by (intro sync_ok_upd [OF ok p]) (use AtPost ix ge nr [of "i + 1"] hh [of "next_round ?a (i + 1)"] cr [of "next_round ?a (i + 1)"] inv in
          \<open>auto simp: sem_post_def split: option.splits\<close>)
  next
    case AtClose
    with st p have t: "t = s\<lparr>global := global s, semaphore := sem_close (semaphore s), threads := (threads s)(p := Returned 0)\<rparr>" by (simp add: def)
    show ?thesis unfolding t
      by (rule sync_ok_upd [OF ok p]) (use AtClose ix ge hh [of "Returned 0"] cr [of "Returned 0"] inv in
          \<open>auto simp: sem_close_def split: option.splits\<close>)
  qed (use st p in \<open>simp add: def\<close>)
qed

lemma sync_reach_ok:
  assumes "sync_reach opens args s" and "\<forall>a\<in>set args. sa_use_sem a"
  shows "sync_ok opens args s"
  using assms(1)
proof (induction rule: sync_reach.induct)
  case start
  have "sync_start (args ! p) = AtOpen" if "p < length args" for p using assms(2) that by (simp add: sync_start_def)
  then show ?case by (auto simp: sync_ok_def sync_init_def tally_def sum_added_def)
next
  case (step s p t)
  then show ?case using assms(2) by (blast intro: sync_step_ok)
qed

section \<open>Runs end\<close>

fun index_in :: "sync_args \<Rightarrow> sync_pc \<Rightarrow> bool" where
  "index_in a (AtWait i) \<longleftrightarrow> i < sa_n a"
| "index_in a (AtLoad i) \<longleftrightarrow> i < sa_n a"
| "index_in a (AtStore i aux) \<longleftrightarrow> i < sa_n a"
| "index_in a (AtPost i) \<longleftrightarrow> i < sa_n a"
| "index_in a _ \<longleftrightarrow> True"

text \<open>The steps a process may still take.\<close>

fun steps_left :: "sync_args \<Rightarrow> sync_pc \<Rightarrow> nat" where
  "steps_left a AtOpen = 4 * unat (sa_n a) + 2"
| "steps_left a (AtWait i) = 4 * (unat (sa_n a) - unat i) + 1"
| "steps_left a (AtLoad i) = 4 * (unat (sa_n a) - unat i)"
| "steps_left a (AtStore i aux) = 4 * (unat (sa_n a) - unat i) - 1"
| "steps_left a (AtPost i) = 4 * (unat (sa_n a) - unat i) - 2"
| "steps_left a AtClose = 1"
| "steps_left a (Returned r) = 0"

definition all_left :: "sync_args list \<Rightarrow> sync_sys \<Rightarrow> nat" where
  "all_left args s = (\<Sum>p<length args. steps_left (args ! p) (threads s p))"

lemma next_round_left:
  "index_in a (next_round a i)" "i \<le> sa_n a \<Longrightarrow> steps_left a (next_round a i) \<le> 4 * (unat (sa_n a) - unat i) + 1"
  by (auto simp: next_round_def)

lemma index_next: "i < sa_n a \<Longrightarrow> steps_left a (next_round a (i + 1)) < 4 * (unat (sa_n a) - unat i) - 2"
proof -
  assume i: "i < sa_n a"
  then have "i + 1 \<le> sa_n a" by (rule inc_le)
  moreover have "unat (i + 1) = unat i + 1" using i unsigned_less [of "sa_n a", where 'a = nat] by (simp add: unat_word_ariths word_less_nat_alt)
  moreover have "unat i < unat (sa_n a)" using i by (simp add: word_less_nat_alt)
  ultimately show ?thesis using next_round_left(2) [of "i + 1" a] by simp
qed

lemma sync_step_left:
  assumes "sync_step opens args p s = Some t" and ix: "\<forall>q<length args. index_in (args ! q) (threads s q)"
  shows "all_left args t < all_left args s \<and> (\<forall>q<length args. index_in (args ! q) (threads t q))"
proof -
  have p: "p < length args" using assms(1) by (auto simp: sync_step_def split: if_splits)
  let ?a = "args ! p"
  have "\<exists>c. threads t = (threads s)(p := c) \<and> index_in ?a c \<and> steps_left ?a c < steps_left ?a (threads s p)"
  proof (cases "threads s p")
    case AtOpen
    with assms(1) p next_round_left [where a = ?a and i = 0] show ?thesis by (auto simp: sync_step_def Let_def split: if_splits)
  next
    case (AtPost i)
    then have "i < sa_n ?a" using ix p by fastforce
    with assms(1) p AtPost index_next [of i ?a] next_round_left(1) show ?thesis by (auto simp: sync_step_def Let_def)
  next
    case (AtStore i aux)
    then have i: "i < sa_n ?a" using ix p by fastforce
    then have "unat i < unat (sa_n ?a)" by (simp add: word_less_nat_alt)
    with assms(1) p AtStore i index_next [of i ?a] next_round_left(1) [of ?a "i + 1"] show ?thesis
      by (intro exI [of _ "if sa_use_sem ?a then AtPost i else next_round ?a (i + 1)"]) (auto simp: sync_step_def Let_def)
  next
    case (AtLoad i)
    then have i: "i < sa_n ?a" using ix p by fastforce
    then have "unat i < unat (sa_n ?a)" by (simp add: word_less_nat_alt)
    with assms(1) p AtLoad i show ?thesis by (auto simp: sync_step_def Let_def)
  next
    case (AtWait i)
    then have i: "i < sa_n ?a" using ix p by fastforce
    with assms(1) p AtWait show ?thesis by (auto simp: sync_step_def Let_def)
  qed (use assms(1) p in \<open>auto simp: sync_step_def Let_def\<close>)
  then obtain c where c: "threads t = (threads s)(p := c)" "index_in ?a c" "steps_left ?a c < steps_left ?a (threads s p)" by blast
  have "(\<Sum>q\<in>{..<length args} - {p}. steps_left (args ! q) (threads t q)) = (\<Sum>q\<in>{..<length args} - {p}. steps_left (args ! q) (threads s q))"
    by (rule sum.cong) (auto simp: c)
  then have "all_left args t < all_left args s" unfolding all_left_def
    using p c by (subst (1 2) sum.remove [of _ p]) auto
  with ix c show ?thesis by auto
qed

lemma sync_run_left:
  "sync_run opens args sched s = Some t \<Longrightarrow> \<forall>q<length args. index_in (args ! q) (threads s q) \<Longrightarrow> length sched + all_left args t \<le> all_left args s"
proof (induction sched arbitrary: s)
  case (Cons p sched)
  then obtain u where u: "sync_step opens args p s = Some u" "sync_run opens args sched u = Some t" by (auto split: option.splits)
  from sync_step_left [OF u(1) Cons.prems(2)] Cons.IH [OF u(2)] show ?case by auto
qed simp

lemma sync_start_left: "index_in a (sync_start a)" "steps_left a (sync_start a) \<le> 4 * unat (sa_n a) + 2"
  using next_round_left [where a = a and i = 0] by (auto simp: sync_start_def)

lemma sync_run_reach: "sync_reach opens args s \<Longrightarrow> sync_run opens args sched s = Some t \<Longrightarrow> sync_reach opens args t"
  by (induction sched arbitrary: s) (auto split: option.splits intro: sync_reach.step)

lemma sync_run_append: "sync_run opens args (xs @ ys) s = (case sync_run opens args xs s of None \<Rightarrow> None | Some t \<Rightarrow> sync_run opens args ys t)"
  by (induction xs arbitrary: s) (auto split: option.splits)

section \<open>Properties\<close>

text \<open>The four processes of \<open>test_sync\<close>.\<close>

definition pair_args :: "u64 \<Rightarrow> bool \<Rightarrow> sync_args list" where
  "pair_args n use_sem = map (\<lambda>inc. \<lparr>sa_n = n, sa_inc = inc, sa_use_sem = use_sem\<rparr>) [- 1, 1, - 1, 1]"

lemma sync_rest:
  assumes ok: "sync_ok opens args s" and rest: "\<forall>p. sync_step opens args p s = None" and p: "p < length args"
  shows "\<exists>r. threads s p = Returned r"
proof (rule ccontr)
  assume no: "\<not> ?thesis"
  have stop: "(\<exists>r. threads s q = Returned r) \<or> (\<exists>i. threads s q = AtWait i) \<and> sem_wait (semaphore s) = None" if "q < length args" for q
    using rest [rule_format, of q] that by (cases "threads s q") (auto simp: sync_step_def Let_def split: if_splits)
  then have w: "sem_wait (semaphore s) = None" using no p by blast
  have "critical (threads s q) = 0" if "q < length args" for q using stop [OF that] by auto
  then have "tally args critical (threads s) = 0" by (simp add: tally_def)
  with ok w show False by (auto simp: sync_ok_def sem_wait_def split: option.splits if_splits)
qed

text \<open>
  C14. With the semaphore, the sum is exact: whatever the interleaving of any number of processes, when no process
  can go on all have returned, none is blocked for ever, the variable holds the sum of all additions of the
  processes that got the semaphore, and the semaphore is destroyed.
\<close>

theorem sync_exact:
  assumes "sync_reach opens args s" and "\<forall>a\<in>set args. sa_use_sem a" and "\<forall>p. sync_step opens args p s = None"
  shows "(\<forall>p<length args. threads s p = Returned (if opens p then 0 else - 1)) \<and>
    global s = (\<Sum>p<length args. if opens p then sa_n (args ! p) * sa_inc (args ! p) else 0) \<and> semaphore s = None"
proof -
  have ok: "sync_ok opens args s" by (rule sync_reach_ok [OF assms(1,2)])
  have r: "threads s p = Returned (if opens p then 0 else - 1)" if "p < length args" for p
  proof -
    from sync_rest [OF ok assms(3) that] obtain r where r: "threads s p = Returned r" by blast
    moreover have "index_ok (opens p) (args ! p) (global s) (threads s p)" using ok that unfolding sync_ok_def by blast
    ultimately show ?thesis by simp
  qed
  have "global s = sum_added args (threads s)" using ok unfolding sync_ok_def by blast
  also have "\<dots> = (\<Sum>p<length args. if opens p then sa_n (args ! p) * sa_inc (args ! p) else 0)"
    unfolding sum_added_def by (rule sum.cong) (auto simp: r)
  finally have "global s = (\<Sum>p<length args. if opens p then sa_n (args ! p) * sa_inc (args ! p) else 0)" .
  moreover have "tally args has_handle (threads s) = 0" by (simp add: tally_def r)
  then have "semaphore s = None" using ok by (auto simp: sync_ok_def split: option.splits)
  ultimately show ?thesis using r by blast
qed

theorem sync_exact_witness:
  "\<exists>s. sync_run (\<lambda>_. True) (pair_args 1 True) [0, 1, 0, 2, 0, 3, 0, 0, 2, 2, 2, 2, 1, 1, 0, 1, 1, 3, 2, 3, 3, 1, 3, 3] (sync_init (pair_args 1 True)) = Some s \<and>
    global s = 0 \<and> semaphore s = None"
proof -
  let ?a = "pair_args 1 True" and ?o = "\<lambda>_. True"
  have "\<exists>s. sync_run ?o ?a [0, 1, 0, 2, 0, 3, 0, 0, 2, 2, 2, 2, 1, 1, 0, 1, 1, 3, 2, 3, 3, 1, 3, 3] (sync_init ?a) = Some s \<and> (\<forall>p. threads s p = Returned 0)"
    by (simp add: sync_step_def pair_args_def sync_init_def sync_start_def next_round_def sem_open_def sem_wait_def sem_post_def sem_close_def Let_def)
  then obtain s where s: "sync_run ?o ?a [0, 1, 0, 2, 0, 3, 0, 0, 2, 2, 2, 2, 1, 1, 0, 1, 1, 3, 2, 3, 3, 1, 3, 3] (sync_init ?a) = Some s"
    "\<forall>p. threads s p = Returned 0" by blast
  have "\<forall>p. sync_step ?o ?a p s = None" using s(2) by (simp add: sync_step_def)
  with sync_exact [OF sync_run_reach [OF sync_reach.start s(1)]] s(1) show ?thesis by (simp add: pair_args_def eval_nat_numeral)
qed

text \<open>
  C30. Every run ends: no schedule, fair or not, makes more steps than four per addition and two per process,
  with or without the semaphore.
\<close>

theorem sync_ends:
  assumes "sync_run opens args sched (sync_init args) = Some t"
  shows "length sched \<le> (\<Sum>p<length args. 4 * unat (sa_n (args ! p)) + 2)"
proof -
  have "\<forall>q<length args. index_in (args ! q) (threads (sync_init args) q)" by (simp add: sync_init_def sync_start_left)
  from sync_run_left [OF assms this] have "length sched \<le> all_left args (sync_init args)" by simp
  also have "\<dots> \<le> (\<Sum>p<length args. 4 * unat (sa_n (args ! p)) + 2)"
    unfolding all_left_def by (rule sum_mono) (use sync_start_left(2) in \<open>simp add: sync_init_def\<close>)
  finally show ?thesis .
qed

theorem sync_ends_witness:
  "\<exists>t. sync_run (\<lambda>_. True) (pair_args 1 False) [0, 0, 1, 1] (sync_init (pair_args 1 False)) = Some t \<and>
    length [0, 0, 1, 1 :: nat] \<le> 24"
proof -
  have "\<exists>t. sync_run (\<lambda>_. True) (pair_args 1 False) [0, 0, 1, 1] (sync_init (pair_args 1 False)) = Some t"
    by (simp add: sync_step_def pair_args_def sync_init_def sync_start_def next_round_def Let_def)
  then show ?thesis using sync_ends [of "\<lambda>_. True" "pair_args 1 False" "[0, 0, 1, 1]"] by (auto simp: pair_args_def eval_nat_numeral)
qed

lemma sync_alone:
  assumes "p < length args" and "\<not> sa_use_sem (args ! p)"
  shows "threads s p = next_round (args ! p) i \<Longrightarrow> unat (sa_n (args ! p)) = unat i + k \<Longrightarrow>
    sync_run opens args (concat (replicate k [p, p])) s =
      Some (s\<lparr>global := global s + of_nat k * sa_inc (args ! p), threads := (threads s)(p := Returned 0)\<rparr>)"
proof (induction k arbitrary: s i)
  case 0
  then have "i = sa_n (args ! p)" by (simp add: word_unat_eq_iff)
  with 0 assms(2) have "threads s p = Returned 0" by (simp add: next_round_def)
  then have "(threads s)(p := Returned 0) = threads s" by auto
  then show ?case by simp
next
  case (Suc k)
  let ?a = "args ! p"
  have i: "i < sa_n ?a" using Suc.prems(2) by (simp add: word_less_nat_alt)
  have u: "unat (i + 1) = unat i + 1" using i unsigned_less [of "sa_n ?a", where 'a = nat] by (simp add: unat_word_ariths word_less_nat_alt)
  let ?t = "s\<lparr>global := global s + sa_inc ?a, threads := (threads s)(p := next_round ?a (i + 1))\<rparr>"
  have "sync_run opens args ([p, p] @ sched) s = sync_run opens args sched ?t" for sched
    using Suc.prems(1) i assms by (simp add: sync_step_def Let_def next_round_def)
  moreover have "sync_run opens args (concat (replicate k [p, p])) ?t =
      Some (?t\<lparr>global := global ?t + of_nat k * sa_inc ?a, threads := (threads ?t)(p := Returned 0)\<rparr>)"
    by (rule Suc.IH [of _ "i + 1"]) (use Suc.prems(2) u in simp_all)
  ultimately show ?case by (simp add: algebra_simps fun_upd_def [symmetric])
qed

text \<open>
  C40. Without the semaphore updates are lost: for every positive number of rounds there is a schedule of the four
  processes of \<open>test_sync\<close> that ends with minus that number in the variable and not with 0.
\<close>

theorem sync_loses:
  assumes "n \<noteq> 0"
  shows "\<exists>sched t. sync_run opens (pair_args n False) sched (sync_init (pair_args n False)) = Some t \<and>
    (\<forall>p<4. threads t p = Returned 0) \<and> global t = - n"
proof -
  let ?args = "pair_args n False" and ?s = "sync_init (pair_args n False)"
  let ?all = "\<lambda>p. concat (replicate (unat n) [p, p])"
  have len: "length ?args = 4" by (simp add: pair_args_def)
  have n: "0 < n" using assms by (simp add: word_gt_0)
  have a: "sa_n (?args ! p) = n" "\<not> sa_use_sem (?args ! p)" if "p < 4" for p
    using that by (auto simp: pair_args_def nth_Cons split: nat.splits)
  have inc: "sa_inc (?args ! 0) = - 1" "sa_inc (?args ! 1) = 1" "sa_inc (?args ! 2) = - 1" "sa_inc (?args ! 3) = 1"
    by (simp_all add: pair_args_def)
  have alone: "sync_run opens ?args (?all p) s = Some (s\<lparr>global := global s + n * sa_inc (?args ! p), threads := (threads s)(p := Returned 0)\<rparr>)"
    if "p < 4" "threads s p = next_round (?args ! p) 0" for s p
    using sync_alone [of p ?args s 0 "unat n" opens] a [OF that(1)] that len by simp
  have start: "threads ?s p = next_round (?args ! p) 0" if "p < 4" for p using that a [OF that] by (simp add: sync_init_def sync_start_def len)
  let ?u = "?s\<lparr>threads := (threads ?s)(0 := AtStore 0 0)\<rparr>"
  have 1: "sync_run opens ?args [0] ?s = Some ?u"
    using start [of 0] a [of 0] n len by (simp add: sync_step_def Let_def next_round_def) (simp add: sync_init_def)
  let ?v = "?u\<lparr>global := n, threads := (threads ?s)(0 := AtStore 0 0, 1 := Returned 0, 2 := Returned 0, 3 := Returned 0)\<rparr>"
  have 2: "sync_run opens ?args (?all 1 @ ?all 2 @ ?all 3) ?u = Some ?v"
    using start by (simp add: sync_run_append alone inc [simplified]) (simp add: sync_init_def)
  let ?w = "?v\<lparr>global := - 1, threads := (threads ?v)(0 := next_round (?args ! 0) 1)\<rparr>"
  have 3: "sync_run opens ?args [0] ?v = Some ?w" using a [of 0] len inc by (simp add: sync_step_def Let_def)
  have k: "unat (n - 1) = unat n - 1" using assms by (simp add: unat_minus_one)
  have "0 < unat n" using n by (simp add: word_less_nat_alt)
  then have "sync_run opens ?args (concat (replicate (unat (n - 1)) [0, 0])) ?w =
      Some (?w\<lparr>global := global ?w + of_nat (unat (n - 1)) * sa_inc (?args ! 0), threads := (threads ?w)(0 := Returned 0)\<rparr>)"
    by (intro sync_alone [of 0 ?args ?w 1]) (use a [of 0] len k in simp_all)
  with 1 2 3 inc(1) have "sync_run opens ?args ([0] @ (?all 1 @ ?all 2 @ ?all 3) @ [0] @ concat (replicate (unat (n - 1)) [0, 0])) ?s =
      Some (?w\<lparr>global := - n, threads := (threads ?w)(0 := Returned 0)\<rparr>)"
    by (simp only: sync_run_append option.case) simp
  moreover have "\<forall>p<4. ((threads ?w)(0 := Returned 0)) p = Returned 0" by (auto simp: less_Suc_eq eval_nat_numeral)
  ultimately show ?thesis
    by (intro exI [of _ "[0] @ (?all 1 @ ?all 2 @ ?all 3) @ [0] @ concat (replicate (unat (n - 1)) [0, 0])"]
        exI [of _ "?w\<lparr>global := - n, threads := (threads ?w)(0 := Returned 0)\<rparr>"]) simp
qed

theorem sync_loses_witness:
  "\<exists>sched t. sync_run (\<lambda>_. True) (pair_args 2 False) sched (sync_init (pair_args 2 False)) = Some t \<and> global t \<noteq> 0"
proof -
  from sync_loses [of 2 "\<lambda>_. True"] obtain sched t where
    "sync_run (\<lambda>_. True) (pair_args 2 False) sched (sync_init (pair_args 2 False)) = Some t" "global t = - 2" by auto
  moreover have "(- 2 :: u64) \<noteq> 0" by simp
  ultimately show ?thesis by metis
qed

lemma literal_digits: "list_all literal (sdec v)"
proof -
  have "literal c" if "is_digit c" for c using that by (auto simp: literal_def is_digit_def)
  moreover have "literal (CHR ''-'')" by (simp add: literal_def)
  ultimately show ?thesis
    by (auto simp: sdec_def list_all_iff dest!: dec_is_digit digits_is_digit)
qed

lemma text_of_cs: "list_all literal x \<Longrightarrow> text_of (cs x) = x"
  by (induction x) (auto simp: text_of_def cs_def literal_def)

lemma map_Lit: "concat (map (spec \<circ> Lit) y) = y" "concat (map (render \<circ> Lit) y) = y" "concat (map (arg \<circ> Lit) y) = []"
  by (induction y) auto

lemma show_args_writes:
  assumes "list_all (list_all literal) [nm, x0, x1, x2, x3]"
  shows "\<exists>w. show_args nm (map cs [x0, x1, x2, x3]) s = Ret ((), s\<lparr>calls := calls s @ w\<rparr>) \<and>
    written 1 w = nm @ '': ['' @ x0 @ '', '' @ x1 @ '', '' @ x2 @ '', '' @ x3 @ '']'' @ nl"
proof -
  let ?ds = "map Lit nm @ map Lit '': ['' @ [Plain x0] @ map Lit '', '' @ [Plain x1] @ map Lit '', '' @ [Plain x2] @ map Lit '', '' @ [Plain x3] @
    map Lit ('']'' @ nl)"
  have "list_all directive_ok ?ds" using assms by (auto simp: list_all_iff literal_def)
  from printf_directives [OF this refl refl, of s] show ?thesis by (simp add: map_Lit show_args_def cs_def)
qed

lemma process_inc_args_pair:
  assumes "0 < n" and "n < 2 ^ 63" and "0 \<le> u" and "u < 128"
  shows "process_inc_args (map cs [''test_sync_process_dec'', sdec n, ''-1'', sdec u]) t = Ret (Some (pair_args (word_of_int n) (u \<noteq> 0) ! 0), t)"
    "process_inc_args (map cs [''test_sync_process_inc'', sdec n, ''1'', sdec u]) t = Ret (Some (pair_args (word_of_int n) (u \<noteq> 0) ! 1), t)"
proof -
  have i: "satoi (Some (cs (sdec v))) = Some v" if "- (2 ^ 63) \<le> v" "v < 2 ^ 63" for v
    using satoi_sdec [OF that, of "[]"] by (simp add: cs_def)
  have one: "sdec 1 = ''1''" "sdec (- 1) = ''-1''" by code_simp+
  have n: "word_of_int n \<noteq> (0 :: u64)" 
  proof
    assume "word_of_int n = (0 :: u64)"
    moreover have "uint (word_of_int n :: u64) = n" using assms(1,2) by (simp add: unsigned_of_int take_bit_int_eq_self)
    ultimately show False using assms(1) by simp
  qed
  have u: "sint (word_of_int u :: 8 word) = u" using assms(3,4) by (simp add: signed_of_int signed_take_bit_int_eq_self)
  show "process_inc_args (map cs [''test_sync_process_dec'', sdec n, ''-1'', sdec u]) t = Ret (Some (pair_args (word_of_int n) (u \<noteq> 0) ! 0), t)"
    "process_inc_args (map cs [''test_sync_process_inc'', sdec n, ''1'', sdec u]) t = Ret (Some (pair_args (word_of_int n) (u \<noteq> 0) ! 1), t)"
    using assms n u i [of n] i [of u] i [of 1] i [of "- 1"] one
    by (simp_all add: process_inc_args_def of_opt_def run_simps pair_args_def)
qed

text \<open>The text of \<open>test_sync\<close> before it creates the processes.\<close>

definition sync_banner :: "string \<Rightarrow> string \<Rightarrow> string" where
  "sync_banner n u = nl @ ''Creating processes...'' @ nl
     @ ''argvDec: [test_sync_process_dec, '' @ n @ '', -1, '' @ u @ '']'' @ nl
     @ ''argvInc: [test_sync_process_inc, '' @ n @ '', 1, '' @ u @ '']'' @ nl"

text \<open>
  \<open>test_sync\<close> with a positive number and the flag of the semaphore creates the four processes, waits for
  all of them and prints the value they left; the processes read from their arguments exactly the
  parameters of the four processes of the step relation.
\<close>

theorem test_sync_starts:
  assumes "0 < n" and "n < 2 ^ 63" and "0 \<le> u" and "u < 128" and "se_alloc env" and "se_global env = scast (g :: s32)" and "sint g \<noteq> - (2 ^ 31)"
  shows "\<exists>t w w' p0 p1 p2 p3. test_sync env [cs ''test_sync'', cs (sdec n), cs (sdec u)] s = Ret (0, t) \<and>
    calls t = calls s @ w @
      [Create ''test_sync_process_dec'' [sdec n, ''-1'', sdec u] 3 [0, 1, 2] False, Create ''test_sync_process_inc'' [sdec n, ''1'', sdec u] 3 [0, 1, 2] False,
       Create ''test_sync_process_dec'' [sdec n, ''-1'', sdec u] 3 [0, 1, 2] False, Create ''test_sync_process_inc'' [sdec n, ''1'', sdec u] 3 [0, 1, 2] False,
       WaitPid p0, WaitPid p2, WaitPid p1, WaitPid p3] @ w' \<and>
    written 1 w = sync_banner (sdec n) (sdec u) \<and> written 1 w' = ''Final value: '' @ sdec (sint g) @ nl \<and>
    process_inc_args (map cs [''test_sync_process_dec'', sdec n, ''-1'', sdec u]) t = Ret (Some (pair_args (word_of_int n) (u \<noteq> 0) ! 0), t) \<and>
    process_inc_args (map cs [''test_sync_process_inc'', sdec n, ''1'', sdec u]) t = Ret (Some (pair_args (word_of_int n) (u \<noteq> 0) ! 1), t)"
proof -
  let ?D = "[''test_sync_process_dec'', sdec n, ''-1'', sdec u]" and ?I = "[''test_sync_process_inc'', sdec n, ''1'', sdec u]"
  have lit: "list_all (list_all literal) (''argvDec'' # ?D)" "list_all (list_all literal) (''argvInc'' # ?I)"
    by (simp_all add: literal_digits) (simp_all add: literal_def)
  have "list_all directive_ok (map Lit (nl @ ''Creating processes...'' @ nl))" by (simp add: literal_def)
  from printf_directives [OF this refl refl, of s] obtain w1 where
    w1: "printf (cs (nl @ ''Creating processes...'' @ nl)) [] s = Ret ((), s\<lparr>calls := calls s @ w1\<rparr>)" "written 1 w1 = nl @ ''Creating processes...'' @ nl"
    by (auto simp: cs_def)
  let ?s1 = "s\<lparr>calls := calls s @ w1\<rparr>"
  from show_args_writes [OF lit(1), of ?s1] obtain w2 where w2: "show_args ''argvDec'' (map cs ?D) ?s1 = Ret ((), ?s1\<lparr>calls := calls ?s1 @ w2\<rparr>)"
    "written 1 w2 = ''argvDec: [test_sync_process_dec, '' @ sdec n @ '', -1, '' @ sdec u @ '']'' @ nl" by auto
  let ?s2 = "?s1\<lparr>calls := calls ?s1 @ w2\<rparr>"
  from show_args_writes [OF lit(2), of ?s2] obtain w3 where w3: "show_args ''argvInc'' (map cs ?I) ?s2 = Ret ((), ?s2\<lparr>calls := calls ?s2 @ w3\<rparr>)"
    "written 1 w3 = ''argvInc: [test_sync_process_inc, '' @ sdec n @ '', 1, '' @ sdec u @ '']'' @ nl" by auto
  have cr: "create_inc env (map cs ?D) x = Ret (se_create env (calls x @ [Create (hd ?D) (tl ?D) 3 [0, 1, 2] False]),
        x\<lparr>calls := calls x @ [Create (hd ?D) (tl ?D) 3 [0, 1, 2] False]\<rparr>)"
    "create_inc env (map cs ?I) x = Ret (se_create env (calls x @ [Create (hd ?I) (tl ?I) 3 [0, 1, 2] False]),
        x\<lparr>calls := calls x @ [Create (hd ?I) (tl ?I) 3 [0, 1, 2] False]\<rparr>)" for x
    using lit by (simp_all add: create_inc_def run_simps syscall_def text_of_cs)
  have wt: "wait_for p x = Ret ((), x\<lparr>calls := calls x @ [WaitPid p]\<rparr>)" for p x by (simp add: wait_for_def syscall_def run_simps)
  have fin: "\<exists>w. printf (cs (''Final value: %d'' @ nl)) [Num (se_global env)] x = Ret ((), x\<lparr>calls := calls x @ w\<rparr>) \<and>
      written 1 w = ''Final value: '' @ sdec (sint g) @ nl" for x
    using printf_directives [of "map Lit ''Final value: '' @ [Dec g] @ map Lit nl" _ _ x] assms(6,7) by (simp add: cs_def literal_def)
  then obtain F where F: "\<And>x. printf (cs (''Final value: %d'' @ nl)) [Num (se_global env)] x = Ret ((), x\<lparr>calls := calls x @ F x\<rparr>)"
    "\<And>x. written 1 (F x) = ''Final value: '' @ sdec (sint g) @ nl" by metis
  have run: "\<exists>t w' p0 p1 p2 p3. test_sync env [cs ''test_sync'', cs (sdec n), cs (sdec u)] s = Ret (0, t) \<and> calls t = calls s @ (w1 @ w2 @ w3) @
      [Create (hd ?D) (tl ?D) 3 [0, 1, 2] False, Create (hd ?I) (tl ?I) 3 [0, 1, 2] False, Create (hd ?D) (tl ?D) 3 [0, 1, 2] False,
       Create (hd ?I) (tl ?I) 3 [0, 1, 2] False, WaitPid p0, WaitPid p2, WaitPid p1, WaitPid p3] @ w' \<and>
      written 1 w' = ''Final value: '' @ sdec (sint g) @ nl"
    unfolding test_sync_def Let_def using w1(1) w2(1) w3(1) assms(5) F(2)
    by (simp add: run_simps cr [unfolded list.map] wt F(1) [unfolded append.simps] del: written.simps)
  have w: "written 1 (w1 @ w2 @ w3) = sync_banner (sdec n) (sdec u)" using w1(2) w2(2) w3(2) by (simp add: sync_banner_def)
  from run obtain t w' p0 p1 p2 p3 where t: "test_sync env [cs ''test_sync'', cs (sdec n), cs (sdec u)] s = Ret (0, t)"
    "calls t = calls s @ (w1 @ w2 @ w3) @ [Create (hd ?D) (tl ?D) 3 [0, 1, 2] False, Create (hd ?I) (tl ?I) 3 [0, 1, 2] False, Create (hd ?D) (tl ?D) 3 [0, 1, 2] False,
       Create (hd ?I) (tl ?I) 3 [0, 1, 2] False, WaitPid p0, WaitPid p2, WaitPid p1, WaitPid p3] @ w'"
    "written 1 w' = ''Final value: '' @ sdec (sint g) @ nl" by blast
  show ?thesis
    by (rule exI [of _ t], rule exI [of _ "w1 @ w2 @ w3"], rule exI [of _ w'], rule exI [of _ p0], rule exI [of _ p1],
        rule exI [of _ p2], rule exI [of _ p3], intro conjI t(1) w t(3) process_inc_args_pair [OF assms(1-4)], use t(2) in simp)
qed

theorem test_sync_starts_witness:
  "\<exists>t w w'. test_sync \<lparr>se_alloc = True, se_create = (\<lambda>_. 7), se_global = 0\<rparr> [cs ''test_sync'', cs ''5'', cs ''1''] \<lparr>answers = [], calls = []\<rparr> = Ret (0, t) \<and>
    written 1 w' = ''Final value: 0'' @ nl \<and>
    process_inc_args (map cs [''test_sync_process_dec'', ''5'', ''-1'', ''1'']) t = Ret (Some \<lparr>sa_n = 5, sa_inc = - 1, sa_use_sem = True\<rparr>, t)"
proof -
  have d: "sdec 5 = ''5''" "sdec 1 = ''1''" "sdec 0 = ''0''" by code_simp+
  from test_sync_starts [of 5 1 "\<lparr>se_alloc = True, se_create = (\<lambda>_. 7), se_global = 0\<rparr>" 0 "\<lparr>answers = [], calls = []\<rparr>"]
  obtain t w' where "test_sync \<lparr>se_alloc = True, se_create = (\<lambda>_. 7), se_global = 0\<rparr> [cs ''test_sync'', cs ''5'', cs ''1''] \<lparr>answers = [], calls = []\<rparr> = Ret (0, t)"
    "written 1 w' = ''Final value: 0'' @ nl"
    "process_inc_args (map cs [''test_sync_process_dec'', ''5'', ''-1'', ''1'']) t = Ret (Some (pair_args 5 True ! 0), t)"
    unfolding d by (auto simp: d)
  then show ?thesis by (auto simp: pair_args_def)
qed

end
