(* ===== verification/Test_MM.thy ===== *)
theory Test_MM
  imports First_Fit Buddy Commands
begin

text \<open>
  The test of the memory manager, src/TP2-SO-2025/Userland/Shell/commands/test_mm.c: it takes blocks of random
  sizes, fills each with its own byte, looks whether the bytes are still there and gives the blocks
  back, for ever. It is a client of the interface \<open>memory_manager\<close>: with every manager that keeps
  the contract, and so with both managers of the kernel, the check never fails.
\<close>

section \<open>The program\<close>

text \<open>
  The state: the manager, the bytes of the memory, the two words of the generator of test_util.c, and the
  numbers of the progress lines printed so far; the line that reports an error is the result -1. Blocks are taken and given back through the system calls,
  which hand the manager's pointers through unchanged below \<open>2 ^ 31\<close> (theory
  \<open>Syscall_Properties\<close>).
\<close>

record 'm tester =
  t_mem :: 'm
  t_bytes :: bytes
  t_rng :: "u32 \<times> u32"
  t_log :: "(nat \<times> nat \<times> u32) list"

definition MAX_BLOCKS :: nat where "MAX_BLOCKS = 128"

text \<open>The product of \<open>GetUniform\<close> is taken in floating point: it is the parameter \<open>scale\<close>.\<close>

definition GetUniform :: "(u32 \<Rightarrow> u32 \<Rightarrow> u32) \<Rightarrow> u32 \<Rightarrow> ('m tester, u32) kernel" where
  "GetUniform scale mx =
     bnd (gets (\<lambda>s. GetUint (t_rng s))) (\<lambda>(u, m).
     sq (upd (\<lambda>s. s\<lparr>t_rng := m\<rparr>)) (ret (scale u mx)))"

definition take_block :: "'m mm \<Rightarrow> u32 \<Rightarrow> ('m tester, addr) kernel" where
  "take_block M sz = zoom t_mem (\<lambda>m s. s\<lparr>t_mem := m\<rparr>) (mm_alloc_op M (unat sz))"

definition give_block :: "'m mm \<Rightarrow> addr \<Rightarrow> ('m tester, unit) kernel" where
  "give_block M a = zoom t_mem (\<lambda>m s. s\<lparr>t_mem := m\<rparr>) (mm_free_op M a)"

text \<open>A round of the first loop; the requests made so far stand for the array \<open>mm_rqs\<close> up to \<open>rq\<close>.\<close>

type_synonym requests = "(addr \<times> u32) list"

definition request_step ::
  "'m mm \<Rightarrow> (u32 \<Rightarrow> u32 \<Rightarrow> u32) \<Rightarrow> u64 \<Rightarrow> requests \<times> u32 \<Rightarrow> ('m tester, (requests \<times> u32) + (requests \<times> u32)) kernel" where
  "request_step M scale max_memory a = (case a of (mm_rqs, total_bytes) \<Rightarrow>
     if length mm_rqs < MAX_BLOCKS \<and> unat total_bytes < unat max_memory then
       bnd (GetUniform scale (ucast (max_memory - ucast total_bytes - 1))) (\<lambda>r.
       bnd (take_block M (r + 1)) (\<lambda>address.
       ret (Inl (if address \<noteq> null then (mm_rqs @ [(address, r + 1)], total_bytes + (r + 1)) else (mm_rqs, total_bytes)))))
     else ret (Inr (mm_rqs, total_bytes)))"

fun set_blocks :: "nat \<Rightarrow> requests \<Rightarrow> bytes \<Rightarrow> bytes" where
  "set_blocks i [] b = b"
| "set_blocks i ((address, sz) # rqs) b =
     set_blocks (i + 1) rqs (if address \<noteq> null then memset_libc address (int i) (unat sz) b else b)"

fun check_blocks :: "nat \<Rightarrow> requests \<Rightarrow> bytes \<Rightarrow> bool" where
  "check_blocks i [] b \<longleftrightarrow> True"
| "check_blocks i ((address, sz) # rqs) b \<longleftrightarrow>
     (address \<noteq> null \<longrightarrow> memcheck b address (word_of_nat i) (unat sz)) \<and> check_blocks (i + 1) rqs b"

fun free_rqs :: "'m mm \<Rightarrow> requests \<Rightarrow> ('m tester, unit) kernel" where
  "free_rqs M [] = ret ()"
| "free_rqs M ((address, sz) # rqs) = sq (if address \<noteq> null then give_block M address else ret ()) (free_rqs M rqs)"

definition test_mm_round :: "'m mm \<Rightarrow> (u32 \<Rightarrow> u32 \<Rightarrow> u32) \<Rightarrow> u64 \<Rightarrow> nat \<Rightarrow> ('m tester, nat + int) kernel" where
  "test_mm_round M scale max_memory count =
     bnd (loop (request_step M scale max_memory) ([], 0)) (\<lambda>(mm_rqs, total_bytes).
     sq (upd (\<lambda>s. s\<lparr>t_bytes := set_blocks 0 mm_rqs (t_bytes s)\<rparr>))
    (bnd (gets t_bytes) (\<lambda>b.
     if \<not> check_blocks 0 mm_rqs b then ret (Inr (- 1))
     else sq (free_rqs M mm_rqs)
         (sq (upd (\<lambda>s. s\<lparr>t_log := t_log s @ [(count + 1, length mm_rqs, total_bytes)]\<rparr>))
             (ret (Inl (count + 1)))))))"

definition test_mm :: "'m mm \<Rightarrow> (u32 \<Rightarrow> u32 \<Rightarrow> u32) \<Rightarrow> char list list \<Rightarrow> ('m tester, int) kernel" where
  "test_mm M scale argv =
     (if length argv \<noteq> 2 then ret (- 1)
      else bnd (of_opt (satoi (Some (argv ! 1)))) (\<lambda>v.
        let max_memory = word_of_int v :: u64 in
        if max_memory = 0 then ret (- 1) else loop (test_mm_round M scale max_memory) 0))"

section \<open>Blocks that do not overlap\<close>

text \<open>The live blocks after the requests, and what holds of the requests: each block is new and apart from
  all that were live before it.\<close>

definition live :: "(addr \<rightharpoonup> nat) \<Rightarrow> requests \<Rightarrow> addr \<rightharpoonup> nat" where
  "live L rqs = foldl (\<lambda>L (a, n). L(a \<mapsto> unat n)) L rqs"

fun blocks_ok :: "(addr \<rightharpoonup> nat) \<Rightarrow> requests \<Rightarrow> bool" where
  "blocks_ok L [] \<longleftrightarrow> True"
| "blocks_ok L ((a, n) # rqs) \<longleftrightarrow>
     a \<noteq> null \<and> a \<notin> dom L \<and> (\<forall>b k. L b = Some k \<longrightarrow> apart a (unat n) b k) \<and> blocks_ok (L(a \<mapsto> unat n)) rqs"

lemma live_simps [simp]: "live L [] = L" "live L ((a, n) # rqs) = live (L(a \<mapsto> unat n)) rqs" "live L (rqs @ [(a, n)]) = (live L rqs)(a \<mapsto> unat n)"
  by (simp_all add: live_def)

lemma blocks_ok_snoc:
  "blocks_ok L (rqs @ [(a, n)]) \<longleftrightarrow> blocks_ok L rqs \<and> a \<noteq> null \<and> a \<notin> dom (live L rqs) \<and> (\<forall>b k. live L rqs b = Some k \<longrightarrow> apart a (unat n) b k)"
proof (induction L rqs rule: blocks_ok.induct)
  case (2 L b k rqs)
  show ?case unfolding append_Cons blocks_ok.simps live_simps "2.IH" by blast
qed simp

lemma set_blocks_keeps:
  assumes "blocks_ok L rqs" and "L b = Some k" and "b \<le> x" and "x < b + k"
  shows "set_blocks i rqs m x = m x"
  using assms
proof (induction i rqs m arbitrary: L rule: set_blocks.induct)
  case (2 i a n rqs m)
  then have ab: "apart a (unat n) b k" "a \<noteq> b" by auto
  from ab(1) "2.prems"(3,4) have "\<not> (a \<le> x \<and> x < a + unat n)" by (auto simp: apart_def)
  moreover have "set_blocks (i + 1) rqs (memset_libc a (int i) (unat n) m) x = memset_libc a (int i) (unat n) m x"
    using "2.IH" [of "L(a \<mapsto> unat n)"] "2.prems" ab(2) by (simp del: One_nat_def fun_upd_apply) (simp add: fun_upd_apply)
  ultimately show ?case using 2 by (auto simp: memset_libc_def memset_spec)
qed simp

lemma memcheck_all: "memcheck b p v n \<longleftrightarrow> (\<forall>x<n. b (p + x) = v)"
proof (induction n arbitrary: p)
  case (Suc n)
  have "(\<forall>x<Suc n. b (p + x) = v) \<longleftrightarrow> b p = v \<and> (\<forall>x<n. b (p + 1 + x) = v)" by (simp add: All_less_Suc2)
  with Suc show ?case by simp
qed simp

lemma check_set_blocks: "blocks_ok L rqs \<Longrightarrow> check_blocks i rqs (set_blocks i rqs m)"
proof (induction i rqs m arbitrary: L rule: set_blocks.induct)
  case (2 i a n rqs m)
  then have ok: "blocks_ok (L(a \<mapsto> unat n)) rqs" and a: "a \<noteq> null" by auto
  let ?m = "memset_libc a (int i) (unat n) m"
  have "set_blocks (i + 1) rqs ?m (a + x) = word_of_nat i" if "x < unat n" for x
    using set_blocks_keeps [OF ok, of a "unat n" "a + x" "i + 1" ?m] that by (simp add: memset_libc_def memset_spec)
  moreover have "check_blocks (i + 1) rqs (set_blocks (i + 1) rqs ?m)" using "2.IH" [OF ok] a by simp
  ultimately show ?case using a by (simp add: memcheck_all)
qed simp

lemma blocks_ok_less: "blocks_ok L' rqs \<Longrightarrow> L \<subseteq>\<^sub>m L' \<Longrightarrow> blocks_ok L rqs"
proof (induction L' rqs arbitrary: L rule: blocks_ok.induct)
  case (2 L' a n rqs)
  have "L(a \<mapsto> unat n) \<subseteq>\<^sub>m L'(a \<mapsto> unat n)" using "2.prems"(2) by (rule map_le_upd)
  moreover have "dom L \<subseteq> dom L'" using "2.prems"(2) by (rule map_le_implies_dom_le)
  moreover have "L' b = Some k" if "L b = Some k" for b k using that "2.prems"(2) by (metis domI map_le_def)
  ultimately show ?case using "2.IH" "2.prems"(1) unfolding blocks_ok.simps by blast
qed simp

lemma live_dom: "a \<in> dom L \<Longrightarrow> a \<in> dom (live L rqs)"
proof (induction rqs arbitrary: L)
  case (Cons x rqs)
  obtain c n where x: "x = (c, n)" by (cases x)
  have "a \<in> dom (L(c \<mapsto> unat n))" using Cons.prems by auto
  then show ?case unfolding x live_simps by (rule Cons.IH)
qed simp

lemma live_free: "blocks_ok (L(a \<mapsto> k)) rqs \<Longrightarrow> a \<notin> dom L \<Longrightarrow> (live (L(a \<mapsto> k)) rqs)(a := None) = live L rqs"
proof (induction rqs arbitrary: L)
  case Nil
  then show ?case by (auto simp: fun_eq_iff domIff)
next
  case (Cons x rqs)
  obtain c n where x: "x = (c, n)" by (cases x)
  from Cons.prems(1) have "c \<notin> dom (L(a \<mapsto> k))" and ok: "blocks_ok ((L(a \<mapsto> k))(c \<mapsto> unat n)) rqs"
    unfolding x blocks_ok.simps by blast+
  then have c: "c \<noteq> a" by auto
  have eq: "(L(a \<mapsto> k))(c \<mapsto> unat n) = (L(c \<mapsto> unat n))(a \<mapsto> k)" using c by (simp add: fun_upd_twist)
  have "a \<notin> dom (L(c \<mapsto> unat n))" using c Cons.prems(2) by auto
  from Cons.IH [OF ok [unfolded eq] this] show ?case unfolding x live_simps eq .
qed

section \<open>A client of the memory manager\<close>

text \<open>What the first loop keeps: the requests are live and apart, and nothing is written.\<close>

definition requested :: "('m \<Rightarrow> (addr \<rightharpoonup> nat) \<Rightarrow> bool) \<Rightarrow> (addr \<rightharpoonup> nat) \<Rightarrow> 'm tester \<Rightarrow> requests \<Rightarrow> 'm tester \<Rightarrow> bool" where
  "requested rep L s rqs t \<longleftrightarrow>
     rep (t_mem t) (live L rqs) \<and> blocks_ok L rqs \<and> length rqs \<le> MAX_BLOCKS \<and> t_bytes t = t_bytes s \<and> t_log t = t_log s"

context memory_manager
begin

lemma request_round:
  assumes r: "requested rep L s rqs t" and "2 ^ 32 \<le> max_request + 1"
  shows "wp (\<lambda>e. e = Diverge) (request_step M scale mx (rqs, n))
    (\<lambda>x t. case x of Inl (rqs, n) \<Rightarrow> requested rep L s rqs t | Inr (rqs, n) \<Rightarrow> requested rep L s rqs t) t"
proof (cases "length rqs < MAX_BLOCKS \<and> unat n < unat mx")
  case True
  obtain u m where u: "GetUint (t_rng t) = (u, m)" by (cases "GetUint (t_rng t)")
  let ?sz = "scale u (ucast (mx - ucast n - 1)) + 1"
  have "unat ?sz < 2 ^ 32" using unsigned_less [of ?sz, where 'a = nat] by simp
  then have "unat ?sz \<le> max_request" using assms(2) by linarith
  from alloc_spec [OF _ this, of "t_mem t" "live L rqs"] r have
    "wp no_stop (mm_alloc_op M (unat ?sz)) (\<lambda>a t'. (a = null \<and> rep t' (live L rqs)) \<or>
       (a \<noteq> null \<and> a \<notin> dom (live L rqs) \<and> (\<forall>b k. live L rqs b = Some k \<longrightarrow> apart a (unat ?sz) b k) \<and> rep t' ((live L rqs)(a \<mapsto> unat ?sz)))) (t_mem t)"
    by (simp add: requested_def)
  then obtain a m' where a: "mm_alloc_op M (unat ?sz) (t_mem t) = Ret (a, m')"
    "(a = null \<and> rep m' (live L rqs)) \<or> (a \<noteq> null \<and> a \<notin> dom (live L rqs) \<and> (\<forall>b k. live L rqs b = Some k \<longrightarrow> apart a (unat ?sz) b k) \<and>
      rep m' ((live L rqs)(a \<mapsto> unat ?sz)))" by (rule wp_no_stopE)
  have "requested rep L s (if a \<noteq> null then rqs @ [(a, ?sz)] else rqs) (t\<lparr>t_rng := m, t_mem := m'\<rparr>)"
    using a(2) r True unfolding requested_def by (auto simp: blocks_ok_snoc)
  then show ?thesis using True
    by (simp add: request_step_def GetUniform_def take_block_def u wp_of_Ret [of "mm_alloc_op M (unat ?sz)", OF a(1)] split: if_splits)
qed (use r in \<open>auto simp: request_step_def\<close>)

lemma request_loop:
  assumes "rep (t_mem s) L" and "2 ^ 32 \<le> max_request + 1"
  shows "wp (\<lambda>e. e = Diverge) (loop (request_step M scale mx) ([], 0)) (\<lambda>(rqs, n) t. requested rep L s rqs t) s"
proof (rule wp_loop_safe [where I = "\<lambda>a t. requested rep L s (fst a) t"])
  show "requested rep L s (fst ([], 0)) s" using assms(1) by (simp add: requested_def)
  show "wp (\<lambda>e. e = Diverge) (request_step M scale mx a)
      (\<lambda>x t. case x of Inl a' \<Rightarrow> requested rep L s (fst a') t | Inr r \<Rightarrow> (case r of (rqs, n) \<Rightarrow> requested rep L s rqs) t) t"
    if "requested rep L s (fst a) t" for a t
    using wp_mono [OF request_round [OF that assms(2), of scale mx "snd a", unfolded prod.collapse]] by (auto split: sum.splits prod.splits)
qed simp

lemma free_rqs_live:
  "blocks_ok L rqs \<Longrightarrow> rep (t_mem s) (live L rqs) \<Longrightarrow>
    wp no_stop (free_rqs M rqs) (\<lambda>_ t. rep (t_mem t) L \<and> t_bytes t = t_bytes s \<and> t_log t = t_log s) s"
proof (induction rqs arbitrary: s L)
  case (Cons x rqs)
  obtain a n where x: "x = (a, n)" by (cases x)
  with Cons.prems have ok: "a \<noteq> null" "a \<notin> dom L" "blocks_ok (L(a \<mapsto> unat n)) rqs" and r: "rep (t_mem s) (live (L(a \<mapsto> unat n)) rqs)" by auto
  have "L \<subseteq>\<^sub>m L(a \<mapsto> unat n)" using ok(2) by (auto simp: map_le_def)
  then have ok': "blocks_ok L rqs" by (rule blocks_ok_less [OF ok(3)])
  have "a \<in> dom (live (L(a \<mapsto> unat n)) rqs)" by (rule live_dom) simp
  from free_spec [OF r this] obtain m where m: "mm_free_op M a (t_mem s) = Ret ((), m)" "rep m (live L rqs)"
    unfolding live_free [OF ok(3,2)] by (rule wp_no_stopE) simp
  from Cons.IH [OF ok', of "s\<lparr>t_mem := m\<rparr>"] m(2) ok(1) show ?case
    by (simp add: x give_block_def wp_of_Ret [of "mm_free_op M a", OF m(1)])
qed simp

lemma test_mm_round_ok:
  assumes "rep (t_mem s) L" and "2 ^ 32 \<le> max_request + 1"
  shows "wp (\<lambda>e. e = Diverge) (test_mm_round M scale mx count)
    (\<lambda>x t. x = Inl (count + 1) \<and> rep (t_mem t) L \<and> (\<forall>b k y. L b = Some k \<longrightarrow> b \<le> y \<longrightarrow> y < b + k \<longrightarrow> t_bytes t y = t_bytes s y)) s"
proof -
  have body: "wp (\<lambda>e. e = Diverge) (sq (upd (\<lambda>s. s\<lparr>t_bytes := set_blocks 0 rqs (t_bytes s)\<rparr>))
      (bnd (gets t_bytes) (\<lambda>b. if \<not> check_blocks 0 rqs b then ret (Inr (- 1 :: int))
        else sq (free_rqs M rqs) (sq (upd (\<lambda>s. s\<lparr>t_log := t_log s @ [(count + 1, length rqs, n)]\<rparr>)) (ret (Inl (count + 1)))))))
    (\<lambda>x t. x = Inl (count + 1) \<and> rep (t_mem t) L \<and> (\<forall>b k y. L b = Some k \<longrightarrow> b \<le> y \<longrightarrow> y < b + k \<longrightarrow> t_bytes t y = t_bytes s y)) t"
    if r: "requested rep L s rqs t" for rqs n t
  proof -
    let ?u = "t\<lparr>t_bytes := set_blocks 0 rqs (t_bytes t)\<rparr>"
    have ok: "blocks_ok L rqs" "rep (t_mem ?u) (live L rqs)" "t_bytes t = t_bytes s" using r by (auto simp: requested_def)
    from free_rqs_live [OF ok(1,2)] obtain v where v: "free_rqs M rqs ?u = Ret ((), v)" "rep (t_mem v) L" "t_bytes v = set_blocks 0 rqs (t_bytes s)"
      by (rule wp_no_stopE) (simp add: ok(3))
    show ?thesis using check_set_blocks [OF ok(1), of 0] set_blocks_keeps [OF ok(1)] v
      by (simp add: ok(3)) (simp add: wp_def)
  qed
  show ?thesis unfolding test_mm_round_def
    by (subst wp_bnd, rule wp_mono [OF request_loop [OF assms]]) (use body in \<open>auto simp del: wp_bnd wp_sq\<close>)
qed

end



section \<open>Properties\<close>

text \<open>
  C15. With every memory manager that keeps the contract of the interface, a round of the memory test finds every byte
  it wrote, gives back every block it took and leaves the bytes of all other live blocks alone, unless
  the requests go on for ever because the memory is exhausted; and the test as a whole never
  reports an error.
\<close>

theorem test_mm_passes:
  assumes "memory_manager M rep mx" and "2 ^ 32 \<le> mx + 1" and "rep (t_mem s) L"
  shows "(case test_mm_round M scale m count s of
       Ret (x, t) \<Rightarrow> x = Inl (count + 1) \<and> rep (t_mem t) L \<and> (\<forall>b k y. L b = Some k \<longrightarrow> b \<le> y \<longrightarrow> y < b + k \<longrightarrow> t_bytes t y = t_bytes s y)
     | Stop e \<Rightarrow> e = Diverge) \<and>
    (0 < v \<longrightarrow> v < 2 ^ 63 \<longrightarrow> test_mm M scale [name, cs (sdec v)] s = Stop Diverge)"
proof
  have round: "wp (\<lambda>e. e = Diverge) (test_mm_round M scale m count)
      (\<lambda>x t. x = Inl (count + 1) \<and> rep (t_mem t) L \<and> (\<forall>b k y. L b = Some k \<longrightarrow> b \<le> y \<longrightarrow> y < b + k \<longrightarrow> t_bytes t y = t_bytes s y)) s"
    if "rep (t_mem s) L" for m count s
    by (rule memory_manager.test_mm_round_ok [OF assms(1) that assms(2)])
  from round [OF assms(3), of m count] show "case test_mm_round M scale m count s of
       Ret (x, t) \<Rightarrow> x = Inl (count + 1) \<and> rep (t_mem t) L \<and> (\<forall>b k y. L b = Some k \<longrightarrow> b \<le> y \<longrightarrow> y < b + k \<longrightarrow> t_bytes t y = t_bytes s y)
     | Stop e \<Rightarrow> e = Diverge" unfolding wp_def .
  show "0 < v \<longrightarrow> v < 2 ^ 63 \<longrightarrow> test_mm M scale [name, cs (sdec v)] s = Stop Diverge"
  proof (intro impI)
    assume v: "0 < v" "v < 2 ^ 63"
    have "uint (word_of_int v :: u64) = v" using v by (simp add: unsigned_of_int take_bit_int_eq_self)
    then have nz: "word_of_int v \<noteq> (0 :: u64)" using v(1) by auto
    have "satoi (Some (cs (sdec v))) = Some v" using satoi_sdec [of v "[]"] v by (simp add: cs_def)
    then have eq: "test_mm M scale [name, cs (sdec v)] s = loop (test_mm_round M scale (word_of_int v)) 0 s"
      using nz by (simp add: test_mm_def of_opt_def run_simps)
    have "wp (\<lambda>e. e = Diverge) (loop (test_mm_round M scale (word_of_int v)) 0) (\<lambda>_ _. False) s"
      by (rule wp_loop_safe [where I = "\<lambda>_ t. rep (t_mem t) L"]) (use assms(3) in \<open>auto intro: wp_mono [OF round]\<close>)
    with eq show "test_mm M scale [name, cs (sdec v)] s = Stop Diverge" by (auto simp: wp_def split: outcome.splits)
  qed
qed

theorem test_mm_passes_witness:
  "test_mm first_fit_mm (\<lambda>u mx. u mod mx) [cs ''test_mm'', cs ''100''] \<lparr>t_mem = ff_ready, t_bytes = (\<lambda>_. 0), t_rng = (362436069, 521288629), t_log = []\<rparr> = Stop Diverge"
proof -
  let ?s = "\<lparr>t_mem = ff_ready, t_bytes = (\<lambda>_. 0), t_rng = (362436069, 521288629), t_log = []\<rparr>"
  have "sdec 100 = ''100''" by code_simp
  with test_mm_passes [OF ff.memory_manager_axioms, where s = ?s and L = Map.empty and v = 100 and name = "cs ''test_mm''"] ff_ready_rep show ?thesis
    by (simp add: UNIT_SIZE_def)
qed






end
