(* ===== verification/Tables.thy ===== *)
theory Tables
  imports Process MVar Stdio_Properties
begin

text \<open>
  The commands that print tables: src/TP2-SO-2025/Userland/Shell/commands/ps.c, which lays out the
  snapshot of the processes that the kernel delivers, and help.c, which lists the commands of the shell.
\<close>

section \<open>The command \<open>ps\<close>\<close>

text \<open>The loop of \<open>count_digits\<close>.\<close>

function digit_loop :: "int \<Rightarrow> int \<Rightarrow> int" where
  "digit_loop count num = (if num > 0 then digit_loop (count + 1) (num div 10) else count)"
  by auto

termination digit_loop
  by (relation "measure (\<lambda>(c, n). nat n)") auto

declare digit_loop.simps [simp del]

text \<open>The least \<open>int\<close> is its own negation.\<close>

definition count_digits :: "int \<Rightarrow> int" where
  "count_digits num =
     (if num = 0 then 1
      else if num < 0 then digit_loop 1 (if num = - (2 ^ 31) then num else - num)
      else digit_loop 0 num)"

fun spaces :: "nat \<Rightarrow> (user_io, unit) kernel" where
  "spaces 0 = ret ()"
| "spaces (Suc n) = sq (printf (cs '' '') []) (spaces n)"

definition print_spaces :: "int \<Rightarrow> (user_io, unit) kernel" where
  "print_spaces count = spaces (nat count)"

definition listed_entry :: "process_info \<Rightarrow> bool" where
  "listed_entry e \<longleftrightarrow> i_pid e \<ge> 0 \<and> i_state e \<noteq> TERMINATED"

text \<open>The first pass: the widths of the three columns.\<close>

definition widen :: "process_info \<Rightarrow> int \<times> int \<times> int \<Rightarrow> int \<times> int \<times> int" where
  "widen e w = (case w of (max_pid_width, max_ppid_width, max_name_width) \<Rightarrow>
     if listed_entry e then
       let pid_width = count_digits (i_pid e); ppid_width = count_digits (i_ppid e); name_len = int (length (i_name e)) in
       (if pid_width > max_pid_width then pid_width else max_pid_width,
        if ppid_width > max_ppid_width then ppid_width else max_ppid_width,
        if name_len > max_name_width then name_len else max_name_width)
     else (max_pid_width, max_ppid_width, max_name_width))"

definition state_str :: "proc_state \<Rightarrow> string" where
  "state_str st = (case st of READY \<Rightarrow> ''READY'' | RUNNING \<Rightarrow> ''RUNNING'' | BLOCKED \<Rightarrow> ''BLOCKED'' | _ \<Rightarrow> ''UNK'')"

definition fg_bg :: "int \<Rightarrow> string" where
  "fg_bg ground = (if ground = 1 then ''FG'' else ''BG'')"

definition print_int :: "int \<Rightarrow> (user_io, unit) kernel" where
  "print_int v = printf (cs ''%d'') [Num (scast (word_of_int v :: s32))]"

definition ps_row :: "int \<times> int \<times> int \<Rightarrow> process_info \<Rightarrow> (user_io, unit) kernel" where
  "ps_row w e = (case w of (max_pid_width, max_ppid_width, max_name_width) \<Rightarrow>
     if listed_entry e then
       sq (print_int (i_pid e))
      (sq (print_spaces (max_pid_width - count_digits (i_pid e) + 2))
      (sq (print_int (i_ppid e))
      (sq (print_spaces (max_ppid_width - count_digits (i_ppid e) + 2))
      (sq (printf (cs ''%s'') [Str (cs (i_name e))])
      (sq (print_spaces (max_name_width - int (length (i_name e)) + 2))
      (sq (printf (cs ''%s'') [Str (cs (state_str (i_state e)))])
      (sq (print_spaces (11 - int (length (state_str (i_state e)))))
      (sq (print_int (i_priority e))
      (sq (print_spaces (10 - count_digits (i_priority e)))
          (printf (cs (''%s'' @ nl)) [Str (cs (fg_bg (i_ground e)))]))))))))))
     else ret ())"

definition ps_header :: "int \<times> int \<times> int \<Rightarrow> (user_io, unit) kernel" where
  "ps_header w = (case w of (max_pid_width, max_ppid_width, max_name_width) \<Rightarrow>
     sq (printf (cs ([CHR 0x1B] @ ''[0;32mPID'')) [])
    (sq (print_spaces (max_pid_width - 1))
    (sq (printf (cs ''PPID'') [])
    (sq (print_spaces (max_ppid_width - 2))
    (sq (printf (cs ''Name'') [])
    (sq (print_spaces (max_name_width - 2))
        (printf (cs (''State      Priority  FG/BG'' @ nl @ [CHR 0x1B] @ ''[0m'')) [])))))))"

fun dashes :: "nat \<Rightarrow> (user_io, unit) kernel" where
  "dashes 0 = ret ()"
| "dashes (Suc n) = sq (printf (cs ''-'') []) (dashes n)"

fun ps_rows :: "int \<times> int \<times> int \<Rightarrow> process_info list \<Rightarrow> (user_io, unit) kernel" where
  "ps_rows w [] = ret ()"
| "ps_rows w (e # es) = sq (ps_row w e) (ps_rows w es)"

text \<open>The command, with the system call \<open>ps\<close> as a parameter: what it returns and leaves in the array, which
  starts as zeros.\<close>

definition zero_info :: process_info where
  "zero_info = \<lparr>i_pid = 0, i_ppid = 0, i_name = '''', i_state = READY, i_rsp = 0, i_stackBase = null, i_priority = 0, i_ground = 0\<rparr>"

definition ps_cmd :: "(process_info list \<Rightarrow> int \<times> process_info list) \<Rightarrow> char list list \<Rightarrow> (user_io, int) kernel" where
  "ps_cmd sys_ps argv =
     (if 1 < length argv then sq (perror (cs (''Usage: ps'' @ nl))) (ret 1)
      else case sys_ps (replicate MAX_PROCESSES zero_info) of (r, process_info) \<Rightarrow>
        if r \<noteq> 0 then sq (perror (cs (''Error: Failed to get process information'' @ nl))) (ret (- 1))
        else case fold widen process_info (3, 4, 4) of (max_pid_width, max_ppid_width, max_name_width) \<Rightarrow>
          let w = (max_pid_width, max_ppid_width, max_name_width) in
          sq (ps_header w)
         (sq (dashes (nat (max_pid_width + max_ppid_width + max_name_width + 35)))
         (sq (printf (cs nl) [])
         (sq (ps_rows w process_info) (ret 0)))))"

section \<open>The command \<open>help\<close>\<close>

definition longest_name :: "command list \<Rightarrow> u8" where
  "longest_name cmds = fold (\<lambda>c max_name_length.
     if unat max_name_length < length (c_name c) then word_of_nat (length (c_name c)) else max_name_length) cmds 0"

text \<open>A store to the array \<open>padding\<close> of a row; an index outside it is a fault.\<close>

definition store_padding :: "char list \<Rightarrow> nat \<Rightarrow> char \<Rightarrow> ('s, char list) kernel" where
  "store_padding padding j c = (if j < length padding then ret (padding[j := c]) else halt Fault)"

fun fill_padding :: "char list \<Rightarrow> nat \<Rightarrow> nat \<Rightarrow> ('s, char list) kernel" where
  "fill_padding padding j 0 = ret padding"
| "fill_padding padding j (Suc k) = bnd (store_padding padding j (CHR '' '')) (\<lambda>padding. fill_padding padding (j + 1) k)"

definition help_row :: "u8 \<Rightarrow> command \<Rightarrow> (user_io, unit) kernel" where
  "help_row max_name_length c =
     (let n = unat max_name_length - length (c_name c) in
      bnd (fill_padding (replicate n NUL) 0 n) (\<lambda>padding.
      bnd (store_padding padding n NUL) (\<lambda>padding.
      printf (cs (''%s%s -'' @ [CHR 0x09] @ ''%s'' @ nl @ nl)) [Str (cs (c_name c)), Str padding, Str (cs (c_description c))])))"

fun help_rows :: "u8 \<Rightarrow> command list \<Rightarrow> (user_io, unit) kernel" where
  "help_rows m [] = ret ()"
| "help_rows m (c # cmds) = sq (help_row m c) (help_rows m cmds)"

definition help_cmd :: "char list list \<Rightarrow> (user_io, int) kernel" where
  "help_cmd argv =
     (if 1 < length argv then sq (perror (cs (''Usage: help'' @ nl))) (ret 1)
      else sq (printf (cs (''Available commands:'' @ nl)) [])
          (sq (help_rows (longest_name commands) commands)
          (sq (printf (cs nl) []) (ret 0))))"

section \<open>Programs that only print\<close>

definition prints :: "(user_io, unit) kernel \<Rightarrow> string \<Rightarrow> bool" where
  "prints m txt \<longleftrightarrow> (\<forall>s. \<exists>cs. m s = Ret ((), s\<lparr>calls := calls s @ cs\<rparr>) \<and> written 1 cs = txt)"

lemma prints_ret: "prints (ret ()) []"
  unfolding prints_def by (intro allI exI [of _ "[]"]) (simp add: run_simps)

lemma prints_sq: "prints m a \<Longrightarrow> prints n b \<Longrightarrow> prints (sq m n) (a @ b)"
  unfolding prints_def
proof (intro allI)
  fix s
  assume m: "\<forall>s. \<exists>cs. m s = Ret ((), s\<lparr>calls := calls s @ cs\<rparr>) \<and> written 1 cs = a"
    and n: "\<forall>s. \<exists>cs. n s = Ret ((), s\<lparr>calls := calls s @ cs\<rparr>) \<and> written 1 cs = b"
  from m obtain cs where 1: "m s = Ret ((), s\<lparr>calls := calls s @ cs\<rparr>)" "written 1 cs = a" by blast
  from n [rule_format, of "s\<lparr>calls := calls s @ cs\<rparr>"] obtain ds where
    2: "n (s\<lparr>calls := calls s @ cs\<rparr>) = Ret ((), s\<lparr>calls := calls s @ cs @ ds\<rparr>)" "written 1 ds = b" by auto
  from 1 2 show "\<exists>cs. sq m n s = Ret ((), s\<lparr>calls := calls s @ cs\<rparr>) \<and> written 1 cs = a @ b"
    by (intro exI [of _ "cs @ ds"]) (simp add: run_simps)
qed

lemma prints_directives:
  "list_all directive_ok ds \<Longrightarrow> prints (printf (cs (concat (map spec ds))) (concat (map arg ds))) (concat (map render ds))"
  unfolding prints_def cs_def using printf_directives [OF _ refl refl] by blast

lemma concat_Lit: "concat (map (spec \<circ> Lit) y) = y" "concat (map (render \<circ> Lit) y) = y" "concat (map (arg \<circ> Lit) y) = []"
  "concat (map (\<lambda>x. []) y) = []"
  by (induction y) auto

lemma prints_literals: "list_all literal y \<Longrightarrow> prints (printf (cs y) []) y"
  using prints_directives [of "map Lit y"] by (simp add: concat_Lit list.pred_map comp_def)

lemma prints_string: "list_all literal x \<Longrightarrow> list_all literal y \<Longrightarrow> prints (printf (cs (''%s'' @ y)) [Str (cs x)]) (x @ y)"
  using prints_directives [of "Plain x # map Lit y"] by (simp add: concat_Lit list.pred_map comp_def cs_def)

lemma prints_int: "- (2 ^ 31) < v \<Longrightarrow> v < 2 ^ 31 \<Longrightarrow> prints (print_int v) (sdec v)"
  using prints_directives [of "[Dec (word_of_int v)]"] sint_of_int [of v] by (simp add: print_int_def)

lemma prints_spaces: "prints (print_spaces n) (replicate (nat n) (CHR '' ''))"
proof -
  have "prints (spaces k) (replicate k (CHR '' ''))" for k
  proof (induction k)
    case (Suc k)
    then show ?case using prints_sq [OF prints_literals [of "'' ''"]] by (simp add: literal_def)
  qed (simp add: prints_ret)
  then show ?thesis by (simp add: print_spaces_def)
qed

lemma prints_dashes: "prints (dashes k) (replicate k (CHR ''-''))"
proof (induction k)
  case (Suc k)
  then show ?case using prints_sq [OF prints_literals [of "''-''"]] by (simp add: literal_def)
qed (simp add: prints_ret)

section \<open>The layout of \<open>ps\<close>\<close>

lemma digit_loop_length: "digit_loop c (int n) = c + int (length (digits n))"
proof (induction n arbitrary: c rule: less_induct)
  case (less n)
  show ?case
  proof (cases "n = 0")
    case False
    then have "digit_loop c (int n) = digit_loop (c + 1) (int (n div 10))" by (subst digit_loop.simps) (simp add: zdiv_int)
    with less [of "n div 10" "c + 1"] False show ?thesis by (subst digits.simps) simp
  qed (simp add: digits.simps digit_loop.simps)
qed

lemma count_digits_length: "- (2 ^ 31) < v \<Longrightarrow> count_digits v = int (length (sdec v))"
  using digit_loop_length [of 0 "nat v"] digit_loop_length [of 1 "nat (- v)"]
  by (auto simp: count_digits_def sdec_def dec_def)

text \<open>A column of width \<open>w\<close>: the text and spaces.\<close>

definition pad :: "int \<Rightarrow> string \<Rightarrow> string" where
  "pad w x = x @ replicate (nat (w - int (length x))) (CHR '' '')"

definition entry_ok :: "process_info \<Rightarrow> bool" where
  "entry_ok e \<longleftrightarrow> i_pid e < 2 ^ 31 \<and> - (2 ^ 31) < i_ppid e \<and> i_ppid e < 2 ^ 31 \<and> - (2 ^ 31) < i_priority e \<and> i_priority e < 2 ^ 31 \<and>
     list_all literal (i_name e)"

text \<open>The line of a process.\<close>

definition line_of :: "int \<times> int \<times> int \<Rightarrow> process_info \<Rightarrow> string" where
  "line_of w e = (case w of (a, b, c) \<Rightarrow>
     pad (a + 2) (sdec (i_pid e)) @ pad (b + 2) (sdec (i_ppid e)) @ pad (c + 2) (i_name e) @
     pad 11 (state_str (i_state e)) @ pad 10 (sdec (i_priority e)) @ fg_bg (i_ground e) @ nl)"

lemma prints_row:
  assumes "listed_entry e" and "entry_ok e"
  shows "prints (ps_row w e) (line_of w e)"
proof (cases w)
  case (fields a b c)
  have r: "- (2 ^ 31) < i_pid e" "i_pid e < 2 ^ 31" "- (2 ^ 31) < i_ppid e" "i_ppid e < 2 ^ 31" "- (2 ^ 31) < i_priority e" "i_priority e < 2 ^ 31"
    "list_all literal (i_name e)" using assms by (auto simp: listed_entry_def entry_ok_def)
  have st: "list_all literal (state_str x)" for x by (cases x) (simp_all add: state_str_def literal_def)
  have fg: "list_all literal (fg_bg x)" for x by (simp add: fg_bg_def literal_def)
  note sp = prints_spaces and str = prints_string [where y = "[]", simplified]
  have "prints (ps_row w e) (sdec (i_pid e) @ replicate (nat (a - count_digits (i_pid e) + 2)) (CHR '' '') @
      sdec (i_ppid e) @ replicate (nat (b - count_digits (i_ppid e) + 2)) (CHR '' '') @
      i_name e @ replicate (nat (c - int (length (i_name e)) + 2)) (CHR '' '') @
      state_str (i_state e) @ replicate (nat (11 - int (length (state_str (i_state e))))) (CHR '' '') @
      sdec (i_priority e) @ replicate (nat (10 - count_digits (i_priority e))) (CHR '' '') @ fg_bg (i_ground e) @ nl)"
    unfolding ps_row_def fields using assms(1)
    by (simp only: prod.case if_True) (intro prints_sq prints_int sp str prints_string r st fg, simp add: literal_def)
  then show ?thesis using count_digits_length r
    by (simp add: fields line_of_def pad_def algebra_simps)
qed

lemma prints_color_pid: "prints (printf (cs ([CHR 0x1B] @ ''[0;32mPID'')) []) ''PID''"
  unfolding prints_def
proof (intro allI)
  fix s :: user_io
  let ?f = "[CHR 0x1B] @ ''[0;32mPID'' @ [NUL]"
  let ?w = "[Write 1 [], TextColor 0xFFFFFF, BackgroundColor 0, TextColor 0x39B54A]"
  have "loop (print_step (print_plain 1) 1 ?f) (0, []) s = loop (print_step (print_plain 1) 1 ?f) (Suc (Suc (Suc (Suc (Suc (Suc (Suc 0)))))), []) (s\<lparr>calls := calls s @ ?w\<rparr>)"
    by (subst loop_unfold) (simp add: print_step_def char_at_def run_simps sys_write_user_def syscall_def parseANSI_def loop_unfold [of "ansi_step _"]
        ansi_step_def setANSIProp_def ansi_color_def schar_def)
  moreover have "loop (print_step (print_plain 1) 1 ?f) (Suc (Suc (Suc (Suc (Suc (Suc (Suc 0)))))), []) t = Ret ((), t\<lparr>calls := calls t @ map (\<lambda>c. Write 1 [c]) ''PID''\<rparr>)" for t
    using print_literals [of "''PID''" "print_plain 1" 1 "[CHR 0x1B] @ ''[0;32m''" "[NUL]" "[]" t]
      print_end [of "print_plain 1" 1 "[CHR 0x1B] @ ''[0;32mPID''" "[]" "[]" "t\<lparr>calls := calls t @ map (\<lambda>c. Write 1 [c]) ''PID''\<rparr>"]
    by (simp add: literal_def)
  ultimately show "\<exists>w. printf (cs ([CHR 0x1B] @ ''[0;32mPID'')) [] s = Ret ((), s\<lparr>calls := calls s @ w\<rparr>) \<and> written 1 w = ''PID''"
    by (intro exI [of _ "?w @ map (\<lambda>c. Write 1 [c]) ''PID''"]) (simp add: printf_def vfprintf_def FD_STDOUT_def cs_def)
qed

lemma prints_reset:
  assumes "list_all literal y"
  shows "prints (printf (cs (y @ [CHR 0x1B] @ ''[0m'')) []) y"
  unfolding prints_def
proof (intro allI)
  fix s :: user_io
  let ?f = "y @ [CHR 0x1B] @ ''[0m'' @ [NUL]"
  let ?t = "s\<lparr>calls := calls s @ map (\<lambda>c. Write 1 [c]) y\<rparr>" and ?w = "[Write 1 [], TextColor 0xFFFFFF, BackgroundColor 0]"
  have "loop (print_step (print_plain 1) 1 ?f) (0, []) s = loop (print_step (print_plain 1) 1 ?f) (length y, []) ?t"
    using print_literals [OF assms, of "print_plain 1" 1 "[]" "[CHR 0x1B] @ ''[0m'' @ [NUL]" "[]" s] by simp
  also have "\<dots> = loop (print_step (print_plain 1) 1 ?f) (Suc (Suc (Suc (Suc (length y)))), []) (?t\<lparr>calls := calls ?t @ ?w\<rparr>)"
    by (subst loop_unfold) (simp add: print_step_def char_at_def run_simps sys_write_user_def syscall_def parseANSI_def loop_unfold [of "ansi_step _"]
        ansi_step_def setANSIProp_def ansi_color_def schar_def nth_append)
  also have "\<dots> = Ret ((), ?t\<lparr>calls := calls ?t @ ?w\<rparr>)"
    using print_end [of "print_plain 1" 1 "y @ [CHR 0x1B] @ ''[0m''" "[]" "[]"] by simp
  finally show "\<exists>w. printf (cs (y @ [CHR 0x1B] @ ''[0m'')) [] s = Ret ((), s\<lparr>calls := calls s @ w\<rparr>) \<and> written 1 w = y"
    by (intro exI [of _ "map (\<lambda>c. Write 1 [c]) y @ ?w"]) (simp add: printf_def vfprintf_def FD_STDOUT_def cs_def)
qed

lemma prints_rows: "list_all entry_ok es \<Longrightarrow> prints (ps_rows w es) (concat (map (line_of w) (filter listed_entry es)))"
proof (induction es)
  case (Cons e es)
  then have es: "prints (ps_rows w es) (concat (map (line_of w) (filter listed_entry es)))" by simp
  show ?case
  proof (cases "listed_entry e")
    case True
    with Cons.prems prints_sq [OF prints_row es] show ?thesis by simp
  next
    case False
    then have "ps_row w e = ret ()" by (simp add: ps_row_def split: prod.split)
    with False prints_sq [OF prints_ret es] show ?thesis by simp
  qed
qed (simp add: prints_ret)

text \<open>The table: a header and lines in columns that are as wide as their widest text, a header included.\<close>

definition table_widths :: "process_info list \<Rightarrow> int \<times> int \<times> int" where
  "table_widths es = (let vs = filter listed_entry es in
     (Max (set (3 # map (\<lambda>e. int (length (sdec (i_pid e)))) vs)), Max (set (4 # map (\<lambda>e. int (length (sdec (i_ppid e)))) vs)),
      Max (set (4 # map (\<lambda>e. int (length (i_name e))) vs))))"

definition ps_table :: "process_info list \<Rightarrow> string" where
  "ps_table es = (case table_widths es of (a, b, c) \<Rightarrow>
     pad (a + 2) ''PID'' @ pad (b + 2) ''PPID'' @ pad (c + 2) ''Name'' @ pad 11 ''State'' @ pad 10 ''Priority'' @ ''FG/BG'' @ nl @
     replicate (nat (a + b + c + 35)) (CHR ''-'') @ nl @ concat (map (line_of (a, b, c)) (filter listed_entry es)))"

lemma Max_Cons2: "Max (set (x # y # xs)) = Max (set (max x y # xs))" for x :: int
  by (cases "set xs = {}") (simp_all add: max.assoc)

lemma fold_widen:
  "list_all entry_ok es \<Longrightarrow> fold widen es (a, b, c) = (let vs = filter listed_entry es in
     (Max (set (a # map (\<lambda>e. int (length (sdec (i_pid e)))) vs)), Max (set (b # map (\<lambda>e. int (length (sdec (i_ppid e)))) vs)),
      Max (set (c # map (\<lambda>e. int (length (i_name e))) vs))))"
proof (induction es arbitrary: a b c)
  case (Cons e es)
  show ?case
  proof (cases "listed_entry e")
    case True
    then have w: "widen e (a, b, c) = (max a (int (length (sdec (i_pid e)))), max b (int (length (sdec (i_ppid e)))), max c (int (length (i_name e))))"
      using Cons.prems by (auto simp: widen_def Let_def count_digits_length listed_entry_def entry_ok_def max_def)
    have "fold widen (e # es) (a, b, c) = fold widen es (widen e (a, b, c))" by simp
    also have "\<dots> = (let vs = filter listed_entry (e # es) in
     (Max (set (a # map (\<lambda>e. int (length (sdec (i_pid e)))) vs)), Max (set (b # map (\<lambda>e. int (length (sdec (i_ppid e)))) vs)),
      Max (set (c # map (\<lambda>e. int (length (i_name e))) vs))))"
      using Cons.IH True Cons.prems unfolding w by (simp only: Let_def filter.simps if_True list.map Max_Cons2) simp
    finally show ?thesis .
  next
    case False
    then have "widen e (a, b, c) = (a, b, c)" by (simp add: widen_def)
    with Cons False show ?thesis by simp
  qed
qed simp

lemma table_widths_ge: "table_widths es = (a, b, c) \<Longrightarrow> 3 \<le> a \<and> 4 \<le> b \<and> 4 \<le> c"
  by (auto simp: table_widths_def Let_def)

lemma prints_header:
  assumes "3 \<le> a" and "4 \<le> b" and "4 \<le> c"
  shows "prints (ps_header (a, b, c)) (pad (a + 2) ''PID'' @ pad (b + 2) ''PPID'' @ pad (c + 2) ''Name'' @ pad 11 ''State'' @ pad 10 ''Priority'' @ ''FG/BG'' @ nl)"
proof -
  have lit: "list_all literal ''PPID''" "list_all literal ''Name''" "list_all literal (''State      Priority  FG/BG'' @ nl)" by (simp_all add: literal_def)
  have "prints (ps_header (a, b, c)) (''PID'' @ replicate (nat (a - 1)) (CHR '' '') @ ''PPID'' @ replicate (nat (b - 2)) (CHR '' '') @
      ''Name'' @ replicate (nat (c - 2)) (CHR '' '') @ ''State      Priority  FG/BG'' @ nl)"
    unfolding ps_header_def prod.case
    by (intro prints_sq prints_color_pid prints_spaces prints_literals lit prints_reset [OF lit(3), unfolded append_assoc])
  moreover have "pad (a + 2) ''PID'' = ''PID'' @ replicate (nat (a - 1)) (CHR '' '')" "pad (b + 2) ''PPID'' = ''PPID'' @ replicate (nat (b - 2)) (CHR '' '')"
    "pad (c + 2) ''Name'' = ''Name'' @ replicate (nat (c - 2)) (CHR '' '')" by (simp_all add: pad_def)
  moreover have "pad 11 ''State'' @ pad 10 ''Priority'' @ ''FG/BG'' @ nl = ''State      Priority  FG/BG'' @ nl" by (simp add: pad_def eval_nat_numeral)
  ultimately show ?thesis by (simp only: append_assoc)
qed

section \<open>Properties\<close>

text \<open>
  C21. \<open>ps\<close> prints the table of the snapshot: one line for each process that is not terminated, in the order of
  the pids, in columns as wide as their widest text, under a header with the same columns.
\<close>

theorem ps_prints_table:
  assumes "sys_ps (replicate MAX_PROCESSES zero_info) = (0, es)" and "list_all entry_ok es"
  shows "\<exists>t w. ps_cmd sys_ps [name] s = Ret (0, t) \<and> calls t = calls s @ w \<and> written 1 w = ps_table es"
proof -
  obtain a b c where w: "table_widths es = (a, b, c)" by (cases "table_widths es")
  then have fw: "fold widen es (3, 4, 4) = (a, b, c)" using fold_widen [OF assms(2)] by (simp only: table_widths_def)
  let ?m = "sq (ps_header (a, b, c)) (sq (dashes (nat (a + b + c + 35))) (sq (printf (cs nl) []) (ps_rows (a, b, c) es)))"
  have "prints (printf (cs nl) []) nl" by (rule prints_literals) (simp add: literal_def)
  with prints_header [of a b c] table_widths_ge [OF w] have "prints ?m (ps_table es)"
    unfolding ps_table_def w prod.case
    using prints_sq [OF _ prints_sq [OF prints_dashes prints_sq [OF _ prints_rows [OF assms(2)]]]] by fastforce
  then obtain cs where m: "?m s = Ret ((), s\<lparr>calls := calls s @ cs\<rparr>)" "written 1 cs = ps_table es" unfolding prints_def by blast
  have "ps_cmd sys_ps [name] s = sq ?m (ret 0) s"
    using assms(1) fw by (simp add: ps_cmd_def run_simps Let_def split: outcome.splits)
  with m show ?thesis by (simp add: run_simps)
qed

theorem ps_prints_table_witness:
  "\<exists>t. ps_cmd (\<lambda>es. (0, [zero_info\<lparr>i_pid := 12, i_ppid := 1, i_name := ''loop'', i_state := BLOCKED, i_priority := 2, i_ground := 1\<rparr>, zero_info\<lparr>i_pid := - 1\<rparr>]))
      [cs ''ps''] \<lparr>answers = [], calls = []\<rparr> = Ret (0, t) \<and>
    written 1 (calls t) = ''PID  PPID  Name  State      Priority  FG/BG'' @ nl @ ''----------------------------------------------'' @ nl @
      ''12   1     loop  BLOCKED    2         FG'' @ nl"
proof -
  let ?e = "zero_info\<lparr>i_pid := 12, i_ppid := 1, i_name := ''loop'', i_state := BLOCKED, i_priority := 2, i_ground := 1\<rparr>" and ?z = "zero_info\<lparr>i_pid := - 1\<rparr>"
  have "list_all entry_ok [?e, ?z]" by (simp add: entry_ok_def zero_info_def literal_def)
  moreover have "ps_table [?e, ?z] = ''PID  PPID  Name  State      Priority  FG/BG'' @ nl @ ''----------------------------------------------'' @ nl @
      ''12   1     loop  BLOCKED    2         FG'' @ nl" by code_simp
  ultimately show ?thesis
    using ps_prints_table [of "\<lambda>es. (0, [?e, ?z])" "[?e, ?z]" "cs ''ps''" "\<lparr>answers = [], calls = []\<rparr>"] by auto
qed

lemma fill_padding_run: "j + k \<le> length p \<Longrightarrow> \<exists>q. fill_padding p j k s = Ret (q, s) \<and> length q = length p"
proof (induction k arbitrary: p j)
  case (Suc k)
  from Suc.IH [of "j + 1" "p[j := CHR '' '']"] Suc.prems show ?case by (simp add: run_simps store_padding_def)
qed (simp add: run_simps)

text \<open>
  The array of a row of \<open>help\<close> has as many bytes as there are spaces, and the terminator is stored after them: every
  call of the command without arguments writes past the end of an array in its first row.
\<close>

theorem help_overruns: "help_cmd [name] s = Stop Fault"
proof -
  have "prints (printf (cs (''Available commands:'' @ nl)) []) (''Available commands:'' @ nl)" by (rule prints_literals) (simp add: literal_def)
  then obtain w where w: "printf (cs (''Available commands:'' @ nl)) [] s = Ret ((), s\<lparr>calls := calls s @ w\<rparr>)" unfolding prints_def by blast
  have row: "help_row m c t = Stop Fault" for m c t
  proof -
    let ?n = "unat m - length (c_name c)"
    from fill_padding_run [of 0 ?n "replicate ?n NUL" t] obtain q where "fill_padding (replicate ?n NUL) 0 ?n t = Ret (q, t)" "length q = ?n" by auto
    then show ?thesis by (simp add: help_row_def Let_def run_simps store_padding_def)
  qed
  obtain c cmds where "commands = c # cmds" by (simp add: commands_def)
  moreover have "help_rows m (c # cmds) t = Stop Fault" for m t unfolding help_rows.simps by (simp add: run_simps row)
  ultimately have "help_rows m commands t = Stop Fault" for m t by metis
  with w show ?thesis by (simp add: help_cmd_def run_simps)
qed

end
